(* ===== verification/Prelude.thy ===== *)
theory Prelude
  imports Main "HOL-Library.Word"
begin

text \<open>
  Shared vocabulary of the development: the machine types of the C++ code, the outcome of an
  operation that may fail (\<open>fault\<close> and \<open>res\<close>), memory cells, C strings, little-endian
  words, and the generic lemmas on lists, words and modular positions that the component
  theories use.  The code is compiled for x86-64 Linux: \<open>int\<close> has 32 bits,
  \<open>size_t\<close> 64 bits, and memory is little-endian.
\<close>

unbundle bit_operations_syntax

named_theorems res_simps \<open>unfolding of the outcome type\<close>
named_theorems wire_simps \<open>sizes and layouts of the wire structures\<close>
named_theorems step_defs \<open>definitions of the operations of a step relation\<close>

section \<open>Outcomes\<close>

text \<open>
  What ends an operation abnormally.  \<open>Exn\<close> is a C++ exception; \<open>Aborted\<close> a call of
  \<open>abort()\<close>; \<open>NotReturned\<close> a call that has not come back (the thread waits for itself);
  the others are the undefined behaviour the code runs into when its implicit assumptions fail.
\<close>

datatype fault =
    OutOfBounds
  | SignedOverflow
  | NullDeref
  | EmptyContainer
  | BadIterator
  | Uninitialised
  | OverlappingCopy
  | NotReturned
  | Aborted
  | Exn string

type_synonym 'a res = "fault + 'a"

definition bind_res :: "'a res \<Rightarrow> ('a \<Rightarrow> 'b res) \<Rightarrow> 'b res" where
  "bind_res m f = (case m of Inl e \<Rightarrow> Inl e | Inr x \<Rightarrow> f x)"

lemma bind_res_simps [simp, res_simps]:
  "bind_res (Inl e) f = Inl e"
  "bind_res (Inr x) f = f x"
  by (simp_all add: bind_res_def)

lemma bind_res_eq_Inr:
  "bind_res m f = Inr y \<longleftrightarrow> (\<exists>x. m = Inr x \<and> f x = Inr y)"
  by (cases m) simp_all

lemma bind_res_eq_Inl:
  "bind_res m f = Inl e \<longleftrightarrow> m = Inl e \<or> (\<exists>x. m = Inr x \<and> f x = Inl e)"
  by (cases m) simp_all

section \<open>Machine integers\<close>

type_synonym u8 = "8 word"
type_synonym u16 = "16 word"
type_synonym u32 = "32 word"

text \<open>A value a 32-bit signed \<open>int\<close> can hold; an arithmetic result outside is undefined.\<close>

definition int_ok :: "int \<Rightarrow> bool" where
  "int_ok i \<longleftrightarrow> - (2 ^ 31) \<le> i \<and> i < 2 ^ 31"

definition chk :: "int \<Rightarrow> int res" where
  "chk i = (if int_ok i then Inr i else Inl SignedOverflow)"

lemma chk_simps [res_simps]:
  "int_ok i \<Longrightarrow> chk i = Inr i"
  "\<not> int_ok i \<Longrightarrow> chk i = Inl SignedOverflow"
  by (simp_all add: chk_def)

text \<open>Conversions: to \<open>size_t\<close>, to \<open>u_int32_t\<close>, and the wrapping conversion to \<open>int\<close>.\<close>

definition u64 :: "int \<Rightarrow> int" where
  "u64 i = i mod 2 ^ 64"

definition wrap32 :: "int \<Rightarrow> int" where
  "wrap32 i = (i + 2 ^ 31) mod 2 ^ 32 - 2 ^ 31"

lemma unat_u8: "n < 256 \<Longrightarrow> unat (word_of_nat n :: u8) = n"
  by (simp add: unat_of_nat)

lemma unat_u32: "n < 2 ^ 32 \<Longrightarrow> unat (word_of_nat n :: u32) = n"
  by (simp add: unat_of_nat)

lemma u64_id: "0 \<le> i \<Longrightarrow> i < 2 ^ 64 \<Longrightarrow> u64 i = i"
  by (simp add: u64_def)

lemma wrap32_id: "int_ok i \<Longrightarrow> wrap32 i = i"
  by (simp add: wrap32_def int_ok_def)

lemma wrap32_ok: "int_ok (wrap32 i)"
  unfolding wrap32_def int_ok_def
  using pos_mod_bound [of "2 ^ 32" "i + 2 ^ 31"] pos_mod_sign [of "2 ^ 32" "i + 2 ^ 31"]
  by simp

section \<open>Memory cells and C strings\<close>

text \<open>A byte of memory; \<open>None\<close> is a byte that was never written (indeterminate).\<close>

type_synonym cell = "u8 option"

definition cells :: "u8 list \<Rightarrow> cell list" where
  "cells bs = map Some bs"

lemma length_cells [simp]: "length (cells bs) = length bs"
  by (simp add: cells_def)

lemma cells_append [simp]: "cells (xs @ ys) = cells xs @ cells ys"
  by (simp add: cells_def)

lemma cells_Cons [simp]: "cells (x # xs) = Some x # cells xs"
  and cells_Nil [simp]: "cells [] = []"
  by (simp_all add: cells_def)

text \<open>
  \<open>strcpy\<close> into a character array of \<open>n\<close> bytes: the characters, the terminating zero,
  and the old contents after it.  A source that does not fit is undefined behaviour.
  A C string value is a byte list without a zero byte.
\<close>

definition strcpy_into :: "cell list \<Rightarrow> u8 list \<Rightarrow> cell list res" where
  "strcpy_into old s =
     (if length s < length old then Inr (cells s @ [Some 0] @ drop (Suc (length s)) old)
      else Inl OutOfBounds)"

text \<open>
  Reading a C string (\<open>std::string(p)\<close>): the bytes up to the first zero.  Meeting an
  indeterminate byte or the end of the array first is undefined behaviour.
\<close>

fun c_str :: "cell list \<Rightarrow> u8 list res" where
  "c_str [] = Inl OutOfBounds"
| "c_str (None # _) = Inl Uninitialised"
| "c_str (Some b # cs) = (if b = 0 then Inr [] else bind_res (c_str cs) (\<lambda>s. Inr (b # s)))"

definition c_string :: "u8 list \<Rightarrow> bool" where
  "c_string s \<longleftrightarrow> 0 \<notin> set s"

lemma c_str_append: "c_string s \<Longrightarrow> c_str (cells s @ Some 0 # rest) = Inr s"
  by (induction s) (auto simp: c_string_def)

lemma strcpy_into_ok:
  "length s < length old \<Longrightarrow>
   strcpy_into old s = Inr (cells s @ Some 0 # drop (Suc (length s)) old)"
  by (simp add: strcpy_into_def)

lemma length_strcpy_into: "strcpy_into old s = Inr new \<Longrightarrow> length new = length old"
  by (auto simp: strcpy_into_def split: if_splits)

lemma c_str_strcpy:
  "strcpy_into old s = Inr new \<Longrightarrow> c_string s \<Longrightarrow> c_str new = Inr s"
  by (auto simp: strcpy_into_def c_str_append split: if_splits)

section \<open>Little-endian words\<close>

definition le32 :: "u32 \<Rightarrow> u8 list" where
  "le32 w = [ucast w, ucast (drop_bit 8 w), ucast (drop_bit 16 w), ucast (drop_bit 24 w)]"

fun of_le32 :: "u8 list \<Rightarrow> u32" where
  "of_le32 [a, b, c, d] =
     ucast a OR push_bit 8 (ucast b) OR push_bit 16 (ucast c) OR push_bit 24 (ucast d)"
| "of_le32 _ = 0"

lemma length_le32 [simp]: "length (le32 w) = 4"
  by (simp add: le32_def)

lemma of_le32_le32 [simp]: "of_le32 (le32 w) = w"
proof (rule bit_word_eqI)
  fix n assume "n < LENGTH(32)"
  then consider "n < 8" | "8 \<le> n" "n < 16" | "16 \<le> n" "n < 24" | "24 \<le> n" "n < 32"
    by fastforce
  then show "bit (of_le32 (le32 w)) n \<longleftrightarrow> bit w n"
    by cases (auto simp: le32_def bit_or_iff bit_push_bit_iff bit_ucast_iff bit_drop_bit_eq)
qed

text \<open>\<open>htonl\<close> and \<open>ntohl\<close> on a little-endian machine reverse the four bytes.\<close>

definition htonl :: "u32 \<Rightarrow> u32" where
  "htonl w = of_le32 (rev (le32 w))"

definition ntohl :: "u32 \<Rightarrow> u32" where
  "ntohl w = htonl w"

lemma le32_of_le32_4: "le32 (of_le32 [a, b, c, d]) = [a, b, c, d]"
proof -
  have "ucast (of_le32 [a, b, c, d]) = a"
    by (intro bit_word_eqI) (auto simp: bit_or_iff bit_push_bit_iff bit_ucast_iff)
  moreover have "ucast (drop_bit 8 (of_le32 [a, b, c, d])) = b"
    by (intro bit_word_eqI)
       (auto simp: bit_or_iff bit_push_bit_iff bit_ucast_iff bit_drop_bit_eq dest: bit_imp_le_length)
  moreover have "ucast (drop_bit 16 (of_le32 [a, b, c, d])) = c"
    by (intro bit_word_eqI)
       (auto simp: bit_or_iff bit_push_bit_iff bit_ucast_iff bit_drop_bit_eq dest: bit_imp_le_length)
  moreover have "ucast (drop_bit 24 (of_le32 [a, b, c, d])) = d"
    by (intro bit_word_eqI)
       (auto simp: bit_or_iff bit_push_bit_iff bit_ucast_iff bit_drop_bit_eq dest: bit_imp_le_length)
  ultimately show ?thesis by (simp add: le32_def)
qed

lemma le32_of_le32: "length bs = 4 \<Longrightarrow> le32 (of_le32 bs) = bs"
  by (auto simp: numeral_eq_Suc length_Suc_conv le32_of_le32_4 simp del: of_le32.simps)

lemma le32_htonl: "le32 (htonl w) = rev (le32 w)"
  by (simp add: htonl_def le32_of_le32 del: of_le32.simps)

lemma ntohl_htonl [simp]: "ntohl (htonl w) = w"
  unfolding ntohl_def by (subst htonl_def, subst le32_htonl) simp

text \<open>Cells read as a \<open>u_int32_t\<close>: every byte must be written.\<close>

definition read_u32 :: "cell list \<Rightarrow> u32 res" where
  "read_u32 cs =
     (if length cs < 4 then Inl OutOfBounds
      else if None \<in> set (take 4 cs) then Inl Uninitialised
      else Inr (of_le32 (map the (take 4 cs))))"

lemma read_u32_le32 [simp]: "read_u32 (cells (le32 w) @ rest) = Inr w"
  by (simp add: read_u32_def cells_def comp_def)

section \<open>Lists and positions modulo a size\<close>

lemma map_nth_upt_drop:
  "n \<le> m \<Longrightarrow> map f [n..<m] = drop n (map f [0..<m])"
  by (simp add: drop_map)

lemma take_map_upt: "n \<le> m \<Longrightarrow> take n (map f [0..<m]) = map f [0..<n]"
  by (simp add: take_map)

lemma mod_add_neq:
  fixes a b m r :: int
  assumes "0 \<le> a" "a < b" "b < a + m"
  shows "(r + a) mod m \<noteq> (r + b) mod m"
proof
  assume "(r + a) mod m = (r + b) mod m"
  then have "m dvd (r + b) - (r + a)" by (simp add: mod_eq_dvd_iff dvd_minus_iff)
                                        (metis add_diff_cancel_left mod_eq_dvd_iff)
  then have "m dvd b - a" by simp
  moreover have "0 < b - a" "b - a < m" using assms by auto
  ultimately show False using zdvd_imp_le by fastforce
qed

lemma mod_add_inj:
  fixes a b m r :: int
  assumes "0 \<le> a" "a < m" "0 \<le> b" "b < m" "(r + a) mod m = (r + b) mod m"
  shows "a = b"
  using mod_add_neq [of a b m r] mod_add_neq [of b a m r] assms
  by (metis add.commute add_strict_increasing2 linorder_neqE_linordered_idom
      less_add_same_cancel1 order_less_le_trans not_le)

end
