(* ===== verification/RingBuffer.thy ===== *)
theory RingBuffer
  imports Prelude "HOL-Library.Sublist"
begin

text \<open>
  \<open>lib/Buffer.h\<close> and \<open>lib/Buffer.cpp\<close>: the growable ring buffer that holds the bytes
  waiting to be written to a socket.  The record has the class's fields; \<open>buf_data\<close> is the
  malloc'ed block, whose bytes are indeterminate until written.  Indices and sizes are \<open>int\<close>
  as in the code; additions that can leave the 32-bit range are checked with \<open>chk\<close>, the
  sums of an index and an offset stay below twice \<open>data_size\<close> and cannot.
  \<open>content\<close> is the abstraction: the list of unread bytes, oldest first.
\<close>

section \<open>The class\<close>

record buffer =
  capacity :: int
  data_size :: int
  max_capacity :: int
  buf_data :: "cell list"
  read_index :: int
  write_index :: int

definition DOUBLE_BORDER_LINE :: int where
  "DOUBLE_BORDER_LINE = 1024"

definition new_buffer :: "int \<Rightarrow> int \<Rightarrow> buffer res" where
  "new_buffer cap max_cap =
     bind_res (chk (cap + 1)) (\<lambda>ds.
       Inr \<lparr>capacity = cap, data_size = ds,
            max_capacity = (if max_cap > cap then max_cap else cap),
            buf_data = replicate (nat ds) None, read_index = 0, write_index = 0\<rparr>)"

definition getunused :: "buffer \<Rightarrow> int" where
  "getunused b =
     (if write_index b \<ge> read_index b then write_index b - read_index b
      else (data_size b - read_index b) + write_index b)"

definition GetFreeSize :: "buffer \<Rightarrow> int" where
  "GetFreeSize b = capacity b - getunused b"

text \<open>A byte of the block, with the access outside it as undefined behaviour.\<close>

definition get_cell :: "cell list \<Rightarrow> int \<Rightarrow> cell res" where
  "get_cell d i = (if 0 \<le> i \<and> i < int (length d) then Inr (d ! nat i) else Inl OutOfBounds)"

definition put_cell :: "cell list \<Rightarrow> int \<Rightarrow> cell \<Rightarrow> cell list res" where
  "put_cell d i x =
     (if 0 \<le> i \<and> i < int (length d) then Inr (d[nat i := x]) else Inl OutOfBounds)"

text \<open>The copying loops; \<open>i\<close> is the loop counter, \<open>n\<close> the number of rounds left.\<close>

fun copy_out :: "cell list \<Rightarrow> int \<Rightarrow> int \<Rightarrow> int \<Rightarrow> nat \<Rightarrow> cell list res" where
  "copy_out d ds r i 0 = Inr []"
| "copy_out d ds r i (Suc n) =
     bind_res (get_cell d ((r + i) mod ds)) (\<lambda>c.
       bind_res (copy_out d ds r (i + 1) n) (\<lambda>cs. Inr (c # cs)))"

fun copy_in :: "cell list \<Rightarrow> int \<Rightarrow> int \<Rightarrow> int \<Rightarrow> cell list \<Rightarrow> int \<Rightarrow> (cell list \<times> int) res"
where
  "copy_in d ds w i [] cur = Inr (d, cur)"
| "copy_in d ds w i (x # xs) cur =
     bind_res (put_cell d ((w + i) mod ds) x) (\<lambda>d'.
       copy_in d' ds w (i + 1) xs ((w + i) mod ds))"

definition resize :: "buffer \<Rightarrow> int \<Rightarrow> buffer res" where
  "resize b cap =
     (let unread_size = getunused b
      in if unread_size > cap then Inr b
         else if cap = capacity b then Inr b
         else bind_res (chk (cap + 1)) (\<lambda>ds.
           bind_res (copy_out (buf_data b) (data_size b) (read_index b) 0 (nat unread_size))
             (\<lambda>tmp. Inr (b\<lparr>buf_data := tmp @ replicate (nat ds - length tmp) None,
                          data_size := ds, capacity := cap,
                          read_index := 0, write_index := unread_size\<rparr>))))"

text \<open>
  The loop that grows a capacity by a quarter until it is enough.  It need not end when
  it starts below four (a quarter of it is then zero), so it is a partial function.
\<close>

partial_function (option) grow :: "int \<Rightarrow> int \<Rightarrow> int \<Rightarrow> int res option" where
  "grow min_cap_need max_cap newcap =
     (if newcap < min_cap_need then
        (if \<not> int_ok (newcap + newcap div 4) then Some (Inl SignedOverflow)
         else if newcap + newcap div 4 > max_cap then Some (Inr max_cap)
         else grow min_cap_need max_cap (newcap + newcap div 4))
      else Some (Inr newcap))"

declare grow.simps [code]

definition new_capacity :: "buffer \<Rightarrow> int \<Rightarrow> int res" where
  "new_capacity b min_cap_need =
     bind_res (chk (capacity b * 2)) (\<lambda>doublecap.
       if min_cap_need > doublecap then Inr min_cap_need
       else if capacity b < DOUBLE_BORDER_LINE then
         Inr (if doublecap \<le> max_capacity b then doublecap else max_capacity b)
       else (case grow min_cap_need (max_capacity b) (capacity b) of
               None \<Rightarrow> Inl NotReturned
             | Some r \<Rightarrow> r))"

definition MustInsert :: "buffer \<Rightarrow> int \<Rightarrow> buffer res" where
  "MustInsert b insert_len =
     (if GetFreeSize b \<ge> insert_len then Inr b
      else bind_res (chk (capacity b + insert_len)) (\<lambda>min_cap_need.
        if min_cap_need > max_capacity b then Inl (Exn ''out of capacity'')
        else bind_res (new_capacity b min_cap_need) (resize b)))"

text \<open>\<open>read\<close>: the new buffer, the returned \<open>size_t\<close>, the bytes stored through the pointer.\<close>

definition buf_read :: "buffer \<Rightarrow> int \<Rightarrow> (buffer \<times> int \<times> cell list) res" where
  "buf_read b expect_len =
     (if expect_len \<le> 0 then Inr (b, 0, [])
      else if expect_len > getunused b then Inr (b, u64 (-1), [])
      else bind_res (copy_out (buf_data b) (data_size b) (read_index b) 0 (nat expect_len))
        (\<lambda>out. let cur_index = (read_index b + (expect_len - 1)) mod data_size b
               in Inr (b\<lparr>read_index := (cur_index + 1) mod data_size b\<rparr>, expect_len, out)))"

text \<open>
  \<open>WriteToBuffer\<close>: the exception thrown by \<open>MustInsert\<close> is caught and answered with 0;
  \<open>src\<close> is the memory behind the pointer.
\<close>

definition WriteToBuffer :: "buffer \<Rightarrow> cell list \<Rightarrow> int \<Rightarrow> (buffer \<times> int) res" where
  "WriteToBuffer b src expect_len =
     (if expect_len \<le> 0 then Inr (b, 0)
      else case MustInsert b expect_len of
        Inl (Exn e) \<Rightarrow> Inr (b, 0)
      | Inl f \<Rightarrow> Inl f
      | Inr b' \<Rightarrow>
          (if int (length src) < expect_len then Inl OutOfBounds
           else bind_res (copy_in (buf_data b') (data_size b') (write_index b') 0
                            (take (nat expect_len) src) (write_index b'))
             (\<lambda>(d, cur_index). Inr (b'\<lparr>buf_data := d,
                write_index := (cur_index + 1) mod data_size b'\<rparr>, expect_len))))"

text \<open>
  \<open>WriteToSocket\<close>.  The kernel is the parameter \<open>wr\<close>: the \<open>k\<close>-th call of \<open>write\<close>
  with a given length answers with its return value and \<open>errno\<close>.  The return value is stored in
  a \<open>size_t\<close>, so an error (\<open>-1\<close>) becomes \<open>2^64 - 1\<close>.  The loop has fuel; \<open>None\<close>
  means that it is still running.  The last component collects the bytes the kernel took.
\<close>

type_synonym sys_write = "nat \<Rightarrow> int \<Rightarrow> int \<times> int"

definition EINTR :: int where "EINTR = 4"
definition EAGAIN :: int where "EAGAIN = 11"

definition send_len :: "buffer \<Rightarrow> int" where
  "send_len b =
     (if read_index b > write_index b then data_size b - read_index b
      else write_index b - read_index b)"

fun write_loop :: "nat \<Rightarrow> sys_write \<Rightarrow> nat \<Rightarrow> buffer \<Rightarrow> int \<Rightarrow> cell list
    \<Rightarrow> (buffer \<times> int \<times> cell list) option" where
  "write_loop 0 wr k b tot sent = None"
| "write_loop (Suc fuel) wr k b tot sent =
     (if getunused b > 0 then
        (let cur_send_len = send_len b;
             ret = fst (wr k cur_send_len);
             err = snd (wr k cur_send_len);
             writeNum = u64 ret
         in if writeNum = 0 then
              (if err = EINTR then write_loop fuel wr (Suc k) b tot sent
               else Some (b, tot, sent))
            else write_loop fuel wr (Suc k)
                   (b\<lparr>read_index := u64 (read_index b + writeNum) mod data_size b\<rparr>)
                   (wrap32 (tot + writeNum))
                   (sent @ take (nat ret) (drop (nat (read_index b)) (buf_data b))))
      else Some (b, tot, sent))"

definition WriteToSocket :: "nat \<Rightarrow> sys_write \<Rightarrow> buffer \<Rightarrow> (buffer \<times> int \<times> cell list) option" where
  "WriteToSocket fuel wr b =
     map_option (\<lambda>(b', tot, sent). (b', u64 tot, sent)) (write_loop fuel wr 0 b 0 [])"


section \<open>Abstraction and invariant\<close>

definition slot :: "buffer \<Rightarrow> int \<Rightarrow> nat" where
  "slot b i = nat ((read_index b + i) mod data_size b)"

definition content :: "buffer \<Rightarrow> cell list" where
  "content b = map (\<lambda>i. buf_data b ! slot b (int i)) [0..<nat (getunused b)]"

definition buf_inv :: "buffer \<Rightarrow> bool" where
  "buf_inv b \<longleftrightarrow>
     0 \<le> capacity b \<and> data_size b = capacity b + 1 \<and>
     capacity b \<le> max_capacity b \<and> max_capacity b < 2 ^ 29 \<and>
     int (length (buf_data b)) = data_size b \<and>
     0 \<le> read_index b \<and> read_index b < data_size b \<and>
     0 \<le> write_index b \<and> write_index b < data_size b"

lemma getunused_bounds:
  "buf_inv b \<Longrightarrow> 0 \<le> getunused b \<and> getunused b \<le> capacity b"
  by (auto simp: buf_inv_def getunused_def)

lemma write_index_mod:
  assumes "buf_inv b"
  shows "write_index b = (read_index b + getunused b) mod data_size b"
proof (cases "write_index b \<ge> read_index b")
  case True
  with assms show ?thesis by (simp add: buf_inv_def getunused_def)
next
  case False
  have "(data_size b + write_index b) mod data_size b = write_index b"
    using assms by (simp add: buf_inv_def)
  with False show ?thesis by (simp add: getunused_def algebra_simps)
qed

lemma getunused_mod:
  assumes "buf_inv b"
  shows "getunused b = (write_index b - read_index b) mod data_size b"
proof (cases "write_index b \<ge> read_index b")
  case True
  with assms show ?thesis by (simp add: buf_inv_def getunused_def)
next
  case False
  have "(write_index b - read_index b) mod data_size b
      = (write_index b - read_index b + data_size b) mod data_size b" by simp
  also have "\<dots> = write_index b - read_index b + data_size b"
    using assms False by (intro mod_pos_pos_trivial) (auto simp: buf_inv_def)
  finally show ?thesis using False by (simp add: getunused_def)
qed

lemma buf_inv_read:
  assumes "buf_inv b"
  shows "buf_inv (b\<lparr>read_index := x mod data_size b\<rparr>)"
  using assms pos_mod_bound [of "data_size b" x] pos_mod_sign [of "data_size b" x]
  by (simp add: buf_inv_def)

lemma buf_inv_write:
  assumes "buf_inv b" "length d = length (buf_data b)"
  shows "buf_inv (b\<lparr>buf_data := d, write_index := x mod data_size b\<rparr>)"
  using assms pos_mod_bound [of "data_size b" x] pos_mod_sign [of "data_size b" x]
  by (simp add: buf_inv_def)

lemma length_content: "length (content b) = nat (getunused b)"
  by (simp add: content_def)

lemma content_nth: "i < length (content b) \<Longrightarrow> content b ! i = buf_data b ! slot b (int i)"
  by (simp add: content_def)

lemma free_content:
  "buf_inv b \<Longrightarrow> GetFreeSize b = capacity b - int (length (content b))"
  using getunused_bounds [of b] by (simp add: GetFreeSize_def length_content)

lemma new_buffer_ok:
  assumes "0 \<le> cap" "cap < 2 ^ 29" "max_cap < 2 ^ 29"
  shows "\<exists>b. new_buffer cap max_cap = Inr b \<and> buf_inv b \<and> content b = [] \<and>
             capacity b = cap \<and> max_capacity b = max cap max_cap"
  using assms
  by (auto simp: new_buffer_def chk_def int_ok_def buf_inv_def content_def getunused_def)

section \<open>The copying loops\<close>

lemma copy_out_eq:
  assumes "int (length d) = ds" "0 < ds"
  shows "copy_out d ds r i n = Inr (map (\<lambda>j. d ! nat ((r + i + int j) mod ds)) [0..<n])"
proof (induction n arbitrary: i)
  case 0
  show ?case by simp
next
  case (Suc n)
  have "[0..<Suc n] = 0 # map Suc [0..<n]"
    by (metis map_Suc_upt upt_conv_Cons zero_less_Suc)
  then show ?case
    using assms Suc.IH [of "i + 1"]
    by (simp add: get_cell_def comp_def add.assoc)
qed

lemma copy_in_eq:
  assumes "int (length d) = ds" "0 < ds"
  shows "\<exists>d'. copy_in d ds w i xs cur =
              Inr (d', if xs = [] then cur else (w + i + int (length xs) - 1) mod ds) \<and>
           length d' = length d \<and>
           (\<forall>p. (\<forall>k < length xs. p \<noteq> nat ((w + i + int k) mod ds)) \<longrightarrow> d' ! p = d ! p) \<and>
           (int (length xs) \<le> ds \<longrightarrow>
             (\<forall>k < length xs. d' ! nat ((w + i + int k) mod ds) = xs ! k))"
  using assms(1)
proof (induction xs arbitrary: d i cur)
  case Nil
  then show ?case by simp
next
  case (Cons x xs)
  let ?p = "(w + i) mod ds"
  let ?d = "d[nat ?p := x]"
  have p: "0 \<le> ?p" "?p < int (length d)" using assms(2) Cons.prems by auto
  have "int (length ?d) = ds" using Cons.prems by simp
  from Cons.IH [OF this, of "i + 1" ?p] obtain d' where
    eq: "copy_in ?d ds w (i + 1) xs ?p =
           Inr (d', if xs = [] then ?p else (w + (i + 1) + int (length xs) - 1) mod ds)"
    and len: "length d' = length ?d"
    and keep: "\<And>p. (\<forall>k < length xs. p \<noteq> nat ((w + (i + 1) + int k) mod ds)) \<Longrightarrow> d' ! p = ?d ! p"
    and wrote: "int (length xs) \<le> ds \<Longrightarrow>
           \<forall>k < length xs. d' ! nat ((w + (i + 1) + int k) mod ds) = xs ! k"
    by blast
  have last: "(if xs = [] then ?p else (w + (i + 1) + int (length xs) - 1) mod ds)
      = (w + i + int (length (x # xs)) - 1) mod ds"
    by simp
  have "copy_in d ds w i (x # xs) cur = Inr (d', (w + i + int (length (x # xs)) - 1) mod ds)"
    using p eq last by (simp add: put_cell_def)
  moreover have "d' ! p = d ! p"
    if "\<forall>k < length (x # xs). p \<noteq> nat ((w + i + int k) mod ds)" for p
  proof -
    have "p \<noteq> nat ?p" using that [rule_format, of 0] by simp
    moreover have "\<forall>k < length xs. p \<noteq> nat ((w + (i + 1) + int k) mod ds)"
      using that by (auto simp: algebra_simps dest: spec [of _ "Suc _"])
    ultimately show ?thesis using keep [of p] by simp
  qed
  moreover have "d' ! nat ((w + i + int k) mod ds) = (x # xs) ! k"
    if "int (length (x # xs)) \<le> ds" "k < length (x # xs)" for k
  proof (cases k)
    case 0
    have "nat ?p \<noteq> nat ((w + (i + 1) + int j) mod ds)" if "j < length xs" for j
      using mod_add_neq [of 0 "1 + int j" ds "w + i"] that \<open>int (length (x # xs)) \<le> ds\<close> assms(2)
      by (simp add: algebra_simps eq_nat_nat_iff)
    then have "d' ! nat ?p = ?d ! nat ?p" using keep by blast
    with 0 p show ?thesis by simp
  next
    case (Suc j)
    with that wrote have "d' ! nat ((w + (i + 1) + int j) mod ds) = xs ! j" by simp
    with Suc show ?thesis by (simp add: algebra_simps)
  qed
  ultimately show ?case using len by auto
qed

lemma content_copy_out:
  assumes "buf_inv b" "int n \<le> getunused b"
  shows "copy_out (buf_data b) (data_size b) (read_index b) 0 n = Inr (take n (content b))"
  using assms by (simp add: copy_out_eq buf_inv_def content_def slot_def take_map_upt)


section \<open>Growing\<close>

lemma resize_ok:
  assumes "buf_inv b" "getunused b \<le> cap" "0 \<le> cap" "cap \<le> max_capacity b"
  shows "\<exists>b'. resize b cap = Inr b' \<and> buf_inv b' \<and> content b' = content b \<and>
              capacity b' = cap \<and> max_capacity b' = max_capacity b"
proof (cases "cap = capacity b")
  case True
  with assms show ?thesis by (auto simp: resize_def Let_def)
next
  case False
  let ?n = "nat (getunused b)"
  have u: "0 \<le> getunused b" using assms(1) getunused_bounds by blast
  have max: "max_capacity b < 2 ^ 29" using assms(1) by (simp add: buf_inv_def)
  have ok: "chk (cap + 1) = Inr (cap + 1)"
    using assms(3,4) max by (simp add: chk_def int_ok_def)
  have copy: "copy_out (buf_data b) (data_size b) (read_index b) 0 ?n = Inr (content b)"
    using content_copy_out [of b ?n] assms(1) u by (simp add: length_content)
  let ?b = "b\<lparr>buf_data := content b @ replicate (nat (cap + 1) - ?n) None,
              data_size := cap + 1, capacity := cap,
              read_index := 0, write_index := getunused b\<rparr>"
  have "resize b cap = Inr ?b"
    using False assms(2) ok copy by (simp add: resize_def Let_def length_content)
  moreover have "buf_inv ?b"
    using assms u max by (auto simp: buf_inv_def length_content)
  moreover have "content ?b = content b"
    using assms(2) u
    by (intro nth_equalityI)
       (auto simp: content_def getunused_def slot_def nth_append)
  ultimately show ?thesis by auto
qed

lemma grow_terminates:
  assumes "4 \<le> newcap" "newcap < need \<longrightarrow> newcap \<le> max_cap" "need \<le> max_cap" "max_cap < 2 ^ 29"
  shows "\<exists>c. grow need max_cap newcap = Some (Inr c) \<and> (newcap < need \<longrightarrow> need \<le> c \<and> c \<le> max_cap)
              \<and> (\<not> newcap < need \<longrightarrow> c = newcap)"
  using assms
proof (induction "nat (need - newcap)" arbitrary: newcap rule: less_induct)
  case less
  show ?case
  proof (cases "newcap < need")
    case False
    then show ?thesis by (simp add: grow.simps [of need max_cap newcap])
  next
    case True
    let ?c = "newcap + newcap div 4"
    have up: "newcap < ?c" using less.prems(1) by simp
    have "newcap div 4 \<le> newcap" "0 \<le> newcap div 4" using less.prems(1) by auto
    then have ok: "int_ok ?c" using less.prems True by (simp add: int_ok_def)
    show ?thesis
    proof (cases "?c > max_cap")
      case True
      with \<open>newcap < need\<close> ok less.prems show ?thesis
        by (simp add: grow.simps [of need max_cap newcap])
    next
      case False
      have eq: "grow need max_cap newcap = grow need max_cap ?c"
        using True False ok by (simp add: grow.simps [of need max_cap newcap])
      have "\<exists>c. grow need max_cap ?c = Some (Inr c) \<and> (?c < need \<longrightarrow> need \<le> c \<and> c \<le> max_cap)
              \<and> (\<not> ?c < need \<longrightarrow> c = ?c)"
        using up True False less.prems by (intro less.hyps) auto
      with eq True False show ?thesis by fastforce
    qed
  qed
qed

lemma new_capacity_ok:
  assumes "buf_inv b" "capacity b < need" "need \<le> max_capacity b"
  shows "\<exists>c. new_capacity b need = Inr c \<and> need \<le> c \<and> c \<le> max_capacity b"
proof -
  have bounds: "0 \<le> capacity b" "max_capacity b < 2 ^ 29" "capacity b \<le> max_capacity b"
    using assms(1) by (auto simp: buf_inv_def)
  then have dbl: "chk (capacity b * 2) = Inr (capacity b * 2)"
    by (simp add: chk_def int_ok_def)
  show ?thesis
  proof (cases "need > capacity b * 2 \<or> capacity b < DOUBLE_BORDER_LINE")
    case True
    with dbl assms(2,3) show ?thesis by (auto simp: new_capacity_def)
  next
    case False
    then have "4 \<le> capacity b" by (simp add: DOUBLE_BORDER_LINE_def)
    with grow_terminates [of "capacity b" need "max_capacity b"] assms bounds
    obtain c where "grow need (max_capacity b) (capacity b) = Some (Inr c)"
      "need \<le> c" "c \<le> max_capacity b" by auto
    with False dbl show ?thesis by (simp add: new_capacity_def)
  qed
qed

lemma MustInsert_ok:
  assumes "buf_inv b" "0 \<le> n" "n \<le> GetFreeSize b \<or> capacity b + n \<le> max_capacity b"
  shows "\<exists>b'. MustInsert b n = Inr b' \<and> buf_inv b' \<and> content b' = content b \<and>
              n \<le> GetFreeSize b' \<and> max_capacity b' = max_capacity b"
proof (cases "n \<le> GetFreeSize b")
  case True
  with assms show ?thesis by (simp add: MustInsert_def)
next
  case False
  let ?need = "capacity b + n"
  have need: "?need \<le> max_capacity b" using assms(3) False by simp
  have inv: "0 \<le> capacity b" "max_capacity b < 2 ^ 29" using assms(1) by (auto simp: buf_inv_def)
  then have ok: "chk ?need = Inr ?need"
    using need assms(2) by (simp add: chk_def int_ok_def)
  have u: "0 \<le> getunused b" "getunused b \<le> capacity b" using assms(1) getunused_bounds by auto
  then have pos: "capacity b < ?need" using False by (simp add: GetFreeSize_def)
  from new_capacity_ok [OF assms(1) pos need] obtain c where
    c: "new_capacity b ?need = Inr c" "?need \<le> c" "c \<le> max_capacity b" by auto
  with resize_ok [OF assms(1), of c] u inv assms(2) obtain b' where
    b': "resize b c = Inr b'" "buf_inv b'" "content b' = content b" "capacity b' = c"
    "max_capacity b' = max_capacity b" by auto
  have "getunused b' = getunused b"
    using b'(2,3) u length_content [of b] length_content [of b'] getunused_bounds [of b']
    by (metis eq_nat_nat_iff)
  then have "n \<le> GetFreeSize b'" using b'(4) c(2) u by (simp add: GetFreeSize_def)
  moreover have "MustInsert b n = Inr b'"
    using False ok need c b' by (simp add: MustInsert_def)
  ultimately show ?thesis using b' by blast
qed

lemma MustInsert_throws:
  assumes "buf_inv b" "int_ok (capacity b + n)" "GetFreeSize b < n" "max_capacity b < capacity b + n"
  shows "MustInsert b n = Inl (Exn ''out of capacity'')"
  using assms by (simp add: MustInsert_def chk_def)

section \<open>Writing and reading\<close>

lemma content_after_write:
  assumes inv: "buf_inv b" and room: "int (length xs) \<le> GetFreeSize b" and "xs \<noteq> []"
  obtains d cur where
    "copy_in (buf_data b) (data_size b) (write_index b) 0 xs (write_index b) = Inr (d, cur)"
    "buf_inv (b\<lparr>buf_data := d, write_index := (cur + 1) mod data_size b\<rparr>)"
    "content (b\<lparr>buf_data := d, write_index := (cur + 1) mod data_size b\<rparr>) = content b @ xs"
proof -
  let ?ds = "data_size b" and ?r = "read_index b" and ?w = "write_index b"
  let ?u = "getunused b" and ?n = "int (length xs)"
  have ds: "0 < ?ds" "int (length (buf_data b)) = ?ds" using inv by (auto simp: buf_inv_def)
  have u: "0 \<le> ?u" using inv getunused_bounds by blast
  have fits: "?u + ?n < ?ds" using room inv by (simp add: GetFreeSize_def buf_inv_def)
  have w: "?w = (?r + ?u) mod ?ds" using write_index_mod [OF inv] .
  have pos: "(?w + i) mod ?ds = (?r + (?u + i)) mod ?ds" for i
    unfolding w by (simp add: mod_add_left_eq add.assoc)
  obtain d where
    d: "copy_in (buf_data b) ?ds ?w 0 xs ?w = Inr (d, (?w + ?n - 1) mod ?ds)"
      "length d = length (buf_data b)"
      "\<And>p. (\<forall>k < length xs. p \<noteq> nat ((?w + int k) mod ?ds)) \<Longrightarrow> d ! p = buf_data b ! p"
      "\<And>k. k < length xs \<Longrightarrow> d ! nat ((?w + int k) mod ?ds) = xs ! k"
    using copy_in_eq [OF ds(2,1), of ?w 0 xs ?w] \<open>xs \<noteq> []\<close> fits u by auto
  let ?cur = "(?w + ?n - 1) mod ?ds"
  let ?b = "b\<lparr>buf_data := d, write_index := (?cur + 1) mod ?ds\<rparr>"
  have w': "write_index ?b = (?r + (?u + ?n)) mod ?ds"
    using pos [of ?n] by (simp add: mod_add_left_eq)
  have inv': "buf_inv ?b" using buf_inv_write [OF inv d(2)] .
  have "getunused ?b = (write_index ?b - ?r) mod ?ds"
    using getunused_mod [OF inv'] by simp
  also have "\<dots> = ?u + ?n"
    unfolding w' using u fits by (simp add: mod_diff_left_eq)
  finally have u': "getunused ?b = ?u + ?n" .
  have "content ?b = content b @ xs"
  proof (rule nth_equalityI)
    show "length (content ?b) = length (content b @ xs)"
      using u u' by (simp add: length_content)
  next
    fix i assume i': "i < length (content ?b)"
    then have i: "int i < ?u + ?n" using u' u by (simp add: length_content)
    have ci: "content ?b ! i = d ! nat ((?r + int i) mod ?ds)"
      using content_nth [OF i'] by (simp add: slot_def)
    show "content ?b ! i = (content b @ xs) ! i"
    proof (cases "int i < ?u")
      case True
      have "nat ((?r + int i) mod ?ds) \<noteq> nat ((?w + int k) mod ?ds)" if "k < length xs" for k
        using mod_add_neq [of "int i" "?u + int k" ?ds ?r] True that fits ds(1) pos [of "int k"]
        by (simp add: eq_nat_nat_iff)
      then have "d ! nat ((?r + int i) mod ?ds) = buf_data b ! nat ((?r + int i) mod ?ds)"
        using d(3) by blast
      moreover have "i < length (content b)" using True by (simp add: length_content)
      ultimately show ?thesis using ci content_nth [of i b] by (simp add: nth_append slot_def)
    next
      case False
      define k where "k = i - nat ?u"
      have k: "int i = ?u + int k" "k < length xs" using False i u by (auto simp: k_def)
      have "content ?b ! i = xs ! k" using ci k d(4) [OF k(2)] pos [of "int k"] by simp
      moreover have "\<not> i < length (content b)"
        using False by (simp add: length_content zless_nat_eq_int_zless)
      then have "(content b @ xs) ! i = xs ! k" by (simp add: nth_append length_content k_def)
      ultimately show ?thesis by simp
    qed
  qed
  with d(1) inv' show thesis using that by blast
qed

lemma WriteToBuffer_ok:
  assumes "buf_inv b" "0 < n" "n \<le> int (length src)"
    "n \<le> GetFreeSize b \<or> capacity b + n \<le> max_capacity b"
  shows "\<exists>b'. WriteToBuffer b src n = Inr (b', n) \<and> buf_inv b' \<and>
              content b' = content b @ take (nat n) src \<and> max_capacity b' = max_capacity b"
proof -
  obtain c where c: "MustInsert b n = Inr c" "buf_inv c" "content c = content b"
      "n \<le> GetFreeSize c" "max_capacity c = max_capacity b"
    using MustInsert_ok [OF assms(1) _ assms(4)] assms(2) by auto
  let ?xs = "take (nat n) src"
  have "int (length ?xs) \<le> GetFreeSize c" "?xs \<noteq> []" using assms(2,3) c(4) by auto
  from content_after_write [OF c(2) this] c(3) obtain d cur where
    "copy_in (buf_data c) (data_size c) (write_index c) 0 ?xs (write_index c) = Inr (d, cur)"
    "buf_inv (c\<lparr>buf_data := d, write_index := (cur + 1) mod data_size c\<rparr>)"
    "content (c\<lparr>buf_data := d, write_index := (cur + 1) mod data_size c\<rparr>) = content b @ ?xs"
    by metis
  with assms(2,3) c show ?thesis by (simp add: WriteToBuffer_def)
qed

lemma WriteToBuffer_in_place:
  assumes "buf_inv b" "0 < n" "n \<le> GetFreeSize b" "n \<le> int (length src)"
  shows "\<exists>b'. WriteToBuffer b src n = Inr (b', n) \<and> buf_inv b' \<and>
              content b' = content b @ take (nat n) src \<and> capacity b' = capacity b"
proof -
  obtain b' where b': "WriteToBuffer b src n = Inr (b', n)" "buf_inv b'"
      "content b' = content b @ take (nat n) src"
    using WriteToBuffer_ok [OF assms(1,2,4)] assms(3) by auto
  moreover have "capacity b' = capacity b"
    using b'(1) assms(2-4)
    by (auto simp: WriteToBuffer_def MustInsert_def bind_res_def split: sum.splits)
  ultimately show ?thesis by blast
qed

lemma WriteToBuffer_rejects:
  assumes "buf_inv b" "int_ok (capacity b + n)" "GetFreeSize b < n" "max_capacity b < capacity b + n"
  shows "WriteToBuffer b src n = Inr (b, 0)"
proof -
  have "0 \<le> GetFreeSize b"
    using getunused_bounds [OF assms(1)] by (simp add: GetFreeSize_def)
  with MustInsert_throws [OF assms] assms(3) show ?thesis by (simp add: WriteToBuffer_def)
qed

lemma advance_read:
  assumes inv: "buf_inv b" and n: "0 \<le> n" "n \<le> getunused b"
  shows "buf_inv (b\<lparr>read_index := (read_index b + n) mod data_size b\<rparr>)"
    and "getunused (b\<lparr>read_index := (read_index b + n) mod data_size b\<rparr>) = getunused b - n"
    and "content (b\<lparr>read_index := (read_index b + n) mod data_size b\<rparr>) = drop (nat n) (content b)"
proof -
  let ?ds = "data_size b" and ?r = "read_index b" and ?u = "getunused b"
  let ?b = "b\<lparr>read_index := (read_index b + n) mod data_size b\<rparr>"
  show inv': "buf_inv ?b" using buf_inv_read [OF inv] .
  have "(?r + ?u) mod ?ds = ((?r + n) mod ?ds + getunused ?b) mod ?ds"
    using write_index_mod [OF inv] write_index_mod [OF inv'] by simp
  then have "(?r + n + (?u - n)) mod ?ds = (?r + n + getunused ?b) mod ?ds"
    by (simp add: mod_add_left_eq)
  then show u': "getunused ?b = ?u - n"
    using getunused_bounds [OF inv] getunused_bounds [OF inv'] n inv
      mod_add_inj [of "?u - n" ?ds "getunused ?b" "?r + n"]
    by (simp add: buf_inv_def)
  show "content ?b = drop (nat n) (content b)"
  proof (rule nth_equalityI)
    show "length (content ?b) = length (drop (nat n) (content b))"
      using u' n by (simp add: length_content nat_diff_distrib)
  next
    fix i assume i: "i < length (content ?b)"
    have "((?r + n) mod ?ds + int i) mod ?ds = (?r + int (nat n + i)) mod ?ds"
      using n by (simp add: mod_add_left_eq add.assoc)
    moreover have "nat n + i < nat ?u" using i u' n by (simp add: length_content)
    ultimately show "content ?b ! i = drop (nat n) (content b) ! i"
      using i n by (simp add: content_def slot_def length_content)
  qed
qed

lemma buf_read_ok:
  assumes "buf_inv b" "0 < n" "n \<le> getunused b"
  shows "\<exists>b'. buf_read b n = Inr (b', n, take (nat n) (content b)) \<and> buf_inv b' \<and>
              content b' = drop (nat n) (content b)"
proof -
  let ?b = "b\<lparr>read_index := (read_index b + n) mod data_size b\<rparr>"
  have "((read_index b + (n - 1)) mod data_size b + 1) mod data_size b
      = (read_index b + n) mod data_size b"
    by (simp add: mod_add_left_eq)
  then have "buf_read b n = Inr (?b, n, take (nat n) (content b))"
    using assms content_copy_out [of b "nat n"] by (simp add: buf_read_def Let_def)
  with advance_read [OF assms(1), of n] assms(2,3) show ?thesis by auto
qed


section \<open>Writing to the socket\<close>

lemma send_len_bounds:
  assumes "buf_inv b" "0 < getunused b"
  shows "0 < send_len b \<and> send_len b \<le> getunused b \<and>
         read_index b + send_len b \<le> data_size b"
  using assms by (auto simp: send_len_def getunused_def buf_inv_def)

lemma segment_content:
  assumes inv: "buf_inv b" and m: "0 \<le> m" "m \<le> send_len b" "0 < getunused b"
  shows "take (nat m) (drop (nat (read_index b)) (buf_data b)) = take (nat m) (content b)"
proof (rule nth_equalityI)
  have bounds: "0 \<le> read_index b" "send_len b \<le> getunused b"
      "read_index b + send_len b \<le> int (length (buf_data b))"
    using send_len_bounds [OF inv m(3)] inv by (auto simp: buf_inv_def)
  then show len: "length (take (nat m) (drop (nat (read_index b)) (buf_data b)))
      = length (take (nat m) (content b))"
    using m by (simp add: length_content)
  fix i assume "i < length (take (nat m) (drop (nat (read_index b)) (buf_data b)))"
  then have i: "i < nat m" "i < length (content b)" using len by auto
  then have lt: "int i < m" by linarith
  then have "(read_index b + int i) mod data_size b = read_index b + int i"
    using bounds m inv by (intro mod_pos_pos_trivial) (auto simp: buf_inv_def)
  then have "slot b (int i) = nat (read_index b) + i"
    using bounds(1) by (simp add: slot_def nat_add_distrib)
  then show "take (nat m) (drop (nat (read_index b)) (buf_data b)) ! i = take (nat m) (content b) ! i"
    using i lt bounds m by (simp add: content_nth)
qed

text \<open>
  What the kernel promises of \<open>write\<close> when it does not fail: between 0 and the requested
  number of bytes are taken.  \<open>accepting\<close> kernels take at least one.
\<close>

definition never_fails :: "sys_write \<Rightarrow> bool" where
  "never_fails wr \<longleftrightarrow> (\<forall>k len. 0 < len \<longrightarrow> 0 \<le> fst (wr k len) \<and> fst (wr k len) \<le> len)"

definition accepting :: "sys_write \<Rightarrow> bool" where
  "accepting wr \<longleftrightarrow> (\<forall>k len. 0 < len \<longrightarrow> 1 \<le> fst (wr k len) \<and> fst (wr k len) \<le> len)"

lemma accepting_never_fails: "accepting wr \<Longrightarrow> never_fails wr"
  unfolding accepting_def never_fails_def by (meson order_trans zero_le_one)

text \<open>One round of the loop with a write that takes \<open>n\<close> bytes.\<close>

lemma write_loop_step:
  assumes inv: "buf_inv b" and u: "0 < getunused b"
    and n: "n = fst (wr k (send_len b))" "0 < n" "n \<le> send_len b"
  shows "\<exists>b'. write_loop (Suc fuel) wr k b tot sent =
              write_loop fuel wr (Suc k) b' (wrap32 (tot + n)) (sent @ take (nat n) (content b)) \<and>
           buf_inv b' \<and> getunused b' = getunused b - n \<and> content b' = drop (nat n) (content b)"
proof -
  let ?b = "b\<lparr>read_index := (read_index b + n) mod data_size b\<rparr>"
  have ok: "u64 n = n" "u64 (read_index b + n) = read_index b + n"
    using n send_len_bounds [OF inv u] inv by (auto simp: buf_inv_def intro!: u64_id)
  have "n \<le> getunused b" using n(3) send_len_bounds [OF inv u] by simp
  then have "buf_inv ?b" "getunused ?b = getunused b - n" "content ?b = drop (nat n) (content b)"
    using advance_read [OF inv, of n] n(2) by auto
  moreover have "write_loop (Suc fuel) wr k b tot sent =
      write_loop fuel wr (Suc k) ?b (wrap32 (tot + n)) (sent @ take (nat n) (content b))"
    using u n ok segment_content [OF inv _ _ u, of n] by (simp add: Let_def)
  ultimately show ?thesis by blast
qed

lemma write_loop_conserves:
  assumes "never_fails wr" "buf_inv b" "write_loop fuel wr k b tot sent = Some (b', t, sent')"
  shows "buf_inv b' \<and> sent' @ content b' = sent @ content b"
  using assms(2,3)
proof (induction fuel arbitrary: k b tot sent)
  case 0
  then show ?case by simp
next
  case (Suc fuel)
  define n where "n = fst (wr k (send_len b))"
  show ?case
  proof (cases "0 < getunused b")
    case False
    with Suc.prems show ?thesis by auto
  next
    case True
    then have n: "0 \<le> n" "n \<le> send_len b"
      using assms(1) send_len_bounds [OF Suc.prems(1) True]
      by (auto simp: never_fails_def n_def)
    show ?thesis
    proof (cases "n = 0")
      case True
      with \<open>0 < getunused b\<close> Suc.prems Suc.IH [of b] show ?thesis
        by (auto simp: n_def u64_def Let_def split: if_splits)
    next
      case False
      with n obtain c where
        c: "write_loop (Suc fuel) wr k b tot sent =
              write_loop fuel wr (Suc k) c (wrap32 (tot + n)) (sent @ take (nat n) (content b))"
          "buf_inv c" "content c = drop (nat n) (content b)"
        using write_loop_step [where wr = wr and k = k, OF Suc.prems(1) True n_def]
        by (metis order_le_less)
      then have "buf_inv b' \<and> sent' @ content b' = (sent @ take (nat n) (content b)) @ content c"
        using Suc.prems Suc.IH [of c] by simp
      with c(3) show ?thesis by simp
    qed
  qed
qed

lemma write_loop_drains:
  assumes "accepting wr" "buf_inv b" "nat (getunused b) < fuel"
    "0 \<le> tot" "int_ok (tot + getunused b)"
  shows "\<exists>b'. write_loop fuel wr k b tot sent
                = Some (b', tot + getunused b, sent @ content b) \<and>
              buf_inv b' \<and> content b' = []"
  using assms(2-)
proof (induction fuel arbitrary: k b tot sent)
  case 0
  then show ?case by simp
next
  case (Suc fuel)
  show ?case
  proof (cases "0 < getunused b")
    case False
    then have "content b = []" "getunused b = 0"
      using getunused_bounds [OF Suc.prems(1)] by (auto simp: content_def)
    with Suc.prems show ?thesis by auto
  next
    case True
    define n where "n = fst (wr k (send_len b))"
    have n: "0 < n" "n \<le> send_len b" "n \<le> getunused b"
      using assms(1) send_len_bounds [OF Suc.prems(1) True]
      by (auto simp: accepting_def n_def dest!: spec [of _ k] spec [of _ "send_len b"])
    obtain c where
      c: "write_loop (Suc fuel) wr k b tot sent =
            write_loop fuel wr (Suc k) c (wrap32 (tot + n)) (sent @ take (nat n) (content b))"
        "buf_inv c" "getunused c = getunused b - n" "content c = drop (nat n) (content b)"
      using write_loop_step [where wr = wr and k = k, OF Suc.prems(1) True n_def n(1,2)] by metis
    have t: "wrap32 (tot + n) = tot + n"
      using Suc.prems(3,4) n by (intro wrap32_id) (auto simp: int_ok_def)
    have "nat (getunused c) < fuel" using c(3) n(1) Suc.prems(2) True by linarith
    with Suc.IH [OF c(2), of "tot + n" "Suc k" "sent @ take (nat n) (content b)"] c t n Suc.prems
    show ?thesis by auto
  qed
qed

text \<open>
  A failing write (\<open>-1\<close> is stored in a \<open>size_t\<close>): the guard for 0 does not see it and
  the read index moves back by one byte, or from 0 to a place that depends on the size.
\<close>

lemma write_error_step:
  assumes "buf_inv b" "0 < getunused b" "fst (wr k (send_len b)) = - 1"
  shows "write_loop (Suc fuel) wr k b tot sent =
    write_loop fuel wr (Suc k)
      (b\<lparr>read_index := (if read_index b = 0 then (2 ^ 64 - 1) mod data_size b
                        else read_index b - 1)\<rparr>)
      (wrap32 (tot + (2 ^ 64 - 1))) sent"
proof -
  have n: "u64 (- 1) = 2 ^ 64 - 1" by (simp add: u64_def)
  have "u64 (read_index b + (2 ^ 64 - 1)) mod data_size b =
      (if read_index b = 0 then (2 ^ 64 - 1) mod data_size b else read_index b - 1)"
  proof (cases "read_index b = 0")
    case True
    then show ?thesis by (simp add: u64_def)
  next
    case False
    then have r: "0 < read_index b" "read_index b < data_size b" "data_size b \<le> 2 ^ 29"
      using assms(1) by (auto simp: buf_inv_def)
    have "read_index b + (2 ^ 64 - 1) = (read_index b - 1) + 2 ^ 64" by simp
    then have "u64 (read_index b + (2 ^ 64 - 1)) = (read_index b - 1) mod 2 ^ 64"
      unfolding u64_def by (metis mod_add_self2)
    also have "\<dots> = read_index b - 1" using r by (intro mod_pos_pos_trivial) auto
    finally show ?thesis using r False by simp
  qed
  then show ?thesis using assms(2,3) n by (simp add: Let_def)
qed

lemma write_error_livelock:
  assumes "\<forall>k len. wr k len = (- 1, EAGAIN)"
    "buf_inv b" "data_size b = 1025" "15 < write_index b" "read_index b < write_index b"
  shows "write_loop fuel wr k b tot sent = None"
  using assms(2-)
proof (induction fuel arbitrary: k b tot)
  case 0
  show ?case by simp
next
  case (Suc fuel)
  have u: "0 < getunused b" using Suc.prems by (simp add: getunused_def)
  let ?r = "if read_index b = 0 then 15 else read_index b - 1"
  have "write_loop (Suc fuel) wr k b tot sent =
      write_loop fuel wr (Suc k) (b\<lparr>read_index := ?r\<rparr>) (wrap32 (tot + (2 ^ 64 - 1))) sent"
    using write_error_step [OF Suc.prems(1) u, of wr k fuel tot sent] assms(1) Suc.prems(2) by simp
  moreover have "write_loop fuel wr (Suc k) (b\<lparr>read_index := ?r\<rparr>)
      (wrap32 (tot + (2 ^ 64 - 1))) sent = None"
    using Suc.prems by (intro Suc.IH) (auto simp: buf_inv_def)
  ultimately show ?case by simp
qed

section \<open>The interface the connections use\<close>

text \<open>
  What \<open>CtlConnect\<close> and \<open>ProxyConnect\<close> rely on: a queue of bytes that takes a block
  whole or not at all, and gives the bytes back in order.
\<close>

locale byte_fifo =
  fixes put :: "'q \<Rightarrow> cell list \<Rightarrow> int \<Rightarrow> ('q \<times> int) res"
    and pending :: "'q \<Rightarrow> cell list"
    and ok :: "'q \<Rightarrow> bool"
  assumes put_all_or_nothing:
    "ok q \<Longrightarrow> 0 < n \<Longrightarrow> n \<le> int (length src) \<Longrightarrow> n < 2 ^ 30 \<Longrightarrow>
     \<exists>q'. ok q' \<and> (put q src n = Inr (q', n) \<and> pending q' = pending q @ take (nat n) src \<or>
                    put q src n = Inr (q', 0) \<and> pending q' = pending q)"

fun put_frames :: "('q \<Rightarrow> cell list \<Rightarrow> int \<Rightarrow> ('q \<times> int) res) \<Rightarrow> 'q \<Rightarrow> cell list list
    \<Rightarrow> ('q \<times> cell list list) res" where
  "put_frames put q [] = Inr (q, [])"
| "put_frames put q (f # fs) =
     bind_res (put q f (int (length f))) (\<lambda>(q', k).
       bind_res (put_frames put q' fs) (\<lambda>(q'', taken).
         Inr (q'', if k = int (length f) then f # taken else taken)))"

context byte_fifo
begin

lemma put_frames_subseq:
  assumes "ok q" "\<forall>f \<in> set fs. f \<noteq> [] \<and> int (length f) < 2 ^ 30"
  shows "\<exists>q' taken. put_frames put q fs = Inr (q', taken) \<and> ok q' \<and>
           pending q' = pending q @ concat taken \<and> subseq taken fs"
  using assms
proof (induction fs arbitrary: q)
  case Nil
  then show ?case by auto
next
  case (Cons f fs)
  let ?n = "int (length f)"
  have "0 < ?n" "?n < 2 ^ 30" using Cons.prems by auto
  with put_all_or_nothing [OF Cons.prems(1), of ?n f] obtain q1 where
    "ok q1" and put: "put q f ?n = Inr (q1, ?n) \<and> pending q1 = pending q @ f \<or>
                      put q f ?n = Inr (q1, 0) \<and> pending q1 = pending q" by auto
  with Cons.IH [of q1] Cons.prems obtain q2 taken where
    rest: "put_frames put q1 fs = Inr (q2, taken)" "ok q2"
      "pending q2 = pending q1 @ concat taken" "subseq taken fs" by auto
  from put show ?case
  proof
    assume "put q f ?n = Inr (q1, ?n) \<and> pending q1 = pending q @ f"
    with rest show ?thesis by (intro exI [of _ q2] exI [of _ "f # taken"]) auto
  next
    assume "put q f ?n = Inr (q1, 0) \<and> pending q1 = pending q"
    with rest \<open>0 < ?n\<close> show ?thesis by (intro exI [of _ q2] exI [of _ taken]) auto
  qed
qed

end

text \<open>A queue that can also be read back.\<close>

locale byte_pipe = byte_fifo +
  fixes get :: "'a \<Rightarrow> int \<Rightarrow> ('a \<times> int \<times> cell list) res"
  assumes get_prefix:
    "ok q \<Longrightarrow> 0 < n \<Longrightarrow> n \<le> int (length (pending q)) \<Longrightarrow>
     \<exists>q'. get q n = Inr (q', n, take (nat n) (pending q)) \<and> ok q' \<and>
          pending q' = drop (nat n) (pending q)"
begin

lemma put_then_get:
  assumes "ok q" "pending q = []" "put q src n = Inr (q', n)"
    "0 < n" "n \<le> int (length src)" "n < 2 ^ 30"
  shows "\<exists>q''. get q' n = Inr (q'', n, take (nat n) src) \<and> ok q'' \<and> pending q'' = []"
proof -
  from put_all_or_nothing [OF assms(1,4,5,6)] assms(2,3,4)
  have "ok q'" "pending q' = take (nat n) src" by auto
  with get_prefix [OF \<open>ok q'\<close> assms(4)] assms(5) show ?thesis by auto
qed

end

lemma WriteToBuffer_all_or_nothing:
  assumes "buf_inv b" "0 < n" "n \<le> int (length src)" "n < 2 ^ 30"
  shows "\<exists>b'. buf_inv b' \<and>
           (WriteToBuffer b src n = Inr (b', n) \<and> content b' = content b @ take (nat n) src \<or>
            WriteToBuffer b src n = Inr (b', 0) \<and> content b' = content b)"
proof (cases "n \<le> GetFreeSize b \<or> capacity b + n \<le> max_capacity b")
  case True
  from WriteToBuffer_ok [OF assms(1-3) True] show ?thesis by blast
next
  case False
  have "int_ok (capacity b + n)"
    using assms by (auto simp: buf_inv_def int_ok_def)
  with WriteToBuffer_rejects [OF assms(1), of n src] False assms(1) show ?thesis by auto
qed

interpretation ring: byte_pipe WriteToBuffer content buf_inv buf_read
proof (unfold_locales, goal_cases)
  case (1 q n src)
  then show ?case by (rule WriteToBuffer_all_or_nothing)
next
  case (2 q n)
  then have "n \<le> getunused q"
    using getunused_bounds [of q] by (simp add: length_content)
  with buf_read_ok [of q n] 2 show ?case by simp
qed


section \<open>Properties\<close>

text \<open>C9: Whatever blocks are written into a fresh \<open>Buffer\<close>, each is taken whole or refused,
  and a later \<open>WriteToSocket\<close> on a socket that keeps accepting bytes (any positive number per
  call) delivers exactly the blocks that were taken, byte for byte and in order, returns their
  number and leaves the buffer empty.\<close>

theorem buffer_delivers_in_order:
  assumes "new_buffer cap max_cap = Inr b" "0 \<le> cap" "cap < 2 ^ 29" "max_cap < 2 ^ 29"
    and "\<forall>f \<in> set fs. f \<noteq> [] \<and> int (length f) < 2 ^ 30" and "accepting wr"
  shows "\<exists>b' taken b''. put_frames WriteToBuffer b fs = Inr (b', taken) \<and> subseq taken fs \<and>
     WriteToSocket (Suc (length (concat taken))) wr b'
       = Some (b'', int (length (concat taken)), concat taken) \<and> content b'' = []"
proof -
  have "buf_inv b" "content b = []" using new_buffer_ok [OF assms(2-4)] assms(1) by auto
  with ring.put_frames_subseq [of b fs] assms(5) obtain b' taken where
    put: "put_frames WriteToBuffer b fs = Inr (b', taken)" "buf_inv b'"
      "content b' = concat taken" "subseq taken fs" by auto
  have u: "getunused b' = int (length (concat taken))"
    using put(3) getunused_bounds [OF put(2)] length_content [of b'] by simp
  have small: "0 \<le> getunused b'" "getunused b' < 2 ^ 29"
    using getunused_bounds [OF put(2)] put(2) by (auto simp: buf_inv_def)
  then have "int_ok (0 + getunused b')" "u64 (getunused b') = getunused b'"
    by (auto simp: int_ok_def intro: u64_id)
  with write_loop_drains [OF assms(6) put(2), of "Suc (length (concat taken))" 0 0 "[]"] u put(3)
  show ?thesis using put(1,4) by (fastforce simp: WriteToSocket_def)
qed

lemma buffer_delivers_in_order_witness:
  "\<exists>b' taken b''. put_frames WriteToBuffer \<lparr>capacity = 2, data_size = 3, max_capacity = 8,
        buf_data = [None, None, None], read_index = 0, write_index = 0\<rparr> [[Some 7, Some 8, Some 9], [Some 1]]
      = Inr (b', taken) \<and> subseq taken [[Some 7, Some 8, Some 9], [Some 1]] \<and>
     WriteToSocket (Suc (length (concat taken))) (\<lambda>_ _. (1, 0)) b'
       = Some (b'', int (length (concat taken)), concat taken) \<and> content b'' = []"
proof -
  have "new_buffer 2 8 = Inr \<lparr>capacity = 2, data_size = 3, max_capacity = 8,
      buf_data = [None, None, None], read_index = 0, write_index = 0\<rparr>"
    by (simp add: new_buffer_def chk_def int_ok_def numeral_3_eq_3)
  from buffer_delivers_in_order [OF this, of "[[Some 7, Some 8, Some 9], [Some 1]]" "\<lambda>_ _. (1, 0)"]
  show ?thesis by (simp add: accepting_def)
qed

text \<open>\<open>WriteToBuffer\<close> on a consistent buffer never runs out of the block, keeps the
  invariant, and appends the whole block exactly when it fits the free space or the capacity plus
  the block does not exceed the maximum; otherwise it returns 0 and changes nothing.\<close>

theorem WriteToBuffer_functional:
  assumes "buf_inv b" "0 < n" "n \<le> int (length src)" "n < 2 ^ 30"
  shows "if n \<le> GetFreeSize b \<or> capacity b + n \<le> max_capacity b
    then \<exists>b'. WriteToBuffer b src n = Inr (b', n) \<and> buf_inv b' \<and>
              content b' = content b @ take (nat n) src \<and> max_capacity b' = max_capacity b
    else WriteToBuffer b src n = Inr (b, 0)"
proof -
  have "int_ok (capacity b + n)" using assms by (auto simp: buf_inv_def int_ok_def)
  with WriteToBuffer_ok [OF assms(1-3)] WriteToBuffer_rejects [OF assms(1), of n src]
  show ?thesis by auto
qed

lemma WriteToBuffer_functional_witness:
  "\<exists>b'. WriteToBuffer \<lparr>capacity = 2, data_size = 3, max_capacity = 8,
        buf_data = [Some 4, Some 5, Some 6], read_index = 2, write_index = 1\<rparr>
        [Some 7, Some 8, Some 9] 3 = Inr (b', 3) \<and> buf_inv b' \<and>
      content b' = [Some 6, Some 4, Some 7, Some 8, Some 9] \<and> max_capacity b' = 8"
proof -
  let ?b = "\<lparr>capacity = 2, data_size = 3, max_capacity = 8,
        buf_data = [Some 4, Some 5, Some 6], read_index = 2, write_index = 1\<rparr>"
  have inv: "buf_inv ?b" by (simp add: buf_inv_def)
  have "content ?b = [Some 6, Some 4]"
    by (simp add: content_def getunused_def slot_def upt_rec)
  with WriteToBuffer_functional [OF inv, of 3 "[Some 7, Some 8, Some 9]"] show ?thesis by simp
qed

text \<open>\<open>WriteToSocket\<close> neither loses, repeats nor reorders a byte when no write
  fails, however the kernel splits the writes and even when it takes nothing at some call: at
  every return the bytes handed to the kernel followed by the bytes still in the buffer are the
  bytes that were in the buffer.\<close>

theorem WriteToSocket_conserves:
  assumes "never_fails wr" "buf_inv b" "WriteToSocket fuel wr b = Some (b', t, sent)"
  shows "buf_inv b' \<and> sent @ content b' = content b"
proof -
  from assms(3) obtain t' where "write_loop fuel wr 0 b 0 [] = Some (b', t', sent)"
    by (auto simp: WriteToSocket_def)
  from write_loop_conserves [OF assms(1,2) this] show ?thesis by simp
qed

lemma WriteToSocket_conserves_witness:
  "buf_inv \<lparr>capacity = 2, data_size = 3, max_capacity = 8,
        buf_data = [Some 4, Some 5, Some 6], read_index = 0, write_index = 1\<rparr> \<and>
   [Some 6] @ content \<lparr>capacity = 2, data_size = 3, max_capacity = 8,
        buf_data = [Some 4, Some 5, Some 6], read_index = 0, write_index = 1\<rparr>
   = content \<lparr>capacity = 2, data_size = 3, max_capacity = 8,
        buf_data = [Some 4, Some 5, Some 6], read_index = 2, write_index = 1\<rparr>"
  by (rule WriteToSocket_conserves [where wr = "\<lambda>k _. if k = 0 then (1, 0) else (0, EAGAIN)"
        and fuel = 3 and t = 1])
     (simp_all add: never_fails_def buf_inv_def WriteToSocket_def numeral_3_eq_3 getunused_def
        send_len_def u64_def wrap32_def EAGAIN_def EINTR_def)

text \<open>A write that fails (the kernel's buffer is full, \<open>EAGAIN\<close>) makes
  \<open>WriteToSocket\<close> loop forever on a control or proxy connection's buffer (1024 bytes) with
  unread bytes in front of the write position: the \<open>-1\<close> is stored in an unsigned variable,
  so the test for 0 that should leave the loop does not see it and the read index moves backwards.\<close>

theorem WriteToSocket_spins_on_error:
  assumes "buf_inv b" "data_size b = 1025" "15 < write_index b" "read_index b < write_index b"
  shows "WriteToSocket fuel (\<lambda>_ _. (- 1, EAGAIN)) b = None"
  using write_error_livelock [OF _ assms] by (simp add: WriteToSocket_def)

lemma WriteToSocket_spins_on_error_witness:
  "WriteToSocket 1000 (\<lambda>_ _. (- 1, EAGAIN)) \<lparr>capacity = 1024, data_size = 1025,
     max_capacity = 40960, buf_data = replicate 1025 (Some 0), read_index = 0, write_index = 100\<rparr> = None"
  by (rule WriteToSocket_spins_on_error) (simp_all add: buf_inv_def)

end
