(* ===== verification/Utils.thy ===== *)
theory Utils
  imports Prelude
begin

text \<open>
  \<open>lib/Utils.h\<close> and \<open>lib/Utils.cpp\<close>: blocking reads over a non-blocking socket
  (\<open>readn\<close>), random identifiers, host:port arguments, socket set-up, and the map with a mutex
  that the proxy keeps its connections in.  System calls are parameters that say what the kernel
  answers.
\<close>

section \<open>readn\<close>

text \<open>
  A kernel that answers \<open>read\<close> is a state \<open>'k\<close> with a step: the requested length gives
  either bytes (none at the end of the stream) or an error with its \<open>errno\<close>.
\<close>

datatype sys_read = RData "cell list" | RError int

type_synonym 'k reader = "'k \<Rightarrow> int \<Rightarrow> sys_read \<times> 'k"

definition errno_EINTR :: int where "errno_EINTR = 4"
definition errno_EAGAIN :: int where "errno_EAGAIN = 11"

text \<open>
  The result is the returned \<open>size_t\<close>, the bytes stored, the \<open>bufferEmpty\<close> flag and the
  kernel state; \<open>None\<close> means that the loop is still running.
\<close>

fun readn_loop :: "nat \<Rightarrow> 'k reader \<Rightarrow> 'k \<Rightarrow> int \<Rightarrow> int \<Rightarrow> cell list \<Rightarrow> bool
    \<Rightarrow> (int \<times> cell list \<times> bool \<times> 'k) option" where
  "readn_loop 0 rd q sz len_left buf bufferEmpty = None"
| "readn_loop (Suc fuel) rd q sz len_left buf bufferEmpty =
     (if len_left > 0 then
        (case rd q len_left of
           (RError e, q') \<Rightarrow>
             (if e = errno_EINTR \<or> e = errno_EAGAIN
              then readn_loop fuel rd q' sz len_left buf bufferEmpty
              else Some (u64 (- 1), buf, bufferEmpty, q'))
         | (RData cs, q') \<Rightarrow>
             (if cs = [] then Some (u64 (sz - len_left), buf, True, q')
              else readn_loop fuel rd q' sz (len_left - int (length cs)) (buf @ cs) bufferEmpty))
      else Some (u64 (sz - len_left), buf, bufferEmpty, q))"

definition readn :: "nat \<Rightarrow> 'k reader \<Rightarrow> 'k \<Rightarrow> int \<Rightarrow> bool
    \<Rightarrow> (int \<times> cell list \<times> bool \<times> 'k) option" where
  "readn fuel rd q sz bufferEmpty = readn_loop fuel rd q sz (wrap32 sz) [] bufferEmpty"

text \<open>
  The documented behaviour of a stream socket: \<open>rest q\<close> are the bytes still to come; a read
  delivers a non-empty prefix of at most the requested length, nothing only at the end of the
  stream, and an interruption leaves the stream alone.  \<open>lag q\<close> bounds the interruptions
  before the next delivery.
\<close>

definition stream_source :: "'k reader \<Rightarrow> ('k \<Rightarrow> cell list) \<Rightarrow> ('k \<Rightarrow> nat) \<Rightarrow> bool" where
  "stream_source rd rest lag \<longleftrightarrow>
     (\<forall>q n. 0 < n \<longrightarrow>
        (case rd q n of
           (RData cs, q') \<Rightarrow> int (length cs) \<le> n \<and> rest q = cs @ rest q' \<and> (cs = [] \<longrightarrow> rest q = [])
         | (RError e, q') \<Rightarrow> (e = errno_EINTR \<or> e = errno_EAGAIN) \<and> rest q' = rest q \<and> lag q' < lag q))"

lemma readn_loop_prefix:
  assumes src: "stream_source rd rest lag"
    and "0 \<le> left" "left \<le> int (length (rest q))" "sz = left + int (length buf)" "sz < 2 ^ 31"
  shows "\<exists>fuel q'. readn_loop fuel rd q sz left buf em
             = Some (sz, buf @ take (nat left) (rest q), em, q') \<and>
           rest q' = drop (nat left) (rest q)"
  using assms(2-)
proof (induction "(nat left, lag q)" arbitrary: q left buf rule: wf_induct_rule [OF wf_lex_prod [OF wf_less_than wf_less_than]])
  case (1 q left buf)
  show ?case
  proof (cases "0 < left")
    case False
    then have "u64 (sz - left) = sz" using 1(2-) by (intro u64_id [THEN trans]) auto
    with False 1(2-) show ?thesis by (intro exI [of _ "Suc 0"] exI [of _ q]) simp
  next
    case True
    obtain r q' where step: "rd q left = (r, q')" by fastforce
    show ?thesis
    proof (cases r)
      case (RData cs)
      from src True step RData have cs: "int (length cs) \<le> left" "rest q = cs @ rest q'"
          "cs = [] \<longrightarrow> rest q = []"
        unfolding stream_source_def by (fastforce dest!: spec [of _ q] spec [of _ left])+
      with True 1(3) have ne: "cs \<noteq> []" by auto
      let ?left = "left - int (length cs)"
      have "((nat ?left, lag q'), (nat left, lag q)) \<in> less_than <*lex*> less_than"
        using ne True cs(1) by (simp add: nat_less_iff)
      moreover have "sz = ?left + int (length (buf @ cs))" "0 \<le> ?left"
          "?left \<le> int (length (rest q'))"
        using 1(2-) cs by auto
      ultimately obtain fuel k where
        ih: "readn_loop fuel rd q' sz ?left (buf @ cs) em
               = Some (sz, (buf @ cs) @ take (nat ?left) (rest q'), em, k)"
            "rest k = drop (nat ?left) (rest q')"
        using 1(1) 1(5) by blast
      have "nat left = length cs + nat ?left" using cs(1) by simp
      then have "take (nat left) (rest q) = cs @ take (nat ?left) (rest q')"
          "drop (nat left) (rest q) = drop (nat ?left) (rest q')"
        using cs(2) by auto
      with ih True step RData ne show ?thesis
        by (intro exI [of _ "Suc fuel"] exI [of _ k]) simp
    next
      case (RError e)
      from src True step RError have e: "e = errno_EINTR \<or> e = errno_EAGAIN"
          "rest q' = rest q" "lag q' < lag q"
        unfolding stream_source_def by (fastforce dest!: spec [of _ q] spec [of _ left])+
      have "((nat left, lag q'), (nat left, lag q)) \<in> less_than <*lex*> less_than"
        using e(3) by simp
      then obtain fuel k where
        ih: "readn_loop fuel rd q' sz left buf em
               = Some (sz, buf @ take (nat left) (rest q'), em, k)"
            "rest k = drop (nat left) (rest q')"
        using 1 e(2) by metis
      with True step RError e show ?thesis
        by (intro exI [of _ "Suc fuel"] exI [of _ k]) simp
    qed
  qed
qed


lemma readn_loop_mono:
  "readn_loop fuel rd q sz left buf em = Some r \<Longrightarrow> fuel \<le> fuel' \<Longrightarrow>
   readn_loop fuel' rd q sz left buf em = Some r"
proof (induction fuel arbitrary: fuel' q left buf)
  case 0
  then show ?case by simp
next
  case (Suc fuel)
  then obtain f where "fuel' = Suc f" "fuel \<le> f" by (cases fuel') auto
  with Suc show ?case by (auto split: prod.splits sys_read.splits if_splits)
qed

section \<open>Identifiers\<close>

text \<open>\<open>random_str\<close>: \<open>rnd k\<close> is the \<open>k\<close>-th value of the random engine.\<close>

definition random_char :: "nat \<Rightarrow> u8" where
  "random_char v =
     (let temp = v mod 36
      in if temp < 10 then word_of_nat (temp + 48) else word_of_nat (temp - 10 + 65))"

fun random_str :: "(nat \<Rightarrow> nat) \<Rightarrow> nat \<Rightarrow> nat \<Rightarrow> u8 list" where
  "random_str rnd k 0 = []"
| "random_str rnd k (Suc len) = random_char (rnd k) # random_str rnd (Suc k) len"

lemma length_random_str [simp]: "length (random_str rnd k len) = len"
  by (induction len arbitrary: k) auto

lemma random_str_5:
  "random_str rnd k 5 = map (\<lambda>j. random_char (rnd (k + j))) [0, 1, 2, 3, 4]"
  by (simp add: numeral_eq_Suc)

definition alnum :: "u8 \<Rightarrow> bool" where
  "alnum c \<longleftrightarrow> (48 \<le> c \<and> c \<le> 57) \<or> (65 \<le> c \<and> c \<le> 90)"

lemma alnum_word: "48 \<le> n \<and> n \<le> 57 \<or> 65 \<le> n \<and> n \<le> 90 \<Longrightarrow> alnum (word_of_nat n)"
  using unat_u8 [of n] by (auto simp: alnum_def word_le_nat_alt)

lemma alnum_random_char: "alnum (random_char v)"
proof -
  have small: "v mod 36 < 36" by simp
  show ?thesis
  proof (cases "v mod 36 < 10")
    case True
    then show ?thesis unfolding random_char_def Let_def by (simp only: if_True) (intro alnum_word, simp)
  next
    case False
    with small show ?thesis
      unfolding random_char_def Let_def by (simp only: if_False) (intro alnum_word, simp)
  qed
qed

lemma alnum_random_str: "\<forall>c \<in> set (random_str rnd k len). alnum c"
  by (induction len arbitrary: k) (auto simp: alnum_random_char)

lemma alnum_c_string: "\<forall>c \<in> set s. alnum c \<Longrightarrow> c_string s"
  by (auto simp: c_string_def alnum_def)

text \<open>
  The loops that draw an identifier until it is fresh (\<open>newCtlConnHandler\<close>,
  \<open>getValidProxyID\<close>): the second component is the number of draws.
\<close>

fun fresh_id :: "nat \<Rightarrow> (nat \<Rightarrow> nat) \<Rightarrow> nat \<Rightarrow> (u8 list \<Rightarrow> bool) \<Rightarrow> (u8 list \<times> nat) option" where
  "fresh_id 0 rnd k used = None"
| "fresh_id (Suc fuel) rnd k used =
     (let i = random_str rnd k 5
      in if used i then fresh_id fuel rnd (k + 5) used else Some (i, k + 5))"

lemma fresh_id_ok:
  "fresh_id fuel rnd k used = Some (i, k') \<Longrightarrow>
   \<not> used i \<and> length i = 5 \<and> (\<forall>c \<in> set i. alnum c)"
  by (induction fuel arbitrary: k) (auto simp: Let_def alnum_random_str split: if_splits)

section \<open>Socket set-up\<close>

text \<open>\<open>setNoblock\<close>: the results of the two \<open>fcntl\<close> calls; the second component is the
  flag word that is set, if the second call is made.\<close>

definition O_NONBLOCK :: u32 where "O_NONBLOCK = 2048"

definition setNoblock :: "u32 \<Rightarrow> (u32 \<Rightarrow> int) \<Rightarrow> int \<times> u32 option" where
  "setNoblock getfl setfl =
     (if getfl = - 1 then (- 1, None)
      else let flag = getfl OR O_NONBLOCK
           in if setfl flag = - 1 then (- 1, Some flag) else (0, Some flag))"

text \<open>
  The socket calls in the order the code makes them, with the answers of the kernel as
  arguments; the second component lists the descriptors closed.
\<close>

definition htons :: "u32 \<Rightarrow> u16" where
  "htons p = (let w = ucast p :: u16 in push_bit 8 w OR drop_bit 8 w)"

definition sockt_bind_listen :: "int \<Rightarrow> int \<Rightarrow> int \<Rightarrow> int \<Rightarrow> int \<times> int list" where
  "sockt_bind_listen port sock bind_ret listen_ret =
     (if port < 0 \<or> port > 65535 then (- 1, [])
      else if sock < 0 then (- 1, [sock])
      else if bind_ret < 0 then (- 1, [sock])
      else if listen_ret < 0 then (- 1, [sock])
      else (sock, []))"

definition INADDR_NONE :: u32 where "INADDR_NONE = - 1"

definition resolve_host :: "u32 \<Rightarrow> u8 list option \<Rightarrow> u32 option res" where
  "resolve_host inet_addr host_entry =
     (if inet_addr = INADDR_NONE then
        (case host_entry of
           None \<Rightarrow> Inr None
         | Some h_addr \<Rightarrow>
             if length h_addr > 4 then Inl OutOfBounds
             else Inr (Some (of_le32 (h_addr @ drop (length h_addr) (le32 inet_addr)))))
      else Inr (Some inet_addr))"

text \<open>\<open>tcp_connect\<close>: the returned descriptor, the address and port connected to, the
  descriptors closed.\<close>

definition tcp_connect :: "u32 \<Rightarrow> u8 list option \<Rightarrow> u32 \<Rightarrow> int \<Rightarrow> int
    \<Rightarrow> (int \<times> (u32 \<times> u16) option \<times> int list) res" where
  "tcp_connect inet_addr host_entry port sock connect_ret =
     bind_res (resolve_host inet_addr host_entry) (\<lambda>a. case a of
       None \<Rightarrow> Inr (- 1, None, [])
     | Some addr \<Rightarrow>
         if sock < 0 then Inr (sock, None, [])
         else if connect_ret < 0 then Inr (- 1, Some (addr, htons port), [sock])
         else Inr (sock, Some (addr, htons port), []))"

section \<open>host:port\<close>

definition colon :: u8 where "colon = 58"

text \<open>\<open>strtok(s, ":")\<close>: the maximal runs of other characters.\<close>

fun strtok_colon :: "u8 list \<Rightarrow> u8 list \<Rightarrow> u8 list list" where
  "strtok_colon acc [] = (if acc = [] then [] else [acc])"
| "strtok_colon acc (c # cs) =
     (if c = colon then (if acc = [] then strtok_colon [] cs else acc # strtok_colon [] cs)
      else strtok_colon (acc @ [c]) cs)"

text \<open>\<open>atoi\<close>: white space, a sign, digits; a value outside \<open>int\<close> is undefined.\<close>

definition is_space :: "u8 \<Rightarrow> bool" where
  "is_space c \<longleftrightarrow> c = 32 \<or> (9 \<le> c \<and> c \<le> 13)"

definition is_digit :: "u8 \<Rightarrow> bool" where
  "is_digit c \<longleftrightarrow> 48 \<le> c \<and> c \<le> 57"

definition digits_value :: "u8 list \<Rightarrow> int" where
  "digits_value ds = foldl (\<lambda>v c. 10 * v + (uint c - 48)) 0 (takeWhile is_digit ds)"

definition atoi :: "u8 list \<Rightarrow> int res" where
  "atoi s =
     (case dropWhile is_space s of
        [] \<Rightarrow> Inr 0
      | c # cs \<Rightarrow>
          if c = 45 then chk (- digits_value cs)
          else if c = 43 then chk (digits_value cs)
          else chk (digits_value (c # cs)))"

text \<open>
  \<open>parse_host_port\<close>: the argument is copied into an array of 100 bytes and split; when the
  second piece is missing, \<open>atoi\<close> is called with an uninitialised pointer, and when both are,
  the host is built from a null pointer.
\<close>

definition parse_host_port :: "u8 list \<Rightarrow> (u8 list \<times> u32) res" where
  "parse_host_port addr =
     (if length addr \<ge> 100 then Inl OutOfBounds
      else case strtok_colon [] addr of
        [] \<Rightarrow> Inl NullDeref
      | [host] \<Rightarrow> Inl Uninitialised
      | host # p # _ \<Rightarrow> bind_res (atoi p) (\<lambda>port. Inr (host, word_of_int port)))"

lemma strtok_colon_plain:
  "colon \<notin> set s \<Longrightarrow> strtok_colon acc (s @ colon # rest) =
     (if acc @ s = [] then strtok_colon [] rest else (acc @ s) # strtok_colon [] rest)"
  by (induction s arbitrary: acc) auto

lemma strtok_colon_last:
  "colon \<notin> set s \<Longrightarrow> strtok_colon acc s = (if acc @ s = [] then [] else [acc @ s])"
  by (induction s arbitrary: acc) auto

text \<open>Decimal notation, to state what \<open>atoi\<close> reads.\<close>

fun decimal :: "nat \<Rightarrow> u8 list" where
  "decimal n = (if n < 10 then [word_of_nat (n + 48)]
                else decimal (n div 10) @ [word_of_nat (n mod 10 + 48)])"

declare decimal.simps [simp del]

lemma digit_word:
  assumes "d < 10"
  shows "is_digit (word_of_nat (d + 48)) \<and> uint (word_of_nat (d + 48) :: u8) = int d + 48"
proof -
  have "unat (word_of_nat (d + 48) :: u8) = d + 48" using assms by (intro unat_u8) simp
  then have "unat (word_of_nat (d + 48) :: u8) = d + 48"
    "uint (word_of_nat (d + 48) :: u8) = int (d + 48)" by (simp_all only: uint_nat)
  with assms show ?thesis unfolding is_digit_def word_le_nat_alt by simp
qed

lemma decimal_digits: "\<forall>c \<in> set (decimal n). is_digit c"
proof (induction n rule: decimal.induct)
  case (1 n)
  then show ?case
    using digit_word [of n] digit_word [of "n mod 10"]
    by (subst decimal.simps) auto
qed

lemma decimal_nonempty: "decimal n \<noteq> []"
  by (subst decimal.simps) auto

lemma foldl_decimal: "foldl (\<lambda>v c. 10 * v + (uint (c :: u8) - 48)) 0 (decimal n) = int n"
proof (induction n rule: decimal.induct)
  case (1 n)
  show ?case
  proof (cases "n < 10")
    case True
    then show ?thesis using digit_word [of n] by (subst decimal.simps) simp
  next
    case False
    then show ?thesis
      using 1 digit_word [of "n mod 10"] by (subst decimal.simps) (simp add: zdiv_int zmod_int)
  qed
qed

lemma digits_value_decimal: "digits_value (decimal n) = int n"
  using decimal_digits [of n] foldl_decimal [of n]
  by (simp add: digits_value_def takeWhile_eq_all_conv [THEN iffD2])

lemma atoi_decimal: "n < 2 ^ 31 \<Longrightarrow> atoi (decimal n) = Inr (int n)"
proof -
  assume n: "n < 2 ^ 31"
  obtain c cs where c: "decimal n = c # cs" using decimal_nonempty by (cases "decimal n") auto
  then have "is_digit c" using decimal_digits [of n] by auto
  then have "48 \<le> unat c" "unat c \<le> 57" by (auto simp: is_digit_def word_le_nat_alt)
  then have "\<not> is_space c" "c \<noteq> 45" "c \<noteq> 43"
    by (auto simp: is_space_def word_le_nat_alt)
  then show ?thesis
    using c digits_value_decimal [of n] n by (simp add: atoi_def chk_def int_ok_def)
qed

lemma colon_not_digit: "colon \<notin> set (decimal n)"
  using decimal_digits [of n] by (auto simp: colon_def is_digit_def)

section \<open>The map with a mutex\<close>

text \<open>
  \<open>threadsafe_unordered_map\<close>: every operation holds the mutex, so each is one step.
  \<open>add\<close> is \<open>emplace\<close>: a key that is present keeps its value.  The one-argument
  \<open>get\<close> uses \<open>operator[]\<close>, which inserts a default value for a missing key.
\<close>

type_synonym ('k, 'v) ts_map = "'k \<rightharpoonup> 'v"

definition tm_isExist :: "('k, 'v) ts_map \<Rightarrow> 'k \<Rightarrow> bool" where
  "tm_isExist m key = (m key \<noteq> None)"

definition tm_erase :: "('k, 'v) ts_map \<Rightarrow> 'k \<Rightarrow> ('k, 'v) ts_map" where
  "tm_erase m key = m(key := None)"

definition tm_get :: "'v \<Rightarrow> ('k, 'v) ts_map \<Rightarrow> 'k \<Rightarrow> 'v \<times> bool" where
  "tm_get dflt m key = (case m key of None \<Rightarrow> (dflt, False) | Some v \<Rightarrow> (v, True))"

definition tm_get1 :: "'v \<Rightarrow> ('k, 'v) ts_map \<Rightarrow> 'k \<Rightarrow> 'v \<times> ('k, 'v) ts_map" where
  "tm_get1 dflt m key = (case m key of None \<Rightarrow> (dflt, m(key \<mapsto> dflt)) | Some v \<Rightarrow> (v, m))"

definition tm_add :: "('k, 'v) ts_map \<Rightarrow> 'k \<Rightarrow> 'v \<Rightarrow> ('k, 'v) ts_map" where
  "tm_add m key val = (case m key of None \<Rightarrow> m(key \<mapsto> val) | Some _ \<Rightarrow> m)"

text \<open>The laws the connection tables rely on.\<close>

locale first_wins_map =
  fixes has :: "'m \<Rightarrow> 'k \<Rightarrow> bool"
    and get :: "'m \<Rightarrow> 'k \<Rightarrow> 'v \<times> bool"
    and add :: "'m \<Rightarrow> 'k \<Rightarrow> 'v \<Rightarrow> 'm"
    and erase :: "'m \<Rightarrow> 'k \<Rightarrow> 'm"
  assumes get_flag: "snd (get m k) = has m k"
    and add_fresh: "\<not> has m k \<Longrightarrow> get (add m k v) k = (v, True)"
    and add_present: "has m k \<Longrightarrow> add m k v = m"
    and add_other: "k \<noteq> j \<Longrightarrow> get (add m k v) j = get m j"
    and erase_gone: "\<not> has (erase m k) k"
    and erase_other: "k \<noteq> j \<Longrightarrow> get (erase m k) j = get m j"
begin

lemma has_add: "has (add m k v) j \<longleftrightarrow> j = k \<or> has m j"
  by (metis add_fresh add_other add_present get_flag snd_conv)

lemma has_erase: "has (erase m k) j \<longleftrightarrow> j \<noteq> k \<and> has m j"
  by (metis erase_gone erase_other get_flag)

lemma replace_value: "get (add (erase m k) k v) k = (v, True)"
  by (rule add_fresh) (rule erase_gone)

lemma moved_between: "\<not> has m k \<Longrightarrow> get (erase (add m k v) k) j = get m j \<or> j = k"
  by (metis add_other erase_other)

end

interpretation tsmap: first_wins_map tm_isExist "tm_get d" tm_add tm_erase for d
  by unfold_locales
     (auto simp: tm_isExist_def tm_get_def tm_add_def tm_erase_def split: option.splits)

lemmas tm_defs [step_defs] = tm_isExist_def tm_get_def tm_get1_def tm_add_def tm_erase_def

section \<open>Properties\<close>

text \<open>C13: On a stream that still holds at least the requested number of bytes, \<open>readn\<close>
  returns, with exactly that many bytes, the next ones of the stream, whatever the sizes of the
  pieces the kernel delivers and however often it answers EINTR or EAGAIN in between; the rest of
  the stream is left for the next call and the end-of-stream flag is untouched.\<close>

theorem readn_reads_exactly:
  assumes "stream_source rd rest lag" "0 \<le> n" "n \<le> int (length (rest q))" "n < 2 ^ 31"
  shows "\<exists>fuel q'. (\<forall>more \<ge> fuel. readn more rd q n em = Some (n, take (nat n) (rest q), em, q')) \<and>
                   rest q' = drop (nat n) (rest q)"
proof -
  have "wrap32 n = n" using assms(2,4) by (intro wrap32_id) (simp add: int_ok_def)
  moreover from readn_loop_prefix [OF assms(1-3), of n "[]" em] assms(4) obtain fuel q' where
    "readn_loop fuel rd q n n [] em = Some (n, take (nat n) (rest q), em, q')"
    "rest q' = drop (nat n) (rest q)" by auto
  ultimately show ?thesis by (metis readn_loop_mono readn_def)
qed

lemma readn_reads_exactly_witness:
  "\<exists>fuel q'. (\<forall>more \<ge> fuel. readn more
       (\<lambda>(s, l) n. if 0 < l then (RError 11, (s, l - 1)) else (RData (take 1 s), (drop 1 s, 3)))
       ([Some 5, Some 6, Some 7], 2 :: nat) 2 False = Some (2, [Some 5, Some 6], False, q')) \<and>
     fst q' = [Some 7]"
proof -
  have "stream_source
      (\<lambda>(s, l) n. if 0 < l then (RError 11, (s, l - 1)) else (RData (take 1 s), (drop 1 s, 3)))
      fst (snd :: cell list \<times> nat \<Rightarrow> nat)"
    by (auto simp: stream_source_def errno_EAGAIN_def)
  from readn_reads_exactly [OF this, of 2 "([Some 5, Some 6, Some 7], 2)" False]
  show ?thesis by simp
qed

text \<open>\<open>parse_host_port\<close> reads back a host and a port written as \<open>host:port\<close>: the host
  is any non-empty string without a colon, the port any number an \<open>int\<close> can hold.\<close>

theorem parse_host_port_roundtrip:
  assumes "host \<noteq> []" "colon \<notin> set host" "port < 2 ^ 31"
    "length (host @ [colon] @ decimal port) < 100"
  shows "parse_host_port (host @ [colon] @ decimal port) = Inr (host, word_of_nat port)"
proof -
  have "strtok_colon [] (host @ [colon] @ decimal port) = [host, decimal port]"
    using strtok_colon_plain [OF assms(2), of "[]" "decimal port"]
      strtok_colon_last [OF colon_not_digit, of "[]" port] assms(1) decimal_nonempty [of port]
    by simp
  with assms(4) atoi_decimal [OF assms(3)] show ?thesis
    by (simp add: parse_host_port_def)
qed

lemma parse_host_port_roundtrip_witness:
  "parse_host_port ([49, 48, 46, 49] @ [colon] @ decimal 8080) = Inr ([49, 48, 46, 49], 8080)"
  using parse_host_port_roundtrip [of "[49, 48, 46, 49]" 8080]
  by (simp add: colon_def decimal.simps)

end
