(* ===== verification/Wire.thy ===== *)
theory Wire
  imports Prelude
begin

text \<open>
  \<open>lib/Message.h\<close>, \<open>lib/Message.cpp\<close>, \<open>lib/ProxyMessage.h\<close> and
  \<open>lib/ProxyMessage.cpp\<close>: the framed messages of the control and proxy connections and the
  structures they carry.  A structure is sent as its memory image, so each one has an encoder
  (the image its sender builds with \<open>strcpy\<close> and assignments, padding and unused array bytes
  indeterminate unless the variable was zeroed) and a decoder (what the receiving handler reads
  from the image).  Offsets and sizes are those of x86-64.
\<close>

section \<open>Message types\<close>

datatype MsgType =
    NewRequest | NewResponse | NewTunnelReq | NewTunnelRsp
  | NotifyClient | ShutdownPeerConn | FreeConnReq

fun msg_code :: "MsgType \<Rightarrow> u32" where
  "msg_code NewRequest = 0"
| "msg_code NewResponse = 1"
| "msg_code NewTunnelReq = 2"
| "msg_code NewTunnelRsp = 3"
| "msg_code NotifyClient = 4"
| "msg_code ShutdownPeerConn = 5"
| "msg_code FreeConnReq = 6"

datatype ProxyMsgType = ProxyMetaSet | ProxyConnectReq | ProxyConnectRsp

fun proxy_code :: "ProxyMsgType \<Rightarrow> u32" where
  "proxy_code ProxyMetaSet = 0"
| "proxy_code ProxyConnectReq = 1"
| "proxy_code ProxyConnectRsp = 2"

text \<open>The enumerations are ordered by their values, as in C++.\<close>

lemma msg_code_inj: "msg_code a = msg_code b \<Longrightarrow> a = b"
  by (cases a; cases b) auto

instantiation MsgType :: linorder
begin

definition less_eq_MsgType :: "MsgType \<Rightarrow> MsgType \<Rightarrow> bool" where
  "less_eq_MsgType a b \<longleftrightarrow> msg_code a \<le> msg_code b"

definition less_MsgType :: "MsgType \<Rightarrow> MsgType \<Rightarrow> bool" where
  "less_MsgType a b \<longleftrightarrow> msg_code a < msg_code b"

instance
  by standard (auto simp: less_eq_MsgType_def less_MsgType_def intro: msg_code_inj)

end

definition msg_types :: "MsgType list" where
  "msg_types = [NewRequest, NewResponse, NewTunnelReq, NewTunnelRsp, NotifyClient,
                ShutdownPeerConn, FreeConnReq]"

definition msg_of_code :: "u32 \<Rightarrow> MsgType option" where
  "msg_of_code c = List.find (\<lambda>t. msg_code t = c) msg_types"

lemma msg_of_code_code [simp]: "msg_of_code (msg_code t) = Some t"
  by (cases t) (simp_all add: msg_of_code_def msg_types_def)

definition proxy_of_code :: "u32 \<Rightarrow> ProxyMsgType option" where
  "proxy_of_code c = List.find (\<lambda>t. proxy_code t = c) [ProxyMetaSet, ProxyConnectReq, ProxyConnectRsp]"

lemma proxy_of_code_code [simp]: "proxy_of_code (proxy_code t) = Some t"
  by (cases t) (simp_all add: proxy_of_code_def)

section \<open>Frames\<close>

definition MAX_MSG_LEN :: nat where "MAX_MSG_LEN = 1024"

text \<open>
  \<open>Msg\<close> and \<open>ProxyMsg\<close> have the same layout: a length, a type (kept as its 32 bits,
  since a received one can be any) and 1024 bytes of data.
\<close>

record Msg =
  msg_len :: u32
  msg_type :: u32
  msg_data :: "cell list"

definition sizeof_Msg :: nat where "sizeof_Msg = 1032"

definition memcpy :: "cell list \<Rightarrow> cell list \<Rightarrow> nat \<Rightarrow> cell list res" where
  "memcpy dst src n =
     (if n \<le> length dst \<and> n \<le> length src then Inr (take n src @ drop n dst) else Inl OutOfBounds)"

definition MakeMsg :: "MsgType \<Rightarrow> cell list \<Rightarrow> nat \<Rightarrow> Msg res" where
  "MakeMsg type dat len =
     bind_res (memcpy (replicate MAX_MSG_LEN (Some 0)) dat len) (\<lambda>d.
       Inr \<lparr>msg_len = word_of_nat (4 + 4 + len), msg_type = msg_code type, msg_data = d\<rparr>)"

definition makeProxyMsg :: "ProxyMsgType \<Rightarrow> cell list \<Rightarrow> nat \<Rightarrow> Msg res" where
  "makeProxyMsg type dat len =
     bind_res (memcpy (replicate MAX_MSG_LEN (Some 0)) dat len) (\<lambda>d.
       Inr \<lparr>msg_len = word_of_nat (4 + 4 + len), msg_type = proxy_code type, msg_data = d\<rparr>)"

definition getMsgBodySize :: "Msg \<Rightarrow> int" where
  "getMsgBodySize msg = u64 (uint (msg_len msg) - 4 - 4)"

definition getProxyMsgBodySize :: "Msg \<Rightarrow> int" where
  "getProxyMsgBodySize msg = u64 (uint (msg_len msg) - 4 - 4)"

text \<open>The memory image of a frame.\<close>

definition msg_image :: "Msg \<Rightarrow> cell list" where
  "msg_image m = cells (le32 (msg_len m)) @ cells (le32 (msg_type m)) @ msg_data m"

text \<open>What the handlers do first with a received frame: copy its body over an uninitialised
  structure of \<open>sz\<close> bytes, as many bytes as the frame says.\<close>

definition copy_body :: "nat \<Rightarrow> Msg \<Rightarrow> cell list res" where
  "copy_body sz m =
     (if getMsgBodySize m \<le> int MAX_MSG_LEN
      then memcpy (replicate sz None) (msg_data m) (nat (getMsgBodySize m))
      else Inl OutOfBounds)"

lemma uint_len: "n \<le> 1024 \<Longrightarrow> uint (word_of_nat (8 + n) :: u32) = 8 + int n"
  unfolding uint_nat by (subst unat_u32) auto

lemma MakeMsg_ok:
  assumes "n \<le> 1024" "length dat = n"
  shows "\<exists>m. MakeMsg t dat n = Inr m \<and> uint (msg_len m) = 8 + int n \<and> msg_type m = msg_code t \<and>
             getMsgBodySize m = int n \<and> msg_data m = dat @ replicate (1024 - n) (Some 0)"
proof -
  have len: "uint (word_of_nat (8 + n) :: u32) = 8 + int n" using uint_len [OF assms(1)] .
  moreover have "u64 (8 + int n - 4 - 4) = int n" using assms(1) by (simp add: u64_def)
  ultimately show ?thesis
    using assms by (simp add: MakeMsg_def memcpy_def MAX_MSG_LEN_def getMsgBodySize_def)
qed

lemma makeProxyMsg_ok:
  assumes "n \<le> 1024" "length dat = n"
  shows "\<exists>m. makeProxyMsg t dat n = Inr m \<and> uint (msg_len m) = 8 + int n \<and> msg_type m = proxy_code t \<and>
             getMsgBodySize m = int n \<and> msg_data m = dat @ replicate (1024 - n) (Some 0)"
proof -
  have len: "uint (word_of_nat (8 + n) :: u32) = 8 + int n" using uint_len [OF assms(1)] .
  moreover have "u64 (8 + int n - 4 - 4) = int n" using assms(1) by (simp add: u64_def)
  ultimately show ?thesis
    using assms by (simp add: makeProxyMsg_def memcpy_def MAX_MSG_LEN_def getMsgBodySize_def)
qed

lemma copy_body_exact:
  assumes "getMsgBodySize m = int n" "n \<le> 1024" "msg_data m = cs @ rest" "length cs = n"
  shows "copy_body n m = Inr cs"
  using assms by (simp add: copy_body_def memcpy_def MAX_MSG_LEN_def)

lemma copy_body_overflow:
  "int sz < getMsgBodySize m \<Longrightarrow> copy_body sz m = Inl OutOfBounds"
  by (auto simp: copy_body_def memcpy_def)

section \<open>The structures\<close>

abbreviation uninit :: "nat \<Rightarrow> cell list" where "uninit n \<equiv> replicate n None"
abbreviation zeroed :: "nat \<Rightarrow> cell list" where "zeroed n \<equiv> replicate n (Some 0)"

text \<open>A field of an image.\<close>

definition field :: "nat \<Rightarrow> nat \<Rightarrow> cell list \<Rightarrow> cell list" where
  "field off n cs = take n (drop off cs)"

lemma field_append:
  "length a = off \<Longrightarrow> length b = n \<Longrightarrow> field off n (a @ b @ c) = b"
  by (simp add: field_def)

record NewTunnelReqMsg =
  ntq_server_host :: "u8 list"
  ntq_server_port :: u32

definition enc_NewTunnelReq :: "NewTunnelReqMsg \<Rightarrow> cell list res" where
  "enc_NewTunnelReq m =
     bind_res (strcpy_into (uninit 20) (ntq_server_host m)) (\<lambda>h.
       Inr (h @ cells (le32 (ntq_server_port m))))"

definition dec_NewTunnelReq :: "cell list \<Rightarrow> NewTunnelReqMsg res" where
  "dec_NewTunnelReq cs =
     bind_res (c_str (field 0 20 cs)) (\<lambda>h. bind_res (read_u32 (field 20 4 cs)) (\<lambda>p.
       Inr \<lparr>ntq_server_host = h, ntq_server_port = p\<rparr>))"

record NewTunnelRspMsg =
  ntp_proxy_server_port :: u32
  ntp_server_port :: u32
  ntp_tunnel_id :: "u8 list"
  ntp_server_host :: "u8 list"
  ntp_proxy_server_host :: "u8 list"

definition enc_NewTunnelRsp :: "NewTunnelRspMsg \<Rightarrow> cell list res" where
  "enc_NewTunnelRsp m =
     bind_res (strcpy_into (uninit 10) (ntp_tunnel_id m)) (\<lambda>t.
     bind_res (strcpy_into (uninit 20) (ntp_proxy_server_host m)) (\<lambda>ph.
     bind_res (strcpy_into (uninit 20) (ntp_server_host m)) (\<lambda>h.
       Inr (cells (le32 (ntp_proxy_server_port m)) @ cells (le32 (ntp_server_port m)) @
            t @ h @ ph @ uninit 2))))"

definition dec_NewTunnelRsp :: "cell list \<Rightarrow> NewTunnelRspMsg res" where
  "dec_NewTunnelRsp cs =
     bind_res (read_u32 (field 0 4 cs)) (\<lambda>pp. bind_res (read_u32 (field 4 4 cs)) (\<lambda>sp.
     bind_res (c_str (field 8 10 cs)) (\<lambda>t. bind_res (c_str (field 18 20 cs)) (\<lambda>h.
     bind_res (c_str (field 38 20 cs)) (\<lambda>ph.
       Inr \<lparr>ntp_proxy_server_port = pp, ntp_server_port = sp, ntp_tunnel_id = t,
            ntp_server_host = h, ntp_proxy_server_host = ph\<rparr>)))))"

record NotifyClientNeedProxyMsg =
  ncp_tunnel_id :: "u8 list"
  ncp_proxy_server_port :: u32

definition enc_NotifyClient :: "NotifyClientNeedProxyMsg \<Rightarrow> cell list res" where
  "enc_NotifyClient m =
     bind_res (strcpy_into (uninit 10) (ncp_tunnel_id m)) (\<lambda>t.
       Inr (t @ uninit 2 @ cells (le32 (ncp_proxy_server_port m))))"

definition dec_NotifyClient :: "cell list \<Rightarrow> NotifyClientNeedProxyMsg res" where
  "dec_NotifyClient cs =
     bind_res (c_str (field 0 10 cs)) (\<lambda>t. bind_res (read_u32 (field 12 4 cs)) (\<lambda>p.
       Inr \<lparr>ncp_tunnel_id = t, ncp_proxy_server_port = p\<rparr>))"

text \<open>The byte count travels in network order (\<open>htonl\<close> at the sender).\<close>

record ShutdownPeerConnMsg =
  spc_tunnel_id :: "u8 list"
  spc_proxy_id :: "u8 list"
  spc_tran_count :: u32

definition enc_ShutdownPeerConn :: "ShutdownPeerConnMsg \<Rightarrow> cell list res" where
  "enc_ShutdownPeerConn m =
     bind_res (strcpy_into (uninit 10) (spc_tunnel_id m)) (\<lambda>t.
     bind_res (strcpy_into (uninit 10) (spc_proxy_id m)) (\<lambda>p.
       Inr (t @ p @ cells (le32 (htonl (spc_tran_count m))))))"

definition dec_ShutdownPeerConn :: "cell list \<Rightarrow> ShutdownPeerConnMsg res" where
  "dec_ShutdownPeerConn cs =
     bind_res (read_u32 (field 20 4 cs)) (\<lambda>n. bind_res (c_str (field 0 10 cs)) (\<lambda>t.
     bind_res (c_str (field 10 10 cs)) (\<lambda>p.
       Inr \<lparr>spc_tunnel_id = t, spc_proxy_id = p, spc_tran_count = ntohl n\<rparr>)))"

record FreeProxyConnReqMsg =
  fpc_tun_id :: "u8 list"
  fpc_proxy_id :: "u8 list"

definition enc_FreeConnReq :: "FreeProxyConnReqMsg \<Rightarrow> cell list res" where
  "enc_FreeConnReq m =
     bind_res (strcpy_into (uninit 10) (fpc_tun_id m)) (\<lambda>t.
     bind_res (strcpy_into (uninit 10) (fpc_proxy_id m)) (\<lambda>p. Inr (t @ p)))"

definition dec_FreeConnReq :: "cell list \<Rightarrow> FreeProxyConnReqMsg res" where
  "dec_FreeConnReq cs =
     bind_res (c_str (field 0 10 cs)) (\<lambda>t. bind_res (c_str (field 10 10 cs)) (\<lambda>p.
       Inr \<lparr>fpc_tun_id = t, fpc_proxy_id = p\<rparr>))"

text \<open>\<open>NewResponseMsg\<close> is a string of the frame's length (a zero-length array, so the
  structure itself has no bytes); the sender zeroes the block it allocates.\<close>

definition enc_NewResponse :: "u8 list \<Rightarrow> cell list res" where
  "enc_NewResponse ctl_id = strcpy_into (zeroed (length ctl_id + 1)) ctl_id"

definition dec_NewResponse :: "cell list \<Rightarrow> u8 list res" where
  "dec_NewResponse cs = c_str cs"

record ProxyMetaSetMsg =
  pms_ctl_id :: "u8 list"
  pms_tun_id :: "u8 list"
  pms_proxy_id :: "u8 list"

definition enc_ProxyMetaSet :: "ProxyMetaSetMsg \<Rightarrow> cell list res" where
  "enc_ProxyMetaSet m =
     bind_res (strcpy_into (zeroed 10) (pms_ctl_id m)) (\<lambda>c.
     bind_res (strcpy_into (zeroed 10) (pms_tun_id m)) (\<lambda>t.
     bind_res (strcpy_into (zeroed 10) (pms_proxy_id m)) (\<lambda>p. Inr (c @ t @ p))))"

definition dec_ProxyMetaSet :: "cell list \<Rightarrow> ProxyMetaSetMsg res" where
  "dec_ProxyMetaSet cs =
     bind_res (c_str (field 0 10 cs)) (\<lambda>c. bind_res (c_str (field 10 10 cs)) (\<lambda>t.
     bind_res (c_str (field 20 10 cs)) (\<lambda>p.
       Inr \<lparr>pms_ctl_id = c, pms_tun_id = t, pms_proxy_id = p\<rparr>)))"

text \<open>Request and response to reuse a connection have the same layout.\<close>

record ProxyConnectMsg =
  pcm_fd :: u32
  pcm_proxy_id :: "u8 list"

definition enc_ProxyConnect :: "ProxyConnectMsg \<Rightarrow> cell list res" where
  "enc_ProxyConnect m =
     bind_res (strcpy_into (uninit 10) (pcm_proxy_id m)) (\<lambda>p.
       Inr (cells (le32 (htonl (pcm_fd m))) @ p @ uninit 2))"

definition dec_ProxyConnect :: "cell list \<Rightarrow> ProxyConnectMsg res" where
  "dec_ProxyConnect cs =
     bind_res (c_str (field 4 10 cs)) (\<lambda>p. bind_res (read_u32 (field 0 4 cs)) (\<lambda>n.
       Inr \<lparr>pcm_fd = ntohl n, pcm_proxy_id = p\<rparr>))"

text \<open>A string that fits an array of \<open>n\<close> characters with its terminator.\<close>

definition fits :: "nat \<Rightarrow> u8 list \<Rightarrow> bool" where
  "fits n s \<longleftrightarrow> c_string s \<and> length s < n"

lemma strcpy_fits:
  assumes "fits n s" "length old = n"
  shows "\<exists>new. strcpy_into old s = Inr new \<and> length new = n \<and> c_str new = Inr s"
  using assms strcpy_into_ok [of s old] length_strcpy_into [of old s] c_str_strcpy [of old s]
  by (metis fits_def)

lemma strcpy_uninit: "fits n s \<Longrightarrow>
    \<exists>new. strcpy_into (uninit n) s = Inr new \<and> length new = n \<and> c_str new = Inr s"
  by (rule strcpy_fits) simp_all

lemma strcpy_zeroed: "fits n s \<Longrightarrow>
    \<exists>new. strcpy_into (zeroed n) s = Inr new \<and> length new = n \<and> c_str new = Inr s"
  by (rule strcpy_fits) simp_all

lemmas enc_defs [wire_simps] = enc_NewTunnelReq_def enc_NewTunnelRsp_def enc_NotifyClient_def
  enc_ShutdownPeerConn_def enc_FreeConnReq_def enc_NewResponse_def enc_ProxyMetaSet_def
  enc_ProxyConnect_def

lemmas dec_defs [wire_simps] = dec_NewTunnelReq_def dec_NewTunnelRsp_def dec_NotifyClient_def
  dec_ShutdownPeerConn_def dec_FreeConnReq_def dec_NewResponse_def dec_ProxyMetaSet_def
  dec_ProxyConnect_def

lemma read_u32_cells [simp]: "read_u32 (cells (le32 w)) = Inr w"
  using read_u32_le32 [of w "[]"] by simp

section \<open>The contract of a structure\<close>

locale wire_struct =
  fixes enc :: "'a \<Rightarrow> cell list res"
    and dec :: "cell list \<Rightarrow> 'a res"
    and wf :: "'a \<Rightarrow> bool"
    and nbytes :: "'a \<Rightarrow> nat"
  assumes enc_dec: "wf x \<Longrightarrow> \<exists>cs. enc x = Inr cs \<and> length cs = nbytes x \<and> dec cs = Inr x"
    and fits_frame: "wf x \<Longrightarrow> nbytes x \<le> 1024"
begin

text \<open>Packing a structure in a frame and copying the body out again gives it back.\<close>

lemma frame_roundtrip:
  assumes "wf x"
  shows "\<exists>cs m. enc x = Inr cs \<and> MakeMsg t cs (length cs) = Inr m \<and>
           bind_res (copy_body (nbytes x) m) dec = Inr x"
proof -
  obtain cs where cs: "enc x = Inr cs" "length cs = nbytes x" "dec cs = Inr x"
    using enc_dec [OF assms] by blast
  with fits_frame [OF assms] MakeMsg_ok [of "nbytes x" cs t] copy_body_exact show ?thesis
    by (metis bind_res_simps(2))
qed

lemma proxy_frame_roundtrip:
  assumes "wf x"
  shows "\<exists>cs m. enc x = Inr cs \<and> makeProxyMsg t cs (length cs) = Inr m \<and>
           bind_res (copy_body (nbytes x) m) dec = Inr x"
proof -
  obtain cs where cs: "enc x = Inr cs" "length cs = nbytes x" "dec cs = Inr x"
    using enc_dec [OF assms] by blast
  with fits_frame [OF assms] makeProxyMsg_ok [of "nbytes x" cs t] copy_body_exact show ?thesis
    by (metis bind_res_simps(2))
qed

lemma enc_inj: "wf x \<Longrightarrow> wf y \<Longrightarrow> enc x = enc y \<Longrightarrow> x = y"
  using enc_dec [of x] enc_dec [of y] by auto

end

interpretation ws_tunnel_req: wire_struct enc_NewTunnelReq dec_NewTunnelReq
    "\<lambda>m. fits 20 (ntq_server_host m)" "\<lambda>_. 24"
proof (unfold_locales, goal_cases)
  case (1 m)
  then obtain h where "strcpy_into (uninit 20) (ntq_server_host m) = Inr h"
      "length h = 20" "c_str h = Inr (ntq_server_host m)"
    using strcpy_uninit by blast
  then show ?case by (simp add: wire_simps field_def)
qed simp

interpretation ws_tunnel_rsp: wire_struct enc_NewTunnelRsp dec_NewTunnelRsp
    "\<lambda>m. fits 10 (ntp_tunnel_id m) \<and> fits 20 (ntp_server_host m) \<and> fits 20 (ntp_proxy_server_host m)"
    "\<lambda>_. 60"
proof (unfold_locales, goal_cases)
  case (1 m)
  obtain t where "strcpy_into (uninit 10) (ntp_tunnel_id m) = Inr t"
      "length t = 10" "c_str t = Inr (ntp_tunnel_id m)"
    using 1 strcpy_uninit by blast
  moreover obtain h where "strcpy_into (uninit 20) (ntp_server_host m) = Inr h"
      "length h = 20" "c_str h = Inr (ntp_server_host m)"
    using 1 strcpy_uninit by blast
  moreover obtain p where "strcpy_into (uninit 20) (ntp_proxy_server_host m) = Inr p"
      "length p = 20" "c_str p = Inr (ntp_proxy_server_host m)"
    using 1 strcpy_uninit by blast
  ultimately show ?case by (simp add: wire_simps field_def)
qed simp

interpretation ws_notify: wire_struct enc_NotifyClient dec_NotifyClient
    "\<lambda>m. fits 10 (ncp_tunnel_id m)" "\<lambda>_. 16"
proof (unfold_locales, goal_cases)
  case (1 m)
  then obtain t where "strcpy_into (uninit 10) (ncp_tunnel_id m) = Inr t"
      "length t = 10" "c_str t = Inr (ncp_tunnel_id m)"
    using strcpy_uninit by blast
  then show ?case by (simp add: wire_simps field_def)
qed simp

interpretation ws_shutdown: wire_struct enc_ShutdownPeerConn dec_ShutdownPeerConn
    "\<lambda>m. fits 10 (spc_tunnel_id m) \<and> fits 10 (spc_proxy_id m)" "\<lambda>_. 24"
proof (unfold_locales, goal_cases)
  case (1 m)
  obtain t where "strcpy_into (uninit 10) (spc_tunnel_id m) = Inr t"
      "length t = 10" "c_str t = Inr (spc_tunnel_id m)"
    using 1 strcpy_uninit by blast
  moreover obtain p where "strcpy_into (uninit 10) (spc_proxy_id m) = Inr p"
      "length p = 10" "c_str p = Inr (spc_proxy_id m)"
    using 1 strcpy_uninit by blast
  ultimately show ?case by (simp add: wire_simps field_def)
qed simp

interpretation ws_free: wire_struct enc_FreeConnReq dec_FreeConnReq
    "\<lambda>m. fits 10 (fpc_tun_id m) \<and> fits 10 (fpc_proxy_id m)" "\<lambda>_. 20"
proof (unfold_locales, goal_cases)
  case (1 m)
  obtain t where "strcpy_into (uninit 10) (fpc_tun_id m) = Inr t"
      "length t = 10" "c_str t = Inr (fpc_tun_id m)"
    using 1 strcpy_uninit by blast
  moreover obtain p where "strcpy_into (uninit 10) (fpc_proxy_id m) = Inr p"
      "length p = 10" "c_str p = Inr (fpc_proxy_id m)"
    using 1 strcpy_uninit by blast
  ultimately show ?case by (simp add: wire_simps field_def)
qed simp

interpretation ws_response: wire_struct enc_NewResponse dec_NewResponse
    "\<lambda>s. c_string s \<and> length s < 1024" "\<lambda>s. length s + 1"
proof (unfold_locales, goal_cases)
  case (1 s)
  then obtain t where "strcpy_into (zeroed (length s + 1)) s = Inr t"
      "length t = length s + 1" "c_str t = Inr s"
    using strcpy_zeroed [of "length s + 1" s] by (auto simp: fits_def)
  then show ?case by (simp add: wire_simps)
qed simp

interpretation ws_meta: wire_struct enc_ProxyMetaSet dec_ProxyMetaSet
    "\<lambda>m. fits 10 (pms_ctl_id m) \<and> fits 10 (pms_tun_id m) \<and> fits 10 (pms_proxy_id m)" "\<lambda>_. 30"
proof (unfold_locales, goal_cases)
  case (1 m)
  obtain c where "strcpy_into (zeroed 10) (pms_ctl_id m) = Inr c"
      "length c = 10" "c_str c = Inr (pms_ctl_id m)"
    using 1 strcpy_zeroed by blast
  moreover obtain t where "strcpy_into (zeroed 10) (pms_tun_id m) = Inr t"
      "length t = 10" "c_str t = Inr (pms_tun_id m)"
    using 1 strcpy_zeroed by blast
  moreover obtain p where "strcpy_into (zeroed 10) (pms_proxy_id m) = Inr p"
      "length p = 10" "c_str p = Inr (pms_proxy_id m)"
    using 1 strcpy_zeroed by blast
  ultimately show ?case by (simp add: wire_simps field_def)
qed simp

interpretation ws_connect: wire_struct enc_ProxyConnect dec_ProxyConnect
    "\<lambda>m. fits 10 (pcm_proxy_id m)" "\<lambda>_. 16"
proof (unfold_locales, goal_cases)
  case (1 m)
  then obtain p where "strcpy_into (uninit 10) (pcm_proxy_id m) = Inr p"
      "length p = 10" "c_str p = Inr (pcm_proxy_id m)"
    using strcpy_uninit by blast
  then show ?case by (simp add: wire_simps field_def)
qed simp

end
