(* ===== verification/Reactor.thy ===== *)
theory Reactor
  imports Prelude
begin

text \<open>
  The event machinery of \<open>lib/\<close>: \<open>Channel\<close> (the events of one descriptor and their
  handlers), \<open>Epoll\<close> behind the abstract class \<open>Event\<close>, \<open>EventLoop\<close>, the thread
  that runs a loop (\<open>ThreadEventLoop\<close>) and the pool that hands the threads out in turn
  (\<open>ThreadEventLoopPoll\<close>).  A channel is shared, so tables hold references (\<open>'c\<close>).
\<close>

section \<open>Channel\<close>

definition EPOLLIN :: u32 where "EPOLLIN = 1"
definition EPOLLPRI :: u32 where "EPOLLPRI = 2"
definition EPOLLOUT :: u32 where "EPOLLOUT = 4"
definition EPOLLERR :: u32 where "EPOLLERR = 8"
definition EPOLLHUP :: u32 where "EPOLLHUP = 16"
definition EPOLLRDHUP :: u32 where "EPOLLRDHUP = 8192"
definition EPOLLET :: u32 where "EPOLLET = 2147483648"

lemmas epoll_flags = EPOLLIN_def EPOLLPRI_def EPOLLOUT_def EPOLLERR_def EPOLLHUP_def
  EPOLLRDHUP_def EPOLLET_def

record channel =
  ch_fd :: int
  ch_close_and_delete :: bool
  ch_events :: u32
  ch_revents :: u32
  ch_closed :: bool

text \<open>The constructor sets two members; the others hold whatever the memory held.\<close>

definition new_channel :: "int \<Rightarrow> u32 \<Rightarrow> u32 \<Rightarrow> bool \<Rightarrow> channel" where
  "new_channel fd junk_events junk_revents junk_closed =
     \<lparr>ch_fd = fd, ch_close_and_delete = True, ch_events = junk_events,
      ch_revents = junk_revents, ch_closed = junk_closed\<rparr>"

definition SetEvents :: "u32 \<Rightarrow> channel \<Rightarrow> channel" where
  "SetEvents ev c = c\<lparr>ch_events := ev\<rparr>"

definition SetRevents :: "u32 \<Rightarrow> channel \<Rightarrow> channel" where
  "SetRevents ev c = c\<lparr>ch_revents := ev\<rparr>"

definition Addevents :: "u32 \<Rightarrow> channel \<Rightarrow> channel" where
  "Addevents ev c = c\<lparr>ch_events := ch_events c OR ev\<rparr>"

text \<open>The destructor: the descriptors it closes.\<close>

definition delete_channel :: "channel \<Rightarrow> int list" where
  "delete_channel c = (if ch_close_and_delete c then [ch_fd c] else [])"

text \<open>
  The handlers are closures over the owner of the channel; they act on the channel and the
  owner's state \<open>'o\<close>.
\<close>

record 'o handlers =
  read_handler :: "channel \<times> 'o \<Rightarrow> (channel \<times> 'o) res"
  write_handler :: "channel \<times> 'o \<Rightarrow> (channel \<times> 'o) res"
  error_handler :: "channel \<times> 'o \<Rightarrow> (channel \<times> 'o) res"
  every_handler :: "channel \<times> 'o \<Rightarrow> (channel \<times> 'o) res"

definition no_handlers :: "'o handlers" where
  "no_handlers = \<lparr>read_handler = Inr, write_handler = Inr, error_handler = Inr, every_handler = Inr\<rparr>"

definition raised :: "u32 \<Rightarrow> channel \<Rightarrow> bool" where
  "raised fl c \<longleftrightarrow> ch_revents c AND fl \<noteq> 0"

definition mark_closed :: "u32 \<Rightarrow> channel \<Rightarrow> channel" where
  "mark_closed fl c = (if raised fl c then c\<lparr>ch_closed := True\<rparr> else c)"

definition HandleEvents :: "'o handlers \<Rightarrow> channel \<times> 'o \<Rightarrow> (channel \<times> 'o) res" where
  "HandleEvents h = (\<lambda>(c, ow).
     let c1 = c\<lparr>ch_events := 0\<rparr>
     in if ch_revents c1 = 0 then Inr (c1, ow)
     else let c2 = mark_closed EPOLLHUP c1
     in bind_res (if raised EPOLLERR c2 then error_handler h (c2, ow) else Inr (c2, ow))
     (\<lambda>(c3, ow3). let c4 = mark_closed EPOLLRDHUP c3
     in bind_res (if raised (EPOLLIN OR EPOLLPRI) c4 then read_handler h (c4, ow3) else Inr (c4, ow3))
     (\<lambda>(c5, ow5).
     bind_res (if raised EPOLLOUT c5 \<and> \<not> ch_closed c5 then write_handler h (c5, ow5) else Inr (c5, ow5))
     (\<lambda>s. every_handler h s))))"

section \<open>Epoll\<close>

definition MAXFD :: int where "MAXFD = 10000"

text \<open>The table from descriptors to channels; \<open>epoll_ctl\<close> answers with \<open>ret\<close>.\<close>

type_synonym 'c epoll = "int \<Rightarrow> 'c option"

definition slot_update :: "'c epoll \<Rightarrow> int \<Rightarrow> 'c option \<Rightarrow> 'c epoll res" where
  "slot_update ep fd c = (if 0 \<le> fd \<and> fd < MAXFD then Inr (ep(fd := c)) else Inl OutOfBounds)"

definition PollAdd :: "'c epoll \<Rightarrow> int \<Rightarrow> 'c \<Rightarrow> int \<Rightarrow> 'c epoll res" where
  "PollAdd ep fd c ret = (if ret < 0 then Inr ep else slot_update ep fd (Some c))"

definition PollMod :: "'c epoll \<Rightarrow> int \<Rightarrow> int \<Rightarrow> 'c epoll res" where
  "PollMod ep fd ret = (if ret < 0 then slot_update ep fd None else Inr ep)"

definition PollDel :: "'c epoll \<Rightarrow> int \<Rightarrow> int \<Rightarrow> 'c epoll res" where
  "PollDel ep fd ret = (if ret < 0 then slot_update ep fd None else Inr ep)"

text \<open>The channels of the reported events with the events they are given.\<close>

fun getReadyChannels :: "'c epoll \<Rightarrow> (int \<times> u32) list \<Rightarrow> ('c \<times> u32) list res" where
  "getReadyChannels ep [] = Inr []"
| "getReadyChannels ep ((fd, ev) # evs) =
     (if 0 \<le> fd \<and> fd < MAXFD then
        bind_res (getReadyChannels ep evs) (\<lambda>rest.
          Inr (case ep fd of Some c \<Rightarrow> (c, ev) # rest | None \<Rightarrow> rest))
      else Inl OutOfBounds)"

datatype epoll_result = WaitFailed | WaitEvents "(int \<times> u32) list"

text \<open>
  \<open>WaitChannels\<close> asks again until some channel is ready; the list holds the answers of
  \<open>epoll_wait\<close> (a time-out is an empty list), \<open>None\<close> that it still waits.
\<close>

fun WaitChannels :: "'c epoll \<Rightarrow> epoll_result list
    \<Rightarrow> (('c \<times> u32) list res \<times> epoll_result list) option" where
  "WaitChannels ep [] = None"
| "WaitChannels ep (WaitFailed # ws) = WaitChannels ep ws"
| "WaitChannels ep (WaitEvents evs # ws) =
     (case getReadyChannels ep evs of
        Inl f \<Rightarrow> Some (Inl f, ws)
      | Inr ready \<Rightarrow> if length ready > 0 then Some (Inr ready, ws) else WaitChannels ep ws)"

text \<open>One round of \<open>EventLoop::Loop\<close>: the ready channels are handled in order.\<close>

fun Loop_round :: "('c \<times> u32 \<Rightarrow> 's \<Rightarrow> 's res) \<Rightarrow> ('c \<times> u32) list \<Rightarrow> 's \<Rightarrow> 's res" where
  "Loop_round handle [] s = Inr s"
| "Loop_round handle (c # cs) s = bind_res (handle c s) (Loop_round handle cs)"

text \<open>What a loop relies on: registration is per descriptor.\<close>

locale event_source =
  fixes add :: "'p \<Rightarrow> int \<Rightarrow> 'c \<Rightarrow> int \<Rightarrow> 'p res"
    and modify :: "'p \<Rightarrow> int \<Rightarrow> int \<Rightarrow> 'p res"
    and channel_of :: "'p \<Rightarrow> int \<Rightarrow> 'c option"
    and in_range :: "int \<Rightarrow> bool"
  assumes add_registers:
      "in_range fd \<Longrightarrow> 0 \<le> ret \<Longrightarrow> \<exists>p'. add p fd c ret = Inr p' \<and> channel_of p' fd = Some c \<and>
         (\<forall>g. g \<noteq> fd \<longrightarrow> channel_of p' g = channel_of p g)"
    and modify_keeps: "0 \<le> ret \<Longrightarrow> modify p fd ret = Inr p"
begin

lemma add_then_modify:
  assumes "in_range fd" "0 \<le> ret" "0 \<le> ret'"
  shows "\<exists>p'. bind_res (add p fd c ret) (\<lambda>p'. modify p' fd ret') = Inr p' \<and> channel_of p' fd = Some c"
  using add_registers [OF assms(1,2), of p c] modify_keeps [OF assms(3)] by auto

lemma add_two:
  assumes "in_range f" "in_range g" "f \<noteq> g" "0 \<le> r" "0 \<le> r'"
  shows "\<exists>p'. bind_res (add p f c r) (\<lambda>p'. add p' g d r') = Inr p' \<and>
              channel_of p' f = Some c \<and> channel_of p' g = Some d"
proof -
  obtain p1 where "add p f c r = Inr p1" "channel_of p1 f = Some c"
    using add_registers [OF assms(1,4)] by blast
  with add_registers [OF assms(2,5), of p1 d] assms(3) show ?thesis by auto
qed

end

interpretation epoll: event_source PollAdd PollMod "\<lambda>ep. ep" "\<lambda>fd. 0 \<le> fd \<and> fd < MAXFD"
  by unfold_locales (auto simp: PollAdd_def PollMod_def slot_update_def)

section \<open>ThreadEventLoop\<close>

text \<open>
  The thread of a loop and the thread that waits for it.  \<open>start0\<close> is the initial value of
  \<open>start_\<close>, which no constructor sets.  The worker creates the loop, then sets \<open>start_\<close>
  under the mutex and notifies; \<open>StartRun\<close> waits while \<open>start_\<close> is false.
\<close>

datatype worker_pc = Spawned | LoopMade | Running
datatype starter_pc = Constructing | InStartRun | Returned

record thread_loop =
  tl_loop :: bool
  tl_start :: bool
  tl_worker :: worker_pc
  tl_starter :: starter_pc

definition new_thread_loop :: "bool \<Rightarrow> thread_loop" where
  "new_thread_loop start0 = \<lparr>tl_loop = False, tl_start = start0, tl_worker = Spawned,
     tl_starter = Constructing\<rparr>"

inductive tl_step :: "thread_loop \<Rightarrow> thread_loop \<Rightarrow> bool" where
  WaitRun_make_loop:
    "tl_worker s = Spawned \<Longrightarrow> \<not> tl_loop s \<Longrightarrow>
     tl_step s (s\<lparr>tl_loop := True, tl_worker := LoopMade\<rparr>)"
| WaitRun_notify:
    "tl_worker s = LoopMade \<Longrightarrow> tl_step s (s\<lparr>tl_start := True, tl_worker := Running\<rparr>)"
| StartRun_enter:
    "tl_starter s = Constructing \<Longrightarrow> tl_step s (s\<lparr>tl_starter := InStartRun\<rparr>)"
| StartRun_return:
    "tl_starter s = InStartRun \<Longrightarrow> tl_start s \<Longrightarrow> tl_step s (s\<lparr>tl_starter := Returned\<rparr>)"

inductive_cases tl_stepE: "tl_step s t"

inductive tl_reachable :: "bool \<Rightarrow> thread_loop \<Rightarrow> bool" for start0 where
  tl_init: "tl_reachable start0 (new_thread_loop start0)"
| tl_next: "tl_reachable start0 s \<Longrightarrow> tl_step s t \<Longrightarrow> tl_reachable start0 t"

definition tl_inv :: "thread_loop \<Rightarrow> bool" where
  "tl_inv s \<longleftrightarrow> (tl_start s \<longleftrightarrow> tl_worker s = Running) \<and> (tl_loop s \<longleftrightarrow> tl_worker s \<noteq> Spawned) \<and>
     (tl_starter s = Returned \<longrightarrow> tl_start s)"

lemma tl_step_inv: "tl_step s t \<Longrightarrow> tl_inv s \<Longrightarrow> tl_inv t"
  by (auto elim!: tl_stepE simp: tl_inv_def)

lemma tl_reachable_inv: "tl_reachable False s \<Longrightarrow> tl_inv s"
proof (induction rule: tl_reachable.induct)
  case tl_init
  show ?case by (simp add: tl_inv_def new_thread_loop_def)
next
  case (tl_next s t)
  then show ?case by (blast intro: tl_step_inv)
qed

section \<open>The pool\<close>

record 't pool =
  po_thread_num :: int
  po_next_thread_id :: int
  po_threads :: "'t list"

definition new_pool :: "int \<Rightarrow> 't pool" where
  "new_pool thread_num =
     \<lparr>po_thread_num = (if thread_num > 0 then thread_num else 1), po_next_thread_id = 0, po_threads = []\<rparr>"

text \<open>\<open>Run\<close>: the threads it makes are given in the order of their creation.\<close>

definition pool_Run :: "(nat \<Rightarrow> 't) \<Rightarrow> 't pool \<Rightarrow> 't pool" where
  "pool_Run mk p = p\<lparr>po_threads := po_threads p @ map mk [0..<nat (po_thread_num p)]\<rparr>"

definition PickRandThread :: "'t pool \<Rightarrow> ('t \<times> 't pool) res" where
  "PickRandThread p =
     (if 0 \<le> po_next_thread_id p \<and> po_next_thread_id p < int (length (po_threads p))
      then Inr (po_threads p ! nat (po_next_thread_id p),
                p\<lparr>po_next_thread_id := (po_next_thread_id p + 1) mod po_thread_num p\<rparr>)
      else Inl OutOfBounds)"

fun draws :: "('s \<Rightarrow> ('a \<times> 's) res) \<Rightarrow> nat \<Rightarrow> 's \<Rightarrow> ('a list \<times> 's) res" where
  "draws draw 0 s = Inr ([], s)"
| "draws draw (Suc n) s =
     bind_res (draw s) (\<lambda>(x, s'). bind_res (draws draw n s') (\<lambda>(xs, s''). Inr (x # xs, s'')))"

text \<open>A source that hands out the elements of a list in turn.\<close>

locale cyclic_source =
  fixes draw :: "'s \<Rightarrow> ('a \<times> 's) res"
    and state_at :: "nat \<Rightarrow> 's"
    and items :: "'a list"
  assumes items_nonempty: "items \<noteq> []"
    and draw_at: "i < length items \<Longrightarrow> draw (state_at i) = Inr (items ! i, state_at (Suc i mod length items))"
begin

lemma draws_at:
  assumes "i < length items"
  shows "draws draw n (state_at i) =
           Inr (map (\<lambda>k. items ! ((i + k) mod length items)) [0..<n], state_at ((i + n) mod length items))"
  using assms
proof (induction n arbitrary: i)
  case 0
  then show ?case by simp
next
  case (Suc n)
  have lt: "Suc i mod length items < length items" using items_nonempty by simp
  have shift: "(Suc i mod length items + k) mod length items = (i + Suc k) mod length items" for k
    by (simp add: mod_add_left_eq)
  have "[0..<Suc n] = 0 # map Suc [0..<n]" by (metis map_Suc_upt upt_conv_Cons zero_less_Suc)
  then have "map (\<lambda>k. items ! ((i + k) mod length items)) [0..<Suc n]
      = items ! i # map (\<lambda>k. items ! ((Suc i mod length items + k) mod length items)) [0..<n]"
    using Suc.prems unfolding shift by (simp add: comp_def)
  then show ?case
    unfolding draws.simps draw_at [OF Suc.prems] bind_res_simps prod.case Suc.IH [OF lt] shift
    by simp
qed

end

definition running_pool :: "'t list \<Rightarrow> nat \<Rightarrow> 't pool" where
  "running_pool ts i =
     \<lparr>po_thread_num = int (length ts), po_next_thread_id = int i, po_threads = ts\<rparr>"

lemma PickRandThread_at:
  "i < length ts \<Longrightarrow>
   PickRandThread (running_pool ts i) = Inr (ts ! i, running_pool ts (Suc i mod length ts))"
  by (simp add: PickRandThread_def running_pool_def zmod_int add.commute)

interpretation pool4: cyclic_source PickRandThread "running_pool (a # ts)" "a # ts" for a ts
  by unfold_locales (simp_all add: PickRandThread_at del: length_Cons)

lemma pool_Run_running:
  "0 < n \<Longrightarrow> pool_Run mk (new_pool (int n)) = running_pool (map mk [0..<n]) 0"
  by (simp add: pool_Run_def new_pool_def running_pool_def)

section \<open>Properties\<close>

text \<open>The handlers that record which of them ran.\<close>

datatype callback = CbRead | CbWrite | CbError | CbEvery

definition log_handlers :: "callback list handlers" where
  "log_handlers = \<lparr>read_handler = (\<lambda>(c, l). Inr (c, l @ [CbRead])),
     write_handler = (\<lambda>(c, l). Inr (c, l @ [CbWrite])),
     error_handler = (\<lambda>(c, l). Inr (c, l @ [CbError])),
     every_handler = (\<lambda>(c, l). Inr (c, l @ [CbEvery]))\<rparr>"

text \<open>\<open>HandleEvents\<close> calls, in this order and at most once each, the error handler on
  EPOLLERR, the read handler on EPOLLIN or EPOLLPRI, the write handler on EPOLLOUT only when the
  peer has not closed (neither now nor before), and the final handler; with no event pending it
  calls none; and it marks the channel closed exactly when EPOLLHUP or EPOLLRDHUP is reported.\<close>

theorem HandleEvents_order:
  "HandleEvents log_handlers (c, []) =
     (let hung = ch_closed c \<or> raised EPOLLHUP c \<or> raised EPOLLRDHUP c
      in if ch_revents c = 0 then Inr (c\<lparr>ch_events := 0\<rparr>, [])
         else Inr (c\<lparr>ch_events := 0, ch_closed := hung\<rparr>,
           (if raised EPOLLERR c then [CbError] else []) @
           (if raised (EPOLLIN OR EPOLLPRI) c then [CbRead] else []) @
           (if raised EPOLLOUT c \<and> \<not> hung then [CbWrite] else []) @ [CbEvery]))"
  by (cases c) (simp add: HandleEvents_def log_handlers_def mark_closed_def raised_def Let_def)

text \<open>The pool hands its threads out strictly in turn: after \<open>Run\<close> with \<open>n\<close> threads,
  the \<open>k\<close>-th call of \<open>PickRandThread\<close> returns thread \<open>k mod n\<close>, and no call indexes
  outside the vector.\<close>

theorem PickRandThread_round_robin:
  assumes "0 < n"
  shows "\<exists>p. draws PickRandThread m (pool_Run mk (new_pool (int n)))
           = Inr (map (\<lambda>k. mk (k mod n)) [0..<m], p)"
proof -
  let ?ts = "map mk [0..<n]"
  obtain a ts where ts: "?ts = a # ts" using assms by (cases ?ts) auto
  have len: "length (a # ts) = n" by (simp flip: ts)
  have "draws PickRandThread m (running_pool (a # ts) 0)
      = Inr (map (\<lambda>k. (a # ts) ! (k mod n)) [0..<m], running_pool (a # ts) (m mod n))"
    using pool4.draws_at [of 0 a ts m] len by simp
  moreover have "(a # ts) ! (k mod n) = mk (k mod n)" for k
    using assms by (simp flip: ts)
  ultimately show ?thesis using pool_Run_running [OF assms, of mk] ts by simp
qed

lemma PickRandThread_round_robin_witness:
  "\<exists>p. draws PickRandThread 5 (pool_Run (\<lambda>i. i) (new_pool 2)) = Inr ([0, 1, 0, 1, 0], p)"
  using PickRandThread_round_robin [of 2 5 "\<lambda>i. i"] by (simp add: upt_rec)

text \<open>When \<open>start_\<close> begins as false, \<open>StartRun\<close> returns only after the worker thread
  has created its event loop, in every interleaving of the two threads, so \<open>GetLoop\<close> is never
  null for a thread of the pool.\<close>

theorem StartRun_waits_for_loop:
  assumes "tl_reachable False s" "tl_starter s = Returned"
  shows "tl_loop s"
  using tl_reachable_inv [OF assms(1)] assms(2) by (auto simp: tl_inv_def)

lemma StartRun_waits_for_loop_witness:
  "tl_loop \<lparr>tl_loop = True, tl_start = True, tl_worker = Running, tl_starter = Returned\<rparr>"
proof (rule StartRun_waits_for_loop)
  let ?s = "new_thread_loop False"
  have "tl_reachable False (?s\<lparr>tl_loop := True, tl_worker := LoopMade\<rparr>)" (is "tl_reachable _ ?s1")
    by (rule tl_next [OF tl_init WaitRun_make_loop]) (simp_all add: new_thread_loop_def)
  then have "tl_reachable False (?s1\<lparr>tl_start := True, tl_worker := Running\<rparr>)" (is "tl_reachable _ ?s2")
    by (rule tl_next [OF _ WaitRun_notify]) simp
  then have "tl_reachable False (?s2\<lparr>tl_starter := InStartRun\<rparr>)" (is "tl_reachable _ ?s3")
    by (rule tl_next [OF _ StartRun_enter]) (simp add: new_thread_loop_def)
  then have "tl_reachable False (?s3\<lparr>tl_starter := Returned\<rparr>)"
    by (rule tl_next [OF _ StartRun_return]) simp_all
  then show "tl_reachable False
      \<lparr>tl_loop = True, tl_start = True, tl_worker = Running, tl_starter = Returned\<rparr>"
    by (simp add: new_thread_loop_def)
qed simp

text \<open>The member \<open>start_\<close> is never initialised: if the memory happens to hold a non-zero
  byte, \<open>StartRun\<close> can return before the worker has created the loop, and \<open>GetLoop\<close>
  is null.\<close>

theorem StartRun_uninitialised_race:
  "\<exists>s. tl_reachable True s \<and> tl_starter s = Returned \<and> \<not> tl_loop s"
proof -
  let ?s = "new_thread_loop True"
  have "tl_reachable True (?s\<lparr>tl_starter := InStartRun\<rparr>)" (is "tl_reachable _ ?s1")
    by (rule tl_next [OF tl_init StartRun_enter]) (simp add: new_thread_loop_def)
  then have "tl_reachable True (?s1\<lparr>tl_starter := Returned\<rparr>)" (is "tl_reachable _ ?s2")
    by (rule tl_next [OF _ StartRun_return]) (simp_all add: new_thread_loop_def)
  then show ?thesis by (intro exI [of _ ?s2]) (simp add: new_thread_loop_def)
qed

text \<open>Removing a descriptor from the poller leaves its channel in the table when
  \<open>epoll_ctl\<close> succeeds (only the error path drops it): the table still shares the channel
  after the connection is gone, so the channel's destructor, which closes the descriptor, does not
  run.\<close>

theorem PollDel_keeps_channel:
  assumes "0 \<le> fd" "fd < MAXFD" "0 \<le> add_ret" "0 \<le> del_ret"
  shows "\<exists>ep'. bind_res (PollAdd ep fd c add_ret) (\<lambda>ep'. PollDel ep' fd del_ret) = Inr ep' \<and>
               ep' fd = Some c"
  using epoll.add_registers [of fd add_ret ep c] assms by (auto simp: PollDel_def)

lemma PollDel_keeps_channel_witness:
  "\<exists>ep'. bind_res (PollAdd (\<lambda>_. None) 7 (1 :: nat) 0) (\<lambda>ep'. PollDel ep' 7 0) = Inr ep' \<and>
         ep' 7 = Some 1"
  by (rule PollDel_keeps_channel) (simp_all add: MAXFD_def)

end
