(* ===== verification/CtlConn.thy ===== *)
theory CtlConn
  imports RingBuffer Utils Wire Reactor
begin

text \<open>
  \<open>lib/Connect.h\<close>, \<open>lib/CtlConnect.h\<close> and \<open>lib/CtlConnect.cpp\<close>: the control
  connection between the proxy server and the proxy client.  Its state is the channel, the record
  \<open>ctl_conn\<close> and the state \<open>'a\<close> of the application whose callbacks it calls.
  \<open>cc_src\<close> is the kernel's side of the incoming stream, \<open>cc_sent\<close> what the kernel has
  taken of the outgoing one, \<open>cc_armed\<close> the interest registered with epoll.
\<close>

section \<open>Reading a frame\<close>

text \<open>
  The part of \<open>HandlerRead\<close> that reads one message into a local, uninitialised \<open>Msg\<close>:
  no message when the stream is at its end, too short or announces too long a message.  The
  proxy connection's \<open>handleRead\<close> repeats this code.
\<close>

definition frame_of :: "u32 \<Rightarrow> cell list \<Rightarrow> Msg res" where
  "frame_of len bs =
     (let mem = bs @ uninit (sizeof_Msg - 4 - length bs)
      in bind_res (read_u32 (take 4 mem)) (\<lambda>ty.
           Inr \<lparr>msg_len = len, msg_type = ty, msg_data = drop 4 mem\<rparr>))"

definition read_body :: "nat \<Rightarrow> 'k reader \<Rightarrow> 'k \<Rightarrow> bool \<Rightarrow> u32
    \<Rightarrow> (Msg option res \<times> bool \<times> 'k) option" where
  "read_body fuel rd q em len =
     (let body_size = u64 (uint len - 4)
      in case readn fuel rd q body_size em of
           None \<Rightarrow> None
         | Some (read_num, bs, em', q') \<Rightarrow>
             if read_num = 0 \<and> em' then Some (Inr None, em', q')
             else if read_num \<noteq> body_size then Some (Inr None, em', q')
             else Some (bind_res (frame_of len bs) (\<lambda>m. Inr (Some m)), em', q'))"

definition read_frame :: "nat \<Rightarrow> 'k reader \<Rightarrow> 'k \<Rightarrow> bool \<Rightarrow> (Msg option res \<times> bool \<times> 'k) option" where
  "read_frame fuel rd q em =
     (case readn fuel rd q 4 em of
        None \<Rightarrow> None
      | Some (read_num, bs, em', q') \<Rightarrow>
          if read_num = 0 \<and> em' then Some (Inr None, em', q')
          else if read_num \<noteq> 4 then Some (Inr None, em', q')
          else (case read_u32 bs of
                  Inl f \<Rightarrow> Some (Inl f, em', q')
                | Inr n \<Rightarrow>
                    if uint (ntohl n) > int sizeof_Msg then Some (Inr None, em', q')
                    else read_body fuel rd q' em' (ntohl n)))"

section \<open>The connection\<close>

record 'k ctl_conn =
  cc_fd :: int
  cc_in_buffer_empty :: bool
  cc_out_buf :: buffer
  cc_ctl_id :: "u8 list"
  cc_src :: 'k
  cc_sent :: "cell list"
  cc_armed :: "u32 option"

type_synonym ('k, 'a) ctl_state = "channel \<times> 'k ctl_conn \<times> 'a"

text \<open>The constructor; \<open>in_buffer_empty_\<close> is not initialised.\<close>

definition new_ctl_conn :: "int \<Rightarrow> bool \<Rightarrow> 'k \<Rightarrow> channel \<Rightarrow> (channel \<times> 'k ctl_conn) res" where
  "new_ctl_conn fd junk_empty src ch =
     bind_res (new_buffer 1024 40960) (\<lambda>b.
       Inr (SetEvents (EPOLLET OR EPOLLIN OR EPOLLOUT OR EPOLLRDHUP) ch,
            \<lparr>cc_fd = fd, cc_in_buffer_empty = junk_empty, cc_out_buf = b, cc_ctl_id = [],
             cc_src = src, cc_sent = [], cc_armed = None\<rparr>))"

text \<open>\<open>ModToPoller\<close>: \<open>ret\<close> is the answer of \<open>epoll_ctl\<close>; on failure the poller
  forgets the channel.\<close>

definition ctl_ModToPoller :: "int \<Rightarrow> ('k, 'a) ctl_state \<Rightarrow> ('k, 'a) ctl_state" where
  "ctl_ModToPoller ret = (\<lambda>(c, cc, a).
     (c, cc\<lparr>cc_armed := (if ret < 0 then None else Some (ch_events c))\<rparr>, a))"

text \<open>The bytes \<open>SendMsg\<close> queues: the image with its length in network order.\<close>

definition wire_of :: "Msg \<Rightarrow> cell list" where
  "wire_of m = take (unat (msg_len m)) (msg_image (m\<lparr>msg_len := htonl (msg_len m)\<rparr>))"

definition ctl_SendMsg :: "int \<Rightarrow> Msg \<Rightarrow> ('k, 'a) ctl_state \<Rightarrow> ('k, 'a) ctl_state res" where
  "ctl_SendMsg ret m = (\<lambda>(c, cc, a).
     let len = uint (msg_len m);
         image = msg_image (m\<lparr>msg_len := htonl (msg_len m)\<rparr>)
     in bind_res (WriteToBuffer (cc_out_buf cc) image (wrap32 len)) (\<lambda>(b, write_num).
          if write_num \<noteq> len then Inr (c, cc\<lparr>cc_out_buf := b\<rparr>, a)
          else Inr (ctl_ModToPoller ret (Addevents EPOLLOUT c, cc\<lparr>cc_out_buf := b\<rparr>, a))))"

text \<open>The structure a message of each type is copied into, and its size.\<close>

fun ctl_struct_size :: "MsgType \<Rightarrow> Msg \<Rightarrow> nat" where
  "ctl_struct_size NewRequest m = 1"
| "ctl_struct_size NewResponse m = nat (getMsgBodySize m)"
| "ctl_struct_size NewTunnelReq m = 24"
| "ctl_struct_size NewTunnelRsp m = 60"
| "ctl_struct_size NotifyClient m = 16"
| "ctl_struct_size ShutdownPeerConn m = 24"
| "ctl_struct_size FreeConnReq m = 20"

definition ctl_struct :: "Msg \<Rightarrow> (MsgType \<times> cell list) option res" where
  "ctl_struct m =
     (case msg_of_code (msg_type m) of
        None \<Rightarrow> Inr None
      | Some t \<Rightarrow> bind_res (copy_body (ctl_struct_size t m) m) (\<lambda>body. Inr (Some (t, body))))"

text \<open>\<open>HandlerRead\<close> with the callbacks set by the application (\<open>cb\<close>).\<close>

definition ctl_HandlerRead :: "nat \<Rightarrow> 'k reader
    \<Rightarrow> (MsgType \<Rightarrow> cell list \<Rightarrow> ('k, 'a) ctl_state \<Rightarrow> ('k, 'a) ctl_state res)
    \<Rightarrow> ('k, 'a) ctl_state \<Rightarrow> ('k, 'a) ctl_state res" where
  "ctl_HandlerRead fuel rd cb = (\<lambda>(c, cc, a).
     case read_frame fuel rd (cc_src cc) (cc_in_buffer_empty cc) of
       None \<Rightarrow> Inl NotReturned
     | Some (frame, em, q) \<Rightarrow>
         (let cc' = cc\<lparr>cc_in_buffer_empty := em, cc_src := q\<rparr>
          in bind_res frame (\<lambda>mo. case mo of
               None \<Rightarrow> Inr (c, cc', a)
             | Some m \<Rightarrow> bind_res (ctl_struct m) (\<lambda>eo. case eo of
                   None \<Rightarrow> Inr (c, cc', a)
                 | Some (t, body) \<Rightarrow> cb t body (c, cc', a)))))"

definition ctl_HandlerWrite :: "nat \<Rightarrow> sys_write \<Rightarrow> ('k, 'a) ctl_state \<Rightarrow> ('k, 'a) ctl_state res" where
  "ctl_HandlerWrite fuel wr = (\<lambda>(c, cc, a).
     if getunused (cc_out_buf cc) \<le> 0 then Inr (c, cc, a)
     else case WriteToSocket fuel wr (cc_out_buf cc) of
       None \<Rightarrow> Inl NotReturned
     | Some (b, sent_num, sent) \<Rightarrow>
         Inr (if getunused b > 0 then Addevents EPOLLOUT c else c,
              cc\<lparr>cc_out_buf := b, cc_sent := cc_sent cc @ sent\<rparr>, a))"

definition ctl_HandlerEvery :: "int \<Rightarrow> (('k, 'a) ctl_state \<Rightarrow> ('k, 'a) ctl_state res)
    \<Rightarrow> ('k, 'a) ctl_state \<Rightarrow> ('k, 'a) ctl_state res" where
  "ctl_HandlerEvery ret close_handler = (\<lambda>(c, cc, a).
     if cc_in_buffer_empty cc \<and> ch_closed c then close_handler (c, cc, a)
     else let c1 = SetEvents (EPOLLET OR EPOLLIN OR EPOLLRDHUP) c;
              c2 = (if getunused (cc_out_buf cc) > 0 then Addevents EPOLLOUT c1 else c1)
          in Inr (ctl_ModToPoller ret (c2, cc, a)))"

definition ctl_handlers where
  "ctl_handlers fuel rd wr ret cb close_handler =
     \<lparr>read_handler = ctl_HandlerRead fuel rd cb, write_handler = ctl_HandlerWrite fuel wr,
      error_handler = Inr, every_handler = ctl_HandlerEvery ret close_handler\<rparr>"

section \<open>Frames over a stream\<close>

lemma wire_of_MakeMsg:
  assumes "uint (msg_len m) = 8 + int n" "msg_data m = dat @ rest" "length dat = n"
  shows "wire_of m = cells (le32 (htonl (msg_len m))) @ cells (le32 (msg_type m)) @ dat"
proof -
  have "unat (msg_len m) = 8 + n" using assms(1) unfolding uint_nat by linarith
  with assms(2,3) show ?thesis by (simp add: wire_of_def msg_image_def)
qed

lemma readn_take:
  assumes "stream_source rd rest lag" "rest q = bs @ tail" "int (length bs) = n" "n < 2 ^ 31"
  shows "\<exists>fuel q'. (\<forall>f \<ge> fuel. readn f rd q n em = Some (n, bs, em, q')) \<and> rest q' = tail"
proof -
  have n: "wrap32 n = n" using assms(3,4) by (intro wrap32_id) (auto simp: int_ok_def)
  from readn_loop_prefix [OF assms(1), of n q n "[]" em] assms(2-4) obtain fuel q' where
    "readn_loop fuel rd q n n [] em = Some (n, bs, em, q')" "rest q' = tail" by auto
  with n show ?thesis by (metis readn_loop_mono readn_def)
qed

text \<open>A frame that arrives whole is read as it was sent, its unused data bytes indeterminate.\<close>

definition received :: "Msg \<Rightarrow> Msg" where
  "received m = m\<lparr>msg_data := (let n = nat (getMsgBodySize m) in take n (msg_data m) @ uninit (1024 - n))\<rparr>"

lemma read_frame_whole:
  assumes src: "stream_source rd rest lag" and rest: "rest q = wire_of m @ tail"
    and m: "uint (msg_len m) = 8 + int n" "n \<le> 1024" "msg_data m = dat @ pad" "length dat = n"
  shows "\<exists>fuel q'. (\<forall>f \<ge> fuel. read_frame f rd q em = Some (Inr (Some (received m)), em, q')) \<and>
                   rest q' = tail"
proof -
  have size: "getMsgBodySize m = int n" using m(1,2) by (simp add: getMsgBodySize_def u64_def)
  let ?body = "cells (le32 (msg_type m)) @ dat"
  have wire: "rest q = cells (le32 (htonl (msg_len m))) @ (?body @ tail)"
    using wire_of_MakeMsg [OF m(1,3,4)] rest by simp
  obtain f1 q1 where
    r1: "\<forall>f \<ge> f1. readn f rd q 4 em = Some (4, cells (le32 (htonl (msg_len m))), em, q1)"
      "rest q1 = ?body @ tail"
    using readn_take [OF src wire, of 4 em] by auto
  have body: "u64 (uint (msg_len m) - 4) = 4 + int n" "int (length ?body) = 4 + int n"
    using m by (auto simp: u64_def)
  obtain f2 q2 where
    r2: "\<forall>f \<ge> f2. readn f rd q1 (4 + int n) em = Some (4 + int n, ?body, em, q2)" "rest q2 = tail"
    using readn_take [OF src r1(2) body(2), of em] m(2) by auto
  have frame: "frame_of (msg_len m) ?body = Inr (received m)"
    using m size by (simp add: frame_of_def received_def Let_def sizeof_Msg_def)
  have "read_frame f rd q em = Some (Inr (Some (received m)), em, q2)" if "f \<ge> max f1 f2" for f
    using that r1(1) r2(1) body frame m(1,2)
    by (simp add: read_frame_def read_body_def sizeof_Msg_def Let_def)
  with r2(2) show ?thesis by blast
qed

lemma ctl_struct_received:
  assumes "uint (msg_len m) = 8 + int n" "n \<le> 1024" "msg_type m = msg_code t"
    "msg_data m = dat @ pad" "length dat = n" "ctl_struct_size t m = n"
  shows "ctl_struct (received m) = Inr (Some (t, dat))"
proof -
  have size: "getMsgBodySize m = int n" using assms(1,2) by (simp add: getMsgBodySize_def u64_def)
  then have size': "getMsgBodySize (received m) = int n"
    by (simp add: received_def getMsgBodySize_def)
  moreover have "ctl_struct_size t (received m) = n"
    using assms(6) size size' by (cases t) auto
  moreover have "msg_data (received m) = dat @ uninit (1024 - n)"
    using assms(4,5) size by (simp add: received_def)
  ultimately have "copy_body (ctl_struct_size t (received m)) (received m) = Inr dat"
    using copy_body_exact [of "received m" n dat] assms(2,5) by simp
  then show ?thesis using assms(3) by (simp add: ctl_struct_def received_def)
qed

text \<open>The bodies of all message types, with their encoders, decoders and bounds.\<close>

datatype ctl_body =
    BNewRequest
  | BNewResponse "u8 list"
  | BNewTunnelReq NewTunnelReqMsg
  | BNewTunnelRsp NewTunnelRspMsg
  | BNotifyClient NotifyClientNeedProxyMsg
  | BShutdownPeerConn ShutdownPeerConnMsg
  | BFreeConnReq FreeProxyConnReqMsg

fun body_type :: "ctl_body \<Rightarrow> MsgType" where
  "body_type BNewRequest = NewRequest"
| "body_type (BNewResponse _) = NewResponse"
| "body_type (BNewTunnelReq _) = NewTunnelReq"
| "body_type (BNewTunnelRsp _) = NewTunnelRsp"
| "body_type (BNotifyClient _) = NotifyClient"
| "body_type (BShutdownPeerConn _) = ShutdownPeerConn"
| "body_type (BFreeConnReq _) = FreeConnReq"

text \<open>\<open>NewRequestMsg\<close> is an empty class: one byte that nobody writes.\<close>

fun enc_body :: "ctl_body \<Rightarrow> cell list res" where
  "enc_body BNewRequest = Inr (uninit 1)"
| "enc_body (BNewResponse s) = enc_NewResponse s"
| "enc_body (BNewTunnelReq m) = enc_NewTunnelReq m"
| "enc_body (BNewTunnelRsp m) = enc_NewTunnelRsp m"
| "enc_body (BNotifyClient m) = enc_NotifyClient m"
| "enc_body (BShutdownPeerConn m) = enc_ShutdownPeerConn m"
| "enc_body (BFreeConnReq m) = enc_FreeConnReq m"

fun dec_body :: "MsgType \<Rightarrow> cell list \<Rightarrow> ctl_body res" where
  "dec_body NewRequest cs = Inr BNewRequest"
| "dec_body NewResponse cs = bind_res (dec_NewResponse cs) (\<lambda>s. Inr (BNewResponse s))"
| "dec_body NewTunnelReq cs = bind_res (dec_NewTunnelReq cs) (\<lambda>m. Inr (BNewTunnelReq m))"
| "dec_body NewTunnelRsp cs = bind_res (dec_NewTunnelRsp cs) (\<lambda>m. Inr (BNewTunnelRsp m))"
| "dec_body NotifyClient cs = bind_res (dec_NotifyClient cs) (\<lambda>m. Inr (BNotifyClient m))"
| "dec_body ShutdownPeerConn cs = bind_res (dec_ShutdownPeerConn cs) (\<lambda>m. Inr (BShutdownPeerConn m))"
| "dec_body FreeConnReq cs = bind_res (dec_FreeConnReq cs) (\<lambda>m. Inr (BFreeConnReq m))"

text \<open>Every string fits its array.\<close>

fun wf_body :: "ctl_body \<Rightarrow> bool" where
  "wf_body BNewRequest = True"
| "wf_body (BNewResponse s) = (c_string s \<and> length s < 1024)"
| "wf_body (BNewTunnelReq m) = fits 20 (ntq_server_host m)"
| "wf_body (BNewTunnelRsp m) =
     (fits 10 (ntp_tunnel_id m) \<and> fits 20 (ntp_server_host m) \<and> fits 20 (ntp_proxy_server_host m))"
| "wf_body (BNotifyClient m) = fits 10 (ncp_tunnel_id m)"
| "wf_body (BShutdownPeerConn m) = (fits 10 (spc_tunnel_id m) \<and> fits 10 (spc_proxy_id m))"
| "wf_body (BFreeConnReq m) = (fits 10 (fpc_tun_id m) \<and> fits 10 (fpc_proxy_id m))"

fun body_bytes :: "ctl_body \<Rightarrow> nat" where
  "body_bytes BNewRequest = 1"
| "body_bytes (BNewResponse s) = length s + 1"
| "body_bytes (BNewTunnelReq _) = 24"
| "body_bytes (BNewTunnelRsp _) = 60"
| "body_bytes (BNotifyClient _) = 16"
| "body_bytes (BShutdownPeerConn _) = 24"
| "body_bytes (BFreeConnReq _) = 20"

lemma enc_body_ok:
  "wf_body x \<Longrightarrow>
   \<exists>cs. enc_body x = Inr cs \<and> length cs = body_bytes x \<and> dec_body (body_type x) cs = Inr x"
  using ws_response.enc_dec ws_tunnel_req.enc_dec ws_tunnel_rsp.enc_dec ws_notify.enc_dec
    ws_shutdown.enc_dec ws_free.enc_dec
  by (cases x) fastforce+

lemma body_bytes_le: "wf_body x \<Longrightarrow> body_bytes x \<le> 1024"
  by (cases x) auto

text \<open>What a sender does with a body: encode, frame.\<close>

definition make_ctl_msg :: "ctl_body \<Rightarrow> Msg res" where
  "make_ctl_msg x = bind_res (enc_body x) (\<lambda>cs. MakeMsg (body_type x) cs (length cs))"

lemma make_ctl_msg_ok:
  assumes "wf_body x"
  shows "\<exists>cs m pad. make_ctl_msg x = Inr m \<and> uint (msg_len m) = 8 + int (body_bytes x) \<and>
      msg_type m = msg_code (body_type x) \<and> msg_data m = cs @ pad \<and> length cs = body_bytes x \<and>
      ctl_struct_size (body_type x) m = body_bytes x \<and> dec_body (body_type x) cs = Inr x"
proof -
  obtain cs where cs: "enc_body x = Inr cs" "length cs = body_bytes x"
      "dec_body (body_type x) cs = Inr x"
    using enc_body_ok [OF assms] by blast
  with MakeMsg_ok [of "body_bytes x" cs "body_type x"] body_bytes_le [OF assms] obtain m where
    m: "MakeMsg (body_type x) cs (length cs) = Inr m" "uint (msg_len m) = 8 + int (body_bytes x)"
      "msg_type m = msg_code (body_type x)" "getMsgBodySize m = int (body_bytes x)"
      "msg_data m = cs @ zeroed (1024 - body_bytes x)" by auto
  moreover have "ctl_struct_size (body_type x) m = body_bytes x" using m(4) by (cases x) auto
  ultimately show ?thesis using cs by (auto simp: make_ctl_msg_def)
qed


definition body_wire :: "ctl_body \<Rightarrow> cell list" where
  "body_wire x = (case make_ctl_msg x of Inr m \<Rightarrow> wire_of m | Inl _ \<Rightarrow> [])"

lemma HandlerRead_body:
  assumes "stream_source rd rest lag" "wf_body x" "rest (cc_src cc) = body_wire x @ tail"
  shows "\<exists>fuel q' body. rest q' = tail \<and> dec_body (body_type x) body = Inr x \<and>
     (\<forall>f \<ge> fuel. ctl_HandlerRead f rd cb (c, cc, a) = cb (body_type x) body (c, cc\<lparr>cc_src := q'\<rparr>, a))"
proof -
  obtain cs m pad where m: "make_ctl_msg x = Inr m" "uint (msg_len m) = 8 + int (body_bytes x)"
      "msg_type m = msg_code (body_type x)" "msg_data m = cs @ pad" "length cs = body_bytes x"
      "ctl_struct_size (body_type x) m = body_bytes x" "dec_body (body_type x) cs = Inr x"
    using make_ctl_msg_ok [OF assms(2)] by blast
  then have "rest (cc_src cc) = wire_of m @ tail" using assms(3) by (simp add: body_wire_def)
  from read_frame_whole [OF assms(1) this m(2) body_bytes_le [OF assms(2)] m(4,5)]
  obtain fuel q' where r: "rest q' = tail"
      "\<forall>f \<ge> fuel. read_frame f rd (cc_src cc) (cc_in_buffer_empty cc)
         = Some (Inr (Some (received m)), cc_in_buffer_empty cc, q')" by blast
  have "ctl_struct (received m) = Inr (Some (body_type x, cs))"
    using ctl_struct_received [OF m(2) body_bytes_le [OF assms(2)] m(3,4,5,6)] .
  with r have "\<forall>f \<ge> fuel. ctl_HandlerRead f rd cb (c, cc, a)
      = cb (body_type x) cs (c, cc\<lparr>cc_src := q'\<rparr>, a)"
    by (simp add: ctl_HandlerRead_def)
  with r(1) m(7) show ?thesis by blast
qed

section \<open>Runs of the channel\<close>

text \<open>Sending bodies one after another, and receiving with a callback that decodes and logs.\<close>

fun send_bodies :: "int \<Rightarrow> ctl_body list \<Rightarrow> ('k, 'a) ctl_state \<Rightarrow> ('k, 'a) ctl_state res" where
  "send_bodies ret [] s = Inr s"
| "send_bodies ret (x # xs) s =
     bind_res (make_ctl_msg x) (\<lambda>m. bind_res (ctl_SendMsg ret m s) (send_bodies ret xs))"

definition log_body :: "MsgType \<Rightarrow> cell list \<Rightarrow> ('k, ctl_body list) ctl_state
    \<Rightarrow> ('k, ctl_body list) ctl_state res" where
  "log_body t body = (\<lambda>(c, cc, log). bind_res (dec_body t body) (\<lambda>x. Inr (c, cc, log @ [x])))"

fun recv_bodies :: "nat \<Rightarrow> 'k reader \<Rightarrow> nat \<Rightarrow> ('k, ctl_body list) ctl_state
    \<Rightarrow> ('k, ctl_body list) ctl_state res" where
  "recv_bodies fuel rd 0 s = Inr s"
| "recv_bodies fuel rd (Suc n) s =
     bind_res (ctl_HandlerRead fuel rd log_body s) (recv_bodies fuel rd n)"

definition ctl_out :: "('k, 'a) ctl_state \<Rightarrow> buffer" where
  "ctl_out = (\<lambda>(c, cc, a). cc_out_buf cc)"

definition ctl_sent :: "('k, 'a) ctl_state \<Rightarrow> cell list" where
  "ctl_sent = (\<lambda>(c, cc, a). cc_sent cc)"

lemma SendMsg_body:
  assumes "wf_body x" "buf_inv (ctl_out s)" "make_ctl_msg x = Inr m"
  shows "\<exists>s'. ctl_SendMsg ret m s = Inr s' \<and> buf_inv (ctl_out s') \<and> ctl_sent s' = ctl_sent s \<and>
           (content (ctl_out s') = content (ctl_out s) @ body_wire x \<or>
            content (ctl_out s') = content (ctl_out s) \<and>
              GetFreeSize (ctl_out s) < int (length (body_wire x))) \<and>
           (int (length (body_wire x)) \<le> GetFreeSize (ctl_out s) \<longrightarrow>
              capacity (ctl_out s') = capacity (ctl_out s))"
proof -
  obtain c cc a where s: "s = (c, cc, a)" by (cases s)
  obtain cs pad where m: "uint (msg_len m) = 8 + int (body_bytes x)" "msg_data m = cs @ pad"
      "length cs = body_bytes x"
    using make_ctl_msg_ok [OF assms(1)] assms(3) by auto
  let ?image = "msg_image (m\<lparr>msg_len := htonl (msg_len m)\<rparr>)" and ?n = "uint (msg_len m)"
  have n: "0 < ?n" "?n < 2 ^ 30" "?n \<le> int (length ?image)"
    using m body_bytes_le [OF assms(1)] by (auto simp: msg_image_def)
  have wire: "take (nat ?n) ?image = body_wire x"
    using assms(3) by (simp add: body_wire_def wire_of_def)
  then have len: "int (length (body_wire x)) = ?n" using n by (metis int_nat_eq length_take min.absorb2
        nat_le_iff order_less_imp_le)
  have inv: "buf_inv (cc_out_buf cc)" using assms(2) by (simp add: s ctl_out_def)
  have w: "wrap32 ?n = ?n" using n by (intro wrap32_id) (simp add: int_ok_def)
  note defs = s w ctl_SendMsg_def ctl_out_def ctl_sent_def ctl_ModToPoller_def Let_def
  show ?thesis
  proof (cases "?n \<le> GetFreeSize (cc_out_buf cc)")
    case True
    from WriteToBuffer_in_place [OF inv n(1) True n(3)] wire show ?thesis by (auto simp: defs)
  next
    case False
    from ring.put_all_or_nothing [OF inv n(1,3,2)] n(1) wire len False show ?thesis
      by (auto simp: defs)
  qed
qed

lemma length_body_wire:
  assumes "wf_body x"
  shows "length (body_wire x) = 8 + body_bytes x"
proof -
  obtain cs m pad where m: "make_ctl_msg x = Inr m" "uint (msg_len m) = 8 + int (body_bytes x)"
      "msg_data m = cs @ pad" "length cs = body_bytes x"
    using make_ctl_msg_ok [OF assms] by blast
  with wire_of_MakeMsg [OF m(2-4)] show ?thesis by (simp add: body_wire_def)
qed

lemma send_bodies_subseq:
  assumes "\<forall>x \<in> set xs. wf_body x" "buf_inv (ctl_out s)"
  shows "\<exists>s' ys. send_bodies ret xs s = Inr s' \<and> buf_inv (ctl_out s') \<and> ctl_sent s' = ctl_sent s \<and>
           subseq ys xs \<and> content (ctl_out s') = content (ctl_out s) @ concat (map body_wire ys) \<and>
           (int (length (concat (map body_wire xs))) \<le> GetFreeSize (ctl_out s) \<longrightarrow> ys = xs)"
  using assms
proof (induction xs arbitrary: s)
  case Nil
  then show ?case by auto
next
  case (Cons x xs)
  obtain m where m: "make_ctl_msg x = Inr m" using make_ctl_msg_ok [of x] Cons.prems by auto
  obtain s1 where s1: "ctl_SendMsg ret m s = Inr s1" "buf_inv (ctl_out s1)" "ctl_sent s1 = ctl_sent s"
      "content (ctl_out s1) = content (ctl_out s) @ body_wire x \<or>
       content (ctl_out s1) = content (ctl_out s) \<and> GetFreeSize (ctl_out s) < int (length (body_wire x))"
      "int (length (body_wire x)) \<le> GetFreeSize (ctl_out s) \<longrightarrow> capacity (ctl_out s1) = capacity (ctl_out s)"
    using SendMsg_body [OF _ Cons.prems(2) m] Cons.prems(1) by (metis list.set_intros(1))
  with Cons.IH [of s1] Cons.prems(1) obtain s2 ys where
    s2: "send_bodies ret xs s1 = Inr s2" "buf_inv (ctl_out s2)" "ctl_sent s2 = ctl_sent s1" "subseq ys xs"
      "content (ctl_out s2) = content (ctl_out s1) @ concat (map body_wire ys)"
      "int (length (concat (map body_wire xs))) \<le> GetFreeSize (ctl_out s1) \<longrightarrow> ys = xs" by auto
  from s1(4) show ?case
  proof
    assume app: "content (ctl_out s1) = content (ctl_out s) @ body_wire x"
    have "ys = xs" if "int (length (concat (map body_wire (x # xs)))) \<le> GetFreeSize (ctl_out s)"
      using that s1(5) s2(6) app free_content [OF s1(2)] free_content [OF Cons.prems(2)] by simp
    with app m s1(1,3) s2 show ?thesis
      by (intro exI [of _ s2] exI [of _ "x # ys"]) auto
  next
    assume "content (ctl_out s1) = content (ctl_out s) \<and> GetFreeSize (ctl_out s) < int (length (body_wire x))"
    with m s1(1,3) s2 show ?thesis by (intro exI [of _ s2] exI [of _ ys]) auto
  qed
qed

lemma recv_bodies_all:
  assumes "stream_source rd rest lag" "\<forall>x \<in> set ys. wf_body x"
    "rest (cc_src cc) = concat (map body_wire ys) @ tail"
  shows "\<exists>fuel q'. rest q' = tail \<and> (\<forall>f \<ge> fuel. recv_bodies f rd (length ys) (c, cc, log)
           = Inr (c, cc\<lparr>cc_src := q'\<rparr>, log @ ys))"
  using assms(2,3)
proof (induction ys arbitrary: cc log)
  case Nil
  then show ?case by (intro exI [of _ 0] exI [of _ "cc_src cc"]) simp
next
  case (Cons y ys)
  have "wf_body y" "rest (cc_src cc) = body_wire y @ (concat (map body_wire ys) @ tail)"
    using Cons.prems by auto
  from HandlerRead_body [OF assms(1) this, of log_body] obtain f1 q1 body where
    h: "rest q1 = concat (map body_wire ys) @ tail" "dec_body (body_type y) body = Inr y"
      "\<And>f. f \<ge> f1 \<Longrightarrow> ctl_HandlerRead f rd log_body (c, cc, log)
         = log_body (body_type y) body (c, cc\<lparr>cc_src := q1\<rparr>, log)"
    by meson
  obtain f2 q2 where
    ih: "rest q2 = tail" "\<forall>f \<ge> f2. recv_bodies f rd (length ys) (c, cc\<lparr>cc_src := q1\<rparr>, log @ [y])
       = Inr (c, cc\<lparr>cc_src := q2\<rparr>, (log @ [y]) @ ys)"
    using Cons.IH [of "cc\<lparr>cc_src := q1\<rparr>" "log @ [y]"] Cons.prems(1) h(1) by auto
  have "recv_bodies f rd (length (y # ys)) (c, cc, log) = Inr (c, cc\<lparr>cc_src := q2\<rparr>, log @ y # ys)"
    if "f \<ge> max f1 f2" for f
    using that h(2,3) ih(2) by (simp add: log_body_def)
  with ih(1) show ?case by blast
qed

lemma HandlerWrite_drains:
  assumes "accepting wr" "buf_inv (cc_out_buf cc)" "0 < getunused (cc_out_buf cc)"
  shows "\<exists>fuel b. ctl_HandlerWrite fuel wr (c, cc, a)
      = Inr (c, cc\<lparr>cc_out_buf := b, cc_sent := cc_sent cc @ content (cc_out_buf cc)\<rparr>, a) \<and>
      content b = []"
proof -
  let ?b = "cc_out_buf cc"
  have small: "int_ok (0 + getunused ?b)"
    using getunused_bounds [OF assms(2)] assms(2) by (auto simp: buf_inv_def int_ok_def)
  obtain b where b: "write_loop (Suc (nat (getunused ?b))) wr 0 ?b 0 []
      = Some (b, getunused ?b, content ?b)" "buf_inv b" "content b = []"
    using write_loop_drains [OF assms(1,2) _ _ small, of "Suc (nat (getunused ?b))" 0 "[]"] by auto
  have "getunused b = 0"
    using b(3) length_content [of b] getunused_bounds [OF b(2)] by simp
  with b assms(3) show ?thesis
    by (intro exI [of _ "Suc (nat (getunused ?b))"] exI [of _ b])
       (simp add: ctl_HandlerWrite_def WriteToSocket_def)
qed

text \<open>A kernel that delivers one byte at a time, and a connection, for the examples.\<close>

definition sample_reader :: "cell list reader" where
  "sample_reader = (\<lambda>s n. (RData (take 1 s), drop 1 s))"

lemma sample_reader_source: "stream_source sample_reader (\<lambda>s. s) (\<lambda>_. 0)"
  by (auto simp: stream_source_def sample_reader_def)

definition sample_ctl :: "cell list \<Rightarrow> cell list ctl_conn" where
  "sample_ctl src = \<lparr>cc_fd = 5, cc_in_buffer_empty = False,
     cc_out_buf = \<lparr>capacity = 64, data_size = 65, max_capacity = 40960,
       buf_data = replicate 65 None, read_index = 0, write_index = 0\<rparr>,
     cc_ctl_id = [], cc_src = src, cc_sent = [], cc_armed = None\<rparr>"

lemma sample_ctl_inv:
  "buf_inv (cc_out_buf (sample_ctl src))" "content (cc_out_buf (sample_ctl src)) = []"
  "cc_sent (sample_ctl src) = []" "GetFreeSize (cc_out_buf (sample_ctl src)) = 64"
  by (simp_all add: sample_ctl_def buf_inv_def content_def getunused_def GetFreeSize_def)

section \<open>Properties\<close>

text \<open>C2: End to end, the control connection is a FIFO of messages.  Well-formed messages sent
  on one side are queued whole or dropped whole, and none is dropped that fits the free space; one
  \<open>HandlerWrite\<close> on a socket that keeps accepting hands all queued bytes to the kernel; and on
  a receiver whose stream is these bytes, as many calls of \<open>HandlerRead\<close> as messages were queued
  pass exactly those messages, field by field and in order, to the callbacks.\<close>

theorem control_channel_fifo:
  assumes "\<forall>x \<in> set xs. wf_body x" "buf_inv (cc_out_buf cc)" "content (cc_out_buf cc) = []"
    "cc_sent cc = []" "accepting wr" "stream_source rd rest lag"
  shows "\<exists>ys s1. send_bodies ret xs (c, cc, a) = Inr s1 \<and> subseq ys xs \<and>
     (int (length (concat (map body_wire xs))) \<le> GetFreeSize (cc_out_buf cc) \<longrightarrow> ys = xs) \<and>
     (ys \<noteq> [] \<longrightarrow>
       (\<exists>fuel c2 cc2 a2. ctl_HandlerWrite fuel wr s1 = Inr (c2, cc2, a2) \<and> content (cc_out_buf cc2) = [] \<and>
         (\<forall>dc dcc. rest (cc_src dcc) = cc_sent cc2 \<longrightarrow>
           (\<exists>fuel q. recv_bodies fuel rd (length ys) (dc, dcc, []) = Inr (dc, dcc\<lparr>cc_src := q\<rparr>, ys) \<and>
                     rest q = []))))"
proof -
  have "buf_inv (ctl_out (c, cc, a))" using assms(2) by (simp add: ctl_out_def)
  from send_bodies_subseq [OF assms(1) this, of ret] obtain s1 ys where
    s1: "send_bodies ret xs (c, cc, a) = Inr s1" "buf_inv (ctl_out s1)" "ctl_sent s1 = []"
      "subseq ys xs" "content (ctl_out s1) = concat (map body_wire ys)"
      "int (length (concat (map body_wire xs))) \<le> GetFreeSize (cc_out_buf cc) \<longrightarrow> ys = xs"
    using assms(3,4) by (auto simp: ctl_out_def ctl_sent_def)
  obtain c1 cc1 a1 where eq: "s1 = (c1, cc1, a1)" by (cases s1)
  have wf: "\<forall>y \<in> set ys. wf_body y" using s1(4) assms(1) by (meson subseq_order.order_trans subseq_singleton_left)
  have "\<exists>fuel c2 cc2 a2. ctl_HandlerWrite fuel wr s1 = Inr (c2, cc2, a2) \<and> content (cc_out_buf cc2) = [] \<and>
         (\<forall>dc dcc. rest (cc_src dcc) = cc_sent cc2 \<longrightarrow>
           (\<exists>fuel q. recv_bodies fuel rd (length ys) (dc, dcc, []) = Inr (dc, dcc\<lparr>cc_src := q\<rparr>, ys) \<and>
                     rest q = []))" if "ys \<noteq> []"
  proof -
    have "content (cc_out_buf cc1) \<noteq> []"
      using that s1(5) wf length_body_wire by (cases ys) (force simp: eq ctl_out_def)+
    then have u: "0 < getunused (cc_out_buf cc1)"
      using length_content [of "cc_out_buf cc1"]
      by (metis length_greater_0_conv zero_less_nat_eq)
    have "buf_inv (cc_out_buf cc1)" using s1(2) by (simp add: eq ctl_out_def)
    from HandlerWrite_drains [OF assms(5) this u, of c1 a1] obtain fuel b where
      w: "ctl_HandlerWrite fuel wr s1 = Inr (c1, cc1\<lparr>cc_out_buf := b,
            cc_sent := concat (map body_wire ys)\<rparr>, a1)" "content b = []"
      using s1(3,5) by (auto simp: eq ctl_out_def ctl_sent_def)
    have "\<exists>fuel q. recv_bodies fuel rd (length ys) (dc, dcc, []) = Inr (dc, dcc\<lparr>cc_src := q\<rparr>, ys) \<and>
        rest q = []" if "rest (cc_src dcc) = concat (map body_wire ys)" for dc dcc
      using recv_bodies_all [OF assms(6) wf, of dcc "[]" dc "[]"] that by auto
    with w show ?thesis by fastforce
  qed
  with s1 show ?thesis by blast
qed

lemma control_channel_fifo_witness:
  "\<exists>ys s1. send_bodies 0 [BNewRequest, BNewResponse [65, 66]] (new_channel 5 0 0 False, sample_ctl [], ()) = Inr s1 \<and>
     subseq ys [BNewRequest, BNewResponse [65, 66]] \<and> ys = [BNewRequest, BNewResponse [65, 66]] \<and>
     (\<exists>fuel c2 cc2 a2. ctl_HandlerWrite fuel (\<lambda>_ _. (1, 0)) s1 = Inr (c2, cc2, a2) \<and> content (cc_out_buf cc2) = [] \<and>
       (\<forall>dc dcc. cc_src dcc = cc_sent cc2 \<longrightarrow>
         (\<exists>fuel q. recv_bodies fuel sample_reader (length ys) (dc, dcc, []) = Inr (dc, dcc\<lparr>cc_src := q\<rparr>, ys) \<and>
                   q = [])))"
proof -
  let ?xs = "[BNewRequest, BNewResponse [65, 66]]"
  have wf: "\<forall>x \<in> set ?xs. wf_body x" by (simp add: c_string_def)
  have "int (length (concat (map body_wire ?xs))) \<le> GetFreeSize (cc_out_buf (sample_ctl []))"
    using wf by (simp add: length_body_wire sample_ctl_inv)
  with control_channel_fifo [OF wf sample_ctl_inv(1-3) _ sample_reader_source,
      of "\<lambda>_ _. (1, 0)" 0 "new_channel 5 0 0 False" "[]" "()"]
  show ?thesis by (fastforce simp: accepting_def)
qed

text \<open>Where a handler expects a structure of fixed size, a received frame that claims a longer
  body (up to the 1024 bytes a frame may have) is copied past the end of the structure on the
  handler's stack: \<open>HandlerRead\<close> checks the length against the frame only.\<close>

theorem HandlerRead_overflows_struct:
  assumes "stream_source rd rest lag" "rest (cc_src cc) = wire_of m @ tail"
    "uint (msg_len m) = 8 + int n" "n \<le> 1024" "length (msg_data m) = 1024"
    "msg_type m = msg_code t" "ctl_struct_size t m < n"
  shows "\<exists>fuel. \<forall>f \<ge> fuel. ctl_HandlerRead f rd cb (c, cc, a) = Inl OutOfBounds"
proof -
  have size: "getMsgBodySize m = int n" using assms(3,4) by (simp add: getMsgBodySize_def u64_def)
  have d: "msg_data m = take n (msg_data m) @ drop n (msg_data m)" "length (take n (msg_data m)) = n"
    using assms(4,5) by auto
  from read_frame_whole [OF assms(1-4) d] obtain fuel q' where
    r: "\<forall>f \<ge> fuel. read_frame f rd (cc_src cc) (cc_in_buffer_empty cc)
         = Some (Inr (Some (received m)), cc_in_buffer_empty cc, q')" by blast
  have "getMsgBodySize (received m) = int n" using size by (simp add: received_def getMsgBodySize_def)
  moreover have "ctl_struct_size t (received m) < n"
    using assms(7) size calculation by (cases t) auto
  ultimately have "ctl_struct (received m) = Inl OutOfBounds"
    using copy_body_overflow [of "ctl_struct_size t (received m)" "received m"] assms(6)
    by (simp add: ctl_struct_def received_def)
  with r show ?thesis by (intro exI [of _ fuel]) (simp add: ctl_HandlerRead_def Let_def)
qed

lemma HandlerRead_overflows_struct_witness:
  "\<exists>fuel. \<forall>f \<ge> fuel. ctl_HandlerRead f sample_reader (\<lambda>_ _. Inr)
     (new_channel 5 0 0 False, sample_ctl (wire_of \<lparr>msg_len = 108, msg_type = 4, msg_data = zeroed 1024\<rparr>), ())
     = Inl OutOfBounds"
  by (rule HandlerRead_overflows_struct [OF sample_reader_source,
        where m = "\<lparr>msg_len = 108, msg_type = 4, msg_data = zeroed 1024\<rparr>" and tail = "[]" and n = 100
          and t = NotifyClient])
     (simp_all add: sample_ctl_def)

definition pending_armed :: "('k, 'a) ctl_state \<Rightarrow> bool" where
  "pending_armed s \<longleftrightarrow> (content (ctl_out s) \<noteq> [] \<longrightarrow>
     (\<exists>ev. cc_armed (fst (snd s)) = Some ev \<and> ev AND EPOLLOUT \<noteq> 0))"

lemma or_out_armed: "(ev OR EPOLLOUT) AND EPOLLOUT \<noteq> 0"
proof -
  have "(ev OR EPOLLOUT) AND EPOLLOUT = EPOLLOUT"
    by (rule bit_word_eqI) (auto simp: bit_or_iff bit_and_iff)
  then show ?thesis by (simp add: EPOLLOUT_def)
qed

lemma content_pending: "buf_inv b \<Longrightarrow> content b \<noteq> [] \<longleftrightarrow> 0 < getunused b"
  using length_content [of b] by (metis length_greater_0_conv zero_less_nat_eq)

lemma HandlerEvery_armed:
  assumes "0 \<le> ret" "buf_inv (ctl_out s)" "\<not> (cc_in_buffer_empty (fst (snd s)) \<and> ch_closed (fst s))"
  shows "\<exists>s'. ctl_HandlerEvery ret close_handler s = Inr s' \<and> pending_armed s' \<and> ctl_out s' = ctl_out s"
  using assms or_out_armed content_pending [OF assms(2)]
  by (cases s) (auto simp: ctl_HandlerEvery_def ctl_ModToPoller_def ctl_out_def pending_armed_def
      Addevents_def Let_def)

lemma SendMsg_armed:
  assumes "0 \<le> ret" "wf_body x" "make_ctl_msg x = Inr m" "buf_inv (ctl_out s)" "pending_armed s"
  shows "\<exists>s'. ctl_SendMsg ret m s = Inr s' \<and> pending_armed s'"
proof -
  obtain c cc a where s: "s = (c, cc, a)" by (cases s)
  obtain cs pad where m: "uint (msg_len m) = 8 + int (body_bytes x)" "msg_data m = cs @ pad"
      "length cs = body_bytes x"
    using make_ctl_msg_ok [OF assms(2)] assms(3) by auto
  let ?image = "msg_image (m\<lparr>msg_len := htonl (msg_len m)\<rparr>)" and ?n = "uint (msg_len m)"
  have n: "0 < ?n" "?n < 2 ^ 30" "?n \<le> int (length ?image)"
    using m body_bytes_le [OF assms(2)] by (auto simp: msg_image_def)
  have w: "wrap32 ?n = ?n" using n by (intro wrap32_id) (simp add: int_ok_def)
  have inv: "buf_inv (cc_out_buf cc)" using assms(4) by (simp add: s ctl_out_def)
  from ring.put_all_or_nothing [OF inv n(1,3,2)] n(1) assms(1,5) or_out_armed show ?thesis
    by (auto simp: s w ctl_SendMsg_def ctl_ModToPoller_def ctl_out_def pending_armed_def
        Addevents_def Let_def)
qed

text \<open>Pending output is never stranded: \<open>SendMsg\<close> keeps the fact that unsent bytes have
  EPOLLOUT armed with the poller, and the end of every round of event handling
  (\<open>HandlerEvery\<close>) establishes it whatever the read and write handlers left, unless the
  connection is being closed.\<close>

theorem pending_output_armed:
  assumes "0 \<le> ret" "buf_inv (ctl_out s)"
  shows "(wf_body x \<and> make_ctl_msg x = Inr m \<and> pending_armed s \<longrightarrow>
           (\<exists>s'. ctl_SendMsg ret m s = Inr s' \<and> pending_armed s')) \<and>
         (\<not> (cc_in_buffer_empty (fst (snd s)) \<and> ch_closed (fst s)) \<longrightarrow>
           (\<exists>s'. ctl_HandlerEvery ret close_handler s = Inr s' \<and> pending_armed s' \<and> ctl_out s' = ctl_out s))"
  using SendMsg_armed [OF assms(1) _ _ assms(2)] HandlerEvery_armed [OF assms] by blast

lemma pending_output_armed_witness:
  "\<exists>s'. ctl_HandlerEvery 0 Inr (new_channel 5 0 0 False, sample_ctl [], ()) = Inr s' \<and> pending_armed s' \<and>
        ctl_out s' = ctl_out (new_channel 5 0 0 False, sample_ctl [], ())"
  using pending_output_armed [of 0 "(new_channel 5 0 0 False, sample_ctl [], ())" BNewRequest _ Inr]
    sample_ctl_inv(1) [of "[]"]
  by (simp add: ctl_out_def sample_ctl_def)

end
