(* ===== verification/ProxyConn.thy ===== *)
theory ProxyConn
  imports CtlConn
begin

text \<open>
  \<open>lib/TransConnect.h\<close>, \<open>lib/ProxyConnect.h\<close> and \<open>lib/ProxyConnect.cpp\<close>: the
  connection that carries one relayed TCP stream between proxy server and proxy client, its byte
  counters, its half-close bookkeeping, and the relay itself (two \<open>splice\<close> calls through a
  pipe).  \<open>TransConnect\<close> is a record that \<open>ProxyConnect\<close> (here) and the connections to
  the outside (\<open>edge_conn\<close>) extend, as the classes do.
\<close>

section \<open>TransConnect\<close>

text \<open>\<open>tc_pipe\<close> are the bytes in the pipe, \<open>tc_out\<close> the bytes that were moved on to
  \<open>conn2fd_\<close> since the object was made.  The counters are \<open>std::atomic<int>\<close>, whose
  additions wrap.\<close>

record trans_conn =
  tc_fd :: int
  tc_conn2fd :: int
  tc_tran_count :: int
  tc_recv_count :: int
  tc_total_count :: int
  tc_pipe :: "cell list"
  tc_out :: "cell list"

definition AddRecvCount :: "int \<Rightarrow> 'x trans_conn_scheme \<Rightarrow> 'x trans_conn_scheme" where
  "AddRecvCount n t = t\<lparr>tc_recv_count := wrap32 (tc_recv_count t + n)\<rparr>"

definition AddTranCount :: "int \<Rightarrow> 'x trans_conn_scheme \<Rightarrow> 'x trans_conn_scheme" where
  "AddTranCount n t = t\<lparr>tc_tran_count := wrap32 (tc_tran_count t + n)\<rparr>"

text \<open>The argument is an \<open>int\<close>; the callers pass a \<open>u_int32_t\<close>, which is converted.\<close>

definition AddTotalCount :: "u32 \<Rightarrow> 'x trans_conn_scheme \<Rightarrow> 'x trans_conn_scheme" where
  "AddTotalCount n t =
     (let count = wrap32 (uint n)
      in if tc_total_count t = - 1 then t\<lparr>tc_total_count := count\<rparr>
         else t\<lparr>tc_total_count := wrap32 (tc_total_count t + count)\<rparr>)"

section \<open>ProxyConnect\<close>

record 'k proxy_conn = trans_conn +
  px_start :: bool
  px_half_close :: bool
  px_buf :: buffer
  px_conn :: "int option"
  px_proxy_id :: "u8 list"
  px_in_buffer_empty :: bool
  px_src :: 'k
  px_sent :: "cell list"
  px_armed :: "u32 option"

type_synonym ('k, 'a) px_state = "channel \<times> 'k proxy_conn \<times> 'a"

text \<open>The constructors; \<open>conn2fd_\<close> and \<open>in_buffer_empty_\<close> are not initialised.\<close>

definition new_proxy_conn :: "int \<Rightarrow> int \<Rightarrow> bool \<Rightarrow> 'k \<Rightarrow> channel \<Rightarrow> (channel \<times> 'k proxy_conn) res" where
  "new_proxy_conn fd junk_fd junk_empty src ch =
     bind_res (new_buffer 1024 40960) (\<lambda>b.
       Inr (SetEvents (EPOLLET OR EPOLLIN OR EPOLLOUT OR EPOLLRDHUP) ch,
            \<lparr>tc_fd = fd, tc_conn2fd = junk_fd, tc_tran_count = 0, tc_recv_count = 0,
             tc_total_count = - 1, tc_pipe = [], tc_out = [],
             px_start = False, px_half_close = False, px_buf = b, px_conn = None, px_proxy_id = [],
             px_in_buffer_empty = junk_empty, px_src = src, px_sent = [], px_armed = None\<rparr>))"

definition resetConn :: "'k proxy_conn \<Rightarrow> 'k proxy_conn" where
  "resetConn p = p\<lparr>tc_conn2fd := 0, tc_recv_count := 0, tc_tran_count := 0, tc_total_count := 0,
     px_start := False, px_half_close := False\<rparr>"

text \<open>The result, the new state, and the descriptors shut down for writing.\<close>

definition shutdownFromRemote :: "'k proxy_conn \<Rightarrow> bool \<times> 'k proxy_conn \<times> int list" where
  "shutdownFromRemote p =
     (if px_half_close p then (True, resetConn p, [tc_conn2fd p])
      else (False, p\<lparr>px_half_close := True\<rparr>, [tc_conn2fd p]))"

definition shutdownFromLocal :: "'k proxy_conn \<Rightarrow> bool \<times> 'k proxy_conn" where
  "shutdownFromLocal p =
     (if px_half_close p then (True, resetConn p)
      else (False, p\<lparr>px_half_close := True\<rparr>))"

definition px_ModToPoller :: "int \<Rightarrow> ('k, 'a) px_state \<Rightarrow> ('k, 'a) px_state" where
  "px_ModToPoller ret = (\<lambda>(c, p, a).
     (c, p\<lparr>px_armed := (if ret < 0 then None else Some (ch_events c))\<rparr>, a))"

definition px_SendMsg :: "int \<Rightarrow> Msg \<Rightarrow> ('k, 'a) px_state \<Rightarrow> ('k, 'a) px_state res" where
  "px_SendMsg ret m = (\<lambda>(c, p, a).
     let len = uint (msg_len m);
         image = msg_image (m\<lparr>msg_len := htonl (msg_len m)\<rparr>)
     in bind_res (WriteToBuffer (px_buf p) image (wrap32 len)) (\<lambda>(b, write_ret).
          if write_ret \<noteq> len then Inr (c, p\<lparr>px_buf := b\<rparr>, a)
          else Inr (px_ModToPoller ret (Addevents EPOLLOUT c, p\<lparr>px_buf := b\<rparr>, a))))"

text \<open>One \<open>write\<close>, bypassing the buffer: \<open>ret\<close> is its answer; a short write is reported as
  an error although its bytes are on the wire.\<close>

definition SendMsgDirct :: "int \<Rightarrow> Msg \<Rightarrow> 'k proxy_conn \<Rightarrow> int \<times> 'k proxy_conn" where
  "SendMsgDirct ret m p =
     (if u64 ret \<noteq> uint (msg_len m)
      then (- 1, p\<lparr>px_sent := px_sent p @ take (nat ret) (wire_of m)\<rparr>)
      else (0, p\<lparr>px_sent := px_sent p @ wire_of m\<rparr>))"

text \<open>\<open>Run\<close>: pairs the connection with the one it relays to; the second result is that one.\<close>

definition px_Run :: "'x trans_conn_scheme \<Rightarrow> 'k proxy_conn \<Rightarrow> 'k proxy_conn \<times> 'x trans_conn_scheme" where
  "px_Run other p =
     (p\<lparr>px_start := True, px_conn := Some (tc_fd other), tc_conn2fd := tc_fd other\<rparr>,
      other\<lparr>tc_conn2fd := tc_fd p\<rparr>)"

section \<open>The relay\<close>

text \<open>
  The second \<open>splice\<close>: \<open>sp\<close> is the kernel's answer to a request for \<open>n\<close> bytes, a number
  of bytes that left the pipe or \<open>-1\<close>.
\<close>

definition splice_out :: "(int \<Rightarrow> int) \<Rightarrow> int \<Rightarrow> 'x trans_conn_scheme \<Rightarrow> int \<times> 'x trans_conn_scheme" where
  "splice_out sp n t =
     (let r = sp n
      in (r, t\<lparr>tc_out := tc_out t @ take (nat r) (tc_pipe t), tc_pipe := drop (nat r) (tc_pipe t)\<rparr>))"

datatype px_event =
    EvMetaSet "cell list"
  | EvConnectReq "cell list"
  | EvConnectRsp "cell list"
  | EvCloseLocalPeer
  | EvClose

text \<open>\<open>handleRead\<close> of a started connection.\<close>

definition px_relay :: "'k reader \<Rightarrow> (int \<Rightarrow> int)
    \<Rightarrow> (px_event \<Rightarrow> ('k, 'a) px_state \<Rightarrow> ('k, 'a) px_state res)
    \<Rightarrow> ('k, 'a) px_state \<Rightarrow> ('k, 'a) px_state res" where
  "px_relay rd sp cb = (\<lambda>(c, p, a).
     case rd (px_src p) 2048 of
       (RError e, q) \<Rightarrow> Inr (c, p\<lparr>px_src := q\<rparr>, a)
     | (RData cs, q) \<Rightarrow>
         if cs = [] then Inr (c, p\<lparr>px_src := q, px_in_buffer_empty := True\<rparr>, a)
         else (let p1 = p\<lparr>px_src := q, tc_pipe := tc_pipe p @ cs\<rparr>;
                   (bs, p2) = splice_out sp (int (length cs)) p1
               in if bs < 0 then Inr (c, p2, a)
                  else let p3 = AddRecvCount bs p2
                       in if tc_recv_count p3 = tc_total_count p3 then cb EvCloseLocalPeer (c, p3, a)
                          else Inr (c, p3, a)))"

definition px_struct :: "Msg \<Rightarrow> px_event option res" where
  "px_struct m =
     (case proxy_of_code (msg_type m) of
        None \<Rightarrow> Inr None
      | Some ProxyMetaSet \<Rightarrow> bind_res (copy_body 30 m) (\<lambda>b. Inr (Some (EvMetaSet b)))
      | Some ProxyConnectReq \<Rightarrow> bind_res (copy_body 16 m) (\<lambda>b. Inr (Some (EvConnectReq b)))
      | Some ProxyConnectRsp \<Rightarrow> bind_res (copy_body 16 m) (\<lambda>b. Inr (Some (EvConnectRsp b))))"

definition px_handleRead :: "nat \<Rightarrow> 'k reader \<Rightarrow> (int \<Rightarrow> int)
    \<Rightarrow> (px_event \<Rightarrow> ('k, 'a) px_state \<Rightarrow> ('k, 'a) px_state res)
    \<Rightarrow> ('k, 'a) px_state \<Rightarrow> ('k, 'a) px_state res" where
  "px_handleRead fuel rd sp cb = (\<lambda>(c, p, a).
     if px_start p then px_relay rd sp cb (c, p, a)
     else case read_frame fuel rd (px_src p) (px_in_buffer_empty p) of
            None \<Rightarrow> Inl NotReturned
          | Some (frame, em, q) \<Rightarrow>
              (let p' = p\<lparr>px_in_buffer_empty := em, px_src := q\<rparr>
               in bind_res frame (\<lambda>mo. case mo of
                    None \<Rightarrow> Inr (c, p', a)
                  | Some m \<Rightarrow> bind_res (px_struct m) (\<lambda>eo. case eo of
                        None \<Rightarrow> Inr (c, p', a)
                      | Some ev \<Rightarrow> cb ev (c, p', a)))))"

definition px_handleWrite :: "nat \<Rightarrow> sys_write \<Rightarrow> ('k, 'a) px_state \<Rightarrow> ('k, 'a) px_state res" where
  "px_handleWrite fuel wr = (\<lambda>(c, p, a).
     if getunused (px_buf p) \<le> 0 then Inr (c, p, a)
     else case WriteToSocket fuel wr (px_buf p) of
       None \<Rightarrow> Inl NotReturned
     | Some (b, sent_ret, sent) \<Rightarrow>
         Inr (if getunused b > 0 then Addevents EPOLLOUT c else c,
              p\<lparr>px_buf := b, px_sent := px_sent p @ sent\<rparr>, a))"

definition px_everyHandle :: "int \<Rightarrow> (px_event \<Rightarrow> ('k, 'a) px_state \<Rightarrow> ('k, 'a) px_state res)
    \<Rightarrow> ('k, 'a) px_state \<Rightarrow> ('k, 'a) px_state res" where
  "px_everyHandle ret cb = (\<lambda>(c, p, a).
     if px_in_buffer_empty p \<and> ch_closed c then cb EvClose (c, p, a)
     else let c1 = SetEvents (EPOLLET OR EPOLLIN OR EPOLLRDHUP) c;
              c2 = (if getunused (px_buf p) > 0 then Addevents EPOLLOUT c1 else c1)
          in Inr (px_ModToPoller ret (c2, p, a)))"

definition px_handlers where
  "px_handlers fuel rd wr sp ret cb =
     \<lparr>read_handler = px_handleRead fuel rd sp cb, write_handler = px_handleWrite fuel wr,
      error_handler = Inr, every_handler = px_everyHandle ret cb\<rparr>"

section \<open>The connections to the outside\<close>

text \<open>
  \<open>PublicConnect\<close> (proxy server) and \<open>ClientConnect\<close> (proxy client) have the same read
  handler; \<open>on_eof\<close> stands for the tunnel's \<open>shutdownFromPublic\<close> or
  \<open>shutdownFromClient\<close>, which gets the proxy id and the bytes counted so far.
\<close>

record 'k edge_conn = trans_conn +
  ed_proxy_id :: "u8 list"
  ed_closed :: bool
  ed_src :: 'k

definition new_edge_conn :: "int \<Rightarrow> int \<Rightarrow> u8 list \<Rightarrow> 'k \<Rightarrow> 'k edge_conn" where
  "new_edge_conn fd junk_fd proxy_id src =
     \<lparr>tc_fd = fd, tc_conn2fd = junk_fd, tc_tran_count = 0, tc_recv_count = 0, tc_total_count = - 1,
      tc_pipe = [], tc_out = [], ed_proxy_id = proxy_id, ed_closed = False, ed_src = src\<rparr>"

definition edge_forward :: "(int \<Rightarrow> int) \<Rightarrow> int \<Rightarrow> 'k edge_conn \<Rightarrow> 'k edge_conn" where
  "edge_forward sp n e =
     (let (bs, e') = splice_out sp n e in if bs < 0 then e' else AddTranCount bs e')"

definition edge_handleRead :: "'k reader \<Rightarrow> (int \<Rightarrow> int)
    \<Rightarrow> (u8 list \<Rightarrow> int \<Rightarrow> 'a \<Rightarrow> 'a res) \<Rightarrow> 'k edge_conn \<times> 'a \<Rightarrow> ('k edge_conn \<times> 'a) res" where
  "edge_handleRead rd sp on_eof = (\<lambda>(e, a).
     case rd (ed_src e) 2048 of
       (RError _, q) \<Rightarrow> Inr (e\<lparr>ed_src := q\<rparr>, a)
     | (RData cs, q) \<Rightarrow>
         (let e1 = e\<lparr>ed_src := q, tc_pipe := tc_pipe e @ cs\<rparr>
          in if cs = [] \<and> \<not> ed_closed e
             then bind_res (on_eof (ed_proxy_id e) (tc_tran_count e) a) (\<lambda>a'.
                    Inr (e1\<lparr>ed_closed := True\<rparr>, a'))
             else Inr (edge_forward sp (int (length cs)) e1, a)))"

text \<open>The events to arm for the next round, or none once the end of the stream was seen.\<close>

definition edge_everyHandle :: "'k edge_conn \<Rightarrow> channel \<Rightarrow> channel" where
  "edge_everyHandle e c = (if ed_closed e then c else SetEvents (EPOLLET OR EPOLLIN OR EPOLLRDHUP) c)"

section \<open>Conservation of the relayed bytes\<close>

text \<open>What \<open>splice\<close> promises about a pipe that holds at least the requested bytes.\<close>

definition splice_ok :: "(int \<Rightarrow> int) \<Rightarrow> bool" where
  "splice_ok sp \<longleftrightarrow> (\<forall>n. 0 \<le> n \<longrightarrow> - 1 \<le> sp n \<and> sp n \<le> n)"

lemma splice_out_conserves:
  assumes "splice_ok sp" "0 \<le> n" "n \<le> int (length (tc_pipe t))" "splice_out sp n t = (r, t')"
  shows "tc_out t' @ tc_pipe t' = tc_out t @ tc_pipe t \<and> - 1 \<le> r \<and> r \<le> n \<and>
         int (length (tc_out t')) = int (length (tc_out t)) + max 0 r \<and>
         t' = t\<lparr>tc_out := tc_out t', tc_pipe := tc_pipe t'\<rparr>"
proof -
  have r: "r = sp n" "- 1 \<le> r" "r \<le> n"
    using assms(1,2,4) by (auto simp: splice_ok_def splice_out_def Let_def)
  with assms(3,4) show ?thesis by (auto simp: splice_out_def Let_def min_def)
qed

text \<open>The bytes a run of relay rounds has taken from the stream.\<close>

fun relay_run :: "'k reader \<Rightarrow> (int \<Rightarrow> int) list \<Rightarrow> 'k proxy_conn \<Rightarrow> 'k proxy_conn res" where
  "relay_run rd [] p = Inr p"
| "relay_run rd (sp # sps) p =
     bind_res (px_relay rd sp (\<lambda>_. Inr) (new_channel 0 0 0 False, p, ())) (\<lambda>(c, p', a). relay_run rd sps p')"

text \<open>What holds between two states of a relay.\<close>

definition relayed :: "('k \<Rightarrow> cell list) \<Rightarrow> 'k proxy_conn \<Rightarrow> 'k proxy_conn \<Rightarrow> bool" where
  "relayed rest p p' \<longleftrightarrow>
     tc_out p' @ tc_pipe p' @ rest (px_src p') = tc_out p @ tc_pipe p @ rest (px_src p) \<and>
     length (tc_out p) \<le> length (tc_out p') \<and> length (tc_pipe p) \<le> length (tc_pipe p') \<and>
     tc_recv_count p' = wrap32 (tc_recv_count p + (int (length (tc_out p')) - int (length (tc_out p)))) \<and>
     tc_total_count p' = tc_total_count p"

lemma wrap32_add: "wrap32 (wrap32 a + b) = wrap32 (a + b)"
proof -
  have "((a + 2 ^ 31) mod 2 ^ 32 - 2 ^ 31 + b + 2 ^ 31) mod 2 ^ 32
      = ((a + 2 ^ 31) mod 2 ^ 32 + b) mod 2 ^ 32" by (simp add: algebra_simps)
  also have "\<dots> = (a + 2 ^ 31 + b) mod 2 ^ 32" by (simp only: mod_add_left_eq)
  finally show ?thesis by (simp add: wrap32_def algebra_simps)
qed

lemma relayed_refl: "int_ok (tc_recv_count p) \<Longrightarrow> relayed rest p p"
  by (simp add: relayed_def wrap32_id)

lemma relayed_trans: "relayed rest p q \<Longrightarrow> relayed rest q r \<Longrightarrow> relayed rest p r"
  by (auto simp: relayed_def wrap32_add)

lemma relayed_int_ok: "relayed rest p p' \<Longrightarrow> int_ok (tc_recv_count p')"
  by (simp add: relayed_def wrap32_ok)

lemma px_relay_step:
  assumes src: "stream_source rd rest lag" and sp: "splice_ok sp" and ok: "int_ok (tc_recv_count p)"
  shows "\<exists>p' called. px_relay rd sp cb (c, p, a)
           = (if called then cb EvCloseLocalPeer (c, p', a) else Inr (c, p', a)) \<and>
         relayed rest p p' \<and> (called \<longrightarrow> tc_recv_count p' = tc_total_count p')"
proof -
  obtain r q where step: "rd (px_src p) 2048 = (r, q)" by fastforce
  show ?thesis
  proof (cases r)
    case (RError e)
    then have "rest q = rest (px_src p)"
      using src step unfolding stream_source_def by (fastforce dest!: spec [of _ "px_src p"] spec [of _ 2048])
    with RError step ok show ?thesis
      by (intro exI [of _ "p\<lparr>px_src := q\<rparr>"] exI [of _ False])
         (simp add: px_relay_def relayed_def wrap32_id)
  next
    case (RData cs)
    then have rest: "rest (px_src p) = cs @ rest q"
      using src step unfolding stream_source_def by (fastforce dest!: spec [of _ "px_src p"] spec [of _ 2048])
    show ?thesis
    proof (cases "cs = []")
      case True
      with RData step ok rest show ?thesis
        by (intro exI [of _ "p\<lparr>px_src := q, px_in_buffer_empty := True\<rparr>"] exI [of _ False])
           (simp add: px_relay_def relayed_def wrap32_id)
    next
      case False
      let ?p1 = "p\<lparr>px_src := q, tc_pipe := tc_pipe p @ cs\<rparr>"
      obtain bs p2 where out: "splice_out sp (int (length cs)) ?p1 = (bs, p2)" by fastforce
      have cons: "tc_out p2 @ tc_pipe p2 = tc_out p @ tc_pipe p @ cs" "- 1 \<le> bs" "bs \<le> int (length cs)"
          "int (length (tc_out p2)) = int (length (tc_out p)) + max 0 bs"
          "p2 = ?p1\<lparr>tc_out := tc_out p2, tc_pipe := tc_pipe p2\<rparr>"
        using splice_out_conserves [OF sp _ _ out] by auto
      have same: "px_src p2 = q" "tc_recv_count p2 = tc_recv_count p" "tc_total_count p2 = tc_total_count p"
        by (subst cons(5), simp)+
      have "int (length (tc_out p2)) + int (length (tc_pipe p2))
          = int (length (tc_out p)) + int (length (tc_pipe p)) + int (length cs)"
        using arg_cong [OF cons(1), of length] by simp
      then have grow: "length (tc_pipe p) \<le> length (tc_pipe p2)" "length (tc_out p) \<le> length (tc_out p2)"
        using cons(2-4) by auto
      have all: "tc_out p2 @ tc_pipe p2 @ rest q = tc_out p @ tc_pipe p @ rest (px_src p)"
        using cons(1) rest by (metis append.assoc)
      show ?thesis
      proof (cases "bs < 0")
        case True
        then have "relayed rest p p2"
          using all grow same cons(4) ok by (simp add: relayed_def wrap32_id)
        with True False RData step out show ?thesis
          by (intro exI [of _ p2] exI [of _ False]) (simp add: px_relay_def Let_def)
      next
        case nonneg: False
        let ?p3 = "AddRecvCount bs p2"
        have "relayed rest p ?p3"
          using all grow same cons(4) nonneg by (simp add: relayed_def AddRecvCount_def)
        with nonneg False RData step out show ?thesis
          by (intro exI [of _ ?p3] exI [of _ "tc_recv_count ?p3 = tc_total_count ?p3"])
             (simp add: px_relay_def Let_def)
      qed
    qed
  qed
qed

lemma relay_run_relayed:
  assumes "stream_source rd rest lag" "\<forall>sp \<in> set sps. splice_ok sp" "int_ok (tc_recv_count p)"
  shows "\<exists>p'. relay_run rd sps p = Inr p' \<and> relayed rest p p'"
  using assms(2,3)
proof (induction sps arbitrary: p)
  case Nil
  then show ?case by (simp add: relayed_refl)
next
  case (Cons sp sps)
  from px_relay_step [OF assms(1), of sp p "\<lambda>_. Inr" "new_channel 0 0 0 False" "()"] Cons.prems
  obtain p1 where p1: "px_relay rd sp (\<lambda>_. Inr) (new_channel 0 0 0 False, p, ())
        = Inr (new_channel 0 0 0 False, p1, ())" "relayed rest p p1"
    by (auto split: if_splits)
  with Cons.IH [of p1] Cons.prems relayed_int_ok [OF p1(2)] obtain p2 where
    "relay_run rd sps p1 = Inr p2" "relayed rest p1 p2" by auto
  with p1 show ?case using relayed_trans by fastforce
qed

section \<open>The sending side\<close>

fun edge_run :: "'k reader \<Rightarrow> (int \<Rightarrow> int) list \<Rightarrow> 'k edge_conn \<times> 'a
    \<Rightarrow> (u8 list \<Rightarrow> int \<Rightarrow> 'a \<Rightarrow> 'a res) \<Rightarrow> ('k edge_conn \<times> 'a) res" where
  "edge_run rd [] s on_eof = Inr s"
| "edge_run rd (sp # sps) s on_eof =
     bind_res (edge_handleRead rd sp on_eof s) (\<lambda>s'. edge_run rd sps s' on_eof)"

definition edge_counted :: "'k edge_conn \<Rightarrow> bool" where
  "edge_counted e \<longleftrightarrow> tc_tran_count e = wrap32 (int (length (tc_out e)))"

lemma edge_forward_counted:
  assumes "splice_ok sp" "0 \<le> n" "n \<le> int (length (tc_pipe e))" "edge_counted e"
  shows "edge_counted (edge_forward sp n e)"
proof -
  obtain bs e' where out: "splice_out sp n e = (bs, e')" by fastforce
  from splice_out_conserves [OF assms(1-3) out]
  have c: "int (length (tc_out e')) = int (length (tc_out e)) + max 0 bs"
      "e' = e\<lparr>tc_out := tc_out e', tc_pipe := tc_pipe e'\<rparr>" by auto
  have "tc_tran_count e' = tc_tran_count e" by (subst c(2)) simp
  with c(1) assms(4) out show ?thesis
    by (auto simp: edge_forward_def edge_counted_def AddTranCount_def wrap32_add)
qed

text \<open>The callback that records the counts announced at the end of the stream.\<close>

definition announce :: "u8 list \<Rightarrow> int \<Rightarrow> int list \<Rightarrow> int list res" where
  "announce proxy_id n log = Inr (log @ [n])"

lemma edge_handleRead_counted:
  assumes "splice_ok sp" "edge_counted e"
    "edge_handleRead rd sp announce (e, log) = Inr (e', log')"
  shows "edge_counted e' \<and>
     (log' = log \<or> log' = log @ [tc_tran_count e'] \<and> \<not> ed_closed e \<and> ed_closed e') \<and>
     (ed_closed e \<longrightarrow> ed_closed e')"
proof -
  obtain r q where step: "rd (ed_src e) 2048 = (r, q)" by fastforce
  show ?thesis
  proof (cases r)
    case (RError x)
    with step assms(2,3) show ?thesis by (auto simp: edge_handleRead_def edge_counted_def)
  next
    case (RData cs)
    show ?thesis
    proof (cases "cs = [] \<and> \<not> ed_closed e")
      case True
      with RData step assms(2,3) show ?thesis
        by (auto simp: edge_handleRead_def edge_counted_def announce_def Let_def)
    next
      case False
      let ?e1 = "e\<lparr>ed_src := q, tc_pipe := tc_pipe e @ cs\<rparr>"
      have e': "e' = edge_forward sp (int (length cs)) ?e1" "log' = log"
        using False RData step assms(3) by (auto simp: edge_handleRead_def Let_def)
      have "edge_counted ?e1" using assms(2) by (simp add: edge_counted_def)
      from edge_forward_counted [OF assms(1) _ _ this, of "int (length cs)"] e' show ?thesis
        by (auto simp: edge_forward_def splice_out_def AddTranCount_def Let_def split: if_splits)
    qed
  qed
qed


lemma edge_handleRead_stream:
  assumes "stream_source rd rest lag" "splice_ok sp" "ed_closed e \<longrightarrow> rest (ed_src e) = []"
    "edge_handleRead rd sp announce (e, log) = Inr (e', log')"
  shows "tc_out e' @ tc_pipe e' @ rest (ed_src e') = tc_out e @ tc_pipe e @ rest (ed_src e) \<and>
     (ed_closed e' \<longrightarrow> rest (ed_src e') = []) \<and> (ed_closed e \<longrightarrow> tc_out e' = tc_out e)"
proof -
  obtain r q where step: "rd (ed_src e) 2048 = (r, q)" by fastforce
  show ?thesis
  proof (cases r)
    case (RError x)
    then have "rest q = rest (ed_src e)"
      using assms(1) step unfolding stream_source_def by (fastforce dest!: spec [of _ "ed_src e"] spec [of _ 2048])
    with RError step assms(3,4) show ?thesis by (auto simp: edge_handleRead_def)
  next
    case (RData cs)
    then have cs: "rest (ed_src e) = cs @ rest q" "cs = [] \<longrightarrow> rest (ed_src e) = []"
      using assms(1) step unfolding stream_source_def
      by (fastforce dest!: spec [of _ "ed_src e"] spec [of _ 2048])+
    show ?thesis
    proof (cases "cs = [] \<and> \<not> ed_closed e")
      case True
      with RData step assms(3,4) cs show ?thesis
        by (auto simp: edge_handleRead_def announce_def Let_def)
    next
      case False
      let ?e1 = "e\<lparr>ed_src := q, tc_pipe := tc_pipe e @ cs\<rparr>"
      obtain bs e2 where out: "splice_out sp (int (length cs)) ?e1 = (bs, e2)" by fastforce
      have c: "tc_out e2 @ tc_pipe e2 = tc_out e @ tc_pipe e @ cs" "bs \<le> int (length cs)"
          "int (length (tc_out e2)) = int (length (tc_out e)) + max 0 bs"
          "e2 = ?e1\<lparr>tc_out := tc_out e2, tc_pipe := tc_pipe e2\<rparr>"
        using splice_out_conserves [OF assms(2) _ _ out] by auto
      have e': "e' = (if bs < 0 then e2 else AddTranCount bs e2)"
        using False RData step assms(4) out by (auto simp: edge_handleRead_def edge_forward_def Let_def)
      then have f: "tc_out e' = tc_out e2" "tc_pipe e' = tc_pipe e2" "ed_src e' = ed_src e2"
          "ed_closed e' = ed_closed e2" by (simp_all add: AddTranCount_def)
      have g: "ed_src e2 = q" "ed_closed e2 = ed_closed e" by (subst c(4), simp)+
      have "tc_out e2 = tc_out e" if "cs = []"
      proof -
        have "length (tc_out e2) = length (tc_out e)" using c(2,3) that by simp
        then show ?thesis using c(1) that by (simp add: append_eq_append_conv)
      qed
      moreover have "ed_closed e \<longrightarrow> cs = []" using cs assms(3) by simp
      ultimately show ?thesis
        unfolding f g using arg_cong [OF c(1), of "\<lambda>l. l @ rest q"] cs assms(3) by auto
    qed
  qed
qed


lemma edge_forward_closed: "ed_closed (edge_forward sp n e) = ed_closed e"
  by (simp add: edge_forward_def splice_out_def AddTranCount_def Let_def)

lemma edge_closes:
  assumes "edge_handleRead rd sp announce (e, log) = Inr (e', log')" "\<not> ed_closed e" "ed_closed e'"
  shows "log' \<noteq> log"
  using assms
  by (auto simp: edge_handleRead_def announce_def edge_forward_closed Let_def
      split: sys_read.splits prod.splits if_splits)

lemma edge_run_announce:
  assumes "stream_source rd rest lag" "\<forall>sp \<in> set sps. splice_ok sp" "edge_counted e"
    "ed_closed e \<longrightarrow> rest (ed_src e) = []"
    "log = (if ed_closed e then [tc_tran_count e] else [])"
    "edge_run rd sps (e, log) announce = Inr (e', log')"
  shows "tc_out e' @ tc_pipe e' @ rest (ed_src e') = tc_out e @ tc_pipe e @ rest (ed_src e) \<and>
     edge_counted e' \<and> (ed_closed e' \<longrightarrow> rest (ed_src e') = []) \<and>
     log' = (if ed_closed e' then [tc_tran_count e'] else [])"
  using assms(2-6)
proof (induction sps arbitrary: e log)
  case Nil
  then show ?case by auto
next
  case (Cons sp sps)
  then obtain e1 log1 where s1: "edge_handleRead rd sp announce (e, log) = Inr (e1, log1)"
      "edge_run rd sps (e1, log1) announce = Inr (e', log')"
    by (auto simp: bind_res_eq_Inr)
  have sp: "splice_ok sp" using Cons.prems(1) by simp
  note stream = edge_handleRead_stream [OF assms(1) sp Cons.prems(3) s1(1)]
  note counted = edge_handleRead_counted [OF sp Cons.prems(2) s1(1)]
  have "tc_tran_count e1 = tc_tran_count e" if "ed_closed e"
    using stream counted Cons.prems(2) that by (simp add: edge_counted_def)
  moreover have "log1 \<noteq> log" if "\<not> ed_closed e" "ed_closed e1"
    using edge_closes [OF s1(1) that] .
  ultimately have log1: "log1 = (if ed_closed e1 then [tc_tran_count e1] else [])"
    using counted Cons.prems(4) by (cases "ed_closed e"; cases "ed_closed e1") auto
  from Cons.IH [OF _ _ _ log1 s1(2)] Cons.prems(1) stream counted show ?case by auto
qed

lemma wrap32_eq_iff: "wrap32 a = wrap32 b \<longleftrightarrow> a mod 2 ^ 32 = b mod 2 ^ 32"
proof -
  have "wrap32 a = wrap32 b \<longleftrightarrow> (a + 2 ^ 31) mod 2 ^ 32 = (b + 2 ^ 31) mod 2 ^ 32"
    by (simp add: wrap32_def)
  also have "\<dots> \<longleftrightarrow> a mod 2 ^ 32 = b mod 2 ^ 32"
    by (simp add: mod_eq_dvd_iff)
  finally show ?thesis .
qed

lemma wrap32_len_inj:
  "wrap32 (int m) = wrap32 (int n) \<Longrightarrow> m < 2 ^ 32 \<Longrightarrow> n < 2 ^ 32 \<Longrightarrow> m = n"
  by (simp add: wrap32_eq_iff flip: of_nat_mod)

text \<open>A count survives the trip through \<open>u_int32_t\<close>.\<close>

lemma AddTotalCount_announced:
  assumes "tc_total_count t = - 1 \<or> tc_total_count t = 0"
  shows "AddTotalCount (word_of_int (wrap32 n)) t = t\<lparr>tc_total_count := wrap32 n\<rparr>"
proof -
  have "wrap32 (uint (word_of_int (wrap32 n) :: u32)) = wrap32 n"
    using wrap32_id [OF wrap32_ok, of n] wrap32_eq_iff [of "wrap32 n mod 2 ^ 32" "wrap32 n"]
    by (simp add: uint_word_of_int)
  with assms wrap32_id [OF wrap32_ok] show ?thesis by (auto simp: AddTotalCount_def)
qed


text \<open>One round of a relay whose second \<open>splice\<close> moves all it is asked to.\<close>

lemma px_relay_full:
  assumes "tc_pipe p = []"
  shows "px_relay rd (\<lambda>n. n) cb (c, p, a) =
     (case rd (px_src p) 2048 of
        (RError e, q) \<Rightarrow> Inr (c, p\<lparr>px_src := q\<rparr>, a)
      | (RData cs, q) \<Rightarrow>
          if cs = [] then Inr (c, p\<lparr>px_src := q, px_in_buffer_empty := True\<rparr>, a)
          else let p' = p\<lparr>px_src := q, tc_out := tc_out p @ cs,
                          tc_recv_count := wrap32 (tc_recv_count p + int (length cs))\<rparr>
               in if tc_recv_count p' = tc_total_count p' then cb EvCloseLocalPeer (c, p', a)
                  else Inr (c, p', a))"
proof -
  have same: "p\<lparr>tc_pipe := []\<rparr> = p" using assms by (cases p) simp
  obtain r q where "rd (px_src p) 2048 = (r, q)" by fastforce
  moreover have "p\<lparr>px_src := q, tc_pipe := cs, tc_out := out, tc_recv_count := n\<rparr>\<lparr>tc_pipe := []\<rparr>
      = p\<lparr>px_src := q, tc_out := out, tc_recv_count := n\<rparr>" for cs out n
    using assms by (cases p) simp
  ultimately show ?thesis
    using assms same by (cases r; cases p) (auto simp: px_relay_def splice_out_def AddRecvCount_def Let_def)
qed

lemma relay_completes_induct:
  assumes src: "stream_source rd rest lag" and "tc_pipe p = []" "rest (px_src p) \<noteq> []"
    "tc_total_count p = wrap32 (tc_recv_count p + int (length (rest (px_src p))))"
  shows "\<exists>k p1 p2. relay_run rd (replicate k (\<lambda>n. n)) p = Inr p1 \<and>
     px_relay rd (\<lambda>n. n) cb (c, p1, a) = cb EvCloseLocalPeer (c, p2, a) \<and>
     tc_out p2 = tc_out p @ rest (px_src p) \<and> tc_recv_count p2 = tc_total_count p"
  using assms(2-)
proof (induction "(length (rest (px_src p)), lag (px_src p))" arbitrary: p
    rule: wf_induct_rule [OF wf_lex_prod [OF wf_less_than wf_less_than]])
  case (1 p)
  obtain r q where step: "rd (px_src p) 2048 = (r, q)" by fastforce
  have next_round: ?case if run: "px_relay rd (\<lambda>n. n) (\<lambda>_. Inr) (new_channel 0 0 0 False, p, ())
        = Inr (new_channel 0 0 0 False, p', ())"
    and pre: "((length (rest (px_src p')), lag (px_src p')), (length (rest (px_src p)), lag (px_src p)))
         \<in> less_than <*lex*> less_than" "tc_pipe p' = []" "rest (px_src p') \<noteq> []"
         "tc_total_count p' = wrap32 (tc_recv_count p' + int (length (rest (px_src p'))))"
    and same: "tc_out p' @ rest (px_src p') = tc_out p @ rest (px_src p)" "tc_total_count p' = tc_total_count p"
    for p'
  proof -
    from 1(1) [OF pre] obtain k p1 p2 where
      "relay_run rd (replicate k (\<lambda>n. n)) p' = Inr p1"
      "px_relay rd (\<lambda>n. n) cb (c, p1, a) = cb EvCloseLocalPeer (c, p2, a)"
      "tc_out p2 = tc_out p' @ rest (px_src p')" "tc_recv_count p2 = tc_total_count p'" by blast
    with run same show ?thesis
      by (intro exI [of _ "Suc k"] exI [of _ p1] exI [of _ p2]) simp
  qed
  show ?case
  proof (cases r)
    case (RError e)
    then have "rest q = rest (px_src p)" "lag q < lag (px_src p)"
      using src step unfolding stream_source_def by (fastforce dest!: spec [of _ "px_src p"] spec [of _ 2048])+
    with RError step 1(2-) show ?thesis
      by (intro next_round [of "p\<lparr>px_src := q\<rparr>"]) (simp_all add: px_relay_full)
  next
    case (RData cs)
    then have cs: "rest (px_src p) = cs @ rest q" "cs \<noteq> []"
      using src step 1(3) unfolding stream_source_def
      by (fastforce dest!: spec [of _ "px_src p"] spec [of _ 2048])+
    let ?p = "p\<lparr>px_src := q, tc_out := tc_out p @ cs,
        tc_recv_count := wrap32 (tc_recv_count p + int (length cs))\<rparr>"
    show ?thesis
    proof (cases "rest q = []")
      case True
      with RData step 1(2-) cs show ?thesis
        by (intro exI [of _ 0] exI [of _ p] exI [of _ ?p]) (simp add: px_relay_full)
    next
      case False
      with RData step 1(2-) cs show ?thesis
        by (intro next_round [of ?p]) (simp_all add: px_relay_full wrap32_add add.assoc)
    qed
  qed
qed


section \<open>The half-close counter\<close>

datatype shutdown_event = Remote_shutdown | Local_shutdown

definition shutdown_step :: "shutdown_event \<Rightarrow> 'k proxy_conn \<Rightarrow> bool \<times> 'k proxy_conn" where
  "shutdown_step ev p =
     (case ev of Remote_shutdown \<Rightarrow> (let (r, p', _) = shutdownFromRemote p in (r, p'))
      | Local_shutdown \<Rightarrow> shutdownFromLocal p)"

fun shutdown_run :: "shutdown_event list \<Rightarrow> 'k proxy_conn \<Rightarrow> bool list \<times> 'k proxy_conn" where
  "shutdown_run [] p = ([], p)"
| "shutdown_run (ev # evs) p =
     (let (r, p1) = shutdown_step ev p; (rs, p2) = shutdown_run evs p1 in (r # rs, p2))"

lemma shutdown_step_results:
  "shutdown_step ev p =
     (if px_half_close p then (True, resetConn p) else (False, p\<lparr>px_half_close := True\<rparr>))"
  by (cases ev) (simp_all add: shutdown_step_def shutdownFromRemote_def shutdownFromLocal_def)

lemma resetConn_half: "px_half_close (resetConn p) = False"
  by (simp add: resetConn_def)

lemma resetConn_idem: "resetConn (resetConn p) = resetConn p" "resetConn (p\<lparr>px_half_close := h\<rparr>) = resetConn p"
  by (simp_all add: resetConn_def)

lemma shutdown_run_results:
  "shutdown_run evs p = (rs, p') \<Longrightarrow>
   rs = map (\<lambda>i. odd i = (\<not> px_half_close p)) [0..<length evs] \<and>
   px_half_close p' = (px_half_close p \<noteq> odd (length evs)) \<and>
   p' = (if True \<in> set rs then resetConn p else p)\<lparr>px_half_close := px_half_close p \<noteq> odd (length evs)\<rparr>"
proof (induction evs arbitrary: p rs)
  case Nil
  then show ?case by simp
next
  case (Cons ev evs)
  obtain r p1 rs1 where s: "shutdown_step ev p = (r, p1)" "shutdown_run evs p1 = (rs1, p')" "rs = r # rs1"
    using Cons.prems by (auto simp: Let_def split: prod.splits)
  have p1: "r = px_half_close p" "px_half_close p1 = (\<not> px_half_close p)" "resetConn p1 = resetConn p"
      "r \<longrightarrow> p1 = resetConn p"
    using s(1) by (auto simp: shutdown_step_results resetConn_half resetConn_idem split: if_splits)
  note ih = Cons.IH [OF s(2)]
  have "map (\<lambda>i. odd i = (\<not> px_half_close p)) [0..<length (ev # evs)]
      = px_half_close p # map (\<lambda>i. odd i = (\<not> px_half_close p1)) [0..<length evs]"
    by (simp add: p1(2) upt_conv_Cons map_Suc_upt [symmetric] del: upt_Suc)
  moreover have "p1 = (if r then resetConn p else p)\<lparr>px_half_close := px_half_close p1\<rparr>"
    using s(1) by (auto simp: shutdown_step_results resetConn_def split: if_splits)
  ultimately show ?case using ih p1 s(3)
    by (auto simp: resetConn_idem resetConn_def)
qed


section \<open>Properties\<close>

definition sample_px :: "'k \<Rightarrow> 'k proxy_conn" where
  "sample_px src =
     \<lparr>tc_fd = 7, tc_conn2fd = 8, tc_tran_count = 0, tc_recv_count = 0, tc_total_count = - 1,
      tc_pipe = [], tc_out = [], px_start = True, px_half_close = False,
      px_buf = cc_out_buf (sample_ctl []),
      px_conn = Some 8, px_proxy_id = [65], px_in_buffer_empty = False, px_src = src, px_sent = [],
      px_armed = None\<rparr>"

text \<open>C11: A connection to the outside counts what it forwards: over any run of read events with
  any partial or failing splices, the bytes moved on, the bytes stuck in the pipe and the bytes
  still to come are the stream, in order; the end of the stream is announced at most once, and the
  announced count is the number of bytes moved on to the peer (modulo the width of the counter).\<close>

theorem edge_announces_count:
  assumes "stream_source rd rest lag" "\<forall>sp \<in> set sps. splice_ok sp"
    "edge_run rd sps (new_edge_conn fd junk pid src, []) announce = Inr (e', log)"
  shows "tc_out e' @ tc_pipe e' @ rest (ed_src e') = rest src \<and>
     (log = [] \<and> \<not> ed_closed e' \<or>
      log = [wrap32 (int (length (tc_out e')))] \<and> ed_closed e' \<and> rest (ed_src e') = [])"
  using edge_run_announce [OF assms(1,2) _ _ _ assms(3)]
  by (auto simp: new_edge_conn_def edge_counted_def wrap32_id int_ok_def split: if_splits)

lemma edge_announces_count_witness:
  "\<exists>e' log. edge_run sample_reader [\<lambda>n. n, \<lambda>n. n, \<lambda>n. n] (new_edge_conn 5 0 [65] [Some 1, Some 2], [])
       announce = Inr (e', log) \<and> log = [2] \<and> tc_out e' = [Some 1, Some 2]"
proof -
  obtain e' log where run: "edge_run sample_reader [\<lambda>n. n, \<lambda>n. n, \<lambda>n. n]
      (new_edge_conn 5 0 [65] [Some 1, Some 2], []) announce = Inr (e', log)"
      "ed_closed e'" "tc_pipe e' = []"
    by (simp add: edge_handleRead_def sample_reader_def new_edge_conn_def edge_forward_def
        splice_out_def AddTranCount_def announce_def)
  with edge_announces_count [OF sample_reader_source _ run(1)] show ?thesis
    by (auto simp: splice_ok_def wrap32_id int_ok_def)
qed

text \<open>C3: The relay never truncates a stream.  Let the sender have forwarded the bytes
  \<open>tc_out e\<close> (fewer than \<open>2 ^ 32\<close>) and announced its count, and let the receiving
  connection relay them in any number of rounds, with any partial or failing splices, the
  announcement arriving at any time in between.  When the receiver's count equals the announced
  total, which is the condition for shutting the peer down, every byte has been written to the
  peer, in order, and none is left in the pipe or in the stream.\<close>

theorem relay_no_truncation:
  assumes "stream_source rd rest lag" "\<forall>sp \<in> set (sps1 @ sps2). splice_ok sp"
    "tc_pipe p = []" "tc_recv_count p = 0" "tc_total_count p = - 1 \<or> tc_total_count p = 0"
    "edge_counted e" "length (tc_out e) < 2 ^ 32" "rest (px_src p) = tc_out e"
    "relay_run rd sps1 p = Inr p1"
    "relay_run rd sps2 (AddTotalCount (word_of_int (tc_tran_count e)) p1) = Inr p2"
    "tc_recv_count p2 = tc_total_count p2"
  shows "tc_out p2 = tc_out p @ tc_out e \<and> tc_pipe p2 = [] \<and> rest (px_src p2) = []"
proof -
  have r1: "relayed rest p p1"
    using relay_run_relayed [OF assms(1), of sps1 p] assms(2,4,9) by (auto simp: int_ok_def)
  let ?p1 = "p1\<lparr>tc_total_count := tc_tran_count e\<rparr>"
  have add: "AddTotalCount (word_of_int (tc_tran_count e)) p1 = ?p1"
    using AddTotalCount_announced [of p1 "int (length (tc_out e))"] r1 assms(5,6)
    by (simp add: relayed_def edge_counted_def)
  have "relayed rest ?p1 p2"
    using relay_run_relayed [OF assms(1), of sps2 ?p1] relayed_int_ok [OF r1] assms(2,10) add by auto
  with r1 have all: "tc_out p2 @ tc_pipe p2 @ rest (px_src p2) = tc_out p @ tc_out e"
      "length (tc_out p) \<le> length (tc_out p2)" "tc_total_count p2 = tc_tran_count e"
      "tc_recv_count p2 = wrap32 (int (length (tc_out p2)) - int (length (tc_out p)))"
    using assms(3,4,8) by (auto simp: relayed_def wrap32_add)
  have len: "length (tc_out p2) \<le> length (tc_out p) + length (tc_out e)"
    using arg_cong [OF all(1), of length] by simp
  have "wrap32 (int (length (tc_out p2) - length (tc_out p))) = wrap32 (int (length (tc_out e)))"
    using all assms(6,11) by (simp add: edge_counted_def of_nat_diff)
  then have "length (tc_out p2) - length (tc_out p) = length (tc_out e)"
    using len assms(7) by (intro wrap32_len_inj) auto
  then have "length (tc_out p2) = length (tc_out p @ tc_out e)" using all(2) by simp
  then show ?thesis using all(1) append_eq_append_conv [of "tc_out p2" "tc_out p @ tc_out e"
      "tc_pipe p2 @ rest (px_src p2)" "[]"] by simp
qed


lemma relay_no_truncation_witness:
  "\<exists>p1 p2. relay_run sample_reader [\<lambda>n. n] (sample_px [Some 1, Some 2]) = Inr p1 \<and>
     relay_run sample_reader [\<lambda>n. n]
       (AddTotalCount (word_of_int 2) p1) = Inr p2 \<and> tc_out p2 = [Some 1, Some 2]"
proof -
  let ?e = "(new_edge_conn 5 0 [65] ())\<lparr>tc_out := [Some 1, Some 2], tc_tran_count := 2\<rparr>"
  obtain p1 p2 where runs: "relay_run sample_reader [\<lambda>n. n] (sample_px [Some 1, Some 2]) = Inr p1"
      "relay_run sample_reader [\<lambda>n. n] (AddTotalCount (word_of_int 2) p1) = Inr p2"
      "tc_recv_count p2 = tc_total_count p2"
    by (simp add: px_relay_def sample_reader_def splice_out_def AddRecvCount_def AddTotalCount_def
        sample_px_def wrap32_def Let_def)
  have "tc_out p2 = tc_out (sample_px [Some 1, Some (2 :: u8)]) @ tc_out ?e \<and> tc_pipe p2 = [] \<and> px_src p2 = []"
    by (rule relay_no_truncation [OF sample_reader_source _ _ _ _ _ _ _ runs(1) _ runs(3), where e = ?e
          and ?sps2.0 = "[\<lambda>n. n]"])
       (use runs(2) in \<open>auto simp: splice_ok_def edge_counted_def sample_px_def wrap32_def\<close>)
  with runs show ?thesis by (auto simp: sample_px_def)
qed

text \<open>C12: When every splice moves what it is asked to, a started connection that knows the
  sender's total relays all remaining bytes and then asks for the peer to be shut down, after
  finitely many rounds, however the stream is cut up and interrupted.\<close>

theorem relay_completes:
  assumes "stream_source rd rest lag" "tc_pipe p = []" "rest (px_src p) \<noteq> []"
    "tc_total_count p = wrap32 (tc_recv_count p + int (length (rest (px_src p))))"
  shows "\<exists>k p1 p2. relay_run rd (replicate k (\<lambda>n. n)) p = Inr p1 \<and>
     px_relay rd (\<lambda>n. n) cb (c, p1, a) = cb EvCloseLocalPeer (c, p2, a) \<and>
     tc_out p2 = tc_out p @ rest (px_src p) \<and> tc_recv_count p2 = tc_total_count p"
  using relay_completes_induct [OF assms] .

lemma relay_completes_witness:
  "\<exists>k p1 p2. relay_run sample_reader (replicate k (\<lambda>n. n))
       ((sample_px [Some 1, Some 2])\<lparr>tc_total_count := 2\<rparr>) = Inr p1 \<and>
     px_relay sample_reader (\<lambda>n. n) (\<lambda>ev. Inr) (new_channel 7 0 0 False, p1, ())
       = Inr (new_channel 7 0 0 False, p2, ()) \<and> tc_out p2 = [Some 1, Some 2]"
  using relay_completes [OF sample_reader_source, of "(sample_px [Some 1, Some 2])\<lparr>tc_total_count := 2\<rparr>"
      "\<lambda>ev. Inr" "new_channel 7 0 0 False" "()"]
  by (fastforce simp: sample_px_def wrap32_def)

text \<open>Bytes that one round leaves in the pipe are never made up for: once the pipe is not empty
  it stays so, whatever the later splices move, and a connection whose sender announced everything
  it sent never reaches the condition for shutting its peer down.\<close>

theorem relay_backlog_never_closes:
  assumes "stream_source rd rest lag" "\<forall>sp \<in> set sps. splice_ok sp" "tc_pipe p \<noteq> []"
    "tc_recv_count p = wrap32 (int (length (tc_out p)))"
    "tc_total_count p = wrap32 (int (length (tc_out p @ tc_pipe p @ rest (px_src p))))"
    "length (tc_out p @ tc_pipe p @ rest (px_src p)) < 2 ^ 32"
  shows "\<exists>p'. relay_run rd sps p = Inr p' \<and> tc_pipe p' \<noteq> [] \<and> tc_recv_count p' \<noteq> tc_total_count p'"
proof -
  from relay_run_relayed [OF assms(1,2)] assms(4) wrap32_ok obtain p' where
    p': "relay_run rd sps p = Inr p'" "relayed rest p p'" by metis
  then have all: "tc_out p' @ tc_pipe p' @ rest (px_src p') = tc_out p @ tc_pipe p @ rest (px_src p)"
      "length (tc_pipe p) \<le> length (tc_pipe p')" "tc_total_count p' = tc_total_count p"
      "tc_recv_count p' = wrap32 (int (length (tc_out p')))"
    using assms(4) by (auto simp: relayed_def wrap32_add)
  have ne: "tc_pipe p' \<noteq> []" using all(2) assms(3) by auto
  then have less: "length (tc_out p') < length (tc_out p @ tc_pipe p @ rest (px_src p))"
    using arg_cong [OF all(1), of length] by (cases "tc_pipe p'") simp_all
  have "tc_recv_count p' \<noteq> tc_total_count p'"
  proof
    assume "tc_recv_count p' = tc_total_count p'"
    then have "wrap32 (int (length (tc_out p'))) = wrap32 (int (length (tc_out p @ tc_pipe p @ rest (px_src p))))"
      unfolding all(3,4) assms(5) .
    from wrap32_len_inj [OF this less_trans [OF less assms(6)] assms(6)] less show False by simp
  qed
  with p' ne show ?thesis by blast
qed

lemma relay_backlog_never_closes_witness:
  "\<exists>p'. relay_run sample_reader [\<lambda>n. n, \<lambda>n. - 1, \<lambda>n. 0, \<lambda>n. n]
       ((sample_px [Some 3])\<lparr>tc_out := [Some 1], tc_pipe := [Some 2], tc_recv_count := 1,
         tc_total_count := 3\<rparr>) = Inr p' \<and> tc_pipe p' \<noteq> [] \<and> tc_recv_count p' \<noteq> tc_total_count p'"
  by (rule relay_backlog_never_closes [OF sample_reader_source])
     (auto simp: splice_ok_def sample_px_def wrap32_def)

text \<open>The half-close flag counts modulo two, whatever the directions of the shutdowns: along
  any sequence of shutdowns from the local or the remote side, starting with no side closed, every
  second one reports that the connection is free and resets it, the others do not; before the first
  reset nothing else of the connection changes.\<close>

theorem shutdowns_alternate:
  assumes "shutdown_run evs p = (rs, p')" "\<not> px_half_close p"
  shows "rs = map odd [0..<length evs] \<and>
     p' = (if 2 \<le> length evs then resetConn p else p)\<lparr>px_half_close := odd (length evs)\<rparr>"
proof -
  have "True \<in> set (map odd [0..<length evs]) \<longleftrightarrow> 2 \<le> length evs"
  proof
    assume "True \<in> set (map odd [0..<length evs])"
    then show "2 \<le> length evs" by (auto elim!: oddE)
  next
    assume "2 \<le> length evs"
    then show "True \<in> set (map odd [0..<length evs])"
      unfolding set_map by (intro image_eqI [where x = 1]) auto
  qed
  with shutdown_run_results [OF assms(1)] assms(2) show ?thesis by simp
qed

lemma shutdowns_alternate_witness:
  "shutdown_run [Remote_shutdown, Remote_shutdown, Local_shutdown] (sample_px ())
     = ([False, True, False], (resetConn (sample_px ()))\<lparr>px_half_close := True\<rparr>)"
  using shutdowns_alternate [of "[Remote_shutdown, Remote_shutdown, Local_shutdown]" "sample_px ()"]
  by (cases "shutdown_run [Remote_shutdown, Remote_shutdown, Local_shutdown] (sample_px ())")
     (simp add: sample_px_def upt_conv_Cons)

end
