(* ===== verification/Peer.thy ===== *)
theory Peer
  imports ProxyConn
begin

text \<open>
  What the proxy server and the proxy client have in common: the store of connection objects that
  their tables refer to (\<open>std::shared_ptr\<close> becomes a reference into the store, the null
  pointer \<open>None\<close>), and the record of what a program has handed to the rest of the system:
  control messages given to \<open>SendMsg\<close>, connections given to a worker thread, descriptors
  shut down.  What \<open>SendMsg\<close> does with a control message is modelled in \<open>CtlConn\<close>.
\<close>

section \<open>The object store\<close>

text \<open>\<open>ob_owner\<close> is the tunnel whose handlers the connection has been given, if any.\<close>

record ('k, 'o) px_obj =
  ob_chan :: channel
  ob_conn :: "'k proxy_conn"
  ob_thread :: nat
  ob_owner :: "'o option"

record ('k, 'o) peer_world =
  pw_heap :: "nat \<Rightarrow> ('k, 'o) px_obj"
  pw_next :: nat
  pw_fresh_src :: "int \<Rightarrow> 'k"
  pw_edges :: "(nat \<times> channel \<times> 'k edge_conn) list"
  pw_shut :: "int list"
  pw_posts :: "(nat \<times> ctl_body) list"

definition conn_of :: "('k, 'o) peer_world \<Rightarrow> nat \<Rightarrow> 'k proxy_conn" where
  "conn_of w r = ob_conn (pw_heap w r)"

definition set_obj :: "nat \<Rightarrow> ('k, 'o) px_obj \<Rightarrow> ('k, 'o) peer_world \<Rightarrow> ('k, 'o) peer_world" where
  "set_obj r ob w = w\<lparr>pw_heap := (pw_heap w)(r := ob)\<rparr>"

definition set_conn :: "nat \<Rightarrow> 'k proxy_conn \<Rightarrow> ('k, 'o) peer_world \<Rightarrow> ('k, 'o) peer_world" where
  "set_conn r p w = set_obj r ((pw_heap w r)\<lparr>ob_conn := p\<rparr>) w"

text \<open>\<open>make_shared\<close>: a new object, not yet known to any table.\<close>

definition alloc_conn :: "channel \<Rightarrow> 'k proxy_conn \<Rightarrow> nat \<Rightarrow> ('k, 'o) peer_world \<Rightarrow> nat \<times> ('k, 'o) peer_world" where
  "alloc_conn c p thread w =
     (pw_next w,
      (set_obj (pw_next w) \<lparr>ob_chan = c, ob_conn = p, ob_thread = thread, ob_owner = None\<rparr> w)
        \<lparr>pw_next := Suc (pw_next w)\<rparr>)"

lemma heap_simps [simp]:
  "conn_of (set_conn r p w) s = (if s = r then p else conn_of w s)"
  "pw_next (set_conn r p w) = pw_next w"
  "pw_posts (set_conn r p w) = pw_posts w"
  "pw_shut (set_conn r p w) = pw_shut w"
  "pw_edges (set_conn r p w) = pw_edges w"
  "ob_owner (pw_heap (set_conn r p w) s) = ob_owner (pw_heap w s)"
  "ob_thread (pw_heap (set_conn r p w) s) = ob_thread (pw_heap w s)"
  "conn_of (w\<lparr>pw_posts := x\<rparr>) s = conn_of w s"
  "conn_of (w\<lparr>pw_shut := y\<rparr>) s = conn_of w s"
  "conn_of (w\<lparr>pw_edges := z\<rparr>) s = conn_of w s"
  by (simp_all add: set_conn_def set_obj_def conn_of_def)

section \<open>Sending\<close>

text \<open>A control message: its body is built and framed (which fails when a string does not fit
  its array), then given to \<open>SendMsg\<close> of the control connection numbered \<open>ctl\<close>.\<close>

definition post :: "nat \<Rightarrow> ctl_body \<Rightarrow> ('k, 'o) peer_world \<Rightarrow> ('k, 'o) peer_world res" where
  "post ctl b w = bind_res (make_ctl_msg b) (\<lambda>_. Inr (w\<lparr>pw_posts := pw_posts w @ [(ctl, b)]\<rparr>))"

lemma post_ok: "wf_body b \<Longrightarrow> post ctl b w = Inr (w\<lparr>pw_posts := pw_posts w @ [(ctl, b)]\<rparr>)"
  using make_ctl_msg_ok [of b] by (auto simp: post_def)

lemma post_Inr: "post ctl b w = Inr w' \<Longrightarrow> w' = w\<lparr>pw_posts := pw_posts w @ [(ctl, b)]\<rparr>"
  by (auto simp: post_def bind_res_eq_Inr)

text \<open>\<open>SendMsg\<close> of a proxy connection; \<open>ret\<close> answers its \<open>epoll_ctl\<close>.\<close>

definition obj_SendMsg :: "int \<Rightarrow> Msg \<Rightarrow> nat \<Rightarrow> ('k, 'o) peer_world \<Rightarrow> ('k, 'o) peer_world res" where
  "obj_SendMsg ret m r w =
     bind_res (px_SendMsg ret m (ob_chan (pw_heap w r), conn_of w r, ())) (\<lambda>(c, p, u).
       Inr (set_obj r ((pw_heap w r)\<lparr>ob_chan := c, ob_conn := p\<rparr>) w))"

text \<open>What a send leaves alone.\<close>

definition same_relay :: "'k proxy_conn \<Rightarrow> 'k proxy_conn \<Rightarrow> bool" where
  "same_relay p q \<longleftrightarrow> px_start p = px_start q \<and> px_half_close p = px_half_close q \<and>
     px_proxy_id p = px_proxy_id q \<and> tc_conn2fd p = tc_conn2fd q \<and> tc_fd p = tc_fd q \<and>
     tc_recv_count p = tc_recv_count q \<and> tc_total_count p = tc_total_count q"

lemma same_relay_refl [simp]: "same_relay p p"
  by (simp add: same_relay_def)

lemma px_SendMsg_same_relay:
  "px_SendMsg ret m (c, p, a) = Inr (c', p', a') \<Longrightarrow> same_relay p p'"
  by (auto simp: px_SendMsg_def px_ModToPoller_def Let_def same_relay_def bind_res_eq_Inr split: if_splits)

lemma obj_SendMsg_frame:
  assumes "obj_SendMsg ret m r w = Inr w'"
  shows "same_relay (conn_of w s) (conn_of w' s) \<and> pw_next w' = pw_next w \<and>
     ob_owner (pw_heap w' s) = ob_owner (pw_heap w s) \<and> pw_posts w' = pw_posts w \<and>
     pw_edges w' = pw_edges w \<and> pw_shut w' = pw_shut w"
  using assms
  by (auto simp: obj_SendMsg_def bind_res_eq_Inr set_obj_def conn_of_def dest: px_SendMsg_same_relay)

section \<open>Pairing\<close>

text \<open>\<open>Run\<close> on an object: the edge connection is made, paired and given to the thread of the
  proxy connection.\<close>

definition edge_channel :: "int \<Rightarrow> channel" where
  "edge_channel fd =
     (SetEvents (EPOLLET OR EPOLLIN OR EPOLLRDHUP) (new_channel fd 0 0 False))\<lparr>ch_close_and_delete := False\<rparr>"

definition run_with :: "int \<Rightarrow> 'k edge_conn \<Rightarrow> nat \<Rightarrow> ('k, 'o) peer_world \<Rightarrow> ('k, 'o) peer_world" where
  "run_with fd e r w =
     (let (p', e') = px_Run e (conn_of w r)
      in (set_conn r p' w)
           \<lparr>pw_edges := pw_edges w @ [(ob_thread (pw_heap w r), edge_channel fd, e')]\<rparr>)"

lemma run_with_conn:
  "conn_of (run_with fd e r w) s =
     (if s = r then (conn_of w r)\<lparr>px_start := True, px_conn := Some (tc_fd e), tc_conn2fd := tc_fd e\<rparr>
      else conn_of w s)"
  "pw_next (run_with fd e r w) = pw_next w"
  "pw_posts (run_with fd e r w) = pw_posts w"
  "ob_owner (pw_heap (run_with fd e r w) s) = ob_owner (pw_heap w s)"
  by (simp_all add: run_with_def px_Run_def Let_def)

text \<open>The two shutdowns on an object.\<close>

definition obj_shutdownFromRemote :: "nat \<Rightarrow> ('k, 'o) peer_world \<Rightarrow> bool \<times> ('k, 'o) peer_world" where
  "obj_shutdownFromRemote r w =
     (let (free, p', fds) = shutdownFromRemote (conn_of w r)
      in (free, (set_conn r p' w)\<lparr>pw_shut := pw_shut w @ fds\<rparr>))"

definition obj_shutdownFromLocal :: "nat \<Rightarrow> ('k, 'o) peer_world \<Rightarrow> bool \<times> ('k, 'o) peer_world" where
  "obj_shutdownFromLocal r w =
     (let (free, p') = shutdownFromLocal (conn_of w r) in (free, set_conn r p' w))"

lemma shutdown_id:
  "px_proxy_id (fst (snd (shutdownFromRemote p))) = px_proxy_id p"
  "px_proxy_id (snd (shutdownFromLocal p)) = px_proxy_id p"
  by (auto simp: shutdownFromRemote_def shutdownFromLocal_def resetConn_def)

text \<open>A shutdown from either side frees a connection exactly at its second one.\<close>

lemma obj_shutdown_conn:
  "obj_shutdownFromRemote r w = (free, w') \<Longrightarrow>
     free = px_half_close (conn_of w r) \<and>
     conn_of w' = (conn_of w)(r := if free then resetConn (conn_of w r)
                                   else (conn_of w r)\<lparr>px_half_close := True\<rparr>) \<and>
     pw_posts w' = pw_posts w \<and> pw_next w' = pw_next w \<and>
     pw_shut w' = pw_shut w @ [tc_conn2fd (conn_of w r)] \<and> pw_edges w' = pw_edges w"
  "obj_shutdownFromLocal r w = (free, w') \<Longrightarrow>
     free = px_half_close (conn_of w r) \<and>
     conn_of w' = (conn_of w)(r := if free then resetConn (conn_of w r)
                                   else (conn_of w r)\<lparr>px_half_close := True\<rparr>) \<and>
     pw_posts w' = pw_posts w \<and> pw_next w' = pw_next w \<and>
     pw_shut w' = pw_shut w \<and> pw_edges w' = pw_edges w"
  by (cases "px_half_close (conn_of w r)";
      auto simp: obj_shutdownFromRemote_def obj_shutdownFromLocal_def shutdownFromRemote_def
      shutdownFromLocal_def fun_eq_iff Let_def)+


section \<open>Relaying\<close>

text \<open>
  A relay round of a stored connection.  The callback is the last thing \<open>handleRead\<close> does, so
  it runs here on the store after the round; \<open>on_close\<close> is the handler the tunnel has set.
\<close>

definition obj_relay :: "'k reader \<Rightarrow> (int \<Rightarrow> int)
    \<Rightarrow> (nat \<Rightarrow> 't \<times> ('k, 'o) peer_world \<Rightarrow> ('t \<times> ('k, 'o) peer_world) res)
    \<Rightarrow> nat \<Rightarrow> 't \<times> ('k, 'o) peer_world \<Rightarrow> ('t \<times> ('k, 'o) peer_world) res" where
  "obj_relay rd sp on_close r = (\<lambda>(t, w).
     bind_res (px_relay rd sp (\<lambda>_ (c, p, called). Inr (c, p, True)) (ob_chan (pw_heap w r), conn_of w r, False))
       (\<lambda>(c, p, called).
          if called then on_close r (t, set_conn r p w) else Inr (t, set_conn r p w)))"

lemma px_relay_frame:
  "px_relay rd sp (\<lambda>_ (c, p, called). Inr (c, p, True)) (c, p, a) = Inr (c', p', a') \<Longrightarrow>
   px_start p' = px_start p \<and> px_proxy_id p' = px_proxy_id p \<and> px_half_close p' = px_half_close p \<and>
   tc_total_count p' = tc_total_count p \<and> tc_fd p' = tc_fd p \<and> tc_conn2fd p' = tc_conn2fd p"
  by (auto simp: px_relay_def splice_out_def AddRecvCount_def Let_def
      split: sys_read.splits prod.splits if_splits)


section \<open>Queueing on a proxy connection\<close>

lemma px_SendMsg_queues:
  assumes "buf_inv (px_buf p)" "uint (msg_len m) = 8 + int n" "length (msg_data m) = 1024" "n \<le> 1024"
    "8 + int n \<le> GetFreeSize (px_buf p)"
  shows "\<exists>b. px_SendMsg ret m (c, p, a) = Inr (Addevents EPOLLOUT c,
            p\<lparr>px_buf := b, px_armed := (if ret < 0 then None else Some (ch_events (Addevents EPOLLOUT c)))\<rparr>, a) \<and>
         content b = content (px_buf p) @ wire_of m \<and> buf_inv b"
proof -
  let ?image = "msg_image (m\<lparr>msg_len := htonl (msg_len m)\<rparr>)"
  have "unat (msg_len m) = nat (8 + int n)" using assms(2) unfolding uint_nat by linarith
  then have wire: "take (nat (8 + int n)) ?image = wire_of m" by (simp add: wire_of_def)
  have "8 + int n \<le> int (length ?image)" using assms(3,4) by (simp add: msg_image_def)
  with WriteToBuffer_in_place [OF assms(1) _ assms(5), of ?image] wire obtain b where
    "WriteToBuffer (px_buf p) ?image (8 + int n) = Inr (b, 8 + int n)" "buf_inv b"
    "content b = content (px_buf p) @ wire_of m" by auto
  moreover have "wrap32 (8 + int n) = 8 + int n" using assms(4) by (intro wrap32_id) (simp add: int_ok_def)
  ultimately show ?thesis by (intro exI [of _ b]) (simp add: px_SendMsg_def px_ModToPoller_def assms(2) Let_def)
qed

lemma obj_SendMsg_queues:
  assumes "buf_inv (px_buf (conn_of w r))" "uint (msg_len m) = 8 + int n" "length (msg_data m) = 1024"
    "n \<le> 1024" "8 + int n \<le> GetFreeSize (px_buf (conn_of w r))"
  shows "\<exists>w'. obj_SendMsg ret m r w = Inr w' \<and>
     content (px_buf (conn_of w' r)) = content (px_buf (conn_of w r)) @ wire_of m"
  using px_SendMsg_queues [OF assms, of ret "ob_chan (pw_heap w r)" "()"]
  by (auto simp: obj_SendMsg_def set_obj_def conn_of_def)

text \<open>The request to reuse a connection, as built by \<open>reqStartProxy\<close> and by the answer.\<close>

lemma ProxyConnect_body:
  assumes "fits 10 i"
  shows "\<exists>body m. enc_ProxyConnect \<lparr>pcm_fd = fd, pcm_proxy_id = i\<rparr> = Inr body \<and>
     makeProxyMsg t body 16 = Inr m \<and> uint (msg_len m) = 8 + int 16 \<and> length (msg_data m) = 1024 \<and>
     read_u32 (field 0 4 body) = Inr (htonl fd) \<and> length body = 16"
proof -
  obtain new where "strcpy_into (uninit 10) i = Inr new" "length new = 10"
    using strcpy_uninit [OF assms] by blast
  then have body: "enc_ProxyConnect \<lparr>pcm_fd = fd, pcm_proxy_id = i\<rparr>
      = Inr (cells (le32 (htonl fd)) @ new @ uninit 2)" by (simp add: enc_ProxyConnect_def)
  have len: "length (cells (le32 (htonl fd)) @ new @ uninit 2) = 16" using \<open>length new = 10\<close> by simp
  from makeProxyMsg_ok [of 16 _ t, OF _ len] body show ?thesis by (auto simp: field_def \<open>length new = 10\<close>)
qed


lemma wire_of_nonempty:
  assumes "uint (msg_len m) = 8 + int n"
  shows "wire_of m \<noteq> []"
proof -
  have "0 < unat (msg_len m)" using assms unfolding uint_nat by linarith
  moreover have "msg_image (m\<lparr>msg_len := htonl (msg_len m)\<rparr>) \<noteq> []"
    unfolding msg_image_def by (metis append_is_Nil_conv length_cells length_le32 list.size(3) zero_neq_numeral)
  ultimately show ?thesis by (simp add: wire_of_def)
qed

end
