(* ===== verification/ServerTunnel.thy ===== *)
theory ServerTunnel
  imports Peer
begin

text \<open>
  \<open>Proxyserver/Tunnel.h\<close>, \<open>Proxyserver/Tunnel.cpp\<close>, \<open>Proxyserver/public_connect.h\<close>
  and \<open>Proxyserver/public_connect.cpp\<close>: one tunnel of the proxy server.  It pairs the
  connections of outside users with proxy connections, keeps the ones that are in use, waiting for
  an answer or free, and closes or reuses them.  An operation acts on the tunnel and the object
  store; each runs under the mutexes the code takes and is one step.
\<close>

section \<open>State\<close>

type_synonym tunnel_key = "nat \<times> u8 list"

text \<open>\<open>free_proxy_connects_\<close> holds pointers; \<open>std::remove\<close> leaves null ones in it.\<close>

record st_tunnel =
  st_id :: "u8 list"
  st_ctl :: nat
  st_proxy_port :: u32
  st_listen_fd :: int
  st_listen_addr :: "u8 list"
  st_listen_port :: u32
  st_proxy_map :: "(u8 list, nat) ts_map"
  st_wait_map :: "(u8 list, nat) ts_map"
  st_free :: "nat option list"
  st_unhandled :: "int list"

type_synonym 'k st_state = "st_tunnel \<times> ('k, tunnel_key) peer_world"

text \<open>The constructor listens on port 7777; \<open>name\<close> is the answer of \<open>getsockname\<close>.\<close>

definition new_st_tunnel :: "u8 list \<Rightarrow> nat \<Rightarrow> u32 \<Rightarrow> int \<Rightarrow> int \<Rightarrow> int \<Rightarrow> u8 list \<times> u32 \<Rightarrow> st_tunnel" where
  "new_st_tunnel tunnel_id ctl proxy_port sock bind_ret listen_ret name =
     \<lparr>st_id = tunnel_id, st_ctl = ctl, st_proxy_port = proxy_port,
      st_listen_fd = fst (sockt_bind_listen 7777 sock bind_ret listen_ret),
      st_listen_addr = fst name, st_listen_port = snd name,
      st_proxy_map = Map.empty, st_wait_map = Map.empty, st_free = [], st_unhandled = []\<rparr>"

section \<open>Operations\<close>

definition getAndPopUndealPublicFd :: "st_tunnel \<Rightarrow> (int \<times> st_tunnel) res" where
  "getAndPopUndealPublicFd t =
     (if st_unhandled t = [] then Inl EmptyContainer
      else Inr (last (st_unhandled t), t\<lparr>st_unhandled := butlast (st_unhandled t)\<rparr>))"

definition freeProxyConn :: "u8 list \<Rightarrow> 'k st_state \<Rightarrow> 'k st_state" where
  "freeProxyConn proxy_id = (\<lambda>(t, w).
     let (r, proxy_exist) = tm_get 0 (st_proxy_map t) proxy_id
     in if \<not> proxy_exist then (t, w)
        else if px_start (conn_of w r) then (t, w)
        else (t\<lparr>st_proxy_map := tm_erase (st_proxy_map t) proxy_id,
                st_free := st_free t @ [Some r]\<rparr>, w))"

definition shutdownPublicConn :: "nat \<Rightarrow> 'k st_state \<Rightarrow> 'k st_state" where
  "shutdownPublicConn r = (\<lambda>(t, w).
     let tot = tc_total_count (conn_of w r); RecvCount = tc_recv_count (conn_of w r)
     in if RecvCount \<noteq> tot then (t, w)
        else let (Free, w') = obj_shutdownFromRemote r w
             in if Free then freeProxyConn (px_proxy_id (conn_of w' r)) (t, w') else (t, w'))"

text \<open>\<open>Control::shutdownFromPublic\<close> and \<open>Control::notifyClientNeedProxy\<close>: messages on the
  control connection of the tunnel's owner.\<close>

definition ctl_shutdownFromPublic :: "nat \<Rightarrow> u8 list \<Rightarrow> u8 list \<Rightarrow> u32
    \<Rightarrow> ('k, 'o) peer_world \<Rightarrow> ('k, 'o) peer_world res" where
  "ctl_shutdownFromPublic ctl tun_id proxy_id tran_count =
     post ctl (BShutdownPeerConn
       \<lparr>spc_tunnel_id = tun_id, spc_proxy_id = proxy_id, spc_tran_count = tran_count\<rparr>)"

definition notifyClientNeedProxy :: "nat \<Rightarrow> u32 \<Rightarrow> u8 list \<Rightarrow> ('k, 'o) peer_world \<Rightarrow> ('k, 'o) peer_world res" where
  "notifyClientNeedProxy ctl proxy_port tun_id =
     post ctl (BNotifyClient \<lparr>ncp_tunnel_id = tun_id, ncp_proxy_server_port = proxy_port\<rparr>)"

text \<open>The result of \<open>shutdownFromLocal\<close> is ignored.\<close>

definition st_shutdownFromPublic :: "u8 list \<Rightarrow> u32 \<Rightarrow> 'k st_state \<Rightarrow> 'k st_state res" where
  "st_shutdownFromPublic proxy_id tran_count = (\<lambda>(t, w).
     let (r, isproxyExit) = tm_get 0 (st_proxy_map t) proxy_id
     in if \<not> isproxyExit then Inr (t, w)
        else let (_, w') = obj_shutdownFromLocal r w
             in bind_res (ctl_shutdownFromPublic (st_ctl t) (st_id t) proxy_id tran_count w')
                  (\<lambda>w''. Inr (t, w'')))"

definition reqStartProxy :: "int \<Rightarrow> int \<Rightarrow> nat option \<Rightarrow> 'k st_state \<Rightarrow> 'k st_state res" where
  "reqStartProxy ret public_fd proxy_conn = (\<lambda>(t, w).
     case proxy_conn of
       None \<Rightarrow> Inl NullDeref
     | Some r \<Rightarrow>
         bind_res (enc_ProxyConnect \<lparr>pcm_fd = word_of_int public_fd, pcm_proxy_id = px_proxy_id (conn_of w r)\<rparr>)
           (\<lambda>cs. bind_res (makeProxyMsg ProxyConnectReq cs 16)
           (\<lambda>m. bind_res (obj_SendMsg ret m r w) (\<lambda>w'. Inr (t, w')))))"

definition bindPublicFdToProxyConn :: "int \<Rightarrow> nat \<Rightarrow> 'k st_state \<Rightarrow> 'k st_state" where
  "bindPublicFdToProxyConn public_fd r = (\<lambda>(t, w).
     let proxy_id = px_proxy_id (conn_of w r);
         public_connect = new_edge_conn public_fd 0 proxy_id (pw_fresh_src w public_fd)
     in (t\<lparr>st_proxy_map := tm_add (st_proxy_map t) proxy_id r\<rparr>, run_with public_fd public_connect r w))"

definition claimProxyConn :: "nat \<Rightarrow> 'k st_state \<Rightarrow> 'k st_state res" where
  "claimProxyConn r = (\<lambda>(t, w).
     let w1 = set_obj r ((pw_heap w r)\<lparr>ob_owner := Some (st_ctl t, st_id t)\<rparr>) w
     in bind_res (getAndPopUndealPublicFd t) (\<lambda>(publicfd, t').
          Inr (bindPublicFdToProxyConn publicfd r (t', w1))))"

text \<open>\<open>isempty\<close>, the connection and the rest.\<close>

definition popFreeProxyConn :: "st_tunnel \<Rightarrow> bool \<times> nat option \<times> st_tunnel" where
  "popFreeProxyConn t =
     (if st_free t = [] then (True, None, t)
      else (False, last (st_free t), t\<lparr>st_free := butlast (st_free t)\<rparr>))"

definition getProxyConn :: "u8 list \<Rightarrow> st_tunnel \<Rightarrow> nat \<times> bool" where
  "getProxyConn proxy_id t = tm_get 0 (st_proxy_map t) proxy_id"

text \<open>One accepted connection of an outside user; the handler takes them until \<open>accept\<close>
  returns nothing more.\<close>

definition new_public_conn :: "int \<Rightarrow> int \<Rightarrow> 'k st_state \<Rightarrow> 'k st_state res" where
  "new_public_conn ret accept_fd = (\<lambda>(t, w).
     let (freeEmpty, proxy_connect, t1) = popFreeProxyConn t
     in if \<not> freeEmpty then
          bind_res (reqStartProxy ret accept_fd proxy_connect (t1, w)) (\<lambda>(t2, w2).
            case proxy_connect of
              None \<Rightarrow> Inl NullDeref
            | Some r \<Rightarrow> Inr (t2\<lparr>st_wait_map := tm_add (st_wait_map t2) (px_proxy_id (conn_of w2 r)) r\<rparr>, w2))
        else
          bind_res (notifyClientNeedProxy (st_ctl t1) (st_proxy_port t1) (st_id t1) w) (\<lambda>w2.
            Inr (t1\<lparr>st_unhandled := st_unhandled t1 @ [accept_fd]\<rparr>, w2)))"

fun newPublicConnHandler :: "int \<Rightarrow> int list \<Rightarrow> 'k st_state \<Rightarrow> 'k st_state res" where
  "newPublicConnHandler ret [] s = Inr s"
| "newPublicConnHandler ret (accept_fd # fds) s =
     (if accept_fd > 0
      then bind_res (new_public_conn ret accept_fd s) (newPublicConnHandler ret fds)
      else Inr s)"

definition handleStartProxyConnRsp :: "cell list \<Rightarrow> nat \<Rightarrow> 'k st_state \<Rightarrow> 'k st_state res" where
  "handleStartProxyConnRsp msg r = (\<lambda>(t, w).
     bind_res (read_u32 (field 0 4 msg)) (\<lambda>n.
       let public_fd = wrap32 (uint (ntohl n)); proxy_id = px_proxy_id (conn_of w r)
       in if \<not> tm_isExist (st_wait_map t) proxy_id then Inr (t, w)
          else let (t', w') = bindPublicFdToProxyConn public_fd r (t, w)
               in Inr (t'\<lparr>st_wait_map := tm_erase (st_wait_map t') proxy_id\<rparr>, w')))"

text \<open>
  \<open>std::remove\<close>: from the first match on, the elements to keep are moved down; a pointer that
  is moved away is null afterwards, and the tail is not cut off.
\<close>

function remove_loop :: "nat \<Rightarrow> nat option list \<Rightarrow> nat \<Rightarrow> nat \<Rightarrow> nat option list" where
  "remove_loop v xs result first =
     (if first < length xs then
        if xs ! first = Some v then remove_loop v xs result (Suc first)
        else remove_loop v (xs[result := xs ! first, first := None]) (Suc result) (Suc first)
      else xs)"
  by pat_completeness auto
termination by (relation "measure (\<lambda>(v, xs, result, first). length xs - first)") auto

declare remove_loop.simps [simp del]

definition std_remove :: "nat \<Rightarrow> nat option list \<Rightarrow> nat option list" where
  "std_remove v xs =
     (let i = length (takeWhile (\<lambda>x. x \<noteq> Some v) xs)
      in if i = length xs then xs else remove_loop v xs i (Suc i))"

definition handlePeerProxyConnClose :: "nat \<Rightarrow> 'k st_state \<Rightarrow> 'k st_state" where
  "handlePeerProxyConnClose r = (\<lambda>(t, w).
     (t\<lparr>st_proxy_map := tm_erase (st_proxy_map t) (px_proxy_id (conn_of w r)),
        st_free := std_remove r (st_free t)\<rparr>, w))"

section \<open>PublicConnect\<close>

text \<open>The read handler of an outside connection; at the end of its stream it calls the tunnel.\<close>

definition public_handleRead :: "'k reader \<Rightarrow> (int \<Rightarrow> int) \<Rightarrow> 'k edge_conn \<times> 'k st_state
    \<Rightarrow> ('k edge_conn \<times> 'k st_state) res" where
  "public_handleRead rd sp =
     edge_handleRead rd sp (\<lambda>proxy_id n. st_shutdownFromPublic proxy_id (word_of_int n))"


section \<open>The tables of a tunnel\<close>

text \<open>
  What the tables say about the connections, in terms of which are started and what their
  identifiers are: a free connection is idle and listed once, and at most \<open>n\<close> elements of the list
  are null; the keys of the tables are the identifiers of their connections; free, waiting and used
  connections are different.
\<close>

definition non_null :: "nat option list \<Rightarrow> nat list" where
  "non_null xs = map the (filter (\<lambda>x. x \<noteq> None) xs)"

definition nulls :: "nat option list \<Rightarrow> nat" where
  "nulls xs = length (filter (\<lambda>x. x = None) xs)"

lemma non_null_simps [simp]:
  "non_null [] = []" "non_null (xs @ ys) = non_null xs @ non_null ys" "non_null (None # xs) = non_null xs"
  "non_null (Some r # xs) = r # non_null xs"
  by (simp_all add: non_null_def)

lemma nulls_simps [simp]:
  "nulls [] = 0" "nulls (xs @ ys) = nulls xs + nulls ys" "nulls (None # xs) = Suc (nulls xs)"
  "nulls (Some r # xs) = nulls xs"
  by (simp_all add: nulls_def)

lemma set_non_null [simp]: "r \<in> set (non_null xs) \<longleftrightarrow> Some r \<in> set xs"
  by (force simp: non_null_def)

lemma no_nulls: "nulls xs = 0 \<longleftrightarrow> None \<notin> set xs"
  unfolding nulls_def length_0_conv filter_empty_conv by metis

lemma distinct_non_null: "nulls xs = 0 \<Longrightarrow> distinct (non_null xs) = distinct xs"
proof (induction xs)
  case (Cons x xs)
  then show ?case by (cases x) auto
qed simp

definition free_ids :: "st_tunnel \<Rightarrow> (nat \<Rightarrow> u8 list) \<Rightarrow> u8 list list" where
  "free_ids t i = map i (non_null (st_free t))"

definition st_inv :: "nat \<Rightarrow> st_tunnel \<Rightarrow> (nat \<Rightarrow> bool) \<Rightarrow> (nat \<Rightarrow> u8 list) \<Rightarrow> bool" where
  "st_inv n t started i \<longleftrightarrow>
     nulls (st_free t) \<le> n \<and>
     (\<forall>r. Some r \<in> set (st_free t) \<longrightarrow> \<not> started r) \<and>
     distinct (free_ids t i) \<and>
     (\<forall>k r. st_proxy_map t k = Some r \<longrightarrow> k = i r \<and> k \<notin> set (free_ids t i) \<and> st_wait_map t k = None) \<and>
     (\<forall>k r. st_wait_map t k = Some r \<longrightarrow> k = i r \<and> k \<notin> set (free_ids t i) \<and> \<not> started r)"

definition started_in :: "('k, 'o) peer_world \<Rightarrow> nat \<Rightarrow> bool" where
  "started_in w r = px_start (conn_of w r)"

definition id_in :: "('k, 'o) peer_world \<Rightarrow> nat \<Rightarrow> u8 list" where
  "id_in w r = px_proxy_id (conn_of w r)"

definition tun_inv :: "nat \<Rightarrow> 'k st_state \<Rightarrow> bool" where
  "tun_inv n = (\<lambda>(t, w). st_inv n t (started_in w) (id_in w))"

lemma st_invI:
  assumes "nulls (st_free t) \<le> n" "\<And>r. Some r \<in> set (st_free t) \<Longrightarrow> \<not> started r" "distinct (free_ids t i)"
    "\<And>k r. st_proxy_map t k = Some r \<Longrightarrow> k = i r \<and> k \<notin> set (free_ids t i) \<and> st_wait_map t k = None"
    "\<And>k r. st_wait_map t k = Some r \<Longrightarrow> k = i r \<and> k \<notin> set (free_ids t i) \<and> \<not> started r"
  shows "st_inv n t started i"
  using assms unfolding st_inv_def by blast

lemma st_invD:
  assumes "st_inv n t started i"
  shows "Some r \<in> set (st_free t) \<Longrightarrow> \<not> started r" "distinct (free_ids t i)"
    "st_proxy_map t k = Some r \<Longrightarrow> k = i r \<and> k \<notin> set (free_ids t i) \<and> st_wait_map t k = None"
    "st_wait_map t k = Some r \<Longrightarrow> k = i r \<and> k \<notin> set (free_ids t i) \<and> \<not> started r"
    "nulls (st_free t) \<le> n"
  using assms unfolding st_inv_def by blast+

lemma st_inv_fewer_started:
  "st_inv n t started i \<Longrightarrow> (\<And>r. started' r \<Longrightarrow> started r) \<Longrightarrow> st_inv n t started' i"
  unfolding st_inv_def by blast

lemma st_inv_free:
  assumes "st_inv n t started i" "st_proxy_map t k = Some r" "\<not> started r"
  shows "st_inv n (t\<lparr>st_proxy_map := (st_proxy_map t)(k := None), st_free := st_free t @ [Some r]\<rparr>) started i"
    (is "st_inv n ?t _ _")
proof -
  note D = st_invD [OF assms(1)]
  have k: "i r = k" "k \<notin> set (free_ids t i)" "st_wait_map t k = None"
    using D(3) [OF assms(2)] by auto
  have ids: "free_ids ?t i = free_ids t i @ [k]" by (simp add: free_ids_def k(1))
  show ?thesis
  proof (rule st_invI)
    show "nulls (st_free ?t) \<le> n" using D(5) by simp
    show "Some s \<in> set (st_free ?t) \<Longrightarrow> \<not> started s" for s
      using D(1) assms(3) by auto
    show "distinct (free_ids ?t i)" using D(2) k(2) by (simp add: ids)
    show "j = i s \<and> j \<notin> set (free_ids ?t i) \<and> st_wait_map ?t j = None" if "st_proxy_map ?t j = Some s" for j s
      using D(3) [of j s] that by (auto simp: ids split: if_splits)
    show "j = i s \<and> j \<notin> set (free_ids ?t i) \<and> \<not> started s" if "st_wait_map ?t j = Some s" for j s
      using D(4) [of j s] that k(3) by (auto simp: ids)
  qed
qed

lemma st_inv_start:
  assumes "st_inv n t started i" "i r \<notin> set (free_ids t i)"
  shows "st_inv n (t\<lparr>st_proxy_map := (st_proxy_map t)(i r \<mapsto> r), st_wait_map := (st_wait_map t)(i r := None)\<rparr>)
           (started(r := True)) i" (is "st_inv n ?t _ _")
proof -
  note D = st_invD [OF assms(1)]
  have ids: "free_ids ?t i = free_ids t i" by (simp add: free_ids_def)
  show ?thesis
  proof (rule st_invI)
    show "nulls (st_free ?t) \<le> n" using D(5) by simp
    show "\<not> (started(r := True)) s" if "Some s \<in> set (st_free ?t)" for s
    proof -
      from that have "i s \<in> set (free_ids t i)" by (simp add: free_ids_def)
      with that D(1) assms(2) show ?thesis by auto
    qed
    show "distinct (free_ids ?t i)" using D(2) by (simp add: ids)
    show "j = i s \<and> j \<notin> set (free_ids ?t i) \<and> st_wait_map ?t j = None" if "st_proxy_map ?t j = Some s" for j s
      using D(3) [of j s] that assms(2) by (auto simp: ids split: if_splits)
    show "j = i s \<and> j \<notin> set (free_ids ?t i) \<and> \<not> (started(r := True)) s" if "st_wait_map ?t j = Some s" for j s
      using D(4) [of j s] that by (auto simp: ids split: if_splits)
  qed
qed

lemma st_inv_wait:
  assumes "st_inv n t started i" "st_free t = fs @ [Some r]"
  shows "st_inv n (t\<lparr>st_free := fs, st_wait_map := tm_add (st_wait_map t) (i r) r\<rparr>) started i"
    (is "st_inv n ?t _ _")
proof -
  note D = st_invD [OF assms(1)]
  have ids: "free_ids t i = free_ids ?t i @ [i r]" using assms(2) by (simp add: free_ids_def)
  then have r: "\<not> started r" "i r \<notin> set (free_ids ?t i)" "i r \<in> set (free_ids t i)"
    using D(1) [of r] D(2) assms(2) by auto
  have none: "st_wait_map t (i r) = None" "st_proxy_map t (i r) = None"
    using D(3,4) [of "i r"] r(3) by (metis not_None_eq)+
  show ?thesis
  proof (rule st_invI)
    show "nulls (st_free ?t) \<le> n" using D(5) assms(2) by simp
    show "Some s \<in> set (st_free ?t) \<Longrightarrow> \<not> started s" for s
      using D(1) assms(2) by simp
    show "distinct (free_ids ?t i)" using D(2) by (simp add: ids)
    show "j = i s \<and> j \<notin> set (free_ids ?t i) \<and> st_wait_map ?t j = None" if "st_proxy_map ?t j = Some s" for j s
      using D(3) [of j s] that none by (auto simp: ids tm_add_def)
    show "j = i s \<and> j \<notin> set (free_ids ?t i) \<and> \<not> started s" if "st_wait_map ?t j = Some s" for j s
      using D(4) [of j s] that none r by (auto simp: ids tm_add_def split: if_splits)
  qed
qed


lemma world_frame:
  "obj_SendMsg ret m r w = Inr w' \<Longrightarrow> started_in w' = started_in w \<and> id_in w' = id_in w"
  "started_in (run_with fd e r w) = (started_in w)(r := True)"
  "id_in (run_with fd e r w) = id_in w"
  "obj_shutdownFromRemote r w = (free, w1) \<Longrightarrow> id_in w1 = id_in w \<and> (\<forall>s. started_in w1 s \<longrightarrow> started_in w s)"
  "obj_shutdownFromLocal r w = (free, w2) \<Longrightarrow> id_in w2 = id_in w \<and> (\<forall>s. started_in w2 s \<longrightarrow> started_in w s)"
  "started_in (w\<lparr>pw_posts := ps\<rparr>) = started_in w" "id_in (w\<lparr>pw_posts := ps\<rparr>) = id_in w"
  "started_in (set_obj r ((pw_heap w r)\<lparr>ob_owner := ow\<rparr>) w) = started_in w"
  "id_in (set_obj r ((pw_heap w r)\<lparr>ob_owner := ow\<rparr>) w) = id_in w"
  subgoal using obj_SendMsg_frame [of ret m r w w'] by (auto simp: started_in_def id_in_def same_relay_def fun_eq_iff)
  subgoal by (auto simp: started_in_def run_with_conn fun_eq_iff)
  subgoal by (auto simp: id_in_def run_with_conn fun_eq_iff)
  subgoal using obj_shutdown_conn(1) [of r w free w1] by (auto simp: started_in_def id_in_def resetConn_def fun_eq_iff)
  subgoal using obj_shutdown_conn(2) [of r w free w2] by (auto simp: started_in_def id_in_def resetConn_def fun_eq_iff)
  by (auto simp: started_in_def id_in_def fun_eq_iff set_obj_def conn_of_def)

lemma freeProxyConn_inv: "tun_inv n s \<Longrightarrow> tun_inv n (freeProxyConn pid s)"
  using st_inv_free
  by (cases s) (auto simp: freeProxyConn_def tun_inv_def tm_get_def tm_erase_def started_in_def
      split: option.splits)

lemma shutdownPublicConn_inv:
  assumes "tun_inv n s"
  shows "tun_inv n (shutdownPublicConn r s)"
proof -
  obtain t w where s: "s = (t, w)" by (cases s)
  obtain free w' where o: "obj_shutdownFromRemote r w = (free, w')" by fastforce
  have "tun_inv n (t, w')"
    using assms world_frame(4) [OF o] st_inv_fewer_started by (auto simp: s tun_inv_def)
  with assms o freeProxyConn_inv show ?thesis by (auto simp: s shutdownPublicConn_def Let_def)
qed

lemma st_shutdownFromPublic_inv:
  assumes "tun_inv n s" "st_shutdownFromPublic pid m s = Inr s'"
  shows "tun_inv n s'"
proof -
  obtain t w where s: "s = (t, w)" by (cases s)
  obtain free w' where o: "obj_shutdownFromLocal (fst (tm_get 0 (st_proxy_map t) pid)) w = (free, w')"
    by fastforce
  have "tun_inv n (t, w')"
    using assms(1) world_frame(5) [OF o] st_inv_fewer_started by (auto simp: s tun_inv_def)
  with assms o show ?thesis
    by (auto simp: s st_shutdownFromPublic_def ctl_shutdownFromPublic_def bind_res_eq_Inr tun_inv_def
        world_frame(6,7) Let_def dest!: post_Inr split: prod.splits if_splits)
qed

lemma new_public_conn_inv:
  assumes "tun_inv n s" "new_public_conn ret fd s = Inr s'"
  shows "tun_inv n s'"
proof -
  obtain t w where s: "s = (t, w)" by (cases s)
  show ?thesis
  proof (cases "st_free t = []")
    case True
    with assms show ?thesis
      by (auto simp: s new_public_conn_def popFreeProxyConn_def notifyClientNeedProxy_def bind_res_eq_Inr
          tun_inv_def world_frame(6,7) st_inv_def free_ids_def dest!: post_Inr)
  next
    case False
    then obtain fs x where f: "st_free t = fs @ [x]" by (metis append_butlast_last_id)
    with assms(2) obtain r where x: "x = Some r"
      by (cases x) (simp_all add: s new_public_conn_def popFreeProxyConn_def reqStartProxy_def)
    from assms(2) f x obtain m w' where sent: "obj_SendMsg ret m r w = Inr w'"
        and s': "s' = (t\<lparr>st_free := fs, st_wait_map := tm_add (st_wait_map t) (px_proxy_id (conn_of w' r)) r\<rparr>, w')"
      by (auto simp: s new_public_conn_def popFreeProxyConn_def reqStartProxy_def bind_res_eq_Inr)
    have "st_inv n (t\<lparr>st_free := fs, st_wait_map := tm_add (st_wait_map t) (id_in w r) r\<rparr>) (started_in w) (id_in w)"
      using st_inv_wait f x assms(1) by (auto simp: s tun_inv_def)
    moreover have "px_proxy_id (conn_of w' r) = id_in w r"
      using world_frame(1) [OF sent] by (metis id_in_def)
    ultimately show ?thesis using world_frame(1) [OF sent] by (simp add: s' tun_inv_def)
  qed
qed

lemma bind_inv:
  assumes "tun_inv n (t, w)" "id_in w r \<notin> set (free_ids t (id_in w))"
    "st_proxy_map t (id_in w r) = None" "bindPublicFdToProxyConn fd r (t, w) = (t', w')"
  shows "tun_inv n (t'\<lparr>st_wait_map := tm_erase (st_wait_map t') (id_in w r)\<rparr>, w')"
  using st_inv_start [of n t "started_in w" "id_in w" r] assms
  by (auto simp: tun_inv_def bindPublicFdToProxyConn_def tm_add_def tm_erase_def world_frame(2,3)
      id_in_def Let_def)

lemma claimProxyConn_inv:
  assumes "tun_inv n (t, w)" "id_in w r \<notin> set (free_ids t (id_in w))"
    "st_proxy_map t (id_in w r) = None" "st_wait_map t (id_in w r) = None"
    "claimProxyConn r (t, w) = Inr (t', w')"
  shows "tun_inv n (t', w')"
proof -
  let ?w = "set_obj r ((pw_heap w r)\<lparr>ob_owner := Some (st_ctl t, st_id t)\<rparr>) w"
  let ?t = "t\<lparr>st_unhandled := butlast (st_unhandled t)\<rparr>"
  have b: "bindPublicFdToProxyConn (last (st_unhandled t)) r (?t, ?w) = (t', w')"
    using assms(5) by (auto simp: claimProxyConn_def getAndPopUndealPublicFd_def split: if_splits)
  have "tun_inv n (?t, ?w)" "free_ids ?t = free_ids t"
    using assms(1) by (auto simp: tun_inv_def st_inv_def free_ids_def world_frame fun_eq_iff)
  with bind_inv [OF _ _ _ b] assms(2,3)
  have "tun_inv n (t'\<lparr>st_wait_map := tm_erase (st_wait_map t') (id_in w r)\<rparr>, w')"
    by (simp add: world_frame)
  moreover have "t'\<lparr>st_wait_map := tm_erase (st_wait_map t') (id_in w r)\<rparr> = t'"
    using b assms(4) by (auto simp: bindPublicFdToProxyConn_def tm_erase_def Let_def fun_upd_idem)
  ultimately show ?thesis by simp
qed

lemma handleStartProxyConnRsp_inv:
  assumes "tun_inv n (t, w)" "handleStartProxyConnRsp msg r (t, w) = Inr s'"
  shows "tun_inv n s'"
proof (cases "tm_isExist (st_wait_map t) (id_in w r)")
  case False
  with assms show ?thesis by (auto simp: handleStartProxyConnRsp_def bind_res_eq_Inr id_in_def Let_def)
next
  case True
  from assms(2) obtain n where n: "read_u32 (field 0 4 msg) = Inr n"
    by (auto simp: handleStartProxyConnRsp_def bind_res_eq_Inr)
  obtain t' w' where b: "bindPublicFdToProxyConn (wrap32 (uint (ntohl n))) r (t, w) = (t', w')" by fastforce
  have s': "s' = (t'\<lparr>st_wait_map := tm_erase (st_wait_map t') (id_in w r)\<rparr>, w')"
    using assms(2) n True b by (simp add: handleStartProxyConnRsp_def id_in_def Let_def)
  obtain k where k: "st_wait_map t (id_in w r) = Some k" using True by (auto simp: tm_isExist_def)
  note D = st_invD [OF assms(1) [unfolded tun_inv_def, simplified]]
  have "st_proxy_map t (id_in w r) = None"
  proof (cases "st_proxy_map t (id_in w r)")
    case (Some j)
    then show ?thesis using D(3) [OF Some] k by simp
  qed
  moreover have "id_in w r \<notin> set (free_ids t (id_in w))" using D(4) [OF k] by blast
  ultimately show ?thesis unfolding s' by (rule bind_inv [OF assms(1) _ _ b, rotated])
qed

lemma remove_loop_shift:
  "Some v \<notin> set ys \<Longrightarrow>
   remove_loop v (xs @ x # ys) (length xs) (Suc (length xs)) = xs @ ys @ [if ys = [] then x else None]"
proof (induction ys arbitrary: xs x)
  case Nil
  then show ?case by (simp add: remove_loop.simps)
next
  case (Cons y ys)
  have "(xs @ x # y # ys)[length xs := y, Suc (length xs) := None] = (xs @ [y]) @ None # ys"
    by (simp add: list_update_append)
  moreover have "(xs @ x # y # ys) ! Suc (length xs) = y" by (simp add: nth_append)
  ultimately show ?case
    using Cons.IH [of "xs @ [y]" None] Cons.prems by (subst remove_loop.simps) auto
qed

lemma std_remove_once:
  assumes "Some v \<notin> set xs" "Some v \<notin> set ys"
  shows "std_remove v (xs @ Some v # ys) = xs @ ys @ [if ys = [] then Some v else None]"
proof -
  have "takeWhile (\<lambda>x. x \<noteq> Some v) (xs @ Some v # ys) = xs"
    using assms(1) by (subst takeWhile_append2) auto
  then show ?thesis using remove_loop_shift [OF assms(2), of xs "Some v"] by (simp add: std_remove_def)
qed


lemma std_remove_absent: "Some v \<notin> set xs \<Longrightarrow> std_remove v xs = xs"
proof -
  assume "Some v \<notin> set xs"
  then have "takeWhile (\<lambda>x. x \<noteq> Some v) xs = xs" by (auto simp: takeWhile_eq_all_conv)
  then show ?thesis unfolding std_remove_def Let_def by (simp only: if_True refl)
qed

text \<open>The close of a connection that is not free leaves the list as it is; that of a free one drops
  it and leaves one null, or leaves the list as it is.\<close>

lemma peer_close_free:
  assumes "distinct (non_null xs)"
  shows "set (non_null (std_remove r xs)) \<subseteq> set (non_null xs) \<and>
     (distinct (map i (non_null xs)) \<longrightarrow> distinct (map i (non_null (std_remove r xs)))) \<and>
     nulls (std_remove r xs) \<le> nulls xs + (if Some r \<in> set xs then 1 else 0)"
proof (cases "Some r \<in> set xs")
  case True
  then obtain ys zs where xs: "xs = ys @ Some r # zs" by (metis in_set_conv_decomp)
  with assms have "Some r \<notin> set ys" "Some r \<notin> set zs" by auto
  from std_remove_once [OF this] show ?thesis by (auto simp: xs)
qed (simp add: std_remove_absent)

lemma handlePeerProxyConnClose_inv:
  assumes "tun_inv n (t, w)"
  shows "tun_inv (n + (if Some r \<in> set (st_free t) then 1 else 0)) (handlePeerProxyConnClose r (t, w))"
proof -
  have inv: "st_inv n t (started_in w) (id_in w)" using assms by (simp add: tun_inv_def)
  note D = st_invD [OF inv]
  have d: "distinct (map (id_in w) (non_null (st_free t)))" using D(2) by (simp add: free_ids_def)
  then have "distinct (non_null (st_free t))" by (simp add: distinct_map)
  note P = peer_close_free [OF this, of r "id_in w"]
  let ?t = "t\<lparr>st_proxy_map := tm_erase (st_proxy_map t) (id_in w r), st_free := std_remove r (st_free t)\<rparr>"
  have ids: "set (free_ids ?t (id_in w)) \<subseteq> set (free_ids t (id_in w))" using P by (auto simp: free_ids_def)
  have "st_inv (n + (if Some r \<in> set (st_free t) then 1 else 0)) ?t (started_in w) (id_in w)"
  proof (rule st_invI)
    show "nulls (st_free ?t) \<le> n + (if Some r \<in> set (st_free t) then 1 else 0)" using P D(5) by simp
    show "Some s \<in> set (st_free ?t) \<Longrightarrow> \<not> started_in w s" for s
      using P D(1) [of s] by (auto simp flip: set_non_null)
    show "distinct (free_ids ?t (id_in w))" using P d by (simp add: free_ids_def)
    show "k = id_in w s \<and> k \<notin> set (free_ids ?t (id_in w)) \<and> st_wait_map ?t k = None"
      if "st_proxy_map ?t k = Some s" for k s
      using D(3) [of k s] that ids by (auto simp: tm_erase_def split: if_splits)
    show "k = id_in w s \<and> k \<notin> set (free_ids ?t (id_in w)) \<and> \<not> started_in w s"
      if "st_wait_map ?t k = Some s" for k s
      using D(4) [of k s] that ids by auto
  qed
  then show ?thesis by (simp add: tun_inv_def handlePeerProxyConnClose_def id_in_def)
qed


section \<open>Runs of a tunnel\<close>

text \<open>
  Everything that happens to a tunnel and its connections, in any order.  The one restriction is
  that the client names its connections freshly (\<open>st_claim\<close>).  The number of a step is 1 when it is
  the close of a connection on the free list (\<open>st_peer_close\<close>), and 0 otherwise; a run adds them up.
\<close>

definition unused_id :: "st_tunnel \<Rightarrow> (nat \<Rightarrow> u8 list) \<Rightarrow> u8 list \<Rightarrow> bool" where
  "unused_id t i k \<longleftrightarrow> k \<notin> set (free_ids t i) \<and> st_proxy_map t k = None \<and> st_wait_map t k = None"

inductive st_step :: "'k st_state \<Rightarrow> nat \<Rightarrow> 'k st_state \<Rightarrow> bool" where
  st_public: "new_public_conn ret fd s = Inr s' \<Longrightarrow> st_step s 0 s'"
| st_claim: "unused_id t (id_in w) (id_in w r) \<Longrightarrow> claimProxyConn r (t, w) = Inr s' \<Longrightarrow> st_step (t, w) 0 s'"
| st_answer: "handleStartProxyConnRsp msg r (t, w) = Inr s' \<Longrightarrow> st_step (t, w) 0 s'"
| st_shutdown: "st_step s 0 (shutdownPublicConn r s)"
| st_eof: "st_shutdownFromPublic pid n s = Inr s' \<Longrightarrow> st_step s 0 s'"
| st_free_req: "st_step s 0 (freeProxyConn pid s)"
| st_peer_close: "st_step (t, w) (if Some r \<in> set (st_free t) then 1 else 0) (handlePeerProxyConnClose r (t, w))"
| st_relay: "obj_relay rd sp (\<lambda>r s. Inr (shutdownPublicConn r s)) r s = Inr s' \<Longrightarrow> st_step s 0 s'"
| st_total: "st_step (t, w) 0 (t, set_conn r (AddTotalCount n (conn_of w r)) w)"

inductive st_reachable :: "'k st_state \<Rightarrow> nat \<Rightarrow> 'k st_state \<Rightarrow> bool" for s0 where
  st_init: "st_reachable s0 0 s0"
| st_more: "st_reachable s0 n s \<Longrightarrow> st_step s d s' \<Longrightarrow> st_reachable s0 (n + d) s'"

lemma set_conn_inv:
  assumes "tun_inv n (t, w)" "px_start p = started_in w r" "px_proxy_id p = id_in w r"
  shows "tun_inv n (t, set_conn r p w)"
proof -
  have "started_in (set_conn r p w) = started_in w" "id_in (set_conn r p w) = id_in w"
    using assms(2,3) by (auto simp: started_in_def id_in_def fun_eq_iff)
  with assms(1) show ?thesis by (simp add: tun_inv_def)
qed

lemma obj_relay_inv:
  assumes "tun_inv n s" "obj_relay rd sp (\<lambda>r s. Inr (shutdownPublicConn r s)) r s = Inr s'"
  shows "tun_inv n s'"
proof -
  obtain t w where s: "s = (t, w)" by (cases s)
  from assms(2) obtain c p called where
    q: "px_relay rd sp (\<lambda>_ (c, p, called). Inr (c, p, True)) (ob_chan (pw_heap w r), conn_of w r, False)
        = Inr (c, p, called)"
      "s' = (if called then shutdownPublicConn r (t, set_conn r p w) else (t, set_conn r p w))"
    by (auto simp: s obj_relay_def bind_res_eq_Inr split: if_splits)
  have "tun_inv n (t, set_conn r p w)"
    using px_relay_frame [OF q(1)] assms(1) by (intro set_conn_inv) (auto simp: s started_in_def id_in_def)
  then show ?thesis using q(2) shutdownPublicConn_inv by auto
qed

lemma st_step_inv: "st_step s d s' \<Longrightarrow> tun_inv n s \<Longrightarrow> tun_inv (n + d) s'"
proof (induction rule: st_step.induct)
  case (st_claim t w r s')
  then show ?case using claimProxyConn_inv [of n t w r "fst s'" "snd s'"] by (simp add: unused_id_def)
next
  case (st_peer_close t w r)
  show ?case by (rule handlePeerProxyConnClose_inv [OF st_peer_close])
next
  case (st_total t w r m)
  have "tun_inv n (t, set_conn r (AddTotalCount m (conn_of w r)) w)"
    using st_total by (intro set_conn_inv) (auto simp: AddTotalCount_def started_in_def id_in_def Let_def)
  then show ?case by simp
qed (auto intro: new_public_conn_inv handleStartProxyConnRsp_inv shutdownPublicConn_inv
       st_shutdownFromPublic_inv freeProxyConn_inv obj_relay_inv)

lemma st_reachable_inv: "st_reachable s0 n s \<Longrightarrow> tun_inv 0 s0 \<Longrightarrow> tun_inv n s"
  by (induction rule: st_reachable.induct) (auto intro: st_step_inv)

lemma new_st_tunnel_inv: "tun_inv 0 (new_st_tunnel tid cid port sock b l name, w)"
  by (simp add: tun_inv_def new_st_tunnel_def st_inv_def free_ids_def)

section \<open>Properties\<close>

definition sample_world :: "(u8 list \<times> bool) list \<Rightarrow> (cell list, 'o) peer_world" where
  "sample_world cs =
     \<lparr>pw_heap = (\<lambda>r. \<lparr>ob_chan = new_channel (int r + 20) 0 0 False,
        ob_conn = (if r < length cs
                   then (sample_px [])\<lparr>px_proxy_id := fst (cs ! r), px_start := snd (cs ! r)\<rparr>
                   else sample_px []),
        ob_thread = 0, ob_owner = None\<rparr>),
      pw_next = length cs, pw_fresh_src = (\<lambda>_. []), pw_edges = [], pw_shut = [], pw_posts = []\<rparr>"

definition sample_tunnel :: st_tunnel where
  "sample_tunnel = new_st_tunnel [84] 0 8089 9 0 0 ([48], 7777)"

text \<open>C4: Along every run of a tunnel whose client names its connections freshly, whatever the order
  of users, claims, answers, shutdowns and closes, the connections on the free list are listed once,
  not started and in no other table; a connection waiting to be restarted is not started and not in
  use; and a connection found under an identifier has that identifier.  The free list holds at most
  as many null pointers as connections were closed by the client while they were free, so none, and
  no duplicate at all, as long as that has not happened.\<close>

theorem tunnel_tables_sound:
  assumes "st_reachable (new_st_tunnel tid cid port sock b l name, w0) n (t, w)"
  shows "nulls (st_free t) \<le> n \<and> (n = 0 \<longrightarrow> None \<notin> set (st_free t) \<and> distinct (st_free t)) \<and>
     distinct (non_null (st_free t)) \<and>
     (\<forall>r. Some r \<in> set (st_free t) \<longrightarrow> \<not> px_start (conn_of w r) \<and>
        r \<notin> ran (st_proxy_map t) \<and> r \<notin> ran (st_wait_map t)) \<and>
     (\<forall>k r. st_wait_map t k = Some r \<longrightarrow> px_proxy_id (conn_of w r) = k \<and> \<not> px_start (conn_of w r) \<and>
        st_proxy_map t k = None) \<and>
     (\<forall>k r. st_proxy_map t k = Some r \<longrightarrow> px_proxy_id (conn_of w r) = k)"
proof -
  have "st_inv n t (started_in w) (id_in w)"
    using st_reachable_inv [OF assms new_st_tunnel_inv] by (simp add: tun_inv_def)
  note D = st_invD [OF this]
  have d: "distinct (non_null (st_free t))" using D(2) by (simp add: free_ids_def distinct_map)
  have "None \<notin> set (st_free t) \<and> distinct (st_free t)" if "n = 0"
    using D(5) d that by (simp add: distinct_non_null flip: no_nulls)
  moreover have f: "id_in w r \<in> set (free_ids t (id_in w))" if "Some r \<in> set (st_free t)" for r
    using that by (simp add: free_ids_def)
  moreover have "r \<notin> ran (st_proxy_map t)" "r \<notin> ran (st_wait_map t)" if "Some r \<in> set (st_free t)" for r
    using f [OF that] D(3,4) by (auto simp: ran_def)
  moreover have "st_proxy_map t k = None" if "st_wait_map t k = Some r" for k r
  proof (cases "st_proxy_map t k")
    case (Some x)
    then show ?thesis using D(3) [OF Some] that by simp
  qed
  ultimately show ?thesis using D(1,3,4,5) d by (simp add: started_in_def id_in_def)
qed

text \<open>The witness: a user connects, and then the client closes a connection.\<close>

lemma tunnel_tables_sound_witness:
  "\<exists>t w. st_reachable (new_st_tunnel [84] 0 8089 9 0 0 ([48], 7777),
       sample_world [] :: (cell list, tunnel_key) peer_world) 0 (t, w) \<and>
     st_unhandled t = [30] \<and> None \<notin> set (st_free t)"
proof -
  let ?w = "sample_world [] :: (cell list, tunnel_key) peer_world"
  obtain t w where s: "new_public_conn 0 30 (sample_tunnel, ?w) = Inr (t, w)" "st_unhandled t = [30]"
      "st_free t = []"
    using post_ok [of "BNotifyClient \<lparr>ncp_tunnel_id = [84], ncp_proxy_server_port = 8089\<rparr>" 0 ?w]
    by (simp add: new_public_conn_def popFreeProxyConn_def sample_tunnel_def new_st_tunnel_def
        notifyClientNeedProxy_def fits_def c_string_def)
  obtain t' w' where c: "handlePeerProxyConnClose 0 (t, w) = (t', w')" "st_unhandled t' = [30]"
    using s(2) by (simp add: handlePeerProxyConnClose_def)
  have "st_reachable (sample_tunnel, ?w) (0 + 0) (t, w)"
    by (rule st_more [OF st_init st_public [OF s(1)]])
  from st_more [OF this st_peer_close [of t w 0]] have r: "st_reachable (new_st_tunnel [84] 0 8089 9 0 0 ([48], 7777), ?w) 0 (t', w')"
    using s(3) c(1) by (simp add: sample_tunnel_def)
  with tunnel_tables_sound [OF r] c(2) show ?thesis by blast
qed

text \<open>A user who connects while no connection is free is served by the next proxy connection
  that is claimed: the request for a connection goes out on the control connection, and the claim
  takes the user's descriptor (the last one pending), enters the connection in the table, starts
  it, pairs it with the descriptor in both directions and gives the new edge to its thread; what
  was pending before is pending again.\<close>

theorem public_conn_gets_proxy:
  assumes "st_free t = []" "fits 10 (st_id t)" "st_proxy_map t (px_proxy_id (conn_of w r)) = None"
  shows "\<exists>s1 t2 w2 e. new_public_conn ret fd (t, w) = Inr s1 \<and>
     pw_posts (snd s1) = pw_posts w @ [(st_ctl t, BNotifyClient
       \<lparr>ncp_tunnel_id = st_id t, ncp_proxy_server_port = st_proxy_port t\<rparr>)] \<and>
     claimProxyConn r s1 = Inr (t2, w2) \<and> st_unhandled t2 = st_unhandled t \<and>
     st_proxy_map t2 (px_proxy_id (conn_of w r)) = Some r \<and>
     px_start (conn_of w2 r) \<and> tc_conn2fd (conn_of w2 r) = fd \<and>
     ob_owner (pw_heap w2 r) = Some (st_ctl t, st_id t) \<and>
     pw_edges w2 = pw_edges w @ [(ob_thread (pw_heap w r), edge_channel fd, e)] \<and>
     tc_fd e = fd \<and> tc_conn2fd e = tc_fd (conn_of w r) \<and> ed_proxy_id e = px_proxy_id (conn_of w r)"
proof -
  let ?b = "BNotifyClient \<lparr>ncp_tunnel_id = st_id t, ncp_proxy_server_port = st_proxy_port t\<rparr>"
  have "post (st_ctl t) ?b w = Inr (w\<lparr>pw_posts := pw_posts w @ [(st_ctl t, ?b)]\<rparr>)"
    using assms(2) by (intro post_ok) simp
  with assms(1,3) show ?thesis
    by (simp add: new_public_conn_def popFreeProxyConn_def notifyClientNeedProxy_def claimProxyConn_def
        getAndPopUndealPublicFd_def bindPublicFdToProxyConn_def run_with_def px_Run_def new_edge_conn_def
        set_conn_def set_obj_def conn_of_def tm_add_def Let_def)
qed

lemma public_conn_gets_proxy_witness:
  "\<exists>s1 t2 w2. new_public_conn 0 30 (sample_tunnel, sample_world [([80], False)]) = Inr s1 \<and>
     claimProxyConn 0 s1 = Inr (t2, w2) \<and> tc_conn2fd (conn_of w2 0) = 30"
  using public_conn_gets_proxy [of sample_tunnel "sample_world [([80], False)]" 0 0 30]
  by (auto simp: sample_tunnel_def new_st_tunnel_def fits_def c_string_def)

text \<open>A proxy connection for which no user is pending (a second \<open>ProxyMetaSet\<close>, or one that
  nobody asked for) makes the tunnel take the last element of an empty vector.\<close>

lemma unrequested_claim_fails:
  "claimProxyConn r (t, w) = Inl EmptyContainer \<longleftrightarrow> st_unhandled t = []"
  by (auto simp: claimProxyConn_def getAndPopUndealPublicFd_def split: if_splits)

text \<open>When the client closes a connection that is on the free list, the list is corrupted
  unless that connection is its last element: \<open>std::remove\<close> moves the others down and leaves a
  null pointer at the end, which the next user's connection dereferences; and if it is the last
  element, it stays, so that the next user is given a closed connection.\<close>

theorem peer_close_corrupts_free_list:
  assumes "st_free t = xs @ Some r # ys" "Some r \<notin> set xs" "Some r \<notin> set ys"
    "handlePeerProxyConnClose r (t, w) = (t', w')"
  shows "(ys \<noteq> [] \<longrightarrow> st_free t' = xs @ ys @ [None] \<and> new_public_conn ret fd (t', w') = Inl NullDeref) \<and>
     (ys = [] \<longrightarrow> st_free t' = st_free t \<and> fst (snd (popFreeProxyConn t')) = Some r)"
  using assms std_remove_once [OF assms(2,3)]
  by (auto simp: handlePeerProxyConnClose_def new_public_conn_def popFreeProxyConn_def reqStartProxy_def)

lemma peer_close_corrupts_free_list_witness:
  "new_public_conn 0 30 (handlePeerProxyConnClose 0
     (sample_tunnel\<lparr>st_free := [Some 0, Some 1]\<rparr>, sample_world [([80], False), ([81], False)]))
   = Inl NullDeref"
  using peer_close_corrupts_free_list [of "sample_tunnel\<lparr>st_free := [Some 0, Some 1]\<rparr>" "[]" 0 "[Some 1]"
      "sample_world [([80], False), ([81], False)]"]
  by (cases "handlePeerProxyConnClose 0
     (sample_tunnel\<lparr>st_free := [Some 0, Some 1]\<rparr>, sample_world [([80], False), ([81], False)])") simp


lemma new_public_conn_reuse:
  assumes "st_free t = fs @ [Some r]" "fits 10 (id_in w r)"
    "buf_inv (px_buf (conn_of w r))" "24 \<le> GetFreeSize (px_buf (conn_of w r))"
  shows "\<exists>body m w1. enc_ProxyConnect \<lparr>pcm_fd = word_of_int fd, pcm_proxy_id = id_in w r\<rparr> = Inr body \<and>
     makeProxyMsg ProxyConnectReq body 16 = Inr m \<and> read_u32 (field 0 4 body) = Inr (htonl (word_of_int fd)) \<and>
     new_public_conn ret fd (t, w) = Inr (t\<lparr>st_free := fs,
        st_wait_map := tm_add (st_wait_map t) (id_in w r) r\<rparr>, w1) \<and>
     content (px_buf (conn_of w1 r)) = content (px_buf (conn_of w r)) @ wire_of m \<and> wire_of m \<noteq> [] \<and>
     id_in w1 r = id_in w r \<and> pw_posts w1 = pw_posts w"
proof -
  obtain body m where m: "enc_ProxyConnect \<lparr>pcm_fd = word_of_int fd, pcm_proxy_id = id_in w r\<rparr> = Inr body"
      "makeProxyMsg ProxyConnectReq body 16 = Inr m" "uint (msg_len m) = 8 + int 16"
      "length (msg_data m) = 1024" "read_u32 (field 0 4 body) = Inr (htonl (word_of_int fd))"
    using ProxyConnect_body [OF assms(2), of "word_of_int fd" ProxyConnectReq] by auto
  obtain w1 where w1: "obj_SendMsg ret m r w = Inr w1"
      "content (px_buf (conn_of w1 r)) = content (px_buf (conn_of w r)) @ wire_of m"
    using obj_SendMsg_queues [OF assms(3) m(3,4)] assms(4) by auto
  have i: "px_proxy_id (conn_of w1 r) = id_in w r"
    using world_frame(1) [OF w1(1)] by (metis id_in_def)
  have "new_public_conn ret fd (t, w) = Inr (t\<lparr>st_free := fs,
        st_wait_map := tm_add (st_wait_map t) (id_in w r) r\<rparr>, w1)"
    using assms(1) m(1,2) w1(1) i
    by (simp add: new_public_conn_def popFreeProxyConn_def reqStartProxy_def id_in_def)
  with m w1(2) i obj_SendMsg_frame [OF w1(1)] wire_of_nonempty [OF m(3)] show ?thesis by (auto simp: id_in_def)
qed

text \<open>C10: A user who connects while connections are free is given the last free one: the request
  with the user's descriptor is queued on it, it waits under its identifier, nothing is posted on
  the control connection, and the answer that carries the descriptor back (through two changes of
  byte order) starts it, paired with that very descriptor.\<close>

theorem free_connection_reused:
  assumes "st_free t = fs @ [Some r]" "fits 10 (id_in w r)" "st_wait_map t (id_in w r) = None"
    "st_proxy_map t (id_in w r) = None" "0 \<le> fd" "fd < 2 ^ 31"
    "buf_inv (px_buf (conn_of w r))" "24 \<le> GetFreeSize (px_buf (conn_of w r))"
    "enc_ProxyConnect \<lparr>pcm_fd = word_of_int fd, pcm_proxy_id = id_in w r\<rparr> = Inr body"
  shows "\<exists>m t1 w1 t2 w2. makeProxyMsg ProxyConnectReq body 16 = Inr m \<and>
     new_public_conn ret fd (t, w) = Inr (t1, w1) \<and> st_free t1 = fs \<and>
     content (px_buf (conn_of w1 r)) = content (px_buf (conn_of w r)) @ wire_of m \<and>
     st_wait_map t1 (id_in w r) = Some r \<and> pw_posts w1 = pw_posts w \<and>
     handleStartProxyConnRsp body r (t1, w1) = Inr (t2, w2) \<and>
     st_wait_map t2 (id_in w r) = None \<and> st_proxy_map t2 (id_in w r) = Some r \<and>
     px_start (conn_of w2 r) \<and> tc_conn2fd (conn_of w2 r) = fd"
proof -
  let ?t1 = "t\<lparr>st_free := fs, st_wait_map := (st_wait_map t)(id_in w r \<mapsto> r)\<rparr>"
  obtain m w1 where m: "makeProxyMsg ProxyConnectReq body 16 = Inr m"
      "read_u32 (field 0 4 body) = Inr (htonl (word_of_int fd))"
      "new_public_conn ret fd (t, w) = Inr (?t1, w1)"
      "content (px_buf (conn_of w1 r)) = content (px_buf (conn_of w r)) @ wire_of m"
      "px_proxy_id (conn_of w1 r) = id_in w r" "pw_posts w1 = pw_posts w"
    using new_public_conn_reuse [OF assms(1,2,7,8), of fd ret] assms(3,9) by (auto simp: tm_add_def id_in_def)
  have "uint (word_of_int fd :: u32) = fd" using assms(5,6) by (simp add: uint_word_of_int)
  then have fd: "wrap32 (uint (ntohl (htonl (word_of_int fd)))) = fd"
    using assms(5,6) by (simp add: wrap32_id int_ok_def)
  obtain t2 w2 where b: "bindPublicFdToProxyConn fd r (?t1, w1) = (t2, w2)" by fastforce
  have "handleStartProxyConnRsp body r (?t1, w1)
      = Inr (t2\<lparr>st_wait_map := tm_erase (st_wait_map t2) (id_in w r)\<rparr>, w2)"
    using b fd by (simp add: handleStartProxyConnRsp_def m(2,5) tm_isExist_def Let_def)
  moreover have "st_proxy_map t2 (id_in w r) = Some r" "px_start (conn_of w2 r)" "tc_conn2fd (conn_of w2 r) = fd"
    using b assms(4) m(5)
    by (auto simp: bindPublicFdToProxyConn_def tm_add_def run_with_conn new_edge_conn_def Let_def)
  ultimately show ?thesis
    using m
    by (intro exI [of _ m] exI [of _ ?t1] exI [of _ w1]
          exI [of _ "t2\<lparr>st_wait_map := tm_erase (st_wait_map t2) (id_in w r)\<rparr>"] exI [of _ w2])
       (simp add: tm_erase_def)
qed

lemma free_connection_reused_witness:
  "\<exists>t1 w1 t2 w2 body. new_public_conn 0 30
        (sample_tunnel\<lparr>st_free := [Some 0]\<rparr>, sample_world [([80], False)]) = Inr (t1, w1) \<and>
     handleStartProxyConnRsp body 0 (t1, w1) = Inr (t2, w2) \<and> tc_conn2fd (conn_of w2 0) = 30"
proof -
  let ?t = "sample_tunnel\<lparr>st_free := [Some 0]\<rparr>" 
    and ?w = "sample_world [([80], False)] :: (cell list, tunnel_key) peer_world"
  have i: "id_in ?w 0 = [80]" by (simp add: id_in_def conn_of_def sample_world_def)
  have b: "px_buf (conn_of ?w 0) = cc_out_buf (sample_ctl [])"
    by (simp add: conn_of_def sample_world_def sample_px_def)
  have f: "fits 10 (id_in ?w 0)" by (simp add: i fits_def c_string_def)
  from ProxyConnect_body [OF f] obtain body where
    "enc_ProxyConnect \<lparr>pcm_fd = word_of_int 30, pcm_proxy_id = id_in ?w 0\<rparr> = Inr body" by blast
  from free_connection_reused [OF _ f _ _ _ _ _ _ this, of ?t "[]" 0] obtain t1 w1 t2 w2 where
    "new_public_conn 0 30 (?t, ?w) = Inr (t1, w1)" "handleStartProxyConnRsp body 0 (t1, w1) = Inr (t2, w2)"
    "tc_conn2fd (conn_of w2 0) = 30"
    using sample_ctl_inv unfolding b by (auto simp: sample_tunnel_def new_st_tunnel_def)
  then show ?thesis by blast
qed


text \<open>One relay round that moves \<open>cs\<close>, on the store.\<close>

definition moved :: "'k \<Rightarrow> cell list \<Rightarrow> 'k proxy_conn \<Rightarrow> 'k proxy_conn" where
  "moved q cs p = p\<lparr>px_src := q, tc_out := tc_out p @ cs,
     tc_recv_count := wrap32 (tc_recv_count p + int (length cs))\<rparr>"

lemma obj_relay_round:
  assumes "rd (px_src (conn_of w r)) 2048 = (RData cs, q)" "cs \<noteq> []" "tc_pipe (conn_of w r) = []"
  shows "obj_relay rd (\<lambda>n. n) on_close r (t, w) =
     (let p = moved q cs (conn_of w r)
      in if tc_recv_count p = tc_total_count p then on_close r (t, set_conn r p w)
         else Inr (t, set_conn r p w))"
  using assms by (simp add: obj_relay_def px_relay_full moved_def Let_def)

lemma obj_relay_round_returns:
  assumes "rd (px_src (conn_of w r)) 2048 = (RData cs, q)" "cs \<noteq> []" "tc_pipe (conn_of w r) = []"
  shows "\<exists>s'. obj_relay rd (\<lambda>n. n) (\<lambda>r s. Inr (on_close r s)) r (t, w) = Inr s'"
  using obj_relay_round [where on_close = "\<lambda>r s. Inr (on_close r s)" and t = t and rd = rd, OF assms]
  by (simp add: Let_def)

lemma shutdownPublicConn_first:
  assumes "tc_recv_count (conn_of w r) = tc_total_count (conn_of w r)" "\<not> px_half_close (conn_of w r)"
  shows "\<exists>w'. shutdownPublicConn r (t, w) = (t, w') \<and>
     conn_of w' = (conn_of w)(r := (conn_of w r)\<lparr>px_half_close := True\<rparr>) \<and> pw_posts w' = pw_posts w"
proof -
  obtain free w' where o: "obj_shutdownFromRemote r w = (free, w')" by fastforce
  with assms obj_shutdown_conn(1) [OF o] show ?thesis by (auto simp: shutdownPublicConn_def Let_def)
qed

lemma shutdownPublicConn_second:
  assumes "tc_recv_count (conn_of w r) = tc_total_count (conn_of w r)" "px_half_close (conn_of w r)"
    "st_proxy_map t (px_proxy_id (conn_of w r)) = Some r"
  shows "\<exists>w'. shutdownPublicConn r (t, w) =
      (t\<lparr>st_proxy_map := (st_proxy_map t)(px_proxy_id (conn_of w r) := None), st_free := st_free t @ [Some r]\<rparr>, w') \<and>
     conn_of w' = (conn_of w)(r := resetConn (conn_of w r)) \<and> pw_posts w' = pw_posts w"
proof -
  obtain free w' where o: "obj_shutdownFromRemote r w = (free, w')" by fastforce
  with assms obj_shutdown_conn(1) [OF o] show ?thesis
    by (auto simp: shutdownPublicConn_def freeProxyConn_def tm_get_def tm_erase_def resetConn_def Let_def)
qed

lemma shutdown_race:
  assumes p: "p = conn_of w r" "px_start p" "\<not> px_half_close p" "tc_total_count p = - 1"
      "tc_pipe p = []" "st_proxy_map t (px_proxy_id p) = Some r"
    and round: "rd (px_src p) 2048 = (RData cs, q)" "cs \<noteq> []"
    and tot: "uint n < 2 ^ 31" "wrap32 (tc_recv_count p + int (length cs)) = uint n"
    and race: "obj_relay rd (\<lambda>n. n) (\<lambda>r s. Inr (shutdownPublicConn r s)) r (t, set_conn r (AddTotalCount n p) w)
        = Inr s2"
  shows "\<exists>t3 w3. shutdownPublicConn r s2 = (t3, w3) \<and> \<not> px_start (conn_of w3 r) \<and>
     Some r \<in> set (st_free t3) \<and> st_proxy_map t3 (px_proxy_id p) = None \<and>
     st_shutdownFromPublic (px_proxy_id p) k (t3, w3) = Inr (t3, w3)"
    and "\<exists>w4 w5. obj_relay rd (\<lambda>n. n) (\<lambda>r s. Inr (shutdownPublicConn r s)) r (t, w) = Inr (t, w4) \<and>
     shutdownPublicConn r (t, set_conn r (AddTotalCount n (conn_of w4 r)) w4) = (t, w5) \<and>
     px_start (conn_of w5 r) \<and> px_half_close (conn_of w5 r)"
proof -
  have n: "wrap32 (uint n) = uint n" using tot(1) by (intro wrap32_id) (simp add: int_ok_def order_trans [OF _ uint_nonnegative])
  have add: "AddTotalCount n x = x\<lparr>tc_total_count := uint n\<rparr>" if "tc_total_count x = - 1" for x :: "'a proxy_conn"
    using that n by (simp add: AddTotalCount_def)
  let ?w1 = "set_conn r (p\<lparr>tc_total_count := uint n\<rparr>) w"
  let ?w2 = "set_conn r (moved q cs (p\<lparr>tc_total_count := uint n\<rparr>)) ?w1"
  have s2: "s2 = shutdownPublicConn r (t, ?w2)"
    using race add [OF p(4)] obj_relay_round [of rd ?w1 r cs q "\<lambda>r s. Inr (shutdownPublicConn r s)" t] round p(5) tot(2)
    by (simp add: moved_def Let_def)
  have eq2: "tc_recv_count (conn_of ?w2 r) = tc_total_count (conn_of ?w2 r)" "\<not> px_half_close (conn_of ?w2 r)"
    using tot(2) p(3) by (simp_all add: moved_def)
  obtain w3 where w3: "s2 = (t, w3)"
      "conn_of w3 = (conn_of ?w2)(r := (conn_of ?w2 r)\<lparr>px_half_close := True\<rparr>)"
    using shutdownPublicConn_first [OF eq2, of t] s2 by auto
  have "tc_recv_count (conn_of w3 r) = tc_total_count (conn_of w3 r)" "px_half_close (conn_of w3 r)"
      "px_proxy_id (conn_of w3 r) = px_proxy_id p"
    using w3(2) eq2 by (simp_all add: moved_def)
  from shutdownPublicConn_second [OF this(1,2), of t] this(3) p(6) w3(1) show
    "\<exists>t3 w3. shutdownPublicConn r s2 = (t3, w3) \<and> \<not> px_start (conn_of w3 r) \<and>
     Some r \<in> set (st_free t3) \<and> st_proxy_map t3 (px_proxy_id p) = None \<and>
     st_shutdownFromPublic (px_proxy_id p) k (t3, w3) = Inr (t3, w3)"
    by (auto simp: st_shutdownFromPublic_def tm_get_def resetConn_def)
  let ?w4 = "set_conn r (moved q cs p) w"
  let ?w5 = "set_conn r (AddTotalCount n (conn_of ?w4 r)) ?w4"
  have "wrap32 (tc_recv_count p + int (length cs)) \<noteq> - 1" using tot(2) by (metis uint_nonnegative
        add_minus_cancel neg_0_le_iff_le not_one_le_zero)
  then have run: "obj_relay rd (\<lambda>n. n) (\<lambda>r s. Inr (shutdownPublicConn r s)) r (t, w) = Inr (t, ?w4)"
    using obj_relay_round [of rd w r cs q "\<lambda>r s. Inr (shutdownPublicConn r s)" t] round p
    by (simp add: moved_def Let_def)
  have "tc_recv_count (conn_of ?w5 r) = tc_total_count (conn_of ?w5 r)" "\<not> px_half_close (conn_of ?w5 r)"
      "px_start (conn_of ?w5 r)"
    using add [of "moved q cs p"] p tot(2) by (simp_all add: moved_def)
  with shutdownPublicConn_first [of ?w5 r t] run show
    "\<exists>w4 w5. obj_relay rd (\<lambda>n. n) (\<lambda>r s. Inr (shutdownPublicConn r s)) r (t, w) = Inr (t, w4) \<and>
     shutdownPublicConn r (t, set_conn r (AddTotalCount n (conn_of w4 r)) w4) = (t, w5) \<and>
     px_start (conn_of w5 r) \<and> px_half_close (conn_of w5 r)" by fastforce
qed

text \<open>C8: The client's announcement and the relay race.  \<open>handleShutdownPublicConn\<close> (main loop)
  adds the announced total and then checks for completion; the relay (worker thread) checks after
  each round.  If the last round runs between the two, both checks succeed, the half-close flag
  counts two shutdowns from the same side, and the connection is reset and put on the free list
  although its user is still sending: the user's end of stream is then dropped.  In the other
  order the connection stays in the table, half closed.\<close>

theorem shutdown_race_frees_live_connection:
  assumes "p = conn_of w r" "px_start p" "\<not> px_half_close p" "tc_total_count p = - 1"
      "tc_pipe p = []" "st_proxy_map t (px_proxy_id p) = Some r"
      "rd (px_src p) 2048 = (RData cs, q)" "cs \<noteq> []"
      "uint n < 2 ^ 31" "wrap32 (tc_recv_count p + int (length cs)) = uint n"
      "obj_relay rd (\<lambda>n. n) (\<lambda>r s. Inr (shutdownPublicConn r s)) r (t, set_conn r (AddTotalCount n p) w)
        = Inr s2"
  shows "(\<exists>t3 w3. shutdownPublicConn r s2 = (t3, w3) \<and> \<not> px_start (conn_of w3 r) \<and>
     Some r \<in> set (st_free t3) \<and> st_proxy_map t3 (px_proxy_id p) = None \<and>
     st_shutdownFromPublic (px_proxy_id p) k (t3, w3) = Inr (t3, w3)) \<and>
    (\<exists>w4 w5. obj_relay rd (\<lambda>n. n) (\<lambda>r s. Inr (shutdownPublicConn r s)) r (t, w) = Inr (t, w4) \<and>
     shutdownPublicConn r (t, set_conn r (AddTotalCount n (conn_of w4 r)) w4) = (t, w5) \<and>
     px_start (conn_of w5 r) \<and> px_half_close (conn_of w5 r))"
  using shutdown_race [OF assms] by blast

lemma shutdown_race_frees_live_connection_witness:
  "\<exists>w s2 t3 w3. w = (sample_world [([80], True)] :: (cell list, tunnel_key) peer_world) \<and>
     obj_relay (\<lambda>s _. (RData [Some 7], s)) (\<lambda>n. n) (\<lambda>r s. Inr (shutdownPublicConn r s)) 0
        (sample_tunnel\<lparr>st_proxy_map := [[80] \<mapsto> 0]\<rparr>, set_conn 0 (AddTotalCount 1 (conn_of w 0)) w) = Inr s2 \<and>
     shutdownPublicConn 0 s2 = (t3, w3) \<and> Some 0 \<in> set (st_free t3)"
proof -
  let ?w = "sample_world [([80], True)] :: (cell list, tunnel_key) peer_world"
  let ?t = "sample_tunnel\<lparr>st_proxy_map := [[80] \<mapsto> 0]\<rparr>" and ?rd = "\<lambda>s _. (RData [Some 7], s)"
  have p: "conn_of ?w 0 = (sample_px [])\<lparr>px_proxy_id := [80], px_start := True\<rparr>"
    by (simp add: conn_of_def sample_world_def)
  obtain s2 where s2: "obj_relay ?rd (\<lambda>n. n) (\<lambda>r s. Inr (shutdownPublicConn r s)) 0
        (?t, set_conn 0 (AddTotalCount 1 (conn_of ?w 0)) ?w) = Inr s2"
    using obj_relay_round_returns [of ?rd "set_conn 0 (AddTotalCount 1 (conn_of ?w 0)) ?w" 0 "[Some 7]" "[]"
        shutdownPublicConn ?t]
    by (auto simp: p sample_px_def AddTotalCount_def Let_def)
  have "\<exists>t3 w3. shutdownPublicConn 0 s2 = (t3, w3) \<and> Some 0 \<in> set (st_free t3)"
    using shutdown_race_frees_live_connection [OF refl _ _ _ _ _ _ _ _ _ s2, of "[Some 7]" "[]"]
    by (fastforce simp: p sample_px_def wrap32_def)
  with s2 show ?thesis by blast
qed

end
