(* ===== verification/ProxyServer.thy ===== *)
theory ProxyServer
  imports ServerTunnel
begin

text \<open>
  \<open>Proxyserver/Control.h\<close>, \<open>Proxyserver/Control.cpp\<close>, \<open>Proxyserver/Server.h\<close> and
  \<open>Proxyserver/Server.cpp\<close>: the control session of a proxy client with its tunnels, and the
  server with its sessions and its proxy connections that are not claimed yet.  Accepted
  descriptors, random numbers and the answers of the socket calls are arguments.
\<close>

section \<open>Control\<close>

record control =
  ct_fd :: int
  ct_id :: "u8 list"
  ct_ref :: nat
  ct_proxy_port :: u32
  ct_tunnels :: "(u8 list, st_tunnel) ts_map"

type_synonym 'k ct_state = "control \<times> ('k, tunnel_key) peer_world"

definition new_control :: "int \<Rightarrow> u8 list \<Rightarrow> nat \<Rightarrow> u32 \<Rightarrow> control" where
  "new_control fd ctl_id ref proxy_port =
     \<lparr>ct_fd = fd, ct_id = ctl_id, ct_ref = ref, ct_proxy_port = proxy_port, ct_tunnels = Map.empty\<rparr>"

definition addtoTunnel :: "u8 list \<Rightarrow> st_tunnel \<Rightarrow> control \<Rightarrow> control" where
  "addtoTunnel tun_id tun c = c\<lparr>ct_tunnels := tm_add (ct_tunnels c) tun_id tun\<rparr>"

definition handleNewCtlReq :: "'k ct_state \<Rightarrow> 'k ct_state res" where
  "handleNewCtlReq = (\<lambda>(c, w). bind_res (post (ct_ref c) (BNewResponse (ct_id c)) w) (\<lambda>w'. Inr (c, w')))"

text \<open>\<open>rand_id\<close> is the random string drawn; the other arguments are the answers of the socket
  calls of the tunnel's constructor.\<close>

definition handleNewTunnelReq :: "u8 list \<Rightarrow> int \<Rightarrow> int \<Rightarrow> int \<Rightarrow> u8 list \<times> u32 \<Rightarrow> cell list
    \<Rightarrow> 'k ct_state \<Rightarrow> 'k ct_state res" where
  "handleNewTunnelReq rand_id sock bind_ret listen_ret name msg = (\<lambda>(c, w).
     let tunnel = new_st_tunnel rand_id (ct_ref c) (ct_proxy_port c) sock bind_ret listen_ret name;
         c' = addtoTunnel rand_id tunnel c
     in bind_res (dec_NewTunnelReq msg) (\<lambda>req.
        bind_res (post (ct_ref c) (BNewTunnelRsp
            \<lparr>ntp_proxy_server_port = st_listen_port tunnel, ntp_server_port = ntq_server_port req,
             ntp_tunnel_id = rand_id, ntp_server_host = ntq_server_host req,
             ntp_proxy_server_host = st_listen_addr tunnel\<rparr>) w) (\<lambda>w'. Inr (c', w'))))"

definition handleShutdownPublicConn :: "cell list \<Rightarrow> 'k ct_state \<Rightarrow> 'k ct_state res" where
  "handleShutdownPublicConn msg = (\<lambda>(c, w).
     bind_res (dec_ShutdownPeerConn msg) (\<lambda>req.
       case ct_tunnels c (spc_tunnel_id req) of
         None \<Rightarrow> Inr (c, w)
       | Some tun \<Rightarrow>
           (let (r, proxyConnIsExist) = getProxyConn (spc_proxy_id req) tun
            in if \<not> proxyConnIsExist then Inr (c, w)
               else let w1 = set_conn r (AddTotalCount (spc_tran_count req) (conn_of w r)) w;
                        (tun', w2) = shutdownPublicConn r (tun, w1)
                    in Inr (c\<lparr>ct_tunnels := (ct_tunnels c)(spc_tunnel_id req \<mapsto> tun')\<rparr>, w2))))"

definition handleFreeProxyConnReq :: "cell list \<Rightarrow> 'k ct_state \<Rightarrow> 'k ct_state res" where
  "handleFreeProxyConnReq msg = (\<lambda>(c, w).
     bind_res (dec_FreeConnReq msg) (\<lambda>req.
       case ct_tunnels c (fpc_tun_id req) of
         None \<Rightarrow> Inr (c, w)
       | Some tun \<Rightarrow>
           (let (tun', w') = freeProxyConn (fpc_proxy_id req) (tun, w)
            in Inr (c\<lparr>ct_tunnels := (ct_tunnels c)(fpc_tun_id req \<mapsto> tun')\<rparr>, w'))))"

section \<open>Server\<close>

definition UnclaimedProxyMapLen :: int where "UnclaimedProxyMapLen = 4"

record 'k server =
  sv_proxy_port :: u32
  sv_ctl_acceptor :: channel
  sv_proxy_acceptor :: channel
  sv_controls :: "u8 list \<rightharpoonup> nat"
  sv_ctl_objs :: "nat \<Rightarrow> control"
  sv_ctl_next :: nat
  sv_unclaimed :: "nat \<Rightarrow> int \<rightharpoonup> nat"
  sv_pool :: "nat pool"
  sv_rnd :: nat
  sv_world :: "('k, tunnel_key) peer_world"

text \<open>The constructor; each listening descriptor is checked and made non-blocking.\<close>

definition check_listener :: "int \<Rightarrow> u32 \<Rightarrow> (u32 \<Rightarrow> int) \<Rightarrow> channel res" where
  "check_listener fd getfl setfl =
     (if fd < 0 then Inl Aborted
      else if fst (setNoblock getfl setfl) = - 1 then Inl Aborted
      else Inr (SetEvents (EPOLLIN OR EPOLLET OR EPOLLRDHUP) (new_channel fd 0 0 False)))"

definition new_server :: "int \<Rightarrow> u32 \<Rightarrow> int \<Rightarrow> int \<Rightarrow> u32 \<Rightarrow> (u32 \<Rightarrow> int)
    \<Rightarrow> ('k, tunnel_key) peer_world \<Rightarrow> 'k server res" where
  "new_server PoolNum ProxyPort ctlListenfd proxyListenfd getfl setfl w =
     bind_res (check_listener ctlListenfd getfl setfl) (\<lambda>ctl_acceptor.
     bind_res (check_listener proxyListenfd getfl setfl) (\<lambda>proxy_acceptor.
       Inr \<lparr>sv_proxy_port = ProxyPort, sv_ctl_acceptor = ctl_acceptor, sv_proxy_acceptor = proxy_acceptor,
            sv_controls = Map.empty, sv_ctl_objs = (\<lambda>_. new_control 0 [] 0 0), sv_ctl_next = 0,
            sv_unclaimed = (\<lambda>_. Map.empty), sv_pool = new_pool PoolNum,
            sv_rnd = 0, sv_world = w\<rparr>))"

text \<open>The index is \<open>fd % 4\<close>, which is negative for some negative descriptors.\<close>

definition getUnclaimedProxyMapByFd :: "int \<Rightarrow> nat res" where
  "getUnclaimedProxyMapByFd fd =
     (if fd < 0 \<and> fd mod UnclaimedProxyMapLen \<noteq> 0 then Inl OutOfBounds
      else Inr (nat (fd mod UnclaimedProxyMapLen)))"

text \<open>\<open>Run\<close>, up to the loop.\<close>

definition sv_Run :: "'k server \<Rightarrow> 'k server" where
  "sv_Run s = s\<lparr>sv_pool := pool_Run (\<lambda>i. i) (sv_pool s)\<rparr>"

text \<open>The two accepting handlers take descriptors until \<open>accept\<close> returns none.\<close>

fun newCtlConnHandler :: "nat \<Rightarrow> (nat \<Rightarrow> nat) \<Rightarrow> int list \<Rightarrow> 'k server \<Rightarrow> 'k server res" where
  "newCtlConnHandler fuel rnd [] s = Inr s"
| "newCtlConnHandler fuel rnd (accept_fd # fds) s =
     (if accept_fd > 0 then
        (case fresh_id fuel rnd (sv_rnd s) (\<lambda>i. sv_controls s i \<noteq> None) of
           None \<Rightarrow> Inl NotReturned
         | Some (ctl_id, k) \<Rightarrow>
             newCtlConnHandler fuel rnd fds
               (s\<lparr>sv_rnd := k, sv_ctl_next := Suc (sv_ctl_next s),
                  sv_ctl_objs := (sv_ctl_objs s)
                    (sv_ctl_next s := new_control accept_fd ctl_id (sv_ctl_next s) (sv_proxy_port s)),
                  sv_controls := (sv_controls s)(ctl_id \<mapsto> sv_ctl_next s)\<rparr>))
      else Inr s)"

definition accept_proxy_conn :: "int \<Rightarrow> 'k server \<Rightarrow> 'k server res" where
  "accept_proxy_conn accept_fd s =
     bind_res (PickRandThread (sv_pool s)) (\<lambda>(threadPicked, pool).
     bind_res (new_proxy_conn accept_fd 0 False (pw_fresh_src (sv_world s) accept_fd)
                 (new_channel accept_fd 0 0 False)) (\<lambda>(c, p).
     bind_res (getUnclaimedProxyMapByFd accept_fd) (\<lambda>idx.
       let (r, w) = alloc_conn c p threadPicked (sv_world s)
       in Inr (s\<lparr>sv_pool := pool, sv_world := w,
                 sv_unclaimed := (sv_unclaimed s)(idx := tm_add (sv_unclaimed s idx) accept_fd r)\<rparr>))))"

fun newProxyConnHandler :: "int list \<Rightarrow> 'k server \<Rightarrow> 'k server res" where
  "newProxyConnHandler [] s = Inr s"
| "newProxyConnHandler (accept_fd # fds) s =
     (if accept_fd > 0 then bind_res (accept_proxy_conn accept_fd s) (newProxyConnHandler fds)
      else Inr s)"

text \<open>\<open>everyHandler\<close> of both acceptors arms the control acceptor only.\<close>

definition sv_everyHandler :: "'k server \<Rightarrow> 'k server" where
  "sv_everyHandler s = s\<lparr>sv_ctl_acceptor := SetEvents (EPOLLIN OR EPOLLET OR EPOLLRDHUP) (sv_ctl_acceptor s)\<rparr>"

definition setProxyID :: "u8 list \<Rightarrow> nat \<Rightarrow> ('k, 'o) peer_world \<Rightarrow> ('k, 'o) peer_world" where
  "setProxyID proxy_id r w = set_conn r ((conn_of w r)\<lparr>px_proxy_id := proxy_id\<rparr>) w"

definition sv_claimProxyConn :: "cell list \<Rightarrow> nat \<Rightarrow> 'k server \<Rightarrow> 'k server res" where
  "sv_claimProxyConn msg r s =
     bind_res (dec_ProxyMetaSet msg) (\<lambda>req.
       let s1 = s\<lparr>sv_world := setProxyID (pms_proxy_id req) r (sv_world s)\<rparr>
       in case sv_controls s1 (pms_ctl_id req) of
            None \<Rightarrow> Inr s1
          | Some c \<Rightarrow>
              (let ctl = sv_ctl_objs s1 c
               in case ct_tunnels ctl (pms_tun_id req) of
                 None \<Rightarrow> Inr s1
               | Some tun \<Rightarrow>
                   bind_res (claimProxyConn r (tun, sv_world s1)) (\<lambda>(tun', w').
                   bind_res (getUnclaimedProxyMapByFd (tc_fd (conn_of w' r))) (\<lambda>idx.
                     Inr (s1\<lparr>sv_world := w',
                        sv_ctl_objs := (sv_ctl_objs s1)(c :=
                          ctl\<lparr>ct_tunnels := (ct_tunnels ctl)(pms_tun_id req \<mapsto> tun')\<rparr>),
                        sv_unclaimed := (sv_unclaimed s1)(idx :=
                          tm_erase (sv_unclaimed s1 idx) (tc_fd (conn_of w' r)))\<rparr>)))))"

definition handleCtlConnClose :: "u8 list \<Rightarrow> 'k server \<Rightarrow> 'k server" where
  "handleCtlConnClose ctl_id s = s\<lparr>sv_controls := (sv_controls s)(ctl_id := None)\<rparr>"

section \<open>Callbacks\<close>

text \<open>
  What the handlers the server sets do with an event: messages of the control connection of the
  session \<open>c\<close> (types without a handler are ignored), and events of a proxy connection.  A
  session that has left \<open>control_map_\<close> lives on: it and its tunnels refer to each other.
\<close>

definition on_control :: "nat \<Rightarrow> ('k ct_state \<Rightarrow> 'k ct_state res) \<Rightarrow> 'k server \<Rightarrow> 'k server res" where
  "on_control c f s =
     bind_res (f (sv_ctl_objs s c, sv_world s)) (\<lambda>(ctl, w).
       Inr (s\<lparr>sv_ctl_objs := (sv_ctl_objs s)(c := ctl), sv_world := w\<rparr>))"

definition on_tunnel :: "tunnel_key \<Rightarrow> ('k st_state \<Rightarrow> 'k st_state res) \<Rightarrow> 'k server \<Rightarrow> 'k server res" where
  "on_tunnel key f = on_control (fst key) (\<lambda>(c, w).
     case ct_tunnels c (snd key) of
       None \<Rightarrow> Inr (c, w)
     | Some t \<Rightarrow> bind_res (f (t, w)) (\<lambda>(t', w').
         Inr (c\<lparr>ct_tunnels := (ct_tunnels c)(snd key \<mapsto> t')\<rparr>, w')))"

definition server_ctl_callback :: "(nat \<Rightarrow> nat) \<Rightarrow> int \<times> int \<times> int \<times> u8 list \<times> u32
    \<Rightarrow> MsgType \<Rightarrow> cell list \<Rightarrow> nat \<Rightarrow> 'k server \<Rightarrow> 'k server res" where
  "server_ctl_callback rnd = (\<lambda>(sock, bind_ret, listen_ret, name) ty msg c s.
     case ty of
       NewRequest \<Rightarrow> on_control c handleNewCtlReq s
     | NewTunnelReq \<Rightarrow>
         on_control c (handleNewTunnelReq (random_str rnd (sv_rnd s) 5) sock bind_ret listen_ret name msg)
           (s\<lparr>sv_rnd := sv_rnd s + 5\<rparr>)
     | ShutdownPeerConn \<Rightarrow> on_control c (handleShutdownPublicConn msg) s
     | FreeConnReq \<Rightarrow> on_control c (handleFreeProxyConnReq msg) s
     | _ \<Rightarrow> Inr s)"

definition server_px_callback :: "nat \<Rightarrow> px_event \<Rightarrow> 'k server \<Rightarrow> 'k server res" where
  "server_px_callback r ev s =
     (case ev of
        EvMetaSet msg \<Rightarrow> sv_claimProxyConn msg r s
      | EvConnectReq _ \<Rightarrow> Inr s
      | EvConnectRsp msg \<Rightarrow>
          (case ob_owner (pw_heap (sv_world s) r) of None \<Rightarrow> Inr s
           | Some key \<Rightarrow> on_tunnel key (handleStartProxyConnRsp msg r) s)
      | EvCloseLocalPeer \<Rightarrow>
          (case ob_owner (pw_heap (sv_world s) r) of None \<Rightarrow> Inr s
           | Some key \<Rightarrow> on_tunnel key (\<lambda>x. Inr (shutdownPublicConn r x)) s)
      | EvClose \<Rightarrow>
          (case ob_owner (pw_heap (sv_world s) r) of None \<Rightarrow> Inr s
           | Some key \<Rightarrow> on_tunnel key (\<lambda>x. Inr (handlePeerProxyConnClose r x)) s))"


section \<open>Properties\<close>

lemma map_add_singleton: "k \<notin> dom g \<Longrightarrow> (f(k \<mapsto> v)) ++ g = (f ++ g)(k \<mapsto> v)"
  by (auto simp: map_add_def fun_eq_iff dom_def split: option.splits)

text \<open>Every accepted control connection gets a session of its own: the identifiers drawn are
  five characters long, distinct, and used by no other session, so no session is replaced; the
  sessions get the accepted descriptors in order, and all other sessions stay as they are.\<close>

theorem sessions_are_fresh:
  assumes "newCtlConnHandler fuel rnd fds s = Inr s'" "\<forall>fd \<in> set fds. 0 < fd"
  shows "\<exists>ids. length ids = length fds \<and> distinct ids \<and>
     (\<forall>i \<in> set ids. sv_controls s i = None \<and> length i = 5 \<and> c_string i) \<and>
     sv_controls s' = sv_controls s ++ map_of (zip ids [sv_ctl_next s..<sv_ctl_next s + length fds]) \<and>
     sv_ctl_next s' = sv_ctl_next s + length fds \<and>
     (\<forall>j < sv_ctl_next s. sv_ctl_objs s' j = sv_ctl_objs s j) \<and>
     (\<forall>j < length fds. sv_ctl_objs s' (sv_ctl_next s + j) =
        new_control (fds ! j) (ids ! j) (sv_ctl_next s + j) (sv_proxy_port s))"
  using assms
proof (induction fds arbitrary: s)
  case Nil
  then show ?case by auto
next
  case (Cons fd fds)
  then obtain i k where f: "fresh_id fuel rnd (sv_rnd s) (\<lambda>i. sv_controls s i \<noteq> None) = Some (i, k)"
    by (auto split: option.splits)
  let ?s = "s\<lparr>sv_rnd := k, sv_ctl_next := Suc (sv_ctl_next s),
      sv_ctl_objs := (sv_ctl_objs s)(sv_ctl_next s := new_control fd i (sv_ctl_next s) (sv_proxy_port s)),
      sv_controls := (sv_controls s)(i \<mapsto> sv_ctl_next s)\<rparr>"
  have run: "newCtlConnHandler fuel rnd fds ?s = Inr s'" using Cons.prems f by simp
  note i = fresh_id_ok [OF f]
  have pos: "\<forall>fd \<in> set fds. 0 < fd" using Cons.prems(2) by simp
  from Cons.IH [OF run pos] obtain ids where ids: "length ids = length fds" "distinct ids"
      "\<forall>j \<in> set ids. sv_controls ?s j = None \<and> length j = 5 \<and> c_string j"
      "sv_controls s' = sv_controls ?s ++ map_of (zip ids [sv_ctl_next ?s..<sv_ctl_next ?s + length fds])"
      "sv_ctl_next s' = sv_ctl_next ?s + length fds"
      "\<forall>j < sv_ctl_next ?s. sv_ctl_objs s' j = sv_ctl_objs ?s j"
      "\<forall>j < length fds. sv_ctl_objs s' (sv_ctl_next ?s + j) =
        new_control (fds ! j) (ids ! j) (sv_ctl_next ?s + j) (sv_proxy_port ?s)" by blast
  have new: "i \<notin> set ids" using ids(3) by (auto split: if_splits)
  have "[sv_ctl_next s..<sv_ctl_next s + length (fd # fds)]
      = sv_ctl_next s # [Suc (sv_ctl_next s)..<Suc (sv_ctl_next s) + length fds]"
    by (simp add: upt_conv_Cons del: upt_Suc)
  moreover have "dom (map_of (zip ids [Suc (sv_ctl_next s)..<Suc (sv_ctl_next s) + length fds])) = set ids"
    using ids(1) by (intro dom_map_of_zip) (simp del: upt_Suc)
  ultimately have "sv_controls s' = sv_controls s ++
      map_of (zip (i # ids) [sv_ctl_next s..<sv_ctl_next s + length (fd # fds)])"
    using ids(4) new by (simp add: map_add_singleton del: upt_Suc)
  moreover have "sv_ctl_objs s' (sv_ctl_next s + j) =
      new_control ((fd # fds) ! j) ((i # ids) ! j) (sv_ctl_next s + j) (sv_proxy_port s)"
    if "j < length (fd # fds)" for j
  proof (cases j)
    case 0
    then show ?thesis using ids(6) by simp
  next
    case (Suc m)
    then show ?thesis using ids(7) that by simp
  qed
  moreover have "\<forall>j < sv_ctl_next s. sv_ctl_objs s' j = sv_ctl_objs s j" using ids(6) by simp
  moreover have "c_string i" using i alnum_c_string by blast
  ultimately show ?case
    using ids(1-3,5) i new
    by (intro exI [of _ "i # ids"]) (auto split: if_splits)
qed

definition sample_server :: "cell list server" where
  "sample_server =
     \<lparr>sv_proxy_port = 8089, sv_ctl_acceptor = new_channel 3 0 0 False,
      sv_proxy_acceptor = new_channel 4 0 0 False,
      sv_controls = [[67] \<mapsto> 0],
      sv_ctl_objs = (\<lambda>_. (new_control 5 [67] 0 8089)\<lparr>ct_tunnels := [[84] \<mapsto> sample_tunnel\<lparr>st_unhandled := [30]\<rparr>]\<rparr>),
      sv_ctl_next = 1, sv_unclaimed = (\<lambda>_. Map.empty), sv_pool = running_pool [0, 1] 0, sv_rnd = 0,
      sv_world = sample_world []\<rparr>"

lemma sessions_are_fresh_witness:
  "\<exists>s' (ids :: u8 list list). newCtlConnHandler (Suc 0) (\<lambda>k. k) [21, 22] sample_server = Inr s' \<and> length ids = 2 \<and> distinct ids \<and>
     sv_ctl_next s' = 3"
proof -
  obtain s' where run: "newCtlConnHandler (Suc 0) (\<lambda>k. k) [21, 22] sample_server = Inr s'"
    by (simp add: sample_server_def random_str_5 random_char_def Let_def)
  have pos: "\<forall>fd \<in> set [21, 22]. (0 :: int) < fd" by simp
  from sessions_are_fresh [OF run pos] obtain ids :: "u8 list list" where
    "length ids = length [21 :: int, 22]" "distinct ids"
    "sv_ctl_next s' = sv_ctl_next sample_server + length [21 :: int, 22]" by blast
  with run show ?thesis
    by (intro exI [of _ s'] exI [of _ ids]) (simp add: sample_server_def)
qed

text \<open>An accepted proxy connection is kept under its descriptor until its first message names
  the session, the tunnel and its identifier; then it is taken by that tunnel for the last pending
  user, and the table of unclaimed connections is as it was before the connection was accepted.\<close>

theorem accepted_then_claimed:
  assumes "0 < fd" "PickRandThread (sv_pool s) = Inr (th, pool)"
    "sv_unclaimed s (nat (fd mod 4)) fd = None"
    "sv_controls s (pms_ctl_id req) = Some c"
    "ct_tunnels (sv_ctl_objs s c) (pms_tun_id req) = Some t" "st_unhandled t \<noteq> []"
    "st_proxy_map t (pms_proxy_id req) = None"
    "fits 10 (pms_ctl_id req)" "fits 10 (pms_tun_id req)" "fits 10 (pms_proxy_id req)"
    "enc_ProxyMetaSet req = Inr msg"
  shows "\<exists>s1 r s2 t2. accept_proxy_conn fd s = Inr s1 \<and>
     sv_unclaimed s1 (nat (fd mod 4)) fd = Some r \<and> ob_thread (pw_heap (sv_world s1) r) = th \<and>
     sv_claimProxyConn msg r s1 = Inr s2 \<and> sv_unclaimed s2 = sv_unclaimed s \<and>
     ct_tunnels (sv_ctl_objs s2 c) (pms_tun_id req) = Some t2 \<and>
     st_proxy_map t2 (pms_proxy_id req) = Some r \<and> st_unhandled t2 = butlast (st_unhandled t) \<and>
     px_start (conn_of (sv_world s2) r) \<and> tc_fd (conn_of (sv_world s2) r) = fd \<and>
     tc_conn2fd (conn_of (sv_world s2) r) = last (st_unhandled t) \<and>
     ob_owner (pw_heap (sv_world s2) r) = Some (st_ctl t, st_id t)"
proof -
  obtain b where b: "new_buffer 1024 40960 = Inr b" by (simp add: new_buffer_def chk_def int_ok_def)
  have msg: "dec_ProxyMetaSet msg = Inr req"
    using ws_meta.enc_dec [of req] assms(8-11) by auto
  obtain c0 p where p: "new_proxy_conn fd 0 False (pw_fresh_src (sv_world s) fd) (new_channel fd 0 0 False) = Inr (c0, p)"
      "tc_fd p = fd" "px_start p = False"
    by (simp add: new_proxy_conn_def b)
  let ?r = "pw_next (sv_world s)" and ?i = "nat (fd mod 4)"
  let ?w = "snd (alloc_conn c0 p th (sv_world s))"
  let ?s1 = "s\<lparr>sv_pool := pool, sv_world := ?w,
      sv_unclaimed := (sv_unclaimed s)(?i := (sv_unclaimed s ?i)(fd \<mapsto> ?r))\<rparr>"
  have s1: "accept_proxy_conn fd s = Inr ?s1"
    using assms(1-3) p(1)
    by (simp add: accept_proxy_conn_def getUnclaimedProxyMapByFd_def UnclaimedProxyMapLen_def
        alloc_conn_def tm_add_def Let_def)
  have w: "conn_of ?w ?r = p" "ob_thread (pw_heap ?w ?r) = th"
    by (simp_all add: alloc_conn_def set_obj_def conn_of_def)
  have undo: "(sv_unclaimed s)(?i := (sv_unclaimed s ?i)(fd := None)) = sv_unclaimed s"
    using assms(3) by (metis fun_upd_triv)
  show ?thesis
    using s1 w assms(1,4-7) msg p(2,3) undo
    by (simp add: sv_claimProxyConn_def setProxyID_def claimProxyConn_def getAndPopUndealPublicFd_def
        bindPublicFdToProxyConn_def run_with_def px_Run_def getUnclaimedProxyMapByFd_def
        UnclaimedProxyMapLen_def set_conn_def set_obj_def conn_of_def tm_add_def tm_erase_def
        new_edge_conn_def Let_def)
qed


lemma accepted_then_claimed_witness:
  "\<exists>s1 r s2 msg. accept_proxy_conn 22 sample_server = Inr s1 \<and> sv_unclaimed s1 2 22 = Some r \<and>
     sv_claimProxyConn msg r s1 = Inr s2 \<and> sv_unclaimed s2 2 22 = None \<and>
     tc_conn2fd (conn_of (sv_world s2) r) = 30"
proof -
  let ?req = "\<lparr>pms_ctl_id = [67], pms_tun_id = [84], pms_proxy_id = [80]\<rparr>"
  have f: "fits 10 (pms_ctl_id ?req)" "fits 10 (pms_tun_id ?req)" "fits 10 (pms_proxy_id ?req)"
    by (simp_all add: fits_def c_string_def)
  obtain msg where msg: "enc_ProxyMetaSet ?req = Inr msg" using ws_meta.enc_dec [of ?req] f by blast
  have "\<exists>s1 r s2 t2. accept_proxy_conn 22 sample_server = Inr s1 \<and>
     sv_unclaimed s1 (nat (22 mod 4)) 22 = Some r \<and> ob_thread (pw_heap (sv_world s1) r) = 0 \<and>
     sv_claimProxyConn msg r s1 = Inr s2 \<and> sv_unclaimed s2 = sv_unclaimed sample_server \<and>
     ct_tunnels (sv_ctl_objs s2 0) (pms_tun_id ?req) = Some t2 \<and>
     st_proxy_map t2 (pms_proxy_id ?req) = Some r \<and> st_unhandled t2 = butlast [30] \<and>
     px_start (conn_of (sv_world s2) r) \<and> tc_fd (conn_of (sv_world s2) r) = 22 \<and>
     tc_conn2fd (conn_of (sv_world s2) r) = last [30] \<and>
     ob_owner (pw_heap (sv_world s2) r)
       = Some (st_ctl (sample_tunnel\<lparr>st_unhandled := [30]\<rparr>), st_id (sample_tunnel\<lparr>st_unhandled := [30]\<rparr>))"
    using accepted_then_claimed [OF _ _ _ _ _ _ _ f msg, of 22 sample_server 0 "running_pool [0, 1] 1" 0
        "sample_tunnel\<lparr>st_unhandled := [30]\<rparr>"]
    by (simp add: sample_server_def sample_tunnel_def new_st_tunnel_def PickRandThread_def running_pool_def
        new_control_def)
  then obtain s1 r s2 where s: "accept_proxy_conn 22 sample_server = Inr s1" "sv_unclaimed s1 2 22 = Some r"
      "sv_claimProxyConn msg r s1 = Inr s2" "sv_unclaimed s2 = sv_unclaimed sample_server"
      "tc_conn2fd (conn_of (sv_world s2) r) = 30" by auto
  then show ?thesis
    by (intro exI [of _ s1] exI [of _ r] exI [of _ s2] exI [of _ msg]) (simp add: sample_server_def)
qed

text \<open>Messages that name an unknown session, tunnel or connection change no table: a first
  message for one only gives the connection its identifier (it stays unclaimed), and a shutdown or
  free request for one has no effect.\<close>

theorem unknown_names_ignored:
  "(dec_ProxyMetaSet msg = Inr req \<and>
      (case sv_controls s (pms_ctl_id req) of None \<Rightarrow> True
       | Some c \<Rightarrow> ct_tunnels (sv_ctl_objs s c) (pms_tun_id req) = None) \<longrightarrow>
      sv_claimProxyConn msg r s = Inr (s\<lparr>sv_world := setProxyID (pms_proxy_id req) r (sv_world s)\<rparr>)) \<and>
   (dec_ShutdownPeerConn msg = Inr sh \<and>
      (case ct_tunnels (sv_ctl_objs s c) (spc_tunnel_id sh) of None \<Rightarrow> True
       | Some t \<Rightarrow> st_proxy_map t (spc_proxy_id sh) = None) \<longrightarrow>
      on_control c (handleShutdownPublicConn msg) s = Inr s) \<and>
   (dec_FreeConnReq msg = Inr fr \<and>
      (case ct_tunnels (sv_ctl_objs s c) (fpc_tun_id fr) of None \<Rightarrow> True
       | Some t \<Rightarrow> st_proxy_map t (fpc_proxy_id fr) = None) \<longrightarrow>
      on_control c (handleFreeProxyConnReq msg) s = Inr s)"
proof -
  have same: "(ct_tunnels x)(k \<mapsto> t) = ct_tunnels x" if "ct_tunnels x k = Some t" for x k t
    using that by (metis fun_upd_triv)
  show ?thesis
    by (auto simp: sv_claimProxyConn_def on_control_def handleShutdownPublicConn_def
        handleFreeProxyConnReq_def getProxyConn_def freeProxyConn_def tm_get_def same Let_def
        split: option.splits)
qed

lemma unknown_names_ignored_witness:
  "on_control 0 (handleFreeProxyConnReq
      (cells [90, 0] @ uninit 8 @ cells [80, 0] @ uninit 8)) sample_server = Inr sample_server"
proof -
  have "dec_FreeConnReq (cells [90, 0] @ uninit 8 @ cells [80, 0] @ uninit 8)
      = Inr \<lparr>fpc_tun_id = [90], fpc_proxy_id = [80]\<rparr>"
    by (simp add: dec_FreeConnReq_def field_def)
  with unknown_names_ignored [of "cells [90, 0] @ uninit 8 @ cells [80, 0] @ uninit 8" undefined sample_server 0
      undefined 0 "\<lparr>fpc_tun_id = [90], fpc_proxy_id = [80]\<rparr>"]
  show ?thesis by (simp add: sample_server_def new_control_def)
qed


text \<open>A request for a tunnel is answered with the host and port it named, the address the
  tunnel reports and the tunnel's fresh identifier, and the tunnel is registered; this happens
  also when the tunnel could not listen (its port is fixed, so a second tunnel cannot), and then
  the tunnel's listening descriptor is \<open>-1\<close>.\<close>

theorem new_tunnel_response:
  assumes "enc_NewTunnelReq req = Inr msg" "fits 20 (ntq_server_host req)" "fits 10 rand_id"
    "fits 20 (fst name)" "ct_tunnels c rand_id = None"
  shows "\<exists>c' t. handleNewTunnelReq rand_id sock bind_ret listen_ret name msg (c, w) =
       Inr (c', w\<lparr>pw_posts := pw_posts w @ [(ct_ref c, BNewTunnelRsp
         \<lparr>ntp_proxy_server_port = snd name, ntp_server_port = ntq_server_port req, ntp_tunnel_id = rand_id,
          ntp_server_host = ntq_server_host req, ntp_proxy_server_host = fst name\<rparr>)]\<rparr>) \<and>
     ct_tunnels c' = (ct_tunnels c)(rand_id \<mapsto> t) \<and> st_id t = rand_id \<and> st_ctl t = ct_ref c \<and>
     (st_listen_fd t = - 1 \<longleftrightarrow> sock < 0 \<or> bind_ret < 0 \<or> listen_ret < 0)"
proof -
  have "dec_NewTunnelReq msg = Inr req" using ws_tunnel_req.enc_dec [of req] assms(1,2) by auto
  then show ?thesis
    using assms(2-5)
    by (intro exI [of _ "addtoTunnel rand_id (new_st_tunnel rand_id (ct_ref c) (ct_proxy_port c) sock bind_ret
            listen_ret name) c"]
          exI [of _ "new_st_tunnel rand_id (ct_ref c) (ct_proxy_port c) sock bind_ret listen_ret name"])
       (simp add: handleNewTunnelReq_def post_ok new_st_tunnel_def addtoTunnel_def tm_add_def
        sockt_bind_listen_def Let_def)
qed

lemma new_tunnel_response_witness:
  "\<exists>msg c' w' t. enc_NewTunnelReq \<lparr>ntq_server_host = [49], ntq_server_port = 80\<rparr> = Inr msg \<and>
     handleNewTunnelReq [84] 9 (- 1) 0 ([48], 7777) msg (new_control 5 [67] 0 8089, sample_world []) = Inr (c', w') \<and>
     ct_tunnels c' [84] = Some t \<and> st_listen_fd t = - 1"
proof -
  let ?req = "\<lparr>ntq_server_host = [49], ntq_server_port = 80\<rparr>"
  have f: "fits 20 (ntq_server_host ?req)" "fits 10 [84]" "fits 20 (fst ([48] :: u8 list, 7777 :: u32))"
    by (simp_all add: fits_def c_string_def)
  obtain msg where msg: "enc_NewTunnelReq ?req = Inr msg" using ws_tunnel_req.enc_dec [of ?req] f(1) by blast
  from new_tunnel_response [OF msg f(1,2,3), of "new_control 5 [67] 0 8089" 9 "- 1" 0 "sample_world []"] msg
  show ?thesis by (fastforce simp: new_control_def)
qed

end
