(* ===== verification/ProxyClient.thy ===== *)
theory ProxyClient
  imports Peer
begin

text \<open>
  \<open>Proxyclient/Client.h\<close>, \<open>Proxyclient/Client.cpp\<close>, \<open>Proxyclient/Tunnel.h\<close>,
  \<open>Proxyclient/Tunnel.cpp\<close>, \<open>Proxyclient/Client_connect.h\<close> and
  \<open>Proxyclient/Client_connect.cpp\<close>: the proxy client, which registers a tunnel with the
  proxy server, opens a proxy connection and a connection to the local server when it is asked to,
  and takes part in closing them.  The results of \<open>tcp_connect\<close> are arguments; control
  messages are posted on connection \<open>0\<close>, the only one.
\<close>

section \<open>State\<close>

record cl_tunnel =
  cl_tunnel_id :: "u8 list"
  cl_server_host :: "u8 list"
  cl_server_port :: u32
  cl_proxy_server_host :: "u8 list"
  cl_proxy_server_port :: u32
  cl_proxy_map :: "(u8 list, nat) ts_map"

record 'k client =
  c_proxy_server_host :: "u8 list"
  c_proxy_server_port :: u32
  c_server_host :: "u8 list"
  c_server_port :: u32
  c_client_id :: "u8 list"
  c_tunnels :: "u8 list \<rightharpoonup> cl_tunnel"
  c_pool :: "nat pool"
  c_rnd :: nat
  c_world :: "('k, u8 list) peer_world"

definition new_cl_tunnel :: "u8 list \<Rightarrow> u8 list \<Rightarrow> u32 \<Rightarrow> u8 list \<Rightarrow> u32 \<Rightarrow> cl_tunnel" where
  "new_cl_tunnel tun_id sh sp psh psp =
     \<lparr>cl_tunnel_id = tun_id, cl_server_host = sh, cl_server_port = sp, cl_proxy_server_host = psh,
      cl_proxy_server_port = psp, cl_proxy_map = Map.empty\<rparr>"

definition new_client :: "int \<Rightarrow> u8 list \<Rightarrow> u32 \<Rightarrow> u8 list \<Rightarrow> u32 \<Rightarrow> ('k, u8 list) peer_world \<Rightarrow> 'k client" where
  "new_client workThreadNum host port local_host local_port w =
     \<lparr>c_proxy_server_host = host, c_proxy_server_port = port, c_server_host = local_host,
      c_server_port = local_port, c_client_id = [], c_tunnels = Map.empty,
      c_pool = new_pool workThreadNum, c_rnd = 0, c_world = w\<rparr>"

section \<open>Starting\<close>

definition c_post :: "ctl_body \<Rightarrow> 'k client \<Rightarrow> 'k client res" where
  "c_post b s = bind_res (post 0 b (c_world s)) (\<lambda>w. Inr (s\<lparr>c_world := w\<rparr>))"

definition initConnect :: "int \<Rightarrow> 'k client \<Rightarrow> 'k client res" where
  "initConnect connect_fd s = (if connect_fd > 0 then Inr s else Inl Aborted)"

definition c_NewCtlReq :: "'k client \<Rightarrow> 'k client res" where
  "c_NewCtlReq = c_post BNewRequest"

definition c_NewTunnelReq :: "'k client \<Rightarrow> 'k client res" where
  "c_NewTunnelReq s = c_post (BNewTunnelReq
     \<lparr>ntq_server_host = c_server_host s, ntq_server_port = c_server_port s\<rparr>) s"

text \<open>\<open>Run\<close>, up to the loop.\<close>

definition c_Run :: "int \<Rightarrow> 'k client \<Rightarrow> 'k client res" where
  "c_Run connect_fd s =
     bind_res (initConnect connect_fd (s\<lparr>c_pool := pool_Run (\<lambda>i. i) (c_pool s)\<rparr>)) c_NewCtlReq"

definition handleNewCtlRsp :: "cell list \<Rightarrow> 'k client \<Rightarrow> 'k client res" where
  "handleNewCtlRsp msg s =
     bind_res (dec_NewResponse msg) (\<lambda>ctl_id. c_NewTunnelReq (s\<lparr>c_client_id := ctl_id\<rparr>))"

definition handleNewTunnelRsp :: "cell list \<Rightarrow> 'k client \<Rightarrow> 'k client res" where
  "handleNewTunnelRsp msg s =
     bind_res (dec_NewTunnelRsp msg) (\<lambda>rsp.
       let tun = new_cl_tunnel (ntp_tunnel_id rsp) (ntp_server_host rsp) (ntp_server_port rsp)
                   (ntp_proxy_server_host rsp) (ntp_proxy_server_port rsp)
       in Inr (s\<lparr>c_tunnels := tm_add (c_tunnels s) (ntp_tunnel_id rsp) tun\<rparr>))"

definition c_handleCtlConnClose :: "'k client \<Rightarrow> 'k client res" where
  "c_handleCtlConnClose s = Inl Aborted"

section \<open>Opening connections\<close>

definition getValidProxyID :: "nat \<Rightarrow> (nat \<Rightarrow> nat) \<Rightarrow> nat \<Rightarrow> cl_tunnel \<Rightarrow> (u8 list \<times> nat) option" where
  "getValidProxyID fuel rnd k t = fresh_id fuel rnd k (tm_isExist (cl_proxy_map t))"

text \<open>The new connection, if any, and the client; the tunnel is \<open>this\<close>.\<close>

definition createProxyConn :: "nat \<Rightarrow> (nat \<Rightarrow> nat) \<Rightarrow> int \<Rightarrow> cl_tunnel \<Rightarrow> 'k client \<Rightarrow> (nat option \<times> 'k client) res" where
  "createProxyConn fuel rnd proxy_connect_fd t s =
     (if proxy_connect_fd \<le> 0 then Inr (None, s)
      else bind_res (PickRandThread (c_pool s)) (\<lambda>(thread, pool).
           bind_res (new_proxy_conn proxy_connect_fd 0 False (pw_fresh_src (c_world s) proxy_connect_fd)
                       (new_channel proxy_connect_fd 0 0 False)) (\<lambda>(c, p).
             case getValidProxyID fuel rnd (c_rnd s) t of
               None \<Rightarrow> Inl NotReturned
             | Some (proxyid, k) \<Rightarrow>
                 (let (r, w) = alloc_conn c (p\<lparr>px_proxy_id := proxyid\<rparr>) thread (c_world s);
                      w' = set_obj r ((pw_heap w r)\<lparr>ob_owner := Some (cl_tunnel_id t)\<rparr>) w
                  in Inr (Some r, s\<lparr>c_pool := pool, c_rnd := k, c_world := w'\<rparr>)))))"

text \<open>The connection to the local server; making it needs the thread of the proxy connection.\<close>

definition createLocalConn :: "int \<Rightarrow> nat option \<Rightarrow> 'k client \<Rightarrow> (int \<times> 'k edge_conn) option res" where
  "createLocalConn local_fd proxy s =
     (if local_fd \<le> 0 then Inr None
      else case proxy of
        None \<Rightarrow> Inl NullDeref
      | Some r \<Rightarrow> Inr (Some (local_fd, new_edge_conn local_fd 0 (px_proxy_id (conn_of (c_world s) r))
                                (pw_fresh_src (c_world s) local_fd))))"

text \<open>\<open>SendMsgDirct\<close> on an object; \<open>ret\<close> answers its \<open>write\<close>.\<close>

definition obj_SendMsgDirct :: "int \<Rightarrow> Msg \<Rightarrow> nat \<Rightarrow> 'k client \<Rightarrow> int \<times> 'k client" where
  "obj_SendMsgDirct ret m r s =
     (let (res, p) = SendMsgDirct ret m (conn_of (c_world s) r)
      in (res, s\<lparr>c_world := set_conn r p (c_world s)\<rparr>))"

definition start_pair :: "nat \<Rightarrow> (int \<times> 'k edge_conn) option \<Rightarrow> 'k client \<Rightarrow> 'k client res" where
  "start_pair r local s =
     (case local of
        None \<Rightarrow> Inl NullDeref
      | Some (fd, e) \<Rightarrow> Inr (s\<lparr>c_world := run_with fd e r (c_world s)\<rparr>))"

text \<open>\<open>proxy_fd\<close> and \<open>local_fd\<close> are the results of the two \<open>tcp_connect\<close> calls,
  \<open>ret\<close> that of the \<open>write\<close>.\<close>

definition handleProxyNotify :: "nat \<Rightarrow> (nat \<Rightarrow> nat) \<Rightarrow> int \<Rightarrow> int \<Rightarrow> int \<Rightarrow> cell list \<Rightarrow> 'k client \<Rightarrow> 'k client res" where
  "handleProxyNotify fuel rnd proxy_fd local_fd ret msg s =
     bind_res (dec_NotifyClient msg) (\<lambda>req.
       case c_tunnels s (ncp_tunnel_id req) of
         None \<Rightarrow> Inr s
       | Some tunnel \<Rightarrow>
           bind_res (createProxyConn fuel rnd proxy_fd tunnel s) (\<lambda>(proxyconnect, s1).
             case proxyconnect of
               None \<Rightarrow> Inl NullDeref
             | Some r \<Rightarrow>
                 (let proxy_id = px_proxy_id (conn_of (c_world s1) r);
                      tunnel' = tunnel\<lparr>cl_proxy_map := tm_add (cl_proxy_map tunnel) proxy_id r\<rparr>;
                      s2 = s1\<lparr>c_tunnels := (c_tunnels s1)(ncp_tunnel_id req \<mapsto> tunnel')\<rparr>
                  in bind_res (createLocalConn local_fd (Some r) s2) (\<lambda>clientconnect.
                     bind_res (enc_ProxyMetaSet \<lparr>pms_ctl_id = c_client_id s2,
                         pms_tun_id = ncp_tunnel_id req, pms_proxy_id = proxy_id\<rparr>) (\<lambda>cs.
                     bind_res (makeProxyMsg ProxyMetaSet cs 30) (\<lambda>m.
                       let (res, s3) = obj_SendMsgDirct ret m r s2
                       in if res = - 1 then Inr s3 else start_pair r clientconnect s3))))))"

text \<open>
  A request to reuse a connection.  \<open>r\<close> is the connection it came on; the one that the
  request names is looked up but, where the code checks it, the other is tested.
\<close>

definition HandleProxyConnectReq :: "int \<Rightarrow> int \<Rightarrow> cell list \<Rightarrow> nat \<Rightarrow> cl_tunnel \<Rightarrow> 'k client \<Rightarrow> 'k client res" where
  "HandleProxyConnectReq local_fd ret msg r t s =
     bind_res (dec_ProxyConnect msg) (\<lambda>req.
       if px_start (conn_of (c_world s) r) then Inr s
       else let proxyconnect = cl_proxy_map t (pcm_proxy_id req)
            in bind_res (createLocalConn local_fd proxyconnect s) (\<lambda>ClientConnect.
               bind_res (enc_ProxyConnect \<lparr>pcm_fd = pcm_fd req, pcm_proxy_id = pcm_proxy_id req\<rparr>) (\<lambda>cs.
               bind_res (makeProxyMsg ProxyConnectRsp cs 16) (\<lambda>m.
                 case proxyconnect of
                   None \<Rightarrow> Inl NullDeref
                 | Some r' \<Rightarrow>
                     (let (res, s1) = obj_SendMsgDirct ret m r' s
                      in if res = - 1 then Inr s1 else start_pair r' ClientConnect s1)))))"

section \<open>Closing connections\<close>

definition c_shutdownLocal :: "u8 list \<Rightarrow> u8 list \<Rightarrow> u32 \<Rightarrow> ('k, 'o) peer_world \<Rightarrow> ('k, 'o) peer_world res" where
  "c_shutdownLocal tun_id proxy_id trans_count =
     post 0 (BShutdownPeerConn
       \<lparr>spc_tunnel_id = tun_id, spc_proxy_id = proxy_id, spc_tran_count = trans_count\<rparr>)"

type_synonym 'k cl_state = "cl_tunnel \<times> ('k, u8 list) peer_world"

definition shutdownFromClient :: "u8 list \<Rightarrow> u32 \<Rightarrow> 'k cl_state \<Rightarrow> 'k cl_state res" where
  "shutdownFromClient proxy_id tran_count = (\<lambda>(t, w).
     let (r, proxyExit) = tm_get 0 (cl_proxy_map t) proxy_id
     in if \<not> proxyExit then Inr (t, w)
        else let (_, w') = obj_shutdownFromLocal r w
             in bind_res (c_shutdownLocal (cl_tunnel_id t) proxy_id tran_count w') (\<lambda>w''. Inr (t, w'')))"

definition shutdonwLocalConn :: "nat \<Rightarrow> 'k cl_state \<Rightarrow> 'k cl_state res" where
  "shutdonwLocalConn r = (\<lambda>(t, w).
     if tc_total_count (conn_of w r) \<noteq> tc_recv_count (conn_of w r) then Inr (t, w)
     else let (isFree, w') = obj_shutdownFromRemote r w
          in if isFree
             then bind_res (post 0 (BFreeConnReq
                    \<lparr>fpc_tun_id = cl_tunnel_id t, fpc_proxy_id = px_proxy_id (conn_of w' r)\<rparr>) w') (\<lambda>w''. Inr (t, w''))
             else Inr (t, w'))"

definition handleShutdownLocalConn :: "cell list \<Rightarrow> 'k client \<Rightarrow> 'k client res" where
  "handleShutdownLocalConn msg s =
     bind_res (dec_ShutdownPeerConn msg) (\<lambda>req.
       case c_tunnels s (spc_tunnel_id req) of
         None \<Rightarrow> Inr s
       | Some tun \<Rightarrow>
           (let (r, isExit) = tm_get 0 (cl_proxy_map tun) (spc_proxy_id req)
            in if \<not> isExit then Inr s
               else let w1 = set_conn r (AddTotalCount (spc_tran_count req) (conn_of (c_world s) r)) (c_world s)
                    in bind_res (shutdonwLocalConn r (tun, w1)) (\<lambda>(tun', w2). Inr (s\<lparr>c_world := w2\<rparr>))))"

text \<open>The read handler of a connection to the local server.\<close>

definition client_handleRead :: "'k reader \<Rightarrow> (int \<Rightarrow> int) \<Rightarrow> 'k edge_conn \<times> 'k cl_state
    \<Rightarrow> ('k edge_conn \<times> 'k cl_state) res" where
  "client_handleRead rd sp =
     edge_handleRead rd sp (\<lambda>proxy_id n. shutdownFromClient proxy_id (word_of_int n))"

definition client_everyHandle :: "'k edge_conn \<Rightarrow> channel \<Rightarrow> channel" where
  "client_everyHandle = edge_everyHandle"

section \<open>Callbacks\<close>

definition client_ctl_callback :: "nat \<Rightarrow> (nat \<Rightarrow> nat) \<Rightarrow> int \<times> int \<times> int
    \<Rightarrow> MsgType \<Rightarrow> cell list \<Rightarrow> 'k client \<Rightarrow> 'k client res" where
  "client_ctl_callback fuel rnd = (\<lambda>(proxy_fd, local_fd, ret) ty msg s.
     case ty of
       NewResponse \<Rightarrow> handleNewCtlRsp msg s
     | NewTunnelRsp \<Rightarrow> handleNewTunnelRsp msg s
     | NotifyClient \<Rightarrow> handleProxyNotify fuel rnd proxy_fd local_fd ret msg s
     | ShutdownPeerConn \<Rightarrow> handleShutdownLocalConn msg s
     | _ \<Rightarrow> Inr s)"

definition client_px_callback :: "int \<times> int \<Rightarrow> nat \<Rightarrow> px_event \<Rightarrow> 'k client \<Rightarrow> 'k client res" where
  "client_px_callback = (\<lambda>(local_fd, ret) r ev s.
     case ob_owner (pw_heap (c_world s) r) of
       None \<Rightarrow> Inr s
     | Some key \<Rightarrow>
         (case c_tunnels s key of
            None \<Rightarrow> Inr s
          | Some t \<Rightarrow>
              (case ev of
                 EvConnectReq msg \<Rightarrow> HandleProxyConnectReq local_fd ret msg r t s
               | EvCloseLocalPeer \<Rightarrow>
                   bind_res (shutdonwLocalConn r (t, c_world s)) (\<lambda>(_, w). Inr (s\<lparr>c_world := w\<rparr>))
               | _ \<Rightarrow> Inr s)))"


section \<open>Opening, in steps\<close>

lemma new_proxy_conn_fields:
  "\<exists>c p. new_proxy_conn fd junk_fd junk_empty src ch = Inr (c, p) \<and> tc_fd p = fd \<and> px_sent p = [] \<and>
     \<not> px_start p \<and> \<not> px_half_close p \<and> tc_total_count p = - 1 \<and> tc_recv_count p = 0 \<and> tc_pipe p = [] \<and>
     px_src p = src"
  by (simp add: new_proxy_conn_def new_buffer_def chk_def int_ok_def)

lemma createProxyConn_ok:
  assumes "0 < fd" "PickRandThread (c_pool s) = Inr (th, pool)"
    "getValidProxyID fuel rnd (c_rnd s) t = Some (pid, k)"
  shows "\<exists>s1. createProxyConn fuel rnd fd t s = Inr (Some (pw_next (c_world s)), s1) \<and>
     c_tunnels s1 = c_tunnels s \<and> c_client_id s1 = c_client_id s \<and> c_pool s1 = pool \<and>
     pw_edges (c_world s1) = pw_edges (c_world s) \<and> pw_posts (c_world s1) = pw_posts (c_world s) \<and>
     px_proxy_id (conn_of (c_world s1) (pw_next (c_world s))) = pid \<and>
     tc_fd (conn_of (c_world s1) (pw_next (c_world s))) = fd \<and>
     px_sent (conn_of (c_world s1) (pw_next (c_world s))) = [] \<and>
     ob_thread (pw_heap (c_world s1) (pw_next (c_world s))) = th"
proof -
  obtain c p where p: "new_proxy_conn fd 0 False (pw_fresh_src (c_world s) fd) (new_channel fd 0 0 False) = Inr (c, p)"
      "tc_fd p = fd" "px_sent p = []"
    using new_proxy_conn_fields [of fd 0 False "pw_fresh_src (c_world s) fd" "new_channel fd 0 0 False"] by auto
  let ?r = "pw_next (c_world s)"
  let ?w = "snd (alloc_conn c (p\<lparr>px_proxy_id := pid\<rparr>) th (c_world s))"
  let ?s1 = "s\<lparr>c_pool := pool, c_rnd := k,
      c_world := set_obj ?r ((pw_heap ?w ?r)\<lparr>ob_owner := Some (cl_tunnel_id t)\<rparr>) ?w\<rparr>"
  have "createProxyConn fuel rnd fd t s = Inr (Some ?r, ?s1)"
    using assms p(1) unfolding createProxyConn_def by (simp add: alloc_conn_def Let_def)
  then show ?thesis
    by (intro exI [of _ ?s1]) (simp add: alloc_conn_def set_obj_def conn_of_def p(2,3))
qed

lemma SendMsgDirct_ok:
  assumes "ret = uint (msg_len m)"
  shows "SendMsgDirct ret m p = (0, p\<lparr>px_sent := px_sent p @ wire_of m\<rparr>)"
proof -
  have "uint (msg_len m) < 2 ^ 64" using uint_lt2p [of "msg_len m"] by simp
  then have "u64 ret = ret" using assms by (intro u64_id) simp_all
  with assms show ?thesis by (simp add: SendMsgDirct_def)
qed

lemma ProxyMetaSet_body:
  assumes "fits 10 (pms_ctl_id x)" "fits 10 (pms_tun_id x)" "fits 10 (pms_proxy_id x)"
  shows "\<exists>cs m. enc_ProxyMetaSet x = Inr cs \<and> dec_ProxyMetaSet cs = Inr x \<and>
     makeProxyMsg ProxyMetaSet cs 30 = Inr m \<and> uint (msg_len m) = 38 \<and> msg_type m = 0 \<and>
     (\<exists>pad. msg_data m = cs @ pad) \<and> length cs = 30"
proof -
  obtain cs where cs: "enc_ProxyMetaSet x = Inr cs" "length cs = 30" "dec_ProxyMetaSet cs = Inr x"
    using ws_meta.enc_dec [of x] assms by auto
  have "(30 :: nat) \<le> 1024" by simp
  from makeProxyMsg_ok [OF this cs(2), of ProxyMetaSet] obtain m where
    "makeProxyMsg ProxyMetaSet cs 30 = Inr m" "uint (msg_len m) = 8 + int 30" "msg_type m = proxy_code ProxyMetaSet"
    "msg_data m = cs @ replicate (1024 - 30) (Some 0)" by blast
  with cs show ?thesis by (intro exI [of _ cs] exI [of _ m]) simp
qed

lemma handleProxyNotify_steps:
  assumes "dec_NotifyClient msg = Inr req" "c_tunnels s (ncp_tunnel_id req) = Some t"
    "0 < proxy_fd" "PickRandThread (c_pool s) = Inr (th, pool)"
    "getValidProxyID fuel rnd (c_rnd s) t = Some (pid, k)"
    "fits 10 (c_client_id s)" "fits 10 (ncp_tunnel_id req)"
  shows "\<exists>cs m. enc_ProxyMetaSet \<lparr>pms_ctl_id = c_client_id s, pms_tun_id = ncp_tunnel_id req, pms_proxy_id = pid\<rparr> = Inr cs \<and>
     dec_ProxyMetaSet cs = Inr \<lparr>pms_ctl_id = c_client_id s, pms_tun_id = ncp_tunnel_id req, pms_proxy_id = pid\<rparr> \<and>
     makeProxyMsg ProxyMetaSet cs 30 = Inr m \<and> cl_proxy_map t pid = None \<and>
     (local_fd \<le> 0 \<longrightarrow> handleProxyNotify fuel rnd proxy_fd local_fd 38 msg s = Inl NullDeref) \<and>
     (0 < local_fd \<longrightarrow> (\<exists>s' e. handleProxyNotify fuel rnd proxy_fd local_fd 38 msg s = Inr s' \<and>
       c_tunnels s' = (c_tunnels s)(ncp_tunnel_id req \<mapsto>
          t\<lparr>cl_proxy_map := (cl_proxy_map t)(pid \<mapsto> pw_next (c_world s))\<rparr>) \<and>
       px_start (conn_of (c_world s') (pw_next (c_world s))) \<and>
       px_proxy_id (conn_of (c_world s') (pw_next (c_world s))) = pid \<and>
       tc_fd (conn_of (c_world s') (pw_next (c_world s))) = proxy_fd \<and>
       tc_conn2fd (conn_of (c_world s') (pw_next (c_world s))) = local_fd \<and>
       px_sent (conn_of (c_world s') (pw_next (c_world s))) = wire_of m \<and>
       pw_edges (c_world s') = pw_edges (c_world s) @ [(th, edge_channel local_fd, e)] \<and>
       tc_fd e = local_fd \<and> tc_conn2fd e = proxy_fd \<and> ed_proxy_id e = pid))"
proof -
  let ?r = "pw_next (c_world s)"
  let ?x = "\<lparr>pms_ctl_id = c_client_id s, pms_tun_id = ncp_tunnel_id req, pms_proxy_id = pid\<rparr>"
  have pid: "cl_proxy_map t pid = None" "fits 10 pid"
    using fresh_id_ok [OF assms(5) [unfolded getValidProxyID_def]] alnum_c_string [of pid]
    by (auto simp: tm_isExist_def fits_def)
  obtain cs m where m: "enc_ProxyMetaSet ?x = Inr cs" "dec_ProxyMetaSet cs = Inr ?x"
      "makeProxyMsg ProxyMetaSet cs 30 = Inr m" "uint (msg_len m) = 38"
    using ProxyMetaSet_body [of ?x] assms(6,7) pid(2) by auto
  obtain s1 where s1: "createProxyConn fuel rnd proxy_fd t s = Inr (Some ?r, s1)"
      "c_tunnels s1 = c_tunnels s" "c_client_id s1 = c_client_id s" "pw_edges (c_world s1) = pw_edges (c_world s)"
      "px_proxy_id (conn_of (c_world s1) ?r) = pid" "tc_fd (conn_of (c_world s1) ?r) = proxy_fd"
      "px_sent (conn_of (c_world s1) ?r) = []" "ob_thread (pw_heap (c_world s1) ?r) = th"
    using createProxyConn_ok [OF assms(3-5)] by auto
  have sent: "SendMsgDirct 38 m p = (0, p\<lparr>px_sent := px_sent p @ wire_of m\<rparr>)" for p :: "'a proxy_conn"
    using SendMsgDirct_ok m(4) by metis
  note step = handleProxyNotify_def createLocalConn_def obj_SendMsgDirct_def start_pair_def Let_def
    assms(1,2) s1 m(1,3) sent pid(1) tm_add_def
  have "local_fd \<le> 0 \<longrightarrow> handleProxyNotify fuel rnd proxy_fd local_fd 38 msg s = Inl NullDeref"
    by (simp add: step)
  moreover have "\<exists>s' e. handleProxyNotify fuel rnd proxy_fd local_fd 38 msg s = Inr s' \<and>
       c_tunnels s' = (c_tunnels s)(ncp_tunnel_id req \<mapsto>
          t\<lparr>cl_proxy_map := (cl_proxy_map t)(pid \<mapsto> ?r)\<rparr>) \<and>
       px_start (conn_of (c_world s') ?r) \<and> px_proxy_id (conn_of (c_world s') ?r) = pid \<and>
       tc_fd (conn_of (c_world s') ?r) = proxy_fd \<and> tc_conn2fd (conn_of (c_world s') ?r) = local_fd \<and>
       px_sent (conn_of (c_world s') ?r) = wire_of m \<and>
       pw_edges (c_world s') = pw_edges (c_world s) @ [(th, edge_channel local_fd, e)] \<and>
       tc_fd e = local_fd \<and> tc_conn2fd e = proxy_fd \<and> ed_proxy_id e = pid" if "0 < local_fd"
    using that by (simp add: step run_with_def px_Run_def new_edge_conn_def)
  ultimately show ?thesis using m pid(1) by blast
qed


lemma handleProxyNotify_opens:
  assumes "dec_NotifyClient msg = Inr req" "c_tunnels s (ncp_tunnel_id req) = Some t"
    "0 < proxy_fd" "0 < local_fd" "PickRandThread (c_pool s) = Inr (th, pool)"
    "getValidProxyID fuel rnd (c_rnd s) t = Some (pid, k)"
    "fits 10 (c_client_id s)" "fits 10 (ncp_tunnel_id req)"
  shows "\<exists>s' r p e cs m. handleProxyNotify fuel rnd proxy_fd local_fd 38 msg s = Inr s' \<and>
     cl_proxy_map t pid = None \<and>
     c_tunnels s' = (c_tunnels s)(ncp_tunnel_id req \<mapsto> t\<lparr>cl_proxy_map := (cl_proxy_map t)(pid \<mapsto> r)\<rparr>) \<and>
     p = conn_of (c_world s') r \<and> px_start p \<and> px_proxy_id p = pid \<and>
     tc_fd p = proxy_fd \<and> tc_conn2fd p = local_fd \<and> px_sent p = wire_of m \<and>
     makeProxyMsg ProxyMetaSet cs 30 = Inr m \<and>
     dec_ProxyMetaSet cs = Inr \<lparr>pms_ctl_id = c_client_id s, pms_tun_id = ncp_tunnel_id req, pms_proxy_id = pid\<rparr> \<and>
     pw_edges (c_world s') = pw_edges (c_world s) @ [(th, edge_channel local_fd, e)] \<and>
     tc_fd e = local_fd \<and> tc_conn2fd e = proxy_fd \<and> ed_proxy_id e = pid"
  using handleProxyNotify_steps [OF assms(1,2,3,5,6,7,8), of local_fd] assms(4) by blast

section \<open>Properties\<close>

definition sample_client :: "cell list client" where
  "sample_client =
     \<lparr>c_proxy_server_host = [49], c_proxy_server_port = 8080, c_server_host = [50], c_server_port = 80,
      c_client_id = [67], c_tunnels = [[84] \<mapsto> new_cl_tunnel [84] [50] 80 [49] 7777],
      c_pool = running_pool [0, 1] 0, c_rnd = 0,
      c_world = \<lparr>pw_heap = (\<lambda>r. \<lparr>ob_chan = new_channel 0 0 0 False, ob_conn = sample_px [],
          ob_thread = 0, ob_owner = Some [84]\<rparr>),
        pw_next = 0, pw_fresh_src = (\<lambda>_. []), pw_edges = [], pw_shut = [], pw_posts = []\<rparr>\<rparr>"

lemma sample_client_id:
  "getValidProxyID (Suc 0) (\<lambda>k. k) (c_rnd sample_client) (new_cl_tunnel [84] [50] 80 [49] 7777)
     = Some ([48, 49, 50, 51, 52], 5)"
  by (simp add: getValidProxyID_def sample_client_def new_cl_tunnel_def tm_isExist_def random_str_5
      random_char_def Let_def)

text \<open>Asked for a proxy connection, the client opens one to the server and one to the local
  server, enters the first under an identifier that no other connection of the tunnel has, tells
  the server over the new connection the session, the tunnel and that identifier, starts it, pairs
  it with the local connection in both directions and gives both to the same thread.\<close>

theorem notify_opens_pair:
  assumes "dec_NotifyClient msg = Inr req" "c_tunnels s (ncp_tunnel_id req) = Some t"
    "0 < proxy_fd" "0 < local_fd" "PickRandThread (c_pool s) = Inr (th, pool)"
    "getValidProxyID fuel rnd (c_rnd s) t = Some (pid, k)"
    "fits 10 (c_client_id s)" "fits 10 (ncp_tunnel_id req)"
  shows "\<exists>s' r p e cs m. handleProxyNotify fuel rnd proxy_fd local_fd 38 msg s = Inr s' \<and>
     cl_proxy_map t pid = None \<and>
     c_tunnels s' = (c_tunnels s)(ncp_tunnel_id req \<mapsto> t\<lparr>cl_proxy_map := (cl_proxy_map t)(pid \<mapsto> r)\<rparr>) \<and>
     p = conn_of (c_world s') r \<and> px_start p \<and> px_proxy_id p = pid \<and>
     tc_fd p = proxy_fd \<and> tc_conn2fd p = local_fd \<and> px_sent p = wire_of m \<and>
     makeProxyMsg ProxyMetaSet cs 30 = Inr m \<and>
     dec_ProxyMetaSet cs = Inr \<lparr>pms_ctl_id = c_client_id s, pms_tun_id = ncp_tunnel_id req, pms_proxy_id = pid\<rparr> \<and>
     pw_edges (c_world s') = pw_edges (c_world s) @ [(th, edge_channel local_fd, e)] \<and>
     tc_fd e = local_fd \<and> tc_conn2fd e = proxy_fd \<and> ed_proxy_id e = pid"
  using handleProxyNotify_opens [OF assms] .

lemma notify_opens_pair_witness:
  "\<exists>msg s' r. dec_NotifyClient msg = Inr \<lparr>ncp_tunnel_id = [84], ncp_proxy_server_port = 8089\<rparr> \<and>
     handleProxyNotify (Suc 0) (\<lambda>k. k) 11 12 38 msg sample_client = Inr s' \<and>
     tc_conn2fd (conn_of (c_world s') r) = 12"
proof -
  let ?req = "\<lparr>ncp_tunnel_id = [84], ncp_proxy_server_port = 8089\<rparr>"
  have f: "fits 10 (ncp_tunnel_id ?req)" "fits 10 (c_client_id sample_client)"
    by (simp_all add: fits_def c_string_def sample_client_def)
  obtain msg where msg: "dec_NotifyClient msg = Inr ?req" using ws_notify.enc_dec [of ?req] f by blast
  have tun: "c_tunnels sample_client (ncp_tunnel_id ?req) = Some (new_cl_tunnel [84] [50] 80 [49] 7777)"
    by (simp add: sample_client_def)
  have th: "PickRandThread (c_pool sample_client) = Inr (0, running_pool [0, 1] 1)"
    by (simp add: sample_client_def PickRandThread_def running_pool_def)
  from notify_opens_pair [OF msg tun _ _ th sample_client_id f(2,1), of 11 12] msg show ?thesis
    by (simp only: zero_less_numeral simp_thms) blast
qed

text \<open>A failed connection attempt while serving a request for a proxy connection ends in a null
  pointer dereference: at once when the server cannot be reached, and, when the local server
  cannot, after the server has been told that the connection is there.\<close>

theorem failed_connect_crashes:
  assumes "dec_NotifyClient msg = Inr req" "c_tunnels s (ncp_tunnel_id req) = Some t"
  shows "(proxy_fd \<le> 0 \<longrightarrow> handleProxyNotify fuel rnd proxy_fd local_fd ret msg s = Inl NullDeref) \<and>
     (0 < proxy_fd \<and> local_fd \<le> 0 \<and> PickRandThread (c_pool s) = Inr (th, pool) \<and>
      getValidProxyID fuel rnd (c_rnd s) t = Some (pid, k) \<and>
      fits 10 (c_client_id s) \<and> fits 10 (ncp_tunnel_id req) \<longrightarrow>
      handleProxyNotify fuel rnd proxy_fd local_fd 38 msg s = Inl NullDeref)"
proof -
  have "proxy_fd \<le> 0 \<longrightarrow> handleProxyNotify fuel rnd proxy_fd local_fd ret msg s = Inl NullDeref"
    using assms by (simp add: handleProxyNotify_def createProxyConn_def)
  then show ?thesis using handleProxyNotify_steps [OF assms, of proxy_fd th pool fuel rnd pid k local_fd] by blast
qed

lemma failed_connect_crashes_witness:
  "\<exists>msg. handleProxyNotify 1 (\<lambda>k. k) (- 1) 12 38 msg sample_client = Inl NullDeref"
proof -
  let ?req = "\<lparr>ncp_tunnel_id = [84], ncp_proxy_server_port = 8089\<rparr>"
  have f: "fits 10 (ncp_tunnel_id ?req)" by (simp add: fits_def c_string_def)
  obtain msg where msg: "dec_NotifyClient msg = Inr ?req" using ws_notify.enc_dec [of ?req] f by blast
  have tun: "c_tunnels sample_client (ncp_tunnel_id ?req) = Some (new_cl_tunnel [84] [50] 80 [49] 7777)"
    by (simp add: sample_client_def)
  from failed_connect_crashes [OF msg tun, of "- 1" 1 "\<lambda>k. k" 12 38] show ?thesis by auto
qed

text \<open>A request to reuse a connection under an identifier the client does not know
  dereferences a null pointer: the test after the look-up examines the connection the request came
  on instead of the one looked up.\<close>

theorem reuse_unknown_crashes:
  assumes "dec_ProxyConnect msg = Inr req" "cl_proxy_map t (pcm_proxy_id req) = None"
    "\<not> px_start (conn_of (c_world s) r)" "fits 10 (pcm_proxy_id req)"
  shows "HandleProxyConnectReq local_fd ret msg r t s = Inl NullDeref"
proof -
  obtain cs m where "enc_ProxyConnect \<lparr>pcm_fd = pcm_fd req, pcm_proxy_id = pcm_proxy_id req\<rparr> = Inr cs"
      "makeProxyMsg ProxyConnectRsp cs 16 = Inr m"
    using ProxyConnect_body [OF assms(4)] by blast
  with assms show ?thesis by (simp add: HandleProxyConnectReq_def createLocalConn_def)
qed

lemma reuse_unknown_crashes_witness:
  "\<exists>msg. HandleProxyConnectReq 12 24 msg 0 (new_cl_tunnel [84] [50] 80 [49] 7777)
     (sample_client\<lparr>c_world := set_conn 0 (resetConn (sample_px [])) (c_world sample_client)\<rparr>) = Inl NullDeref"
proof -
  let ?req = "\<lparr>pcm_fd = 30, pcm_proxy_id = [81]\<rparr>"
  have f: "fits 10 (pcm_proxy_id ?req)" by (simp add: fits_def c_string_def)
  obtain msg where msg: "dec_ProxyConnect msg = Inr ?req" using ws_connect.enc_dec [of ?req] f by blast
  show ?thesis
    by (intro exI [of _ msg] reuse_unknown_crashes [OF msg _ _ f]) (simp_all add: new_cl_tunnel_def resetConn_def)
qed

end
