(* ===== verification/Handshake.thy ===== *)
theory Handshake
  imports ProxyServer ProxyClient
begin

text \<open>
  The two programs together: the messages that open and close a relayed connection, from the
  handler that posts a message at one end to the handler that gets its bytes at the other.  The
  control channel between them is reliable and keeps the order (\<open>CtlConn\<close>), so a message that
  was posted is delivered as the body that its encoder wrote.
\<close>

section \<open>Delivery\<close>

text \<open>The server's session, and the client, receive a control message.\<close>

definition server_recv :: "ctl_body \<Rightarrow> 'k ct_state \<Rightarrow> 'k ct_state res" where
  "server_recv b s =
     bind_res (enc_body b) (\<lambda>cs.
       case body_type b of
         ShutdownPeerConn \<Rightarrow> handleShutdownPublicConn cs s
       | FreeConnReq \<Rightarrow> handleFreeProxyConnReq cs s
       | _ \<Rightarrow> Inr s)"

definition client_recv :: "ctl_body \<Rightarrow> 'k client \<Rightarrow> 'k client res" where
  "client_recv b s = bind_res (enc_body b) (\<lambda>cs. client_ctl_callback 0 (\<lambda>_. 0) (0, 0, 0) (body_type b) cs s)"

definition shutdown_msg :: "u8 list \<Rightarrow> u8 list \<Rightarrow> u32 \<Rightarrow> ctl_body" where
  "shutdown_msg tid pid n = BShutdownPeerConn \<lparr>spc_tunnel_id = tid, spc_proxy_id = pid, spc_tran_count = n\<rparr>"

definition free_msg :: "u8 list \<Rightarrow> u8 list \<Rightarrow> ctl_body" where
  "free_msg tid pid = BFreeConnReq \<lparr>fpc_tun_id = tid, fpc_proxy_id = pid\<rparr>"

lemma shutdown_msg_body:
  assumes "fits 10 tid" "fits 10 pid"
  shows "\<exists>cs. enc_body (shutdown_msg tid pid n) = Inr cs \<and>
     dec_ShutdownPeerConn cs = Inr \<lparr>spc_tunnel_id = tid, spc_proxy_id = pid, spc_tran_count = n\<rparr>"
  using ws_shutdown.enc_dec [of "\<lparr>spc_tunnel_id = tid, spc_proxy_id = pid, spc_tran_count = n\<rparr>"] assms
  by (auto simp: shutdown_msg_def)

lemma free_msg_body:
  assumes "fits 10 tid" "fits 10 pid"
  shows "\<exists>cs. enc_body (free_msg tid pid) = Inr cs \<and>
     dec_FreeConnReq cs = Inr \<lparr>fpc_tun_id = tid, fpc_proxy_id = pid\<rparr>"
  using ws_free.enc_dec [of "\<lparr>fpc_tun_id = tid, fpc_proxy_id = pid\<rparr>"] assms by (auto simp: free_msg_def)

lemma server_recv_shutdown:
  assumes "fits 10 tid" "fits 10 pid" "ct_tunnels c tid = Some t" "st_proxy_map t pid = Some r"
    "shutdownPublicConn r (t, set_conn r (AddTotalCount n (conn_of w r)) w) = (t', w')"
  shows "server_recv (shutdown_msg tid pid n) (c, w) = Inr (c\<lparr>ct_tunnels := (ct_tunnels c)(tid \<mapsto> t')\<rparr>, w')"
proof -
  obtain cs where "enc_body (shutdown_msg tid pid n) = Inr cs"
    "dec_ShutdownPeerConn cs = Inr \<lparr>spc_tunnel_id = tid, spc_proxy_id = pid, spc_tran_count = n\<rparr>"
    using shutdown_msg_body [OF assms(1,2)] by blast
  moreover have "body_type (shutdown_msg tid pid n) = ShutdownPeerConn" by (simp add: shutdown_msg_def)
  ultimately show ?thesis
    using assms(3-5) by (simp add: server_recv_def handleShutdownPublicConn_def getProxyConn_def tm_get_def)
qed

lemma server_recv_free:
  assumes "fits 10 tid" "fits 10 pid" "ct_tunnels c tid = Some t" "freeProxyConn pid (t, w) = (t', w')"
  shows "server_recv (free_msg tid pid) (c, w) = Inr (c\<lparr>ct_tunnels := (ct_tunnels c)(tid \<mapsto> t')\<rparr>, w')"
proof -
  obtain cs where "enc_body (free_msg tid pid) = Inr cs"
    "dec_FreeConnReq cs = Inr \<lparr>fpc_tun_id = tid, fpc_proxy_id = pid\<rparr>"
    using free_msg_body [OF assms(1,2)] by blast
  moreover have "body_type (free_msg tid pid) = FreeConnReq" by (simp add: free_msg_def)
  ultimately show ?thesis using assms(3,4) by (simp add: server_recv_def handleFreeProxyConnReq_def)
qed

lemma client_recv_shutdown:
  assumes "fits 10 tid" "fits 10 pid" "c_tunnels s tid = Some t" "cl_proxy_map t pid = Some r"
    "shutdonwLocalConn r (t, set_conn r (AddTotalCount n (conn_of (c_world s) r)) (c_world s)) = Inr (t', w')"
  shows "client_recv (shutdown_msg tid pid n) s = Inr (s\<lparr>c_world := w'\<rparr>)"
proof -
  obtain cs where "enc_body (shutdown_msg tid pid n) = Inr cs"
    "dec_ShutdownPeerConn cs = Inr \<lparr>spc_tunnel_id = tid, spc_proxy_id = pid, spc_tran_count = n\<rparr>"
    using shutdown_msg_body [OF assms(1,2)] by blast
  moreover have "body_type (shutdown_msg tid pid n) = ShutdownPeerConn" by (simp add: shutdown_msg_def)
  ultimately show ?thesis
    using assms(3-5) by (simp add: client_recv_def client_ctl_callback_def handleShutdownLocalConn_def tm_get_def)
qed

section \<open>The steps of a close\<close>

text \<open>A connection in use whose counters say that everything announced so far has arrived.\<close>

definition drained :: "'k proxy_conn \<Rightarrow> u32 \<Rightarrow> bool" where
  "drained p n \<longleftrightarrow> (tc_total_count p = - 1 \<or> tc_total_count p = 0) \<and> tc_recv_count p = wrap32 (uint n)"

lemma AddTotalCount_drained:
  "drained p n \<Longrightarrow> AddTotalCount n p = p\<lparr>tc_total_count := tc_recv_count p\<rparr>"
  using wrap32_id [OF wrap32_ok, of "uint n"] by (auto simp: drained_def AddTotalCount_def)

text \<open>The end of the user's stream at the server.\<close>

lemma user_eof_step:
  assumes "st_proxy_map t pid = Some r" "fits 10 (st_id t)" "fits 10 pid"
  shows "\<exists>w'. st_shutdownFromPublic pid n (t, w) = Inr (t, w') \<and>
     pw_posts w' = pw_posts w @ [(st_ctl t, shutdown_msg (st_id t) pid n)] \<and>
     conn_of w' = (conn_of w)(r := if px_half_close (conn_of w r) then resetConn (conn_of w r)
                                   else (conn_of w r)\<lparr>px_half_close := True\<rparr>)"
proof -
  obtain free w1 where o: "obj_shutdownFromLocal r w = (free, w1)" by fastforce
  have "wf_body (shutdown_msg (st_id t) pid n)" using assms(2,3) by (simp add: shutdown_msg_def)
  then have "post (st_ctl t) (shutdown_msg (st_id t) pid n) w1
      = Inr (w1\<lparr>pw_posts := pw_posts w1 @ [(st_ctl t, shutdown_msg (st_id t) pid n)]\<rparr>)"
    by (rule post_ok)
  with o obj_shutdown_conn(2) [OF o] assms(1) show ?thesis
    by (auto simp: st_shutdownFromPublic_def ctl_shutdownFromPublic_def tm_get_def shutdown_msg_def)
qed

text \<open>The end of the local server's stream at the client.\<close>

lemma local_eof_step:
  assumes "cl_proxy_map t pid = Some r" "fits 10 (cl_tunnel_id t)" "fits 10 pid"
  shows "\<exists>w'. shutdownFromClient pid n (t, w) = Inr (t, w') \<and>
     pw_posts w' = pw_posts w @ [(0, shutdown_msg (cl_tunnel_id t) pid n)] \<and>
     conn_of w' = (conn_of w)(r := if px_half_close (conn_of w r) then resetConn (conn_of w r)
                                   else (conn_of w r)\<lparr>px_half_close := True\<rparr>)"
proof -
  obtain free w1 where o: "obj_shutdownFromLocal r w = (free, w1)" by fastforce
  have "wf_body (shutdown_msg (cl_tunnel_id t) pid n)" using assms(2,3) by (simp add: shutdown_msg_def)
  then have "post 0 (shutdown_msg (cl_tunnel_id t) pid n) w1
      = Inr (w1\<lparr>pw_posts := pw_posts w1 @ [(0, shutdown_msg (cl_tunnel_id t) pid n)]\<rparr>)"
    by (rule post_ok)
  with o obj_shutdown_conn(2) [OF o] assms(1) show ?thesis
    by (auto simp: shutdownFromClient_def c_shutdownLocal_def tm_get_def shutdown_msg_def)
qed

text \<open>The announcement arrives at an end whose relay has finished.\<close>

lemma server_announced_step:
  assumes "drained (conn_of w r) n" "st_proxy_map t (px_proxy_id (conn_of w r)) = Some r"
    "fits 10 tid" "fits 10 (px_proxy_id (conn_of w r))" "ct_tunnels c tid = Some t"
  shows "\<exists>w'. server_recv (shutdown_msg tid (px_proxy_id (conn_of w r)) n) (c, w) =
       Inr (c\<lparr>ct_tunnels := (ct_tunnels c)(tid \<mapsto>
              if px_half_close (conn_of w r)
              then t\<lparr>st_proxy_map := (st_proxy_map t)(px_proxy_id (conn_of w r) := None), st_free := st_free t @ [Some r]\<rparr>
              else t)\<rparr>, w') \<and> pw_posts w' = pw_posts w \<and>
     conn_of w' = (conn_of w)(r := if px_half_close (conn_of w r) then resetConn (conn_of w r)
        else (conn_of w r)\<lparr>tc_total_count := tc_recv_count (conn_of w r), px_half_close := True\<rparr>)"
proof -
  let ?p = "conn_of w r" and ?pid = "px_proxy_id (conn_of w r)"
  let ?w = "set_conn r (AddTotalCount n ?p) w"
  note p = AddTotalCount_drained [OF assms(1)]
  have eq: "tc_recv_count (conn_of ?w r) = tc_total_count (conn_of ?w r)" by (simp add: p)
  show ?thesis
  proof (cases "px_half_close ?p")
    case True
    from shutdownPublicConn_second [OF eq, of t] True p assms(2) obtain w' where
      w': "shutdownPublicConn r (t, ?w) = (t\<lparr>st_proxy_map := (st_proxy_map t)(?pid := None),
              st_free := st_free t @ [Some r]\<rparr>, w')"
        "conn_of w' = (conn_of ?w)(r := resetConn (conn_of ?w r))" "pw_posts w' = pw_posts ?w" by auto
    have "resetConn (conn_of ?w r) = resetConn ?p" by (simp add: p resetConn_def)
    then have c: "conn_of w' = (conn_of w)(r := resetConn ?p)" using w'(2) by (auto simp: fun_eq_iff)
    from server_recv_shutdown [OF assms(3,4,5,2) w'(1)] True w'(3) show ?thesis
      by (intro exI [of _ w']) (simp add: c)
  next
    case False
    from shutdownPublicConn_first [OF eq, of t] False p obtain w' where
      w': "shutdownPublicConn r (t, ?w) = (t, w')" "pw_posts w' = pw_posts ?w"
        "conn_of w' = (conn_of ?w)(r := (conn_of ?w r)\<lparr>px_half_close := True\<rparr>)" by auto
    have c: "conn_of w' = (conn_of w)(r := ?p\<lparr>tc_total_count := tc_recv_count ?p, px_half_close := True\<rparr>)"
      using w'(3) p by (auto simp: fun_eq_iff)
    from server_recv_shutdown [OF assms(3,4,5,2) w'(1)] False w'(2) show ?thesis
      by (intro exI [of _ w']) (simp add: c)
  qed
qed

lemma client_announced_step:
  assumes "drained (conn_of (c_world s) r) n" "cl_proxy_map t (px_proxy_id (conn_of (c_world s) r)) = Some r"
    "fits 10 tid" "fits 10 (px_proxy_id (conn_of (c_world s) r))" "c_tunnels s tid = Some t" "cl_tunnel_id t = tid"
  shows "\<exists>w'. client_recv (shutdown_msg tid (px_proxy_id (conn_of (c_world s) r)) n) s = Inr (s\<lparr>c_world := w'\<rparr>) \<and>
     pw_posts w' = pw_posts (c_world s) @
       (if px_half_close (conn_of (c_world s) r) then [(0, free_msg tid (px_proxy_id (conn_of (c_world s) r)))] else []) \<and>
     pw_shut w' = pw_shut (c_world s) @ [tc_conn2fd (conn_of (c_world s) r)] \<and>
     conn_of w' = (conn_of (c_world s))(r := if px_half_close (conn_of (c_world s) r) then resetConn (conn_of (c_world s) r)
        else (conn_of (c_world s) r)\<lparr>tc_total_count := tc_recv_count (conn_of (c_world s) r), px_half_close := True\<rparr>)"
proof -
  let ?w = "c_world s" let ?p = "conn_of ?w r" let ?pid = "px_proxy_id ?p"
  let ?w1 = "set_conn r (AddTotalCount n ?p) ?w"
  note p = AddTotalCount_drained [OF assms(1)]
  obtain free w2 where o: "obj_shutdownFromRemote r ?w1 = (free, w2)" by fastforce
  note o2 = obj_shutdown_conn(1) [OF o]
  have half: "free = px_half_close ?p" using o2 p by simp
  have "resetConn (conn_of ?w1 r) = resetConn ?p" by (simp add: p resetConn_def)
  then have c: "conn_of w2 = (conn_of ?w)(r := if free then resetConn ?p
      else ?p\<lparr>tc_total_count := tc_recv_count ?p, px_half_close := True\<rparr>)"
    using o2 p by (auto simp: fun_eq_iff)
  then have id: "px_proxy_id (conn_of w2 r) = ?pid" by (simp add: resetConn_def)
  let ?w3 = "if free then w2\<lparr>pw_posts := pw_posts w2 @ [(0, free_msg tid ?pid)]\<rparr> else w2"
  have "wf_body (free_msg tid ?pid)" using assms(3,4) by (simp add: free_msg_def)
  then have "post 0 (free_msg tid ?pid) w2 = Inr (w2\<lparr>pw_posts := pw_posts w2 @ [(0, free_msg tid ?pid)]\<rparr>)"
    by (rule post_ok)
  then have "shutdonwLocalConn r (t, ?w1) = Inr (t, ?w3)"
    using p o id assms(6) by (simp add: shutdonwLocalConn_def free_msg_def)
  from client_recv_shutdown [OF assms(3,4,5,2) this] o2 p half c show ?thesis
    by (intro exI [of _ ?w3]) auto
qed


section \<open>Properties\<close>

text \<open>A pair of proxy connections in use, one at each end, under the same names.\<close>

definition paired :: "u8 list \<Rightarrow> u8 list \<Rightarrow> control \<times> st_tunnel \<times> nat \<times> ('k, tunnel_key) peer_world
    \<Rightarrow> 'k client \<times> cl_tunnel \<times> nat \<Rightarrow> bool" where
  "paired tid pid = (\<lambda>(c, t, r, w) (s, u, q).
     fits 10 tid \<and> fits 10 pid \<and>
     ct_tunnels c tid = Some t \<and> st_id t = tid \<and> st_proxy_map t pid = Some r \<and>
     px_proxy_id (conn_of w r) = pid \<and> px_start (conn_of w r) \<and> \<not> px_half_close (conn_of w r) \<and>
     c_tunnels s tid = Some u \<and> cl_tunnel_id u = tid \<and> cl_proxy_map u pid = Some q \<and>
     px_proxy_id (conn_of (c_world s) q) = pid \<and> px_start (conn_of (c_world s) q) \<and>
     \<not> px_half_close (conn_of (c_world s) q))"

definition freed :: "u8 list \<Rightarrow> nat \<Rightarrow> st_tunnel \<Rightarrow> st_tunnel" where
  "freed pid r t = t\<lparr>st_proxy_map := (st_proxy_map t)(pid := None), st_free := st_free t @ [Some r]\<rparr>"

lemma resetConn_absorb [simp]:
  "resetConn (p\<lparr>tc_total_count := n, px_half_close := h\<rparr>) = resetConn p"
  by (simp add: resetConn_def)

text \<open>C5: An orderly close that the user begins.  The user's end of stream is announced to the
  client, which shuts the local connection down for writing; when the local server ends too, the
  client's connection is reset and the announcement it sends makes the server reset its connection
  and put it on the free list; each end has announced once and no other message was sent.\<close>

theorem close_user_first:
  assumes "paired tid pid (c, t, r, w) (s, u, q)" "drained (conn_of (c_world s) q) n1" "drained (conn_of w r) n2"
  shows "\<exists>w1 s1 v w2.
     st_shutdownFromPublic pid n1 (t, w) = Inr (t, w1) \<and>
     pw_posts w1 = pw_posts w @ [(st_ctl t, shutdown_msg tid pid n1)] \<and>
     client_recv (shutdown_msg tid pid n1) s = Inr s1 \<and> c_tunnels s1 = c_tunnels s \<and>
     pw_shut (c_world s1) = pw_shut (c_world s) @ [tc_conn2fd (conn_of (c_world s) q)] \<and>
     shutdownFromClient pid n2 (u, c_world s1) = Inr (u, v) \<and>
     pw_posts v = pw_posts (c_world s) @ [(0, shutdown_msg tid pid n2)] \<and>
     conn_of v q = resetConn (conn_of (c_world s) q) \<and>
     server_recv (shutdown_msg tid pid n2) (c, w1)
       = Inr (c\<lparr>ct_tunnels := (ct_tunnels c)(tid \<mapsto> freed pid r t)\<rparr>, w2) \<and>
     conn_of w2 r = resetConn (conn_of w r) \<and> pw_posts w2 = pw_posts w1"
proof -
  note P = assms(1) [unfolded paired_def, simplified]
  obtain w1 where w1: "st_shutdownFromPublic pid n1 (t, w) = Inr (t, w1)"
      "pw_posts w1 = pw_posts w @ [(st_ctl t, shutdown_msg tid pid n1)]"
      "conn_of w1 = (conn_of w)(r := (conn_of w r)\<lparr>px_half_close := True\<rparr>)"
    using user_eof_step [of t pid r n1 w] P by auto
  obtain v1 where v1: "client_recv (shutdown_msg tid pid n1) s = Inr (s\<lparr>c_world := v1\<rparr>)"
      "pw_posts v1 = pw_posts (c_world s)" "pw_shut v1 = pw_shut (c_world s) @ [tc_conn2fd (conn_of (c_world s) q)]"
      "conn_of v1 = (conn_of (c_world s))(q := (conn_of (c_world s) q)
        \<lparr>tc_total_count := tc_recv_count (conn_of (c_world s) q), px_half_close := True\<rparr>)"
    using client_announced_step [OF assms(2), of u tid] P by auto
  obtain v where v: "shutdownFromClient pid n2 (u, v1) = Inr (u, v)"
      "pw_posts v = pw_posts v1 @ [(0, shutdown_msg tid pid n2)]"
      "conn_of v = (conn_of v1)(q := resetConn (conn_of v1 q))"
    using local_eof_step [of u pid q n2 v1] P v1(4) by auto
  have d: "drained (conn_of w1 r) n2" using assms(3) w1(3) by (simp add: drained_def)
  have i: "px_proxy_id (conn_of w1 r) = pid" "px_half_close (conn_of w1 r)" using P w1(3) by simp_all
  obtain w2 where w2: "server_recv (shutdown_msg tid pid n2) (c, w1)
       = Inr (c\<lparr>ct_tunnels := (ct_tunnels c)(tid \<mapsto> freed pid r t)\<rparr>, w2)"
      "pw_posts w2 = pw_posts w1" "conn_of w2 = (conn_of w1)(r := resetConn (conn_of w1 r))"
    using server_announced_step [OF d, of t tid c] P i by (auto simp: freed_def)
  have "resetConn (conn_of w1 r) = resetConn (conn_of w r)" "resetConn (conn_of v1 q) = resetConn (conn_of (c_world s) q)"
    using w1(3) v1(4) resetConn_idem by simp_all
  with w1 v1 v w2 show ?thesis
    by (intro exI [of _ w1] exI [of _ "s\<lparr>c_world := v1\<rparr>"] exI [of _ v] exI [of _ w2]) simp
qed

text \<open>C6: An orderly close that the local server begins.  Its end of stream is announced, the server
  shuts the user's connection down for writing; when the user ends too, the server's connection is
  reset, the announcement makes the client reset its own and ask for the connection to be freed,
  and that request puts the server's connection on the free list.\<close>

theorem close_local_first:
  assumes "paired tid pid (c, t, r, w) (s, u, q)" "drained (conn_of (c_world s) q) n1" "drained (conn_of w r) n2"
  shows "\<exists>v1 w1 w2 s2 w3.
     shutdownFromClient pid n2 (u, c_world s) = Inr (u, v1) \<and>
     pw_posts v1 = pw_posts (c_world s) @ [(0, shutdown_msg tid pid n2)] \<and>
     server_recv (shutdown_msg tid pid n2) (c, w) = Inr (c, w1) \<and>
     st_shutdownFromPublic pid n1 (t, w1) = Inr (t, w2) \<and>
     pw_posts w2 = pw_posts w @ [(st_ctl t, shutdown_msg tid pid n1)] \<and>
     client_recv (shutdown_msg tid pid n1) (s\<lparr>c_world := v1\<rparr>) = Inr s2 \<and>
     pw_posts (c_world s2) = pw_posts v1 @ [(0, free_msg tid pid)] \<and>
     conn_of (c_world s2) q = resetConn (conn_of (c_world s) q) \<and>
     server_recv (free_msg tid pid) (c, w2)
       = Inr (c\<lparr>ct_tunnels := (ct_tunnels c)(tid \<mapsto> freed pid r t)\<rparr>, w3) \<and>
     conn_of w3 r = resetConn (conn_of w r) \<and> pw_posts w3 = pw_posts w2"
proof -
  note P = assms(1) [unfolded paired_def, simplified]
  obtain v1 where v1: "shutdownFromClient pid n2 (u, c_world s) = Inr (u, v1)"
      "pw_posts v1 = pw_posts (c_world s) @ [(0, shutdown_msg tid pid n2)]"
      "conn_of v1 = (conn_of (c_world s))(q := (conn_of (c_world s) q)\<lparr>px_half_close := True\<rparr>)"
    using local_eof_step [of u pid q n2 "c_world s"] P by auto
  have same: "(ct_tunnels c)(tid \<mapsto> t) = ct_tunnels c" using P by (metis fun_upd_triv)
  obtain w1 where w1: "server_recv (shutdown_msg tid pid n2) (c, w) = Inr (c, w1)"
      "pw_posts w1 = pw_posts w" "conn_of w1 = (conn_of w)(r := (conn_of w r)
        \<lparr>tc_total_count := tc_recv_count (conn_of w r), px_half_close := True\<rparr>)"
    using server_announced_step [OF assms(3), of t tid c] P same by auto
  obtain w2 where w2: "st_shutdownFromPublic pid n1 (t, w1) = Inr (t, w2)"
      "pw_posts w2 = pw_posts w1 @ [(st_ctl t, shutdown_msg tid pid n1)]"
      "conn_of w2 = (conn_of w1)(r := resetConn (conn_of w1 r))"
    using user_eof_step [of t pid r n1 w1] P w1(3) by auto
  let ?s1 = "s\<lparr>c_world := v1\<rparr>"
  have d: "drained (conn_of (c_world ?s1) q) n1" using assms(2) v1(3) by (simp add: drained_def)
  have i: "px_proxy_id (conn_of (c_world ?s1) q) = pid" "px_half_close (conn_of (c_world ?s1) q)"
    using P v1(3) by simp_all
  obtain v2 where v2: "client_recv (shutdown_msg tid pid n1) ?s1 = Inr (?s1\<lparr>c_world := v2\<rparr>)"
      "pw_posts v2 = pw_posts v1 @ [(0, free_msg tid pid)]"
      "conn_of v2 = (conn_of v1)(q := resetConn (conn_of v1 q))"
    using client_announced_step [OF d, of u tid] P i by auto
  have "\<not> px_start (conn_of w2 r)" using w2(3) by (simp add: resetConn_def)
  then have "freeProxyConn pid (t, w2) = (freed pid r t, w2)"
    using P by (simp add: freeProxyConn_def freed_def tm_get_def tm_erase_def)
  from server_recv_free [OF _ _ _ this] P have w3: "server_recv (free_msg tid pid) (c, w2)
       = Inr (c\<lparr>ct_tunnels := (ct_tunnels c)(tid \<mapsto> freed pid r t)\<rparr>, w2)" by simp
  have "resetConn (conn_of w1 r) = resetConn (conn_of w r)" "resetConn (conn_of v1 q) = resetConn (conn_of (c_world s) q)"
    using w1(3) v1(3) resetConn_idem by simp_all
  with w1 v1 w2 v2 w3 show ?thesis
    by (intro exI [of _ v1] exI [of _ w1] exI [of _ w2] exI [of _ "?s1\<lparr>c_world := v2\<rparr>"] exI [of _ w2]) simp
qed


text \<open>C7: The simultaneous close is unsafe.  If both streams end before either announcement has
  arrived, the client's announcement alone makes the server free its connection, while the client's
  end, which has not seen the server's announcement, still relays.  The next user is then given
  that connection: the request for him is queued on it, and the client's relay passes the bytes of
  the request on to the local server as if they were data of the previous user.\<close>

theorem simultaneous_close_misroutes:
  assumes "paired tid pid (c, t, r, w) (s, u, q)" "drained (conn_of w r) n2"
    "tc_pipe (conn_of (c_world s) q) = []"
    "buf_inv (px_buf (conn_of w r))" "24 \<le> GetFreeSize (px_buf (conn_of w r))"
  shows "\<exists>w1 v1 w2 t3 w3 m.
     st_shutdownFromPublic pid n1 (t, w) = Inr (t, w1) \<and>
     shutdownFromClient pid n2 (u, c_world s) = Inr (u, v1) \<and>
     server_recv (shutdown_msg tid pid n2) (c, w1)
       = Inr (c\<lparr>ct_tunnels := (ct_tunnels c)(tid \<mapsto> freed pid r t)\<rparr>, w2) \<and>
     new_public_conn ret fd (freed pid r t, w2) = Inr (t3, w3) \<and>
     content (px_buf (conn_of w3 r)) = content (px_buf (conn_of w r)) @ wire_of m \<and>
     px_start (conn_of v1 q) \<and>
     (\<forall>rd k. rd (px_src (conn_of v1 q)) 2048 = (RData (wire_of m), k) \<longrightarrow>
        px_handleRead fuel rd (\<lambda>n. n) cb (ch, conn_of v1 q, a) =
          (let p = moved k (wire_of m) (conn_of v1 q)
           in if tc_recv_count p = tc_total_count p then cb EvCloseLocalPeer (ch, p, a) else Inr (ch, p, a)))"
proof -
  note P = assms(1) [unfolded paired_def, simplified]
  obtain w1 where w1: "st_shutdownFromPublic pid n1 (t, w) = Inr (t, w1)"
      "conn_of w1 = (conn_of w)(r := (conn_of w r)\<lparr>px_half_close := True\<rparr>)"
    using user_eof_step [of t pid r n1 w] P by auto
  obtain v1 where v1: "shutdownFromClient pid n2 (u, c_world s) = Inr (u, v1)"
      "conn_of v1 = (conn_of (c_world s))(q := (conn_of (c_world s) q)\<lparr>px_half_close := True\<rparr>)"
    using local_eof_step [of u pid q n2 "c_world s"] P by auto
  have d: "drained (conn_of w1 r) n2" using assms(2) w1(2) by (simp add: drained_def)
  have i: "px_proxy_id (conn_of w1 r) = pid" "px_half_close (conn_of w1 r)" using P w1(2) by simp_all
  obtain w2 where w2: "server_recv (shutdown_msg tid pid n2) (c, w1)
       = Inr (c\<lparr>ct_tunnels := (ct_tunnels c)(tid \<mapsto> freed pid r t)\<rparr>, w2)"
      "conn_of w2 = (conn_of w1)(r := resetConn (conn_of w1 r))"
    using server_announced_step [OF d, of t tid c] P i by (auto simp: freed_def)
  have b: "px_buf (conn_of w2 r) = px_buf (conn_of w r)" "id_in w2 r = pid"
    using w1(2) w2(2) P by (simp_all add: resetConn_def id_in_def)
  have "st_free (freed pid r t) = st_free t @ [Some r]" by (simp add: freed_def)
  from new_public_conn_reuse [OF this, of w2 fd ret] P b assms(4,5) obtain m t3 w3 where
    "new_public_conn ret fd (freed pid r t, w2) = Inr (t3, w3)"
    "content (px_buf (conn_of w3 r)) = content (px_buf (conn_of w r)) @ wire_of m" "wire_of m \<noteq> []" by auto
  moreover have "px_start (conn_of v1 q)" "tc_pipe (conn_of v1 q) = []" using v1(2) P assms(3) by simp_all
  ultimately show ?thesis
    using w1(1) v1(1) w2(1)
    by (intro exI [of _ w1] exI [of _ v1] exI [of _ w2] exI [of _ t3] exI [of _ w3] exI [of _ m])
       (simp add: px_handleRead_def px_relay_full moved_def)
qed

definition sample_pair_client :: "cell list client" where
  "sample_pair_client = sample_client
     \<lparr>c_tunnels := [[84] \<mapsto> (new_cl_tunnel [84] [50] 80 [49] 7777)\<lparr>cl_proxy_map := [[65] \<mapsto> 0]\<rparr>]\<rparr>"

definition sample_pair_tunnel :: st_tunnel where
  "sample_pair_tunnel = sample_tunnel\<lparr>st_proxy_map := [[65] \<mapsto> 0]\<rparr>"

definition sample_pair_world :: "(cell list, tunnel_key) peer_world" where
  "sample_pair_world = sample_world [([65], True)]"

definition sample_control :: control where
  "sample_control = (new_control 5 [67] 0 8089)\<lparr>ct_tunnels := [[84] \<mapsto> sample_pair_tunnel]\<rparr>"

lemma sample_paired:
  "paired [84] [65] (sample_control, sample_pair_tunnel, 0, sample_pair_world)
     (sample_pair_client, (new_cl_tunnel [84] [50] 80 [49] 7777)\<lparr>cl_proxy_map := [[65] \<mapsto> 0]\<rparr>, 0)"
  "drained (conn_of (c_world sample_pair_client) 0) 0" "drained (conn_of sample_pair_world 0) 0"
  by (simp_all add: paired_def sample_control_def new_control_def sample_pair_tunnel_def sample_tunnel_def
      new_st_tunnel_def sample_pair_world_def sample_world_def sample_pair_client_def sample_client_def
      new_cl_tunnel_def conn_of_def sample_px_def fits_def c_string_def drained_def wrap32_def)

lemma close_user_first_witness:
  "\<exists>w1. st_shutdownFromPublic [65] 0 (sample_pair_tunnel, sample_pair_world) = Inr (sample_pair_tunnel, w1) \<and>
     (\<exists>w2. server_recv (shutdown_msg [84] [65] 0) (sample_control, w1) =
       Inr (sample_control\<lparr>ct_tunnels := (ct_tunnels sample_control)([84] \<mapsto> freed [65] 0 sample_pair_tunnel)\<rparr>, w2))"
  using close_user_first [OF sample_paired] by blast

lemma close_local_first_witness:
  "\<exists>w1 w2. server_recv (shutdown_msg [84] [65] 0) (sample_control, sample_pair_world) = Inr (sample_control, w1) \<and>
     st_shutdownFromPublic [65] 0 (sample_pair_tunnel, w1) = Inr (sample_pair_tunnel, w2) \<and>
     (\<exists>w3. server_recv (free_msg [84] [65]) (sample_control, w2) =
       Inr (sample_control\<lparr>ct_tunnels := (ct_tunnels sample_control)([84] \<mapsto> freed [65] 0 sample_pair_tunnel)\<rparr>, w3))"
  using close_local_first [OF sample_paired] by blast

lemma simultaneous_close_misroutes_witness:
  "\<exists>w1 w2 t3 w3. st_shutdownFromPublic [65] 0 (sample_pair_tunnel, sample_pair_world) = Inr (sample_pair_tunnel, w1) \<and>
     server_recv (shutdown_msg [84] [65] 0) (sample_control, w1) =
       Inr (sample_control\<lparr>ct_tunnels := (ct_tunnels sample_control)([84] \<mapsto> freed [65] 0 sample_pair_tunnel)\<rparr>, w2) \<and>
     new_public_conn 0 31 (freed [65] 0 sample_pair_tunnel, w2) = Inr (t3, w3)"
proof -
  have b: "px_buf (conn_of sample_pair_world 0) = cc_out_buf (sample_ctl [])"
      "tc_pipe (conn_of (c_world sample_pair_client) 0) = []"
    by (simp_all add: sample_pair_world_def sample_world_def sample_pair_client_def sample_client_def
        conn_of_def sample_px_def)
  have "buf_inv (px_buf (conn_of sample_pair_world 0))" "24 \<le> GetFreeSize (px_buf (conn_of sample_pair_world 0))"
    unfolding b using sample_ctl_inv by simp_all
  from simultaneous_close_misroutes [OF sample_paired(1,3) b(2) this, of 0 0 31 0
      "\<lambda>_. Inr" "new_channel 0 0 0 False" "()"] show ?thesis by blast
qed


text \<open>C1: A user's connection is opened end to end.  With no free connection at the server, the
  user's arrival posts a request; the client that gets it opens its pair of connections and sends
  a first message; the server that gets that message on an unclaimed connection gives it to the
  user.  Afterwards both ends hold the pair under the same new identifier, started, the server's
  end paired with the user's descriptor and the client's with the local server's.\<close>

theorem session_opens:
  assumes tun: "ct_tunnels (sv_ctl_objs S c) tid = Some t" "st_id t = tid" "st_free t = []"
      "sv_controls S (c_client_id s) = Some c" "fits 10 tid" "fits 10 (c_client_id s)"
    and cl: "c_tunnels s tid = Some u" "PickRandThread (c_pool s) = Inr (th, pool)"
      "getValidProxyID fuel rnd (c_rnd s) u = Some (pid, k)" "0 < proxy_fd" "0 < local_fd"
    and fresh: "st_proxy_map t pid = None" and fd: "0 < tc_fd (conn_of (sv_world S) r)"
  shows "\<exists>S1 req body s' q cs m S2 t2 u2.
     on_tunnel (c, tid) (new_public_conn ret user_fd) S = Inr S1 \<and>
     pw_posts (sv_world S1) = pw_posts (sv_world S) @ [(st_ctl t, BNotifyClient req)] \<and>
     enc_NotifyClient req = Inr body \<and>
     handleProxyNotify fuel rnd proxy_fd local_fd 38 body s = Inr s' \<and>
     makeProxyMsg ProxyMetaSet cs 30 = Inr m \<and> px_sent (conn_of (c_world s') q) = wire_of m \<and>
     sv_claimProxyConn cs r S1 = Inr S2 \<and>
     ct_tunnels (sv_ctl_objs S2 c) tid = Some t2 \<and> st_proxy_map t2 pid = Some r \<and>
     px_start (conn_of (sv_world S2) r) \<and> tc_conn2fd (conn_of (sv_world S2) r) = user_fd \<and>
     px_proxy_id (conn_of (sv_world S2) r) = pid \<and>
     c_tunnels s' tid = Some u2 \<and> cl_proxy_map u2 pid = Some q \<and>
     px_start (conn_of (c_world s') q) \<and> tc_conn2fd (conn_of (c_world s') q) = local_fd \<and>
     px_proxy_id (conn_of (c_world s') q) = pid"
proof -
  let ?req = "\<lparr>ncp_tunnel_id = tid, ncp_proxy_server_port = st_proxy_port t\<rparr>"
  let ?w1 = "(sv_world S)\<lparr>pw_posts := pw_posts (sv_world S) @ [(st_ctl t, BNotifyClient ?req)]\<rparr>"
  let ?t1 = "t\<lparr>st_unhandled := st_unhandled t @ [user_fd]\<rparr>"
  let ?ctl = "sv_ctl_objs S c"
  let ?S1 = "S\<lparr>sv_ctl_objs := (sv_ctl_objs S)(c := ?ctl\<lparr>ct_tunnels := (ct_tunnels ?ctl)(tid \<mapsto> ?t1)\<rparr>),
      sv_world := ?w1\<rparr>"
  have "post (st_ctl t) (BNotifyClient ?req) (sv_world S) = Inr ?w1" using tun(5) by (intro post_ok) simp
  then have S1: "on_tunnel (c, tid) (new_public_conn ret user_fd) S = Inr ?S1"
    using tun(1-3) by (simp add: on_tunnel_def on_control_def new_public_conn_def popFreeProxyConn_def
        notifyClientNeedProxy_def)
  obtain body where body: "enc_NotifyClient ?req = Inr body" "dec_NotifyClient body = Inr ?req"
    using ws_notify.enc_dec [of ?req] tun(5) by auto
  have pre: "c_tunnels s (ncp_tunnel_id ?req) = Some u" "fits 10 (ncp_tunnel_id ?req)"
    using cl(1) tun(5) by simp_all
  obtain s' q e cs m where n: "handleProxyNotify fuel rnd proxy_fd local_fd 38 body s = Inr s'"
      "c_tunnels s' = (c_tunnels s)(ncp_tunnel_id ?req \<mapsto> u\<lparr>cl_proxy_map := (cl_proxy_map u)(pid \<mapsto> q)\<rparr>)"
      "px_start (conn_of (c_world s') q)" "px_proxy_id (conn_of (c_world s') q) = pid"
      "tc_conn2fd (conn_of (c_world s') q) = local_fd" "px_sent (conn_of (c_world s') q) = wire_of m"
      "makeProxyMsg ProxyMetaSet cs 30 = Inr m"
      "dec_ProxyMetaSet cs = Inr \<lparr>pms_ctl_id = c_client_id s, pms_tun_id = ncp_tunnel_id ?req, pms_proxy_id = pid\<rparr>"
    using handleProxyNotify_opens [OF body(2) pre(1) cl(4,5,2,3) tun(6) pre(2)] by blast
  have tun': "c_tunnels s' tid = Some (u\<lparr>cl_proxy_map := (cl_proxy_map u)(pid \<mapsto> q)\<rparr>)" using n(2) by simp
  have "\<exists>S2 t2. sv_claimProxyConn cs r ?S1 = Inr S2 \<and> ct_tunnels (sv_ctl_objs S2 c) tid = Some t2 \<and>
     st_proxy_map t2 pid = Some r \<and> px_start (conn_of (sv_world S2) r) \<and>
     tc_conn2fd (conn_of (sv_world S2) r) = user_fd \<and> px_proxy_id (conn_of (sv_world S2) r) = pid"
    using n(8) tun(4) fresh fd
    by (simp add: sv_claimProxyConn_def setProxyID_def claimProxyConn_def getAndPopUndealPublicFd_def
        bindPublicFdToProxyConn_def run_with_def px_Run_def getUnclaimedProxyMapByFd_def
        UnclaimedProxyMapLen_def set_conn_def set_obj_def conn_of_def tm_add_def tm_erase_def
        new_edge_conn_def Let_def)
  then obtain S2 t2 where S2: "sv_claimProxyConn cs r ?S1 = Inr S2" "ct_tunnels (sv_ctl_objs S2 c) tid = Some t2"
     "st_proxy_map t2 pid = Some r" "px_start (conn_of (sv_world S2) r)"
     "tc_conn2fd (conn_of (sv_world S2) r) = user_fd" "px_proxy_id (conn_of (sv_world S2) r) = pid" by blast
  show ?thesis
    by (rule exI [of _ ?S1], rule exI [of _ ?req], rule exI [of _ body], rule exI [of _ s'], rule exI [of _ q],
        rule exI [of _ cs], rule exI [of _ m], rule exI [of _ S2], rule exI [of _ t2],
        rule exI [of _ "u\<lparr>cl_proxy_map := (cl_proxy_map u)(pid \<mapsto> q)\<rparr>"])
       (simp add: S1 body(1) n(1,3-7) S2 tun')
qed

lemma session_opens_witness:
  "\<exists>S1 S2 s' body cs. on_tunnel (0, [84]) (new_public_conn 0 31) sample_server = Inr S1 \<and>
     handleProxyNotify (Suc 0) (\<lambda>k. k) 11 12 38 body sample_client = Inr s' \<and>
     sv_claimProxyConn cs 0 S1 = Inr S2 \<and> tc_conn2fd (conn_of (sv_world S2) 0) = 31"
proof -
  have th: "PickRandThread (c_pool sample_client) = Inr (0, running_pool [0, 1] 1)"
    by (simp add: sample_client_def PickRandThread_def running_pool_def)
  have tun: "ct_tunnels (sv_ctl_objs sample_server 0) [84] = Some (sample_tunnel\<lparr>st_unhandled := [30]\<rparr>)"
    by (simp add: sample_server_def new_control_def)
  have f: "st_id (sample_tunnel\<lparr>st_unhandled := [30]\<rparr>) = [84]" "st_free (sample_tunnel\<lparr>st_unhandled := [30]\<rparr>) = []"
      "sv_controls sample_server (c_client_id sample_client) = Some 0" "fits 10 [84]"
      "fits 10 (c_client_id sample_client)"
      "c_tunnels sample_client [84] = Some (new_cl_tunnel [84] [50] 80 [49] 7777)"
      "st_proxy_map (sample_tunnel\<lparr>st_unhandled := [30]\<rparr>) [48, 49, 50, 51, 52] = None"
      "0 < tc_fd (conn_of (sv_world sample_server) 0)"
    by (simp_all add: sample_tunnel_def new_st_tunnel_def sample_server_def sample_client_def fits_def
        c_string_def sample_world_def conn_of_def sample_px_def)
  from session_opens [OF tun f(1-6) th sample_client_id _ _ f(7,8), of 11 12 0 31] show ?thesis by auto
qed

end
