(* ===== verification/ObjPool.thy ===== *)
theory ObjPool
  imports Prelude
begin

text \<open>
  \<open>conf/ObjectPool.hpp\<close>: the pool that the select server takes its \<open>ThreadClient\<close> objects from.
  An object is named by its address; \<open>op_refs\<close> counts the shared pointers to it that live
  outside the pool's own list, so that the moment at which the pool's deleter runs is explicit.
  The mutex matters in one place only: a deleter that runs while the pool holds it never returns.
  The counters are C++ \<open>int\<close>s that count objects in memory, far from overflow.

  The properties: in every use of the pool through \<open>alloc\<close> and shared pointers the counters agree with
  the objects and no object is handed out twice; a recycled object comes back with the state it
  was left in; the first shrinking \<open>Dealloc\<close> ends all recycling.
\<close>

section \<open>State\<close>

record 'a object_pool =
  op_free :: "nat list"
  op_objs :: "nat \<rightharpoonup> 'a"
  op_refs :: "nat \<Rightarrow> nat"
  op_next :: nat
  op_init :: int
  op_cur :: int
  op_use :: int
  op_inc :: int
  op_shrink :: int
  op_dec :: bool
  op_time :: int

definition recycletime :: int where "recycletime = 10000"

text \<open>\<open>new T()\<close> put at the front of the list.\<close>

definition push_new :: "'a \<Rightarrow> 'a object_pool \<Rightarrow> 'a object_pool" where
  "push_new mk p = p\<lparr>op_free := op_next p # op_free p, op_objs := (op_objs p)(op_next p \<mapsto> mk),
     op_next := Suc (op_next p)\<rparr>"

text \<open>The template arguments are unsigned, so that the first test of \<open>init\<close> never holds; when
  \<open>increase\<close> or \<open>reduce\<close> is zero the members keep the garbage of \<open>raw\<close>.\<close>

definition pool_init :: "nat \<Rightarrow> nat \<Rightarrow> nat \<Rightarrow> 'a \<Rightarrow> 'a object_pool \<Rightarrow> bool \<times> 'a object_pool" where
  "pool_init initnum increase reduce mk raw =
     (if increase = 0 \<or> reduce = 0 then (False, raw)
      else (True, (push_new mk ^^ initnum)
             (raw\<lparr>op_use := 0, op_init := int initnum, op_inc := int increase, op_shrink := int reduce,
                  op_time := 0, op_cur := int initnum\<rparr>)))"

definition new_object_pool :: "nat \<Rightarrow> nat \<Rightarrow> nat \<Rightarrow> 'a \<Rightarrow> 'a object_pool \<Rightarrow> 'a object_pool" where
  "new_object_pool initnum increase reduce mk raw =
     snd (pool_init initnum increase reduce mk
            (raw\<lparr>op_free := [], op_objs := Map.empty, op_refs := (\<lambda>_. 0), op_dec := False\<rparr>))"

section \<open>Operations\<close>

definition addnewobj :: "'a \<Rightarrow> 'a object_pool \<Rightarrow> 'a object_pool" where
  "addnewobj mk p = (let q = (push_new mk ^^ nat (op_inc p)) p in q\<lparr>op_cur := op_cur q + op_inc q\<rparr>)"

definition take_front :: "'a object_pool \<Rightarrow> (nat \<times> 'a object_pool) res" where
  "take_front p =
     (case op_free p of
        [] \<Rightarrow> Inl EmptyContainer
      | x # xs \<Rightarrow> Inr (x, p\<lparr>op_free := xs, op_refs := (op_refs p)(x := Suc (op_refs p x)), op_use := op_use p + 1\<rparr>))"

definition alloc :: "'a \<Rightarrow> 'a object_pool \<Rightarrow> (nat \<times> 'a object_pool) res" where
  "alloc mk p = (if op_free p \<noteq> [] then take_front p else take_front (addnewobj mk p))"

text \<open>\<open>_ObjDeleter\<close>, which the last shared pointer to an object calls.\<close>

definition ObjDeleter :: "nat \<Rightarrow> 'a object_pool \<Rightarrow> 'a object_pool" where
  "ObjDeleter x p =
     (if op_dec p then p\<lparr>op_objs := (op_objs p)(x := None)\<rparr>
      else p\<lparr>op_use := op_use p - 1, op_free := op_free p @ [x]\<rparr>)"

text \<open>A shared pointer outside the pool is copied, or ends.\<close>

definition copy_ptr :: "nat \<Rightarrow> 'a object_pool \<Rightarrow> 'a object_pool" where
  "copy_ptr x p = p\<lparr>op_refs := (op_refs p)(x := Suc (op_refs p x))\<rparr>"

definition drop_ptr :: "nat \<Rightarrow> 'a object_pool \<Rightarrow> 'a object_pool" where
  "drop_ptr x p =
     (let q = p\<lparr>op_refs := (op_refs p)(x := op_refs p x - 1)\<rparr>
      in if op_refs q x = 0 \<and> x \<notin> set (op_free q) then ObjDeleter x q else q)"

definition write_obj :: "nat \<Rightarrow> 'a \<Rightarrow> 'a object_pool \<Rightarrow> 'a object_pool" where
  "write_obj x v p = p\<lparr>op_objs := (op_objs p)(x \<mapsto> v)\<rparr>"

definition pool_checkexpire :: "int \<Rightarrow> 'a object_pool \<Rightarrow> bool \<times> 'a object_pool" where
  "pool_checkexpire time p =
     (let q = p\<lparr>op_time := op_time p + time\<rparr> in (op_time q \<ge> recycletime, q))"

text \<open>The shrinking loop.  An object without another owner calls the deleter, which waits for the
  mutex that \<open>Dealloc\<close> already holds.\<close>

fun pop_backs :: "nat \<Rightarrow> 'a object_pool \<Rightarrow> 'a object_pool res" where
  "pop_backs 0 p = Inr p"
| "pop_backs (Suc n) p =
     (if op_free p = [] then Inl EmptyContainer
      else let x = last (op_free p); q = p\<lparr>op_free := butlast (op_free p)\<rparr>
           in if op_refs q x = 0 \<and> x \<notin> set (op_free q) then Inl NotReturned else pop_backs n q)"

definition deaddobj :: "int \<Rightarrow> 'a object_pool \<Rightarrow> 'a object_pool res" where
  "deaddobj now p =
     (if op_cur p - op_use p \<le> op_inc p * 2 \<or> op_cur p - op_init p \<le> op_inc p then Inr p
      else let (old, q) = pool_checkexpire now p
           in if \<not> old then Inr q
              else bind_res (pop_backs (nat (op_inc q)) (q\<lparr>op_time := 0, op_dec := False\<rparr>))
                     (\<lambda>r. Inr (r\<lparr>op_dec := True\<rparr>)))"

definition Dealloc :: "int \<Rightarrow> nat \<Rightarrow> 'a object_pool \<Rightarrow> 'a object_pool res" where
  "Dealloc now x p = deaddobj now (p\<lparr>op_free := op_free p @ [x], op_use := op_use p - 1\<rparr>)"

definition getUsed :: "'a object_pool \<Rightarrow> int" where "getUsed p = op_use p"

definition getUnused :: "'a object_pool \<Rightarrow> int" where "getUnused p = op_cur p - op_use p"

section \<open>The invariant\<close>

definition live :: "'a object_pool \<Rightarrow> nat set" where "live p = {x. 0 < op_refs p x}"

definition pool_inv :: "'a object_pool \<Rightarrow> bool" where
  "pool_inv p \<longleftrightarrow> distinct (op_free p) \<and> finite (live p) \<and> set (op_free p) \<inter> live p = {} \<and>
     dom (op_objs p) = set (op_free p) \<union> live p \<and> (\<forall>x \<in> dom (op_objs p). x < op_next p) \<and>
     \<not> op_dec p \<and> 0 < op_inc p \<and> op_use p = int (card (live p)) \<and>
     op_cur p = op_use p + int (length (op_free p))"

lemma pool_invD:
  assumes "pool_inv p"
  shows "distinct (op_free p)" "finite (live p)" "set (op_free p) \<inter> live p = {}"
    "dom (op_objs p) = set (op_free p) \<union> live p" "\<not> op_dec p" "0 < op_inc p"
    "op_use p = int (card (live p))" "op_cur p = op_use p + int (length (op_free p))"
    "x \<in> dom (op_objs p) \<Longrightarrow> x < op_next p"
  using assms by (auto simp: pool_inv_def)

text \<open>What \<open>n\<close> new objects add.\<close>

lemma push_new_steps:
  "\<exists>q. (push_new mk ^^ n) p = q \<and> op_free q = rev [op_next p..<op_next p + n] @ op_free p \<and>
     op_objs q = (\<lambda>x. if x \<in> {op_next p..<op_next p + n} then Some mk else op_objs p x) \<and>
     op_next q = op_next p + n \<and> op_refs q = op_refs p \<and> op_cur q = op_cur p \<and> op_use q = op_use p \<and>
     op_inc q = op_inc p \<and> op_init q = op_init p \<and> op_dec q = op_dec p"
  by (induction n) (auto simp: push_new_def fun_eq_iff)

lemma pool_inv_push_new:
  assumes "pool_inv p"
  shows "pool_inv (((push_new mk ^^ n) p)\<lparr>op_cur := op_cur p + int n\<rparr>)"
proof -
  obtain q where q: "(push_new mk ^^ n) p = q" "op_free q = rev [op_next p..<op_next p + n] @ op_free p"
     "op_objs q = (\<lambda>x. if x \<in> {op_next p..<op_next p + n} then Some mk else op_objs p x)"
     "op_next q = op_next p + n" "op_refs q = op_refs p" "op_cur q = op_cur p" "op_use q = op_use p"
     "op_inc q = op_inc p" "op_dec q = op_dec p"
    using push_new_steps [of n mk p] by blast
  note i = pool_invD [OF assms]
  have new: "op_next p \<le> x \<Longrightarrow> x \<notin> set (op_free p) \<and> x \<notin> live p" for x
    using i(4) i(9) [of x] by auto
  have live: "live q = live p" using q(5) by (simp add: live_def)
  have len: "length (op_free q) = length (op_free p) + n" using q(2) by simp
  have l2: "live (q\<lparr>op_cur := c\<rparr>) = live q" for c by (simp add: live_def)
  have dom: "dom (op_objs q) = {op_next p..<op_next p + n} \<union> dom (op_objs p)"
    using q(3) by (auto simp: dom_def)
  have lt: "x < op_next p + n" if "x \<in> dom (op_objs q)" for x
    using that i(9) [of x] unfolding dom by (auto intro: trans_less_add1)
  have "distinct (op_free q)" using q(2) i(1) new by auto
  moreover have "set (op_free q) \<inter> live q = {}" using q(2) live i(3) new by auto
  moreover have "dom (op_objs q) = set (op_free q) \<union> live q" unfolding dom using q(2) live i(4) by auto
  ultimately show ?thesis
    unfolding q(1) pool_inv_def l2 using lt len i(2,5-8) live q(4-9) by auto
qed

lemma pool_inv_new:
  assumes "0 < increase" "0 < reduce"
  shows "pool_inv (new_object_pool initnum increase reduce mk raw)"
proof -
  let ?r = "raw\<lparr>op_free := [], op_objs := Map.empty, op_refs := (\<lambda>_. 0), op_dec := False, op_use := 0,
     op_init := int initnum, op_inc := int increase, op_shrink := int reduce, op_cur := 0, op_time := 0\<rparr>"
  have cur: "(push_new mk ^^ n) (p\<lparr>op_cur := c\<rparr>) = ((push_new mk ^^ n) p)\<lparr>op_cur := c\<rparr>" for n c and p :: "'a object_pool"
    by (induction n) (simp_all add: push_new_def)
  have "pool_inv ?r" using assms by (simp add: pool_inv_def live_def)
  from pool_inv_push_new [OF this, where mk = mk and n = initnum]
  have "pool_inv (((push_new mk ^^ initnum) ?r)\<lparr>op_cur := int initnum\<rparr>)" by simp
  then show ?thesis using assms
    by (simp add: new_object_pool_def pool_init_def cur [symmetric])
qed

lemma addnewobj_inv:
  assumes "pool_inv p"
  shows "pool_inv (addnewobj mk p) \<and> op_free (addnewobj mk p) \<noteq> [] \<and> op_refs (addnewobj mk p) = op_refs p"
proof -
  obtain q where q: "(push_new mk ^^ nat (op_inc p)) p = q"
     "op_free q = rev [op_next p..<op_next p + nat (op_inc p)] @ op_free p"
     "op_refs q = op_refs p" "op_inc q = op_inc p" "op_cur q = op_cur p"
    using push_new_steps [of "nat (op_inc p)" mk p] by blast
  have "0 < op_inc p" using assms by (simp add: pool_inv_def)
  then show ?thesis
    using pool_inv_push_new [OF assms, where mk = mk and n = "nat (op_inc p)"] q by (simp add: addnewobj_def Let_def)
qed

lemma take_front_inv:
  assumes "pool_inv p" "op_free p \<noteq> []"
  shows "\<exists>q. take_front p = Inr (hd (op_free p), q) \<and> pool_inv q \<and> hd (op_free p) \<notin> live p \<and>
     live q = insert (hd (op_free p)) (live p) \<and> op_refs q (hd (op_free p)) = 1 \<and>
     op_free q = tl (op_free p) \<and> op_objs q = op_objs p"
proof -
  obtain x xs where f: "op_free p = x # xs" using assms(2) by (cases "op_free p") auto
  note i = pool_invD [OF assms(1)]
  let ?q = "p\<lparr>op_free := xs, op_refs := (op_refs p)(x := Suc (op_refs p x)), op_use := op_use p + 1\<rparr>"
  have x: "x \<notin> live p" "x \<notin> set xs" using i(1,3) f by auto
  have live: "live ?q = insert x (live p)" by (auto simp: live_def)
  have "card (insert x (live p)) = Suc (card (live p))" using i(2) x(1) by simp
  then have "pool_inv ?q"
    unfolding pool_inv_def live using i f x by auto
  moreover have "op_refs p x = 0" using x(1) by (simp add: live_def)
  ultimately show ?thesis using f x live by (simp add: take_front_def)
qed

lemma alloc_inv:
  assumes "pool_inv p"
  shows "\<exists>x q. alloc mk p = Inr (x, q) \<and> pool_inv q \<and> x \<notin> live p \<and> live q = insert x (live p) \<and> op_refs q x = 1"
proof (cases "op_free p = []")
  case True
  have "live (addnewobj mk p) = live p" using addnewobj_inv [OF assms, of mk] by (simp add: live_def)
  with take_front_inv [of "addnewobj mk p"] addnewobj_inv [OF assms, of mk] True show ?thesis
    by (auto simp: alloc_def)
next
  case False
  with take_front_inv [OF assms] show ?thesis by (auto simp: alloc_def)
qed

lemma copy_ptr_inv:
  assumes "pool_inv p" "x \<in> live p"
  shows "pool_inv (copy_ptr x p)" "live (copy_ptr x p) = live p"
proof -
  show l: "live (copy_ptr x p) = live p" using assms(2) by (auto simp: live_def copy_ptr_def)
  show "pool_inv (copy_ptr x p)"
    using assms(1) unfolding pool_inv_def l by (simp add: copy_ptr_def)
qed

lemma drop_ptr_inv:
  assumes "pool_inv p" "x \<in> live p"
  shows "pool_inv (drop_ptr x p)" "live (drop_ptr x p) = (if op_refs p x = 1 then live p - {x} else live p)"
    "op_refs p x = 1 \<Longrightarrow> op_free (drop_ptr x p) = op_free p @ [x] \<and> op_objs (drop_ptr x p) = op_objs p"
proof -
  note i = pool_invD [OF assms(1)]
  let ?q = "p\<lparr>op_refs := (op_refs p)(x := op_refs p x - 1)\<rparr>"
  have x: "x \<notin> set (op_free p)" "0 < op_refs p x" using i(3) assms(2) by (auto simp: live_def)
  have eq: "drop_ptr x p = (if op_refs p x = 1 then ?q\<lparr>op_use := op_use p - 1, op_free := op_free p @ [x]\<rparr> else ?q)"
    using x i(5) by (auto simp: drop_ptr_def ObjDeleter_def)
  show l: "live (drop_ptr x p) = (if op_refs p x = 1 then live p - {x} else live p)"
    unfolding eq using x(2) by (auto simp: live_def split: if_splits)
  show "op_refs p x = 1 \<Longrightarrow> op_free (drop_ptr x p) = op_free p @ [x] \<and> op_objs (drop_ptr x p) = op_objs p"
    unfolding eq by simp
  have "card (live p - {x}) = card (live p) - 1" "0 < card (live p)"
    using i(2) assms(2) by (simp_all add: card_gt_0_iff) (metis empty_iff)
  then show "pool_inv (drop_ptr x p)"
    unfolding pool_inv_def l unfolding eq using i x assms(2) by auto
qed

lemma write_obj_inv:
  assumes "pool_inv p" "x \<in> live p"
  shows "pool_inv (write_obj x v p)" "live (write_obj x v p) = live p"
  using assms by (auto simp: pool_inv_def write_obj_def live_def)

section \<open>Clients of the pool\<close>

fun get_many :: "('p \<Rightarrow> (nat \<times> 'p) res) \<Rightarrow> nat \<Rightarrow> 'p \<Rightarrow> (nat list \<times> 'p) res" where
  "get_many get 0 p = Inr ([], p)"
| "get_many get (Suc n) p =
     bind_res (get p) (\<lambda>(x, q). bind_res (get_many get n q) (\<lambda>(xs, r). Inr (x # xs, r)))"

text \<open>What a server relies on: it always gets an object, and one that nobody uses.\<close>

locale object_source =
  fixes good :: "'p \<Rightarrow> bool" and used :: "'p \<Rightarrow> nat set" and get :: "'p \<Rightarrow> (nat \<times> 'p) res"
  assumes get_ok: "good p \<Longrightarrow> \<exists>x q. get p = Inr (x, q) \<and> good q \<and> x \<notin> used p \<and> used q = insert x (used p)"
begin

lemma many_distinct:
  "good p \<Longrightarrow> \<exists>xs q. get_many get n p = Inr (xs, q) \<and> good q \<and> distinct xs \<and> length xs = n \<and>
     set xs \<inter> used p = {} \<and> used q = set xs \<union> used p"
proof (induction n arbitrary: p)
  case (Suc n)
  from get_ok [OF Suc.prems] obtain x q where q: "get p = Inr (x, q)" "good q" "x \<notin> used p"
      "used q = insert x (used p)" by blast
  from Suc.IH [OF q(2)] obtain xs r where "get_many get n q = Inr (xs, r)" "good r" "distinct xs" "length xs = n"
      "set xs \<inter> used q = {}" "used r = set xs \<union> used q" by blast
  with q show ?case by (intro exI [of _ "x # xs"] exI [of _ r]) auto
qed simp

end

interpretation pl: object_source pool_inv live "alloc mk" for mk :: 'a
proof unfold_locales
  fix p :: "'a object_pool"
  assume "pool_inv p"
  from alloc_inv [OF this, of mk] show "\<exists>x q. alloc mk p = Inr (x, q) \<and> pool_inv q \<and> x \<notin> live p \<and>
      live q = insert x (live p)" by blast
qed

inductive pool_step :: "'a \<Rightarrow> 'a object_pool \<Rightarrow> 'a object_pool \<Rightarrow> bool" for mk where
  step_alloc: "alloc mk p = Inr (x, q) \<Longrightarrow> pool_step mk p q"
| step_copy: "0 < op_refs p x \<Longrightarrow> pool_step mk p (copy_ptr x p)"
| step_drop: "0 < op_refs p x \<Longrightarrow> pool_step mk p (drop_ptr x p)"
| step_set: "0 < op_refs p x \<Longrightarrow> pool_step mk p (write_obj x v p)"

inductive pool_run :: "'a \<Rightarrow> 'a object_pool \<Rightarrow> 'a object_pool \<Rightarrow> bool" for mk p where
  run_start: "pool_run mk p p"
| run_step: "pool_run mk p q \<Longrightarrow> pool_step mk q r \<Longrightarrow> pool_run mk p r"

lemma pool_step_inv: "pool_step mk p q \<Longrightarrow> pool_inv p \<Longrightarrow> pool_inv q"
proof (induction rule: pool_step.induct)
  case (step_alloc p x q)
  with alloc_inv [of p mk] show ?case by auto
qed (simp_all add: live_def copy_ptr_inv drop_ptr_inv write_obj_inv)

lemma pool_run_inv: "pool_run mk p q \<Longrightarrow> pool_inv p \<Longrightarrow> pool_inv q"
  by (induction rule: pool_run.induct) (auto intro: pool_step_inv)

lemma alloc_many_free:
  assumes "pool_inv p" "n \<le> length (op_free p)"
  shows "\<exists>q. get_many (alloc mk) n p = Inr (take n (op_free p), q) \<and> pool_inv q \<and>
     op_free q = drop n (op_free p) \<and> op_objs q = op_objs p"
  using assms
proof (induction n arbitrary: p)
  case (Suc n)
  then obtain x xs where f: "op_free p = x # xs" by (cases "op_free p") auto
  with take_front_inv [OF Suc.prems(1)] obtain q where q: "alloc mk p = Inr (x, q)" "pool_inv q"
      "op_free q = xs" "op_objs q = op_objs p" by (auto simp: alloc_def)
  from Suc.IH [OF q(2)] Suc.prems(2) f q(3) obtain r where "get_many (alloc mk) n q = Inr (take n xs, r)"
      "pool_inv r" "op_free r = drop n xs" "op_objs r = op_objs q" by auto
  with q f show ?case by simp
qed simp

section \<open>Properties\<close>

text \<open>C31: However a pool is used through \<open>alloc\<close> and through shared pointers that are copied, used to
  write to their objects and dropped, its counters tell how many objects are out and how many are
  free, the free ones are listed once and are in nobody's hands, and any number of further
  allocations succeed with distinct objects that nobody uses.\<close>

theorem pool_sound:
  assumes "0 < increase" "0 < reduce" "pool_run mk (new_object_pool initnum increase reduce mk raw) p"
  shows "getUsed p = int (card (live p)) \<and> getUnused p = int (length (op_free p)) \<and> distinct (op_free p) \<and>
     set (op_free p) \<inter> live p = {} \<and> dom (op_objs p) = set (op_free p) \<union> live p \<and>
     (\<exists>xs q. get_many (alloc mk) n p = Inr (xs, q) \<and> length xs = n \<and> distinct xs \<and> set xs \<inter> live p = {} \<and>
        getUsed q = getUsed p + int n)"
proof -
  have inv: "pool_inv p" by (rule pool_run_inv [OF assms(3) pool_inv_new [OF assms(1,2)]])
  note i = pool_invD [OF inv]
  obtain xs q where q: "get_many (alloc mk) n p = Inr (xs, q)" "pool_inv q" "distinct xs" "length xs = n"
      "set xs \<inter> live p = {}" "live q = set xs \<union> live p"
    using pl.many_distinct [OF inv, of mk n] by blast
  have "card (set xs \<union> live p) = n + card (live p)"
    using q(3-5) i(2) by (simp add: card_Un_disjoint distinct_card)
  then have "getUsed q = getUsed p + int n"
    using pool_invD(7) [OF q(2)] i(7) q(6) by (simp add: getUsed_def)
  with i q show ?thesis by (auto simp: getUsed_def getUnused_def)
qed



text \<open>A pool over zeroed memory.\<close>

definition zero_pool :: "'a object_pool" where
  "zero_pool = \<lparr>op_free = [], op_objs = Map.empty, op_refs = \<lambda>_. 0, op_next = 0, op_init = 0, op_cur = 0,
      op_use = 0, op_inc = 0, op_shrink = 0, op_dec = False, op_time = 0\<rparr>"

lemma pool_sound_witness:
  "\<exists>x p. alloc (0 :: nat) (new_object_pool 10 1 1 0 zero_pool) = Inr (x, p) \<and> getUsed p = int (card (live p)) \<and>
     (\<exists>xs q. get_many (alloc 0) 20 p = Inr (xs, q) \<and> length xs = 20 \<and> distinct xs \<and> set xs \<inter> live p = {})"
proof -
  obtain x p where a: "alloc (0 :: nat) (new_object_pool 10 1 1 0 zero_pool) = Inr (x, p)"
    using alloc_inv [OF pool_inv_new [of 1 1 10 0 zero_pool], of 0] by auto
  have "pool_run 0 (new_object_pool 10 1 1 0 zero_pool) p"
    by (rule run_step [OF run_start step_alloc [OF a]])
  from pool_sound [OF _ _ this, of 20] a show ?thesis by auto
qed

text \<open>An object comes back with the state it was left in: when the last shared pointer to it ends
  it joins the end of the free list, and once the objects before it have been taken the next \<open>alloc\<close>
  hands it out unchanged, not as its constructor would make it.\<close>

theorem recycled_keeps_state:
  assumes "pool_inv p" "op_refs p x = 1" "op_objs p x = Some v"
  shows "\<exists>xs q r. get_many (alloc mk) (length (op_free p)) (drop_ptr x p) = Inr (xs, q) \<and> x \<notin> set xs \<and>
     alloc mk q = Inr (x, r) \<and> op_objs r x = Some v \<and> op_refs r x = 1"
proof -
  have x: "x \<in> live p" using assms(2) by (simp add: live_def)
  note d = drop_ptr_inv [OF assms(1) x]
  have f: "op_free (drop_ptr x p) = op_free p @ [x]" "op_objs (drop_ptr x p) = op_objs p"
    using d(3) assms(2) by auto
  obtain q where q: "get_many (alloc mk) (length (op_free p)) (drop_ptr x p) = Inr (op_free p, q)" "pool_inv q"
      "op_free q = [x]" "op_objs q = op_objs p"
    using alloc_many_free [OF d(1), of "length (op_free p)" mk] f by auto
  have "op_free q \<noteq> []" using q(3) by simp
  with take_front_inv [OF q(2)] q(3) obtain r where
    "alloc mk q = Inr (x, r)" "op_objs r = op_objs q" "op_refs r x = 1" by (auto simp: alloc_def)
  moreover have "x \<notin> set (op_free p)" using pool_invD(3) [OF assms(1)] x by auto
  ultimately show ?thesis using q assms(3) by auto
qed

definition busy_pool :: "nat object_pool" where
  "busy_pool = zero_pool\<lparr>op_free := [1, 2], op_objs := [0 \<mapsto> 7, 1 \<mapsto> 0, 2 \<mapsto> 0], op_refs := (\<lambda>_. 0)(0 := 1),
     op_next := 3, op_init := 1, op_cur := 3, op_use := 1, op_inc := 1, op_shrink := 1\<rparr>"

lemma busy_pool_inv: "pool_inv busy_pool" "live busy_pool = {0}"
proof -
  show l: "live busy_pool = {0}" by (auto simp: live_def busy_pool_def)
  show "pool_inv busy_pool" unfolding pool_inv_def l by (auto simp: busy_pool_def zero_pool_def)
qed

lemma recycled_keeps_state_witness:
  "\<exists>xs q r. get_many (alloc 5) 2 (drop_ptr 0 busy_pool) = Inr (xs, q) \<and> 0 \<notin> set xs \<and>
     alloc 5 q = Inr (0, r) \<and> op_objs r 0 = Some 7 \<and> op_refs r 0 = 1"
proof -
  have b: "op_refs busy_pool 0 = 1" "op_objs busy_pool 0 = Some 7" "length (op_free busy_pool) = 2"
    by (simp_all add: busy_pool_def)
  from recycled_keeps_state [OF busy_pool_inv(1) b(1,2), of 5] show ?thesis unfolding b(3) .
qed

text \<open>Shrinking is broken: a \<open>Dealloc\<close> that decides to shrink by one object removes the very object
  that is being returned and leaves \<open>Deconstruct\<close> set, so that from then on every object is destroyed
  when its last pointer ends while it still counts as used; one that shrinks by more waits for its own
  mutex for ever.\<close>

theorem Dealloc_ends_recycling:
  assumes "pool_inv p" "op_refs p x = 1" "op_inc p + op_init p < op_cur p"
    "2 * op_inc p \<le> getUnused p" "recycletime \<le> op_time p + now"
  shows "if op_inc p = 1
     then \<exists>q. Dealloc now x p = Inr q \<and> op_free q = op_free p \<and> getUnused q = int (length (op_free q)) + 1 \<and>
       (\<forall>y. op_refs q y = 1 \<longrightarrow> op_objs (drop_ptr y q) y = None \<and> op_free (drop_ptr y q) = op_free q \<and>
          getUsed (drop_ptr y q) = getUsed q)
     else Dealloc now x p = Inl NotReturned"
proof -
  note i = pool_invD [OF assms(1)]
  let ?q = "p\<lparr>op_free := op_free p @ [x], op_use := op_use p - 1\<rparr>"
  let ?r = "?q\<lparr>op_time := 0, op_dec := False\<rparr>"
  have go: "Dealloc now x p = bind_res (pop_backs (nat (op_inc p)) ?r) (\<lambda>r. Inr (r\<lparr>op_dec := True\<rparr>))"
    using assms(3-5) by (simp add: Dealloc_def deaddobj_def pool_checkexpire_def getUnused_def)
  have fst: "pop_backs (Suc n) ?r = pop_backs n (?r\<lparr>op_free := op_free p\<rparr>)" for n
    using assms(2) by simp
  show ?thesis
  proof (cases "op_inc p = 1")
    case True
    let ?s = "p\<lparr>op_use := op_use p - 1, op_time := 0, op_dec := True\<rparr>"
    have "Dealloc now x p = Inr ?s" using go fst [of 0] True by simp
    moreover have "y \<notin> set (op_free p)" if "op_refs p y = 1" for y
      using i(3) that by (auto simp: live_def)
    ultimately show ?thesis
      using i(8) True by (auto simp: drop_ptr_def ObjDeleter_def getUsed_def getUnused_def)
  next
    case False
    then obtain n where n: "nat (op_inc p) = Suc (Suc n)" using i(6)
      by (metis One_nat_def gr0_conv_Suc int_nat_eq nat_1 nat_int zero_less_nat_eq less_le not_less_eq
          of_nat_1 of_nat_0_less_iff old.nat.exhaust)
    have ne: "op_free p \<noteq> []" using assms(4) i(6,8) by (auto simp: getUnused_def)
    then have l: "last (op_free p) \<in> set (op_free p)" by simp
    then have "op_refs p (last (op_free p)) = 0" using i(3) by (auto simp: live_def)
    moreover have "last (op_free p) \<notin> set (butlast (op_free p))"
      using i(1) ne by (metis append_butlast_last_id distinct_append disjoint_iff list.set_intros(1))
    ultimately have "pop_backs (Suc (Suc n)) ?r = Inl NotReturned" unfolding fst using ne by simp
    then show ?thesis using go n False by simp
  qed
qed

lemma Dealloc_ends_recycling_witness:
  "\<exists>q. Dealloc 1700000000000 0 busy_pool = Inr q \<and> op_free q = [1, 2] \<and> getUnused q = 3"
  using Dealloc_ends_recycling [OF busy_pool_inv(1), of 0 1700000000000]
  by (auto simp: busy_pool_def zero_pool_def recycletime_def getUnused_def)

end
