(* ===== verification/SelectBuffer.thy ===== *)
theory SelectBuffer
  imports Prelude Utils
begin

text \<open>
  \<open>conf/Header.hpp\<close>, \<open>conf/ThreadBuffer.hpp\<close> and \<open>conf/ThreadClient.hpp\<close>: the
  messages of the select-based server (a 16-bit length and a 16-bit command in front of a fixed
  body), the byte buffer that collects them, and the client object that owns two such buffers and
  its timers.  Calls of the kernel are arguments that answer a request.
\<close>

section \<open>Messages\<close>

datatype CMD = CMD_LOGIN | CMD_LOGOUT | CMD_LOGIN_RESULT | CMD_LOGOUT_RESULT | CMD_NEW_USER_JOIN
  | CMD_EXPIRE | CMD_ERROR

fun cmd_code :: "CMD \<Rightarrow> u16" where
  "cmd_code CMD_LOGIN = 0"
| "cmd_code CMD_LOGOUT = 1"
| "cmd_code CMD_LOGIN_RESULT = 2"
| "cmd_code CMD_LOGOUT_RESULT = 3"
| "cmd_code CMD_NEW_USER_JOIN = 4"
| "cmd_code CMD_EXPIRE = 5"
| "cmd_code CMD_ERROR = 6"

definition le16 :: "u16 \<Rightarrow> u8 list" where
  "le16 w = [ucast w, ucast (drop_bit 8 w)]"

fun of_le16 :: "u8 list \<Rightarrow> u16" where
  "of_le16 [a, b] = ucast a OR push_bit 8 (ucast b)"
| "of_le16 _ = 0"

lemma length_le16 [simp]: "length (le16 w) = 2"
  by (simp add: le16_def)

lemma of_le16_le16 [simp]: "of_le16 (le16 w) = w"
proof (rule bit_word_eqI)
  fix n assume "n < LENGTH(16)"
  then consider "n < 8" | "8 \<le> n" "n < 16" by fastforce
  then show "bit (of_le16 (le16 w)) n \<longleftrightarrow> bit w n"
    by cases (auto simp: le16_def bit_or_iff bit_push_bit_iff bit_ucast_iff bit_drop_bit_eq)
qed

text \<open>Cells read as a \<open>short\<close>.\<close>

definition read_i16 :: "cell list \<Rightarrow> int res" where
  "read_i16 cs =
     (if length cs < 2 then Inl OutOfBounds
      else if None \<in> set (take 2 cs) then Inl Uninitialised
      else Inr (sint (of_le16 (map the (take 2 cs)))))"

lemma read_i16_le16 [simp]: "read_i16 (cells (le16 w) @ rest) = Inr (sint w)"
  by (simp add: read_i16_def cells_def comp_def)

lemma read_i16_append: "2 \<le> length a \<Longrightarrow> read_i16 (a @ b) = read_i16 a"
  by (simp add: read_i16_def)

definition DataHeader_size :: int where "DataHeader_size = 4"

text \<open>The images of the messages as their constructors leave them.\<close>

definition header_image :: "u16 \<Rightarrow> CMD \<Rightarrow> cell list" where
  "header_image len cmd = cells (le16 len) @ cells (le16 (cmd_code cmd))"

definition new_DataHeader :: "cell list" where
  "new_DataHeader = header_image 4 CMD_ERROR"

definition new_ClientLogin :: "cell list" where
  "new_ClientLogin = header_image 68 CMD_LOGIN @ replicate 32 None @ replicate 32 None"

definition new_ClientLoginResult :: "cell list" where
  "new_ClientLoginResult = header_image 8 CMD_LOGIN_RESULT @ cells (le32 0)"

definition new_ClientLogout :: "cell list" where
  "new_ClientLogout = header_image 36 CMD_LOGOUT @ replicate 32 None"

definition new_ClientLogoutResult :: "cell list" where
  "new_ClientLogoutResult = header_image 8 CMD_LOGOUT_RESULT @ cells (le32 0)"

definition new_NewClientJoin :: "cell list" where
  "new_NewClientJoin = header_image 8 CMD_NEW_USER_JOIN @ cells (le32 0)"

definition new_Expire :: "cell list" where
  "new_Expire = header_image 8 CMD_EXPIRE @ cells (le32 1)"

text \<open>A message whose length field is its length.\<close>

definition framed :: "cell list \<Rightarrow> bool" where
  "framed m \<longleftrightarrow> 4 \<le> length m \<and> read_i16 m = Inr (int (length m))"

lemma constructors_framed:
  "\<forall>m \<in> {new_DataHeader, new_ClientLogin, new_ClientLoginResult, new_ClientLogout,
         new_ClientLogoutResult, new_NewClientJoin, new_Expire}. framed m"
  by (simp add: framed_def header_image_def new_DataHeader_def new_ClientLogin_def new_ClientLoginResult_def
      new_ClientLogout_def new_ClientLogoutResult_def new_NewClientJoin_def new_Expire_def)

section \<open>ThreadBuffer\<close>

record tbuf =
  tb_data :: "cell list"
  tb_last :: int
  tb_size :: int
  tb_full :: int

definition new_tbuf :: "int \<Rightarrow> tbuf" where
  "new_tbuf sz = \<lparr>tb_data = replicate (nat sz) None, tb_last = 0, tb_size = sz, tb_full = 0\<rparr>"

definition tb_push :: "cell list \<Rightarrow> int \<Rightarrow> tbuf \<Rightarrow> (bool \<times> tbuf) res" where
  "tb_push src len b =
     (if tb_last b + len \<le> tb_size b then
        (if len < 0 \<or> tb_last b < 0 \<or> int (length src) < len then Inl OutOfBounds
         else let last' = tb_last b + len
              in Inr (True, b\<lparr>tb_data := take (nat (tb_last b)) (tb_data b) @ take (nat len) src @ drop (nat last') (tb_data b),
                              tb_last := last',
                              tb_full := (if last' = tb_size b then tb_full b + 1 else tb_full b)\<rparr>))
      else Inr (False, b\<lparr>tb_full := tb_full b + 1\<rparr>))"

text \<open>\<open>memcpy\<close> is undefined when its ranges overlap, which is when more bytes are moved than are taken out.\<close>

definition tb_pop :: "int \<Rightarrow> tbuf \<Rightarrow> tbuf res" where
  "tb_pop len b =
     (let n = tb_last b - len;
          b' = b\<lparr>tb_last := n, tb_full := (if tb_full b > 0 then tb_full b - 1 else tb_full b)\<rparr>
      in if n > 0 then
           (if len < 0 \<or> tb_size b < tb_last b then Inl OutOfBounds
            else if len < n then Inl OverlappingCopy
            else Inr (b'\<lparr>tb_data := take (nat n) (drop (nat len) (tb_data b)) @ drop (nat n) (tb_data b)\<rparr>))
         else Inr b')"

text \<open>\<open>send\<close> answers \<open>ret\<close>; the second component is what it takes.\<close>

definition tb_write2socket :: "int \<Rightarrow> int \<Rightarrow> tbuf \<Rightarrow> int \<times> cell list \<times> tbuf" where
  "tb_write2socket ret sockt b =
     (if tb_last b > 0 \<and> sockt > 0
      then (ret, take (nat ret) (take (nat (tb_last b)) (tb_data b)), b\<lparr>tb_last := 0, tb_full := 0\<rparr>)
      else (0, [], b))"

definition tb_read4socket :: "(int \<Rightarrow> sys_read) \<Rightarrow> tbuf \<Rightarrow> int \<times> tbuf" where
  "tb_read4socket rd b =
     (if tb_size b - tb_last b > 0 then
        (case rd (tb_size b - tb_last b) of
           RError e \<Rightarrow> (- 1, b)
         | RData cs \<Rightarrow>
             if cs = [] then (0, b)
             else (int (length cs),
                   b\<lparr>tb_data := take (nat (tb_last b)) (tb_data b) @ cs @
                                  drop (nat (tb_last b) + length cs) (tb_data b),
                     tb_last := tb_last b + int (length cs)\<rparr>))
      else (0, b))"

text \<open>The comparison with the header's size is unsigned.\<close>

definition tb_empty :: "tbuf \<Rightarrow> bool res" where
  "tb_empty b =
     (if u64 (tb_last b) \<ge> DataHeader_size
      then bind_res (read_i16 (tb_data b)) (\<lambda>len. Inr (tb_last b < len))
      else Inr True)"

section \<open>ThreadClient\<close>

record tclient =
  tq_socket :: int
  tq_recv :: tbuf
  tq_send :: tbuf
  tq_deadtime :: int
  tq_senddeadtime :: int

definition MaxBufSize :: int where "MaxBufSize = 81920"
definition ExpireTime :: int where "ExpireTime = 50000"
definition SendDeadTime :: int where "SendDeadTime = 200"

definition new_tclient :: "int \<Rightarrow> tclient" where
  "new_tclient sock = \<lparr>tq_socket = sock, tq_recv = new_tbuf MaxBufSize, tq_send = new_tbuf MaxBufSize,
     tq_deadtime = 0, tq_senddeadtime = 0\<rparr>"

definition SetSocket :: "int \<Rightarrow> tclient \<Rightarrow> tclient" where
  "SetSocket sock c = c\<lparr>tq_socket := sock\<rparr>"

definition tq_RecvData :: "(int \<Rightarrow> sys_read) \<Rightarrow> tclient \<Rightarrow> int \<times> tclient" where
  "tq_RecvData rd c = (let (len, b) = tb_read4socket rd (tq_recv c) in (len, c\<lparr>tq_recv := b\<rparr>))"

definition tq_empty :: "tclient \<Rightarrow> bool res" where
  "tq_empty c = tb_empty (tq_recv c)"

definition tq_front :: "tclient \<Rightarrow> cell list" where
  "tq_front c = tb_data (tq_recv c)"

definition pop_front :: "tclient \<Rightarrow> tclient res" where
  "pop_front c =
     bind_res (tq_empty c) (\<lambda>e.
       if e then Inr c
       else bind_res (read_i16 (tq_front c)) (\<lambda>len.
            bind_res (tb_pop len (tq_recv c)) (\<lambda>b. Inr (c\<lparr>tq_recv := b\<rparr>))))"

definition Resetsendtime :: "tclient \<Rightarrow> tclient" where
  "Resetsendtime c = c\<lparr>tq_senddeadtime := 0\<rparr>"

definition SendDataReal :: "int \<Rightarrow> tclient \<Rightarrow> int \<times> cell list \<times> tclient" where
  "SendDataReal ret c =
     (let c1 = Resetsendtime c; (r, out, b) = tb_write2socket ret (tq_socket c1) (tq_send c1)
      in (r, out, c1\<lparr>tq_send := b\<rparr>))"

definition tq_SendData :: "cell list \<Rightarrow> tclient \<Rightarrow> (int \<times> tclient) res" where
  "tq_SendData header c =
     bind_res (read_i16 header) (\<lambda>len.
     bind_res (tb_push header len (tq_send c)) (\<lambda>(ok, b).
       Inr (if ok then len else 0, c\<lparr>tq_send := b\<rparr>)))"

definition Resettime :: "tclient \<Rightarrow> tclient" where
  "Resettime c = c\<lparr>tq_deadtime := 0\<rparr>"

definition checkexpire :: "int \<Rightarrow> tclient \<Rightarrow> bool \<times> tclient" where
  "checkexpire time c =
     (let c' = c\<lparr>tq_deadtime := tq_deadtime c + time\<rparr> in (tq_deadtime c' \<ge> ExpireTime, c'))"

definition checksendtime :: "int \<Rightarrow> int \<Rightarrow> tclient \<Rightarrow> bool \<times> cell list \<times> tclient" where
  "checksendtime ret time c =
     (let c' = c\<lparr>tq_senddeadtime := tq_senddeadtime c + time\<rparr>
      in if tq_senddeadtime c' \<ge> SendDeadTime
         then let (r, out, c'') = SendDataReal ret c' in (True, out, Resetsendtime c'')
         else (False, [], c'))"

section \<open>The receiving loop\<close>

text \<open>
  \<open>while (!empty()) { handle(front()); pop_front(); }\<close>, which the server's and the client's
  \<open>RecvData\<close> share; \<open>None\<close> means it is still running.  The handler may use the client.
\<close>

fun tq_drain :: "nat \<Rightarrow> (cell list \<Rightarrow> tclient \<times> 's \<Rightarrow> (tclient \<times> 's) res) \<Rightarrow> tclient \<times> 's
    \<Rightarrow> (tclient \<times> 's) res option" where
  "tq_drain 0 h (c, s) = None"
| "tq_drain (Suc fuel) h (c, s) =
     (case tq_empty c of
        Inl e \<Rightarrow> Some (Inl e)
      | Inr True \<Rightarrow> Some (Inr (c, s))
      | Inr False \<Rightarrow>
          (case bind_res (h (tq_front c) (c, s)) (\<lambda>(c', s'). bind_res (pop_front c') (\<lambda>c''. Inr (c'', s'))) of
             Inl e \<Rightarrow> Some (Inl e)
           | Inr (c'', s') \<Rightarrow> tq_drain fuel h (c'', s')))"

section \<open>Framing\<close>

definition tb_inv :: "tbuf \<Rightarrow> bool" where
  "tb_inv b \<longleftrightarrow> 0 \<le> tb_last b \<and> tb_last b \<le> tb_size b \<and> tb_size b = int (length (tb_data b)) \<and> tb_size b < 2 ^ 31"

definition tb_content :: "tbuf \<Rightarrow> cell list" where
  "tb_content b = take (nat (tb_last b)) (tb_data b)"

lemma length_tb_content: "tb_inv b \<Longrightarrow> int (length (tb_content b)) = tb_last b"
  by (auto simp: tb_inv_def tb_content_def min_def)

lemma new_tbuf_inv: "0 \<le> sz \<Longrightarrow> sz < 2 ^ 31 \<Longrightarrow> tb_inv (new_tbuf sz) \<and> tb_content (new_tbuf sz) = []"
  by (simp add: tb_inv_def new_tbuf_def tb_content_def)

lemma tb_push_ok:
  assumes "tb_inv b" "0 \<le> len" "len \<le> int (length src)"
  shows "\<exists>b'. tb_push src len b = Inr (tb_last b + len \<le> tb_size b, b') \<and> tb_inv b' \<and>
     tb_content b' = tb_content b @ (if tb_last b + len \<le> tb_size b then take (nat len) src else [])"
proof (cases "tb_last b + len \<le> tb_size b")
  case True
  have "nat (tb_last b + len) = nat (tb_last b) + nat len" using assms by (simp add: tb_inv_def nat_add_distrib)
  with True assms show ?thesis by (auto simp: tb_push_def tb_inv_def tb_content_def Let_def)
next
  case False
  with assms show ?thesis by (auto simp: tb_push_def tb_inv_def tb_content_def)
qed

lemma tb_pop_ok:
  assumes "tb_inv b" "0 \<le> len" "len \<le> tb_last b" "tb_last b - len \<le> len"
  shows "\<exists>b'. tb_pop len b = Inr b' \<and> tb_inv b' \<and> tb_content b' = drop (nat len) (tb_content b) \<and>
     tb_size b' = tb_size b"
proof -
  let ?f = "if tb_full b > 0 then tb_full b - 1 else tb_full b" and ?n = "nat (tb_last b - len)"
  have inv: "0 \<le> tb_last b" "nat (tb_last b) \<le> length (tb_data b)" "tb_last b \<le> tb_size b"
      "tb_size b = int (length (tb_data b))" "tb_size b < 2 ^ 31"
    using assms(1) by (auto simp: tb_inv_def)
  have n: "?n = nat (tb_last b) - nat len" "nat len \<le> nat (tb_last b)" using assms by (simp_all add: nat_diff_distrib)
  show ?thesis
  proof (cases "tb_last b - len > 0")
    case True
    let ?d = "take ?n (drop (nat len) (tb_data b)) @ drop ?n (tb_data b)"
    have len: "length (take ?n (drop (nat len) (tb_data b))) = ?n"
      unfolding length_take length_drop n(1) using inv(2) by (intro min.absorb2 diff_le_mono)
    moreover have "?n \<le> length (tb_data b)" using inv(2) unfolding n(1) by (intro le_trans [OF diff_le_self])
    ultimately have d: "length ?d = length (tb_data b)" unfolding length_append length_drop by simp
    have "take ?n ?d = take ?n (drop (nat len) (tb_data b))" by (subst take_append, subst len) simp
    also have "\<dots> = drop (nat len) (tb_content b)" unfolding tb_content_def drop_take n(1) ..
    finally show ?thesis
      using True assms(2,4) inv d
      by (intro exI [of _ "b\<lparr>tb_last := tb_last b - len, tb_full := ?f, tb_data := ?d\<rparr>"])
         (simp add: tb_pop_def tb_inv_def tb_content_def Let_def)
  next
    case False
    then have "len = tb_last b" using assms(3) by simp
    with False inv show ?thesis
      by (intro exI [of _ "b\<lparr>tb_last := tb_last b - len, tb_full := ?f\<rparr>"])
         (simp add: tb_pop_def tb_inv_def tb_content_def Let_def)
  qed
qed

lemma tb_read_ok:
  assumes "tb_inv b" "rd (tb_size b - tb_last b) = RData cs" "cs \<noteq> []"
    "tb_last b + int (length cs) \<le> tb_size b"
  shows "\<exists>b'. tb_read4socket rd b = (int (length cs), b') \<and> tb_inv b' \<and> tb_content b' = tb_content b @ cs \<and>
     tb_size b' = tb_size b"
proof -
  have "0 < tb_size b - tb_last b" using assms(3,4) by (cases cs) auto
  moreover have "nat (tb_last b + int (length cs)) = nat (tb_last b) + length cs"
    using assms(1) by (simp add: tb_inv_def nat_add_distrib)
  ultimately show ?thesis using assms by (auto simp: tb_read4socket_def tb_inv_def tb_content_def)
qed


text \<open>The receiving routine of client and server: \<open>pre\<close> is what runs before the loop.\<close>

definition recv_dispatch :: "nat \<Rightarrow> (int \<Rightarrow> sys_read) \<Rightarrow> ('s \<Rightarrow> 's)
    \<Rightarrow> (cell list \<Rightarrow> tclient \<times> 's \<Rightarrow> (tclient \<times> 's) res) \<Rightarrow> tclient \<times> 's
    \<Rightarrow> (int \<times> tclient \<times> 's) res option" where
  "recv_dispatch fuel rd pre h = (\<lambda>(c, s).
     let (len, c1) = tq_RecvData rd c
     in if len \<le> 0 then Some (Inr (- 1, c1, s))
        else case tq_drain fuel h (c1, pre s) of
               None \<Rightarrow> None
             | Some r \<Rightarrow> Some (bind_res r (\<lambda>(c2, s2). Inr (0, c2, s2))))"

definition log_msg :: "cell list \<Rightarrow> tclient \<times> cell list list \<Rightarrow> (tclient \<times> cell list list) res" where
  "log_msg front = (\<lambda>(c, log). bind_res (read_i16 front) (\<lambda>len. Inr (c, log @ [take (nat len) front])))"

text \<open>What is left when no message is complete.\<close>

definition incomplete :: "cell list \<Rightarrow> bool" where
  "incomplete part \<longleftrightarrow> (\<exists>rest. rest \<noteq> [] \<and> framed (part @ rest)) \<or> part = []"

lemma tb_data_content: "tb_inv b \<Longrightarrow> tb_data b = tb_content b @ drop (nat (tb_last b)) (tb_data b)"
  by (simp add: tb_content_def)

lemma tb_u64_last: "tb_inv b \<Longrightarrow> u64 (tb_last b) = tb_last b"
  by (rule u64_id) (auto simp: tb_inv_def)

lemma tb_empty_incomplete:
  assumes "tb_inv b" "incomplete (tb_content b)"
  shows "tb_empty b = Inr True"
proof (cases "4 \<le> tb_last b")
  case False
  then show ?thesis using tb_u64_last [OF assms(1)] by (simp add: tb_empty_def DataHeader_size_def)
next
  case True
  note len = length_tb_content [OF assms(1)]
  from True len assms(2) obtain rest where r: "rest \<noteq> []" "framed (tb_content b @ rest)"
    by (force simp: incomplete_def)
  have two: "2 \<le> length (tb_content b)" using True len by simp
  then have "read_i16 (tb_data b) = read_i16 (tb_content b)"
    using tb_data_content [OF assms(1)] read_i16_append by metis
  also have "\<dots> = read_i16 (tb_content b @ rest)" using read_i16_append [OF two] by simp
  also have "\<dots> = Inr (int (length (tb_content b @ rest)))" using r(2) by (simp add: framed_def)
  finally have "tb_empty b = Inr (tb_last b < int (length (tb_content b @ rest)))"
    using True tb_u64_last [OF assms(1)] by (simp add: tb_empty_def DataHeader_size_def)
  then show ?thesis using len r(1) by simp
qed

lemma tb_empty_framed:
  assumes "tb_inv b" "tb_content b = m @ tl1" "framed m"
  shows "tb_empty b = Inr False \<and> read_i16 (tb_data b) = Inr (int (length m)) \<and>
     take (length m) (tb_data b) = m \<and> int (length m) \<le> tb_last b"
proof -
  have len: "int (length m) \<le> tb_last b" using length_tb_content [OF assms(1)] assms(2) by simp
  have m: "4 \<le> length m" "read_i16 m = Inr (int (length m))" using assms(3) by (simp_all add: framed_def)
  obtain junk where d: "tb_data b = m @ (tl1 @ junk)" using tb_data_content [OF assms(1)] assms(2) by (metis append.assoc)
  have "read_i16 (tb_data b) = Inr (int (length m))" using read_i16_append [of m "tl1 @ junk"] m d by simp
  then show ?thesis
    using len m(1) d tb_u64_last [OF assms(1)] by (simp add: tb_empty_def DataHeader_size_def)
qed

text \<open>Whether messages can be popped one after the other: behind each no more bytes follow in the buffer than it has.\<close>

fun pops_apart :: "cell list list \<Rightarrow> nat \<Rightarrow> bool" where
  "pops_apart [] extra = True"
| "pops_apart (m # ms) extra \<longleftrightarrow> length (concat ms) + extra \<le> length m \<and> pops_apart ms extra"

lemma drain_logs:
  assumes "\<forall>m \<in> set ms. framed m" "incomplete part" "tb_inv (tq_recv c)"
    "tb_content (tq_recv c) = concat ms @ part" "length ms < fuel"
  shows "if pops_apart ms (length part)
    then \<exists>c'. tq_drain fuel log_msg (c, log) = Some (Inr (c', log @ ms)) \<and> tb_inv (tq_recv c') \<and>
      tb_content (tq_recv c') = part \<and> tb_size (tq_recv c') = tb_size (tq_recv c)
    else tq_drain fuel log_msg (c, log) = Some (Inl OverlappingCopy)"
  using assms
proof (induction ms arbitrary: c log fuel)
  case Nil
  then obtain f where "fuel = Suc f" by (cases fuel) auto
  with Nil tb_empty_incomplete [of "tq_recv c"] show ?case by (auto simp: tq_empty_def)
next
  case (Cons m ms)
  then obtain f where f: "fuel = Suc f" "length ms < f" by (cases fuel) auto
  have content: "tb_content (tq_recv c) = m @ (concat ms @ part)" using Cons.prems(4) by simp
  from tb_empty_framed [OF Cons.prems(3) this] Cons.prems(1) have e:
    "tb_empty (tq_recv c) = Inr False" "read_i16 (tb_data (tq_recv c)) = Inr (int (length m))"
    "take (length m) (tb_data (tq_recv c)) = m" "int (length m) \<le> tb_last (tq_recv c)" by auto
  have len: "tb_last (tq_recv c) = int (length m) + int (length (concat ms) + length part)"
    using length_tb_content [OF Cons.prems(3)] content by simp
  show ?case
  proof (cases "length (concat ms) + length part \<le> length m")
    case True
    obtain b where b: "tb_pop (int (length m)) (tq_recv c) = Inr b" "tb_inv b"
        "tb_content b = concat ms @ part" "tb_size b = tb_size (tq_recv c)"
      using tb_pop_ok [OF Cons.prems(3) _ e(4)] content len True by auto
    let ?c = "c\<lparr>tq_recv := b\<rparr>"
    have "tq_drain fuel log_msg (c, log) = tq_drain f log_msg (?c, log @ [m])"
      using f(1) e b(1) by (simp add: tq_empty_def tq_front_def log_msg_def pop_front_def)
    with Cons.IH [of ?c f "log @ [m]"] Cons.prems(1,2) b(2-4) f(2) True show ?thesis by (auto split: if_splits)
  next
    case False
    then have "tb_pop (int (length m)) (tq_recv c) = Inl OverlappingCopy"
      using len Cons.prems(3) by (simp add: tb_pop_def tb_inv_def Let_def)
    then have "tq_drain fuel log_msg (c, log) = Some (Inl OverlappingCopy)"
      using f(1) e by (simp add: tq_empty_def tq_front_def log_msg_def pop_front_def)
    then show ?thesis using False by simp
  qed
qed

text \<open>Receiving chunk after chunk.\<close>

fun recv_chunks :: "nat \<Rightarrow> cell list list \<Rightarrow> tclient \<times> cell list list \<Rightarrow> (tclient \<times> cell list list) res option" where
  "recv_chunks fuel [] s = Some (Inr s)"
| "recv_chunks fuel (cs # css) s =
     (case recv_dispatch fuel (\<lambda>_. RData cs) (\<lambda>x. x) log_msg s of
        None \<Rightarrow> None
      | Some (Inl e) \<Rightarrow> Some (Inl e)
      | Some (Inr (ret, s')) \<Rightarrow> if ret = 0 then recv_chunks fuel css s' else Some (Inr s'))"

lemma split_messages:
  assumes "\<forall>m \<in> set ms. framed m" "xs @ ys = concat ms"
  shows "\<exists>ms1 part ms2. ms = ms1 @ ms2 \<and> xs = concat ms1 @ part \<and> part @ ys = concat ms2 \<and>
     incomplete part \<and> (part \<noteq> [] \<longrightarrow> length part < length (hd ms2) \<and> ms2 \<noteq> [])"
  using assms
proof (induction ms arbitrary: xs)
  case Nil
  then show ?case by (auto simp: incomplete_def)
next
  case (Cons m ms)
  have m: "m \<noteq> []" using Cons.prems(1) by (force simp: framed_def)
  from Cons.prems(2) have "xs @ ys = m @ concat ms" by simp
  then have "(\<exists>us. xs = m @ us \<and> us @ ys = concat ms) \<or> (\<exists>us. xs @ us = m \<and> ys = us @ concat ms)"
    by (simp add: append_eq_append_conv2) blast
  then have "(\<exists>us. xs = m @ us \<and> us @ ys = concat ms) \<or> (\<exists>us. xs @ us = m \<and> us \<noteq> [] \<and> ys = us @ concat ms)"
    by (metis append_Nil2 append_Nil)
  then consider (short) us where "xs @ us = m" "us \<noteq> []" "ys = us @ concat ms"
    | (long) us where "xs = m @ us" "us @ ys = concat ms" by blast
  then show ?case
  proof cases
    case short
    then have "incomplete xs" using Cons.prems(1) by (auto simp: incomplete_def)
    with short show ?thesis
      by (intro exI [of _ "[]"] exI [of _ xs] exI [of _ "m # ms"]) auto
  next
    case long
    with Cons.IH [of us] Cons.prems(1) obtain ms1 part ms2 where
      "ms = ms1 @ ms2" "us = concat ms1 @ part" "part @ ys = concat ms2" "incomplete part"
      "part \<noteq> [] \<longrightarrow> length part < length (hd ms2) \<and> ms2 \<noteq> []" by auto
    with long show ?thesis
      by (intro exI [of _ "m # ms1"] exI [of _ part] exI [of _ ms2]) auto
  qed
qed


text \<open>
  When the stream \<open>ms\<close> may arrive in the chunks \<open>css\<close>, of which \<open>p\<close> bytes are in the buffer already: behind every message
  that a chunk completes, the chunk brings at most as many bytes as the message has.
\<close>

definition pop_fits :: "nat \<Rightarrow> nat \<Rightarrow> cell list list \<Rightarrow> nat \<Rightarrow> bool" where
  "pop_fits before after ms i \<longleftrightarrow>
     (let message_end = length (concat (take (Suc i) ms))
      in before < message_end \<and> message_end \<le> after \<longrightarrow> after - message_end \<le> length (ms ! i))"

definition cut_apart :: "nat \<Rightarrow> cell list list \<Rightarrow> cell list list \<Rightarrow> bool" where
  "cut_apart p css ms \<longleftrightarrow>
     (\<forall>k < length css. \<forall>i < length ms.
        pop_fits (p + length (concat (take k css))) (p + length (concat (take (Suc k) css))) ms i)"

lemma pops_apart_nth:
  "pops_apart ms extra \<longleftrightarrow>
     (\<forall>i < length ms. length (concat ms) + extra - length (concat (take (Suc i) ms)) \<le> length (ms ! i))"
proof (induction ms)
  case (Cons m ms)
  then show ?case by (auto simp: All_less_Suc2)
qed simp

lemma concat_take_le: "length (concat (take k xs)) \<le> length (concat xs)"
  by (metis append_take_drop_id concat_append le_add1 length_append)

lemma cut_apart_Cons:
  assumes "p + length cs = length (concat ms1) + q" "ms1 \<noteq> [] \<Longrightarrow> p < length (hd ms1)"
    "ms2 \<noteq> [] \<Longrightarrow> q < length (hd ms2)" "\<forall>m\<in>set ms1. m \<noteq> []"
  shows "cut_apart p (cs # css) (ms1 @ ms2) \<longleftrightarrow> pops_apart ms1 q \<and> cut_apart q css ms2"
proof -
  let ?L = "length (concat ms1)"
  have e1: "p < length (concat (take (Suc i) ms1))" if "i < length ms1" for i
    using that assms(2) by (cases ms1) auto
  have ends: "length (concat (take (Suc i) (ms1 @ ms2))) = length (concat (take (Suc i) ms1))" if "i < length ms1" for i
    using that by simp
  have e2: "length (concat (take (Suc (length ms1 + i)) (ms1 @ ms2))) = ?L + length (concat (take (Suc i) ms2))" for i
    by simp
  have e3: "q < length (concat (take (Suc i) ms2))" if "i < length ms2" for i
    using that assms(3) by (cases ms2) auto
  have all: "(\<forall>i < length (ms1 @ ms2). P i) \<longleftrightarrow> (\<forall>i < length ms1. P i) \<and> (\<forall>i < length ms2. P (length ms1 + i))" for P
  proof -
    have "P i" if "\<forall>i < length ms1. P i" "\<forall>i < length ms2. P (length ms1 + i)" "i < length (ms1 @ ms2)" for i
      using that(2) [rule_format, of "i - length ms1"] that(1,3) by (cases "i < length ms1") auto
    then show ?thesis by auto
  qed
  have first: "(\<forall>i < length (ms1 @ ms2). pop_fits p (p + length cs) (ms1 @ ms2) i) \<longleftrightarrow> pops_apart ms1 q"
    unfolding all pops_apart_nth
    using e1 e3 concat_take_le [of _ ms1] assms(1) by (force simp: pop_fits_def Let_def e2 nth_append)
  have rest: "(\<forall>i < length (ms1 @ ms2). pop_fits (p + length cs + b) (p + length cs + a) (ms1 @ ms2) i) \<longleftrightarrow>
      (\<forall>i < length ms2. pop_fits (q + b) (q + a) ms2 i)" for a b
  proof -
    have "\<not> ?L + q + b < length (concat (take (Suc i) ms1))" for i using concat_take_le [of "Suc i" ms1] by linarith
    then show ?thesis unfolding all assms(1) by (auto simp: pop_fits_def Let_def e2 nth_append)
  qed
  show ?thesis
    unfolding cut_apart_def using first rest by (simp add: All_less_Suc2 add.assoc)
qed

lemma recv_chunks_all:
  assumes "\<forall>m \<in> set ms. framed m \<and> int (length m) \<le> M" "0 \<le> M"
    "\<forall>cs \<in> set css. cs \<noteq> [] \<and> int (length cs) + M \<le> tb_size (tq_recv c)"
    "tb_inv (tq_recv c)" "tb_content (tq_recv c) @ concat css = concat ms"
    "ms \<noteq> [] \<longrightarrow> length (tb_content (tq_recv c)) < length (hd ms)"
    "length ms < fuel"
  shows "if cut_apart (length (tb_content (tq_recv c))) css ms
    then \<exists>c'. recv_chunks fuel css (c, log) = Some (Inr (c', log @ ms)) \<and> tb_content (tq_recv c') = []
    else recv_chunks fuel css (c, log) = Some (Inl OverlappingCopy)"
  using assms
proof (induction css arbitrary: c ms log)
  case Nil
  have "ms = []"
  proof (cases ms)
    case (Cons m ms')
    then have "tb_content (tq_recv c) = m @ concat ms'" using Nil.prems(5) by simp
    with Cons Nil.prems(6) show ?thesis by simp
  qed
  with Nil.prems(5) show ?case by (simp add: cut_apart_def)
next
  case (Cons cs css)
  let ?b = "tq_recv c" let ?part = "tb_content ?b"
  note inv = Cons.prems(4)
  have cs: "cs \<noteq> []" "int (length cs) + M \<le> tb_size ?b" using Cons.prems(3) by auto
  have "ms \<noteq> []" using Cons.prems(5) cs(1) by auto
  then have "length ?part < length (hd ms)" "hd ms \<in> set ms" using Cons.prems(6) by auto
  then have "int (length ?part) \<le> M" using Cons.prems(1) by fastforce
  then have fit: "tb_last ?b + int (length cs) \<le> tb_size ?b" using cs(2) length_tb_content [OF inv] by simp
  obtain b where b: "tb_read4socket (\<lambda>_. RData cs) ?b = (int (length cs), b)" "tb_inv b"
      "tb_content b = ?part @ cs" "tb_size b = tb_size ?b"
    using tb_read_ok [OF inv _ cs(1) fit, of "\<lambda>_. RData cs"] by auto
  have "(?part @ cs) @ concat css = concat ms" using Cons.prems(5) by simp
  with split_messages [of ms "?part @ cs"] Cons.prems(1) obtain ms1 part' ms2 where s: "ms = ms1 @ ms2"
      "?part @ cs = concat ms1 @ part'" "part' @ concat css = concat ms2" "incomplete part'"
      "part' \<noteq> [] \<longrightarrow> length part' < length (hd ms2) \<and> ms2 \<noteq> []" by blast
  have ne: "\<forall>m\<in>set ms. m \<noteq> []" using Cons.prems(1) by (force simp: framed_def)
  have next_part: "ms2 \<noteq> [] \<longrightarrow> length part' < length (hd ms2)" using s(1,5) ne by (cases "part' = []"; cases ms2) auto
  let ?c = "c\<lparr>tq_recv := b\<rparr>"
  have d0: "\<forall>m \<in> set ms1. framed m" "tb_inv (tq_recv ?c)" "tb_content (tq_recv ?c) = concat ms1 @ part'"
      "length ms1 < fuel"
    using Cons.prems(1,7) b s(1,2) by simp_all
  note d = drain_logs [OF d0(1) s(4) d0(2-4), of log]
  have step: "recv_dispatch fuel (\<lambda>_. RData cs) (\<lambda>x. x) log_msg (c, log) =
      (case tq_drain fuel log_msg (?c, log) of None \<Rightarrow> None | Some (Inl e) \<Rightarrow> Some (Inl e) | Some (Inr s) \<Rightarrow> Some (Inr (0, s)))"
    using b(1) cs(1) by (simp add: recv_dispatch_def tq_RecvData_def split: option.split sum.split)
  have cut: "cut_apart (length ?part) (cs # css) ms \<longleftrightarrow> pops_apart ms1 (length part') \<and> cut_apart (length part') css ms2"
    unfolding s(1) using arg_cong [OF s(2), of length] Cons.prems(6) next_part ne s(1)
    by (intro cut_apart_Cons) (auto simp: hd_append)
  show ?case
  proof (cases "pops_apart ms1 (length part')")
    case True
    then obtain c1 where d1: "tq_drain fuel log_msg (?c, log) = Some (Inr (c1, log @ ms1))" "tb_inv (tq_recv c1)"
        "tb_content (tq_recv c1) = part'" "tb_size (tq_recv c1) = tb_size (tq_recv ?c)"
      using d by auto
    have "if cut_apart (length (tb_content (tq_recv c1))) css ms2
      then \<exists>c'. recv_chunks fuel css (c1, log @ ms1) = Some (Inr (c', (log @ ms1) @ ms2)) \<and> tb_content (tq_recv c') = []
      else recv_chunks fuel css (c1, log @ ms1) = Some (Inl OverlappingCopy)"
      by (rule Cons.IH) (use Cons.prems s d1 b next_part in auto)
    then show ?thesis using cut True step s(1) d1 by (simp split: if_splits)
  next
    case False
    then show ?thesis using cut step d by simp
  qed
qed

section \<open>Properties\<close>

text \<open>C29: Messages are found again wherever the stream is cut, as long as the buffer is not moved onto itself: if every
  message is at least a header long, says its own length and is at most \<open>M\<close> bytes, and the chunks that arrive are non-empty and
  leave room for one message in the buffer, then receiving chunk after chunk hands exactly the messages, whole and
  in order, to the handler, and leaves the buffer empty, when no chunk brings more bytes behind a message it completes than
  that message has; and in every other case the receiver runs into the undefined overlapping copy of \<open>pop\<close>.\<close>

theorem messages_reassembled:
  assumes "\<forall>m \<in> set ms. framed m \<and> int (length m) \<le> M" "0 \<le> M"
    "\<forall>cs \<in> set css. cs \<noteq> [] \<and> int (length cs) + M \<le> MaxBufSize" "concat css = concat ms"
  shows "if cut_apart 0 css ms
    then \<exists>c'. recv_chunks (Suc (length ms)) css (new_tclient sock, []) = Some (Inr (c', ms)) \<and> tb_content (tq_recv c') = []
    else recv_chunks (Suc (length ms)) css (new_tclient sock, []) = Some (Inl OverlappingCopy)"
proof -
  have b: "tb_inv (new_tbuf MaxBufSize)" "tb_content (new_tbuf MaxBufSize) = []"
    using new_tbuf_inv [of MaxBufSize] by (simp_all add: MaxBufSize_def)
  have c: "tq_recv (new_tclient sock) = new_tbuf MaxBufSize" "tb_size (new_tbuf MaxBufSize) = MaxBufSize"
    by (simp_all add: new_tclient_def new_tbuf_def)
  have "ms \<noteq> [] \<longrightarrow> 0 < length (hd ms)" using assms(1) by (cases ms) (auto simp: framed_def)
  then show ?thesis
    using recv_chunks_all [of ms M css "new_tclient sock" "Suc (length ms)" "[]"] assms b c by (simp split: if_splits)
qed

lemma expire_login_lengths: "length new_Expire = 8" "length new_ClientLoginResult = 8"
  by (simp_all add: new_Expire_def new_ClientLoginResult_def header_image_def)

lemma messages_reassembled_witness:
  "(\<exists>c'. recv_chunks 3 [take 5 (new_Expire @ new_ClientLoginResult), drop 5 (new_Expire @ new_ClientLoginResult)]
     (new_tclient 9, []) = Some (Inr (c', [new_Expire, new_ClientLoginResult])) \<and> tb_content (tq_recv c') = []) \<and>
   recv_chunks 4 [new_Expire @ new_ClientLoginResult @ new_Expire] (new_tclient 9, []) = Some (Inl OverlappingCopy)"
proof -
  let ?xs = "new_Expire @ new_ClientLoginResult"
  have f: "\<forall>m \<in> set [new_Expire, new_ClientLoginResult]. framed m \<and> int (length m) \<le> 8"
    "\<forall>m \<in> set [new_Expire, new_ClientLoginResult, new_Expire]. framed m \<and> int (length m) \<le> 8"
    using constructors_framed expire_login_lengths by simp_all
  have l: "length (take 5 ?xs) = 5" "length (drop 5 ?xs) = 11" using expire_login_lengths by simp_all
  then have ne: "take 5 ?xs \<noteq> []" "drop 5 ?xs \<noteq> []" by force+
  have cut: "cut_apart 0 [take 5 ?xs, drop 5 ?xs] [new_Expire, new_ClientLoginResult]"
    "\<not> cut_apart 0 [new_Expire @ new_ClientLoginResult @ new_Expire] [new_Expire, new_ClientLoginResult, new_Expire]"
    using l expire_login_lengths by (simp_all add: cut_apart_def pop_fits_def All_less_Suc2 numeral_2_eq_2 del: take_append drop_append)
  have fit: "\<forall>cs\<in>set [take 5 ?xs, drop 5 ?xs]. cs \<noteq> [] \<and> int (length cs) + 8 \<le> MaxBufSize"
    "\<forall>cs\<in>set [new_Expire @ new_ClientLoginResult @ new_Expire]. cs \<noteq> [] \<and> int (length cs) + 8 \<le> MaxBufSize"
    using l ne expire_login_lengths by (auto simp: MaxBufSize_def simp del: take_append drop_append)
  have whole: "concat [take 5 ?xs, drop 5 ?xs] = concat [new_Expire, new_ClientLoginResult]"
    "concat [new_Expire @ new_ClientLoginResult @ new_Expire] = concat [new_Expire, new_ClientLoginResult, new_Expire]"
    by (simp_all del: take_append drop_append)
  have n: "Suc (length [new_Expire, new_ClientLoginResult]) = 3" "Suc (length [new_Expire, new_ClientLoginResult, new_Expire]) = 4"
    by simp_all
  have eight: "0 \<le> (8 :: int)" by simp
  show ?thesis
    using messages_reassembled [OF f(1) eight fit(1) whole(1), of 9, unfolded n]
      messages_reassembled [OF f(2) eight fit(2) whole(2), of 9, unfolded n] cut by presburger
qed

text \<open>A message whose length field is zero is never taken out of the buffer: \<open>pop\<close> copies the buffer onto itself, which is
  undefined, and where that does no harm the loop that handles messages never ends.  A negative length is worse: the
  bytes in front of the buffer are read.\<close>

theorem bad_length_breaks_receiver:
  assumes "tb_inv (tq_recv c)" "4 \<le> tb_last (tq_recv c)" "read_i16 (tb_data (tq_recv c)) = Inr len"
  shows "(len = 0 \<longrightarrow> tq_drain (Suc fuel) log_msg (c, log) = Some (Inl OverlappingCopy)) \<and>
     (len < 0 \<longrightarrow> tq_drain (Suc fuel) log_msg (c, log) = Some (Inl OutOfBounds))"
proof -
  have "tq_drain (Suc fuel) log_msg (c, log) = Some (Inl OverlappingCopy)" if "len = 0"
  proof -
    have "tq_empty c = Inr False"
      using assms that tb_u64_last [OF assms(1)] by (simp add: tq_empty_def tb_empty_def DataHeader_size_def)
    moreover have "tb_pop len (tq_recv c) = Inl OverlappingCopy"
      using assms(1,2) that by (simp add: tb_pop_def tb_inv_def)
    ultimately show ?thesis using assms(3) that by (simp add: log_msg_def pop_front_def tq_front_def)
  qed
  moreover
  have "tq_drain (Suc fuel) log_msg (c, log) = Some (Inl OutOfBounds)" if "len < 0"
  proof -
    have "tq_empty c = Inr False"
      using assms that tb_u64_last [OF assms(1)] by (simp add: tq_empty_def tb_empty_def DataHeader_size_def)
    moreover have "tb_pop len (tq_recv c) = Inl OutOfBounds"
      using assms(2) that by (simp add: tb_pop_def)
    ultimately show ?thesis using assms(3) by (simp add: log_msg_def pop_front_def tq_front_def)
  qed
  ultimately show ?thesis by blast
qed

lemma bad_length_breaks_receiver_witness:
  "tq_drain 1 log_msg
       ((new_tclient 9)\<lparr>tq_recv := \<lparr>tb_data = cells [0, 0, 0, 0], tb_last = 4, tb_size = 4, tb_full = 0\<rparr>\<rparr>, []) =
     Some (Inl OverlappingCopy) \<and>
   tq_drain 1 log_msg
       ((new_tclient 9)\<lparr>tq_recv := \<lparr>tb_data = cells [255, 255, 0, 0], tb_last = 4, tb_size = 4, tb_full = 0\<rparr>\<rparr>, [])
     = Some (Inl OutOfBounds)"
proof -
  let ?c = "\<lambda>b. (new_tclient 9)\<lparr>tq_recv := \<lparr>tb_data = cells [b, b, 0, 0], tb_last = 4, tb_size = 4, tb_full = 0\<rparr>\<rparr>"
  have c: "tb_inv (tq_recv (?c b))" "4 \<le> tb_last (tq_recv (?c b))" for b
    by (simp_all add: tb_inv_def)
  have r: "read_i16 (tb_data (tq_recv (?c 0))) = Inr 0" "read_i16 (tb_data (tq_recv (?c 255))) = Inr (- 1)"
    by (simp_all add: read_i16_def cells_def)
  from bad_length_breaks_receiver [OF c r(1), of 0 "[]"] bad_length_breaks_receiver [OF c r(2), of 0 "[]"]
  show ?thesis by simp
qed

end
