(* ===== verification/Threads.thy ===== *)
theory Threads
  imports SelectBuffer
begin

text \<open>
  The threading classes of the select server: \<open>Server/ThreadSemaphore.hpp\<close>,
  \<open>Server/ThreadControl.hpp\<close> (start and stop of one worker thread) and \<open>Server/ThreadTask.hpp\<close> (the
  queue of send tasks).  Operations that run under a mutex are functions on the state; what several
  threads do is a step relation whose steps are the pieces between two points at which a thread may
  block.
\<close>

section \<open>ThreadSemaphore\<close>

record sem =
  sm_wait :: int
  sm_wakeup :: int

definition new_sem :: sem where "new_sem = \<lparr>sm_wait = 0, sm_wakeup = 0\<rparr>"

text \<open>
  \<open>wait\<close> in its first critical section: does the caller go to sleep on the condition variable?  The
  predicate is tested once before that, so a caller can take a wake-up made for another.
\<close>

definition sem_wait :: "sem \<Rightarrow> bool \<times> sem" where
  "sem_wait s =
     (let s' = s\<lparr>sm_wait := sm_wait s - 1\<rparr>
      in if sm_wait s' < 0 then
           (if sm_wakeup s' > 0 then (False, s'\<lparr>sm_wakeup := sm_wakeup s' - 1\<rparr>) else (True, s'))
         else (False, s'))"

text \<open>A thread that has been woken tests the predicate again; \<open>None\<close> sends it back to sleep.\<close>

definition sem_resume :: "sem \<Rightarrow> sem option" where
  "sem_resume s = (if sm_wakeup s > 0 then Some (s\<lparr>sm_wakeup := sm_wakeup s - 1\<rparr>) else None)"

text \<open>The flag is the call of \<open>notify_one\<close>.\<close>

definition sem_wakeup :: "sem \<Rightarrow> bool \<times> sem" where
  "sem_wakeup s =
     (let s' = s\<lparr>sm_wait := sm_wait s + 1\<rparr>
      in if sm_wait s' \<le> 0 then (True, s'\<lparr>sm_wakeup := sm_wakeup s' + 1\<rparr>) else (False, s'))"

text \<open>
  Any number of threads on one semaphore: those that sleep on the condition variable, those that have been
  woken and will take the mutex, and how many calls of \<open>wait\<close> have returned and how many of \<open>wakeup\<close>
  were made.  \<open>notify_one\<close> wakes one sleeping thread, any one, and nobody when none sleeps; a thread may also wake
  by itself.
\<close>

record sem_sys =
  sy_sem :: sem
  sy_sleeping :: "nat list"
  sy_awake :: "nat list"
  sy_passed :: nat
  sy_posts :: nat

inductive sem_step :: "sem_sys \<Rightarrow> sem_sys \<Rightarrow> bool" where
  sem_pass: "sem_wait (sy_sem y) = (False, s) \<Longrightarrow>
     sem_step y (y\<lparr>sy_sem := s, sy_passed := Suc (sy_passed y)\<rparr>)"
| sem_sleep: "sem_wait (sy_sem y) = (True, s) \<Longrightarrow> t \<notin> set (sy_sleeping y) \<union> set (sy_awake y) \<Longrightarrow>
     sem_step y (y\<lparr>sy_sem := s, sy_sleeping := t # sy_sleeping y\<rparr>)"
| sem_spurious: "t \<in> set (sy_sleeping y) \<Longrightarrow>
     sem_step y (y\<lparr>sy_sleeping := remove1 t (sy_sleeping y), sy_awake := t # sy_awake y\<rparr>)"
| sem_return: "t \<in> set (sy_awake y) \<Longrightarrow> sem_resume (sy_sem y) = Some s \<Longrightarrow>
     sem_step y (y\<lparr>sy_sem := s, sy_awake := remove1 t (sy_awake y), sy_passed := Suc (sy_passed y)\<rparr>)"
| sem_again: "t \<in> set (sy_awake y) \<Longrightarrow> sem_resume (sy_sem y) = None \<Longrightarrow>
     sem_step y (y\<lparr>sy_awake := remove1 t (sy_awake y), sy_sleeping := t # sy_sleeping y\<rparr>)"
| sem_post: "sem_wakeup (sy_sem y) = (notify, s) \<Longrightarrow> \<not> notify \<or> sy_sleeping y = [] \<Longrightarrow>
     sem_step y (y\<lparr>sy_sem := s, sy_posts := Suc (sy_posts y)\<rparr>)"
| sem_notify: "sem_wakeup (sy_sem y) = (True, s) \<Longrightarrow> t \<in> set (sy_sleeping y) \<Longrightarrow>
     sem_step y (y\<lparr>sy_sem := s, sy_sleeping := remove1 t (sy_sleeping y), sy_awake := t # sy_awake y,
       sy_posts := Suc (sy_posts y)\<rparr>)"

inductive sem_reach :: "sem_sys \<Rightarrow> bool" where
  sem_init: "sem_reach \<lparr>sy_sem = new_sem, sy_sleeping = [], sy_awake = [], sy_passed = 0, sy_posts = 0\<rparr>"
| sem_next: "sem_reach y \<Longrightarrow> sem_step y z \<Longrightarrow> sem_reach z"

lemmas sem_op_defs [step_defs] = sem_wait_def sem_resume_def sem_wakeup_def new_sem_def

text \<open>
  Threads inside \<open>wait\<close>, pending wake-ups and the balance of the two counters; there are never more pending
  wake-ups than threads on their way to take them.
\<close>

definition balanced :: "int \<Rightarrow> int \<Rightarrow> int \<Rightarrow> int \<Rightarrow> int \<Rightarrow> bool" where
  "balanced wt wk sleeping awake spare \<longleftrightarrow> 0 \<le> wk \<and> wk \<le> awake \<and> 0 \<le> sleeping \<and>
     sleeping + awake = wk + max 0 (- wt) \<and> wt = spare - (sleeping + awake)"

definition sem_inv :: "sem_sys \<Rightarrow> bool" where
  "sem_inv y \<longleftrightarrow> 
     balanced (sm_wait (sy_sem y)) (sm_wakeup (sy_sem y)) (int (length (sy_sleeping y))) (int (length (sy_awake y)))
       (int (sy_posts y) - int (sy_passed y))"

lemma balanced_steps:
  assumes "balanced wt wk sl aw p"
  shows "0 \<le> wt - 1 \<Longrightarrow> balanced (wt - 1) wk sl aw (p - 1)"
    "wt - 1 < 0 \<Longrightarrow> 0 < wk \<Longrightarrow> balanced (wt - 1) (wk - 1) sl aw (p - 1)"
    "wt - 1 < 0 \<Longrightarrow> \<not> 0 < wk \<Longrightarrow> balanced (wt - 1) wk (sl + 1) aw p"
    "0 < sl \<Longrightarrow> balanced wt wk (sl - 1) (aw + 1) p"
    "0 < wk \<Longrightarrow> balanced wt (wk - 1) sl (aw - 1) (p - 1)"
    "\<not> 0 < wk \<Longrightarrow> 0 < aw \<Longrightarrow> balanced wt wk (sl + 1) (aw - 1) p"
    "\<not> wt + 1 \<le> 0 \<Longrightarrow> balanced (wt + 1) wk sl aw (p + 1)"
    "wt + 1 \<le> 0 \<Longrightarrow> sl = 0 \<Longrightarrow> balanced (wt + 1) (wk + 1) sl aw (p + 1)"
    "wt + 1 \<le> 0 \<Longrightarrow> 0 < sl \<Longrightarrow> balanced (wt + 1) (wk + 1) (sl - 1) (aw + 1) (p + 1)"
  using assms unfolding balanced_def by linarith+

lemma length_remove1_int: "t \<in> set ts \<Longrightarrow> 0 < int (length ts) \<and> int (length (remove1 t ts)) = int (length ts) - 1"
  using length_pos_if_in_set [of t ts] by (simp add: length_remove1 Suc_leI of_nat_diff)

lemma sem_step_inv:
  assumes "sem_step y z" "sem_inv y"
  shows "sem_inv z"
proof -
  note b = balanced_steps [OF assms(2) [unfolded sem_inv_def]]
  from assms(1) show ?thesis
  proof cases
    case (sem_pass s)
    then show ?thesis using b(1,2)
      by (cases "0 \<le> sm_wait (sy_sem y) - 1") (auto simp: sem_inv_def sem_wait_def Let_def algebra_simps split: if_splits)
  next
    case (sem_sleep s t)
    then show ?thesis using b(3) by (auto simp: sem_inv_def sem_wait_def Let_def algebra_simps split: if_splits)
  next
    case (sem_spurious t)
    then show ?thesis using b(4) length_remove1_int [OF sem_spurious(2), THEN conjunct1] by (simp add: length_remove1_int [OF sem_spurious(2), THEN conjunct2] sem_inv_def add.commute)
  next
    case (sem_return t s)
    then show ?thesis using b(5) length_remove1_int [OF sem_return(2), THEN conjunct1]
      by (auto simp: length_remove1_int [OF sem_return(2), THEN conjunct2] sem_inv_def sem_resume_def algebra_simps split: if_splits)
  next
    case (sem_again t)
    then show ?thesis using b(6) length_remove1_int [OF sem_again(2), THEN conjunct1]
      by (auto simp: length_remove1_int [OF sem_again(2), THEN conjunct2] sem_inv_def sem_resume_def algebra_simps split: if_splits)
  next
    case (sem_post notify s)
    then show ?thesis using b(7,8) by (auto simp: sem_inv_def sem_wakeup_def Let_def algebra_simps split: if_splits)
  next
    case (sem_notify s t)
    then show ?thesis using b(9) length_remove1_int [OF sem_notify(3), THEN conjunct1]
      by (auto simp: length_remove1_int [OF sem_notify(3), THEN conjunct2] sem_inv_def sem_wakeup_def Let_def algebra_simps split: if_splits)
  qed
qed

lemma sem_reach_inv: "sem_reach y \<Longrightarrow> sem_inv y"
proof (induction rule: sem_reach.induct)
  case sem_init
  show ?case by (simp add: sem_inv_def new_sem_def balanced_def)
qed (rule sem_step_inv)

section \<open>ThreadControl\<close>

record control_state =
  tc_isRun :: bool
  tc_sem :: sem

definition new_control_state :: control_state where
  "new_control_state = \<lparr>tc_isRun = False, tc_sem = new_sem\<rparr>"

text \<open>\<open>Start\<close> says whether a thread is created.\<close>

definition tc_Start :: "control_state \<Rightarrow> bool \<times> control_state" where
  "tc_Start c = (if \<not> tc_isRun c then (True, c\<lparr>tc_isRun := True\<rparr>) else (False, c))"

text \<open>\<open>Close\<close> under its mutex: did it find the thread running, and does it block?\<close>

definition tc_Close :: "control_state \<Rightarrow> bool \<times> bool \<times> control_state" where
  "tc_Close c =
     (if tc_isRun c
      then let (blocks, s) = sem_wait (tc_sem c) in (True, blocks, c\<lparr>tc_isRun := False, tc_sem := s\<rparr>)
      else (False, False, c))"

definition tc_Exit :: "control_state \<Rightarrow> control_state" where
  "tc_Exit c = (if tc_isRun c then c\<lparr>tc_isRun := False\<rparr> else c)"

text \<open>The last statement of the thread's \<open>Run\<close>, with its call of \<open>notify_one\<close>.\<close>

definition tc_Run_end :: "control_state \<Rightarrow> bool \<times> control_state" where
  "tc_Run_end c = (let (notify, s) = sem_wakeup (tc_sem c) in (notify, c\<lparr>tc_sem := s\<rparr>))"

text \<open>
  The owner calls \<open>Close\<close> once after \<open>Start\<close>; the worker loops while \<open>IsRun\<close>, and leaves the loop
  either because the flag is down or because its \<open>select\<close> failed, in which case it calls \<open>Exit\<close>
  first.  \<open>Close\<close> keeps the mutex while it waits on the semaphore.  An owner that wakes by itself finds no wake-up and
  sleeps again, which is left out.
\<close>

datatype owner_pc = Owner_before | Owner_waiting | Owner_woken | Owner_returned bool
datatype work_pc = Work_loop | Work_body | Work_exit | Work_destroy | Work_wakeup | Work_finished

record control_sys =
  cs_ctl :: control_state
  cs_locked :: bool
  cs_owner :: owner_pc
  cs_worker :: work_pc

definition started :: control_sys where
  "started = \<lparr>cs_ctl = snd (tc_Start new_control_state), cs_locked = False, cs_owner = Owner_before,
     cs_worker = Work_loop\<rparr>"

inductive tc_step :: "control_sys \<Rightarrow> control_sys \<Rightarrow> bool" where
  close_now: "cs_owner y = Owner_before \<Longrightarrow> \<not> cs_locked y \<Longrightarrow> tc_Close (cs_ctl y) = (found, False, c) \<Longrightarrow>
     tc_step y (y\<lparr>cs_ctl := c, cs_owner := Owner_returned found\<rparr>)"
| close_block: "cs_owner y = Owner_before \<Longrightarrow> \<not> cs_locked y \<Longrightarrow> tc_Close (cs_ctl y) = (found, True, c) \<Longrightarrow>
     tc_step y (y\<lparr>cs_ctl := c, cs_locked := True, cs_owner := Owner_waiting\<rparr>)"
| close_resume: "cs_owner y = Owner_woken \<Longrightarrow> sem_resume (tc_sem (cs_ctl y)) = Some s \<Longrightarrow>
     tc_step y (y\<lparr>cs_ctl := (cs_ctl y)\<lparr>tc_sem := s\<rparr>, cs_locked := False, cs_owner := Owner_returned True\<rparr>)"
| work_enter: "cs_worker y = Work_loop \<Longrightarrow> tc_isRun (cs_ctl y) \<Longrightarrow> tc_step y (y\<lparr>cs_worker := Work_body\<rparr>)"
| work_leave: "cs_worker y = Work_loop \<Longrightarrow> \<not> tc_isRun (cs_ctl y) \<Longrightarrow> tc_step y (y\<lparr>cs_worker := Work_destroy\<rparr>)"
| work_round: "cs_worker y = Work_body \<Longrightarrow> tc_step y (y\<lparr>cs_worker := Work_loop\<rparr>)"
| work_fail: "cs_worker y = Work_body \<Longrightarrow> tc_step y (y\<lparr>cs_worker := Work_exit\<rparr>)"
| work_exit: "cs_worker y = Work_exit \<Longrightarrow> \<not> cs_locked y \<Longrightarrow>
     tc_step y (y\<lparr>cs_ctl := tc_Exit (cs_ctl y), cs_worker := Work_destroy\<rparr>)"
| work_destroy: "cs_worker y = Work_destroy \<Longrightarrow> tc_step y (y\<lparr>cs_worker := Work_wakeup\<rparr>)"
| work_wakeup: "cs_worker y = Work_wakeup \<Longrightarrow> tc_Run_end (cs_ctl y) = (notify, c) \<Longrightarrow>
     tc_step y (y\<lparr>cs_ctl := c, cs_worker := Work_finished,
       cs_owner := (if notify \<and> cs_owner y = Owner_waiting then Owner_woken else cs_owner y)\<rparr>)"

inductive tc_reach :: "control_sys \<Rightarrow> bool" where
  tc_init: "tc_reach started"
| tc_next: "tc_reach y \<Longrightarrow> tc_step y z \<Longrightarrow> tc_reach z"

lemmas tc_op_defs [step_defs] = tc_Start_def tc_Close_def tc_Exit_def tc_Run_end_def new_control_state_def started_def

text \<open>The semaphore is determined by where the two threads are.\<close>

definition tc_inv :: "control_sys \<Rightarrow> bool" where
  "tc_inv y \<longleftrightarrow> cs_locked y = (cs_owner y \<in> {Owner_waiting, Owner_woken}) \<and>
     (let s = tc_sem (cs_ctl y); fin = (cs_worker y = Work_finished) in
      (case cs_owner y of
         Owner_before \<Rightarrow> s = \<lparr>sm_wait = (if fin then 1 else 0), sm_wakeup = 0\<rparr> \<and>
           (tc_isRun (cs_ctl y) \<longleftrightarrow> cs_worker y \<in> {Work_loop, Work_body, Work_exit})
       | Owner_waiting \<Rightarrow> \<not> tc_isRun (cs_ctl y) \<and> \<not> fin \<and> s = \<lparr>sm_wait = - 1, sm_wakeup = 0\<rparr>
       | Owner_woken \<Rightarrow> \<not> tc_isRun (cs_ctl y) \<and> fin \<and> s = \<lparr>sm_wait = 0, sm_wakeup = 1\<rparr>
       | Owner_returned found \<Rightarrow> \<not> tc_isRun (cs_ctl y) \<and>
           (if found then fin \<and> s = \<lparr>sm_wait = 0, sm_wakeup = 0\<rparr>
            else cs_worker y \<in> {Work_destroy, Work_wakeup, Work_finished} \<and>
                 s = \<lparr>sm_wait = (if fin then 1 else 0), sm_wakeup = 0\<rparr>)))"

lemma tc_step_inv: "tc_step y z \<Longrightarrow> tc_inv y \<Longrightarrow> tc_inv z"
  by (induction rule: tc_step.induct)
     (auto simp: tc_inv_def step_defs Let_def split: if_splits owner_pc.splits, (use work_pc.exhaust in blast)+)

lemma tc_reach_inv: "tc_reach y \<Longrightarrow> tc_inv y"
proof (induction rule: tc_reach.induct)
  case tc_init
  show ?case by (simp add: tc_inv_def step_defs)
qed (rule tc_step_inv)

section \<open>ThreadTaskServer\<close>

text \<open>The place in \<open>Run\<close>: at the head of the loop, or before the \<open>i\<close>-th task of the range-for.\<close>

record 't task_server =
  tk_task :: "'t list"
  tk_buf :: "'t list"
  tk_pos :: "nat option"
  tk_isRun :: bool
  tk_ctl :: control_state

definition new_task_server :: "bool \<Rightarrow> 't task_server" where
  "new_task_server garbage = \<lparr>tk_task = [], tk_buf = [], tk_pos = None, tk_isRun = garbage,
     tk_ctl = new_control_state\<rparr>"

definition tk_Start :: "'t task_server \<Rightarrow> 't task_server" where
  "tk_Start k = k\<lparr>tk_ctl := snd (tc_Start (tk_ctl k))\<rparr>"

definition addTask :: "'t \<Rightarrow> 't task_server \<Rightarrow> 't task_server" where
  "addTask t k = k\<lparr>tk_buf := tk_buf k @ [t]\<rparr>"

text \<open>\<open>Close\<close> lowers a flag that nothing reads.\<close>

definition tk_Close :: "'t task_server \<Rightarrow> 't task_server" where
  "tk_Close k = k\<lparr>tk_isRun := False\<rparr>"

definition AllDone :: "'t task_server \<Rightarrow> bool" where
  "AllDone k \<longleftrightarrow> length (tk_task k) + length (tk_buf k) = 0"

definition tk_merge :: "'t task_server \<Rightarrow> 't task_server" where
  "tk_merge k = (if tk_buf k \<noteq> [] then k\<lparr>tk_task := tk_task k @ tk_buf k, tk_buf := []\<rparr> else k)"

text \<open>One piece of the worker's loop.\<close>

definition tk_work :: "('t \<Rightarrow> 's \<Rightarrow> 's res) \<Rightarrow> 't task_server \<times> 's \<Rightarrow> ('t task_server \<times> 's) res" where
  "tk_work deal = (\<lambda>(k, s).
     case tk_pos k of
       None \<Rightarrow>
         if tc_isRun (tk_ctl k)
         then let k' = tk_merge k in Inr (if tk_task k' = [] then k' else k'\<lparr>tk_pos := Some 0\<rparr>, s)
         else Inr (k, s)
     | Some i \<Rightarrow>
         if i < length (tk_task k)
         then bind_res (deal (tk_task k ! i) s) (\<lambda>s'. Inr (k\<lparr>tk_pos := Some (Suc i)\<rparr>, s'))
         else Inr (k\<lparr>tk_task := [], tk_pos := None\<rparr>, s))"

datatype 't task_event = Add_task 't | Worker_step | Close_called

fun tk_event :: "('t \<Rightarrow> 's \<Rightarrow> 's res) \<Rightarrow> 't task_event \<Rightarrow> 't task_server \<times> 's \<Rightarrow> ('t task_server \<times> 's) res" where
  "tk_event deal (Add_task t) (k, s) = Inr (addTask t k, s)"
| "tk_event deal Worker_step ks = tk_work deal ks"
| "tk_event deal Close_called (k, s) = Inr (tk_Close k, s)"

fun tk_events :: "('t \<Rightarrow> 's \<Rightarrow> 's res) \<Rightarrow> 't task_event list \<Rightarrow> 't task_server \<times> 's \<Rightarrow> ('t task_server \<times> 's) res" where
  "tk_events deal [] ks = Inr ks"
| "tk_events deal (e # es) ks = bind_res (tk_event deal e ks) (tk_events deal es)"

fun added :: "'t task_event list \<Rightarrow> 't list" where
  "added [] = []"
| "added (Add_task t # es) = t # added es"
| "added (e # es) = added es"

text \<open>\<open>Send2Client::Deal\<close>: the result of \<open>SendData\<close> is never negative and is dropped.\<close>

definition Send2Client_Deal :: "nat \<times> cell list \<Rightarrow> (nat \<rightharpoonup> tclient) \<Rightarrow> (nat \<rightharpoonup> tclient) res" where
  "Send2Client_Deal = (\<lambda>(x, header) objs.
     case objs x of
       None \<Rightarrow> Inl NullDeref
     | Some c \<Rightarrow> bind_res (tq_SendData header c) (\<lambda>(r, c'). Inr (objs(x \<mapsto> c'))))"

definition pending :: "'t task_server \<Rightarrow> 't list" where
  "pending k = (case tk_pos k of None \<Rightarrow> tk_task k | Some i \<Rightarrow> drop i (tk_task k)) @ tk_buf k"

definition log_deal :: "'t \<Rightarrow> 't list \<Rightarrow> 't list res" where
  "log_deal t log = Inr (log @ [t])"

definition tk_inv :: "'t task_server \<Rightarrow> bool" where
  "tk_inv k \<longleftrightarrow> tc_isRun (tk_ctl k) \<and> (case tk_pos k of None \<Rightarrow> tk_task k = [] | Some i \<Rightarrow> i \<le> length (tk_task k))"

lemma tk_event_log:
  assumes "tk_inv k"
  shows "\<exists>k' log'. tk_event log_deal e (k, log) = Inr (k', log') \<and> tk_inv k' \<and>
     log' @ pending k' = log @ pending k @ added [e]"
proof (cases e)
  case Worker_step
  show ?thesis
  proof (cases "tk_pos k")
    case None
    then show ?thesis using assms Worker_step
      by (auto simp: tk_work_def tk_merge_def tk_inv_def pending_def Let_def)
  next
    case (Some i)
    then show ?thesis using assms Worker_step
      by (auto simp: tk_work_def tk_inv_def pending_def log_deal_def Cons_nth_drop_Suc)
  qed
qed (use assms in \<open>auto simp: addTask_def tk_Close_def tk_inv_def pending_def split: option.splits\<close>)

lemma added_Cons: "added (e # es) = added [e] @ added es"
  by (cases e) auto

lemma tk_events_log:
  "tk_inv k \<Longrightarrow> \<exists>k' log'. tk_events log_deal es (k, log) = Inr (k', log') \<and> tk_inv k' \<and>
     log' @ pending k' = log @ pending k @ added es"
proof (induction es arbitrary: k log)
  case (Cons e es)
  obtain k1 log1 where e: "tk_event log_deal e (k, log) = Inr (k1, log1)" "tk_inv k1"
      "log1 @ pending k1 = log @ pending k @ added [e]"
    using tk_event_log [OF Cons.prems] by blast
  obtain k2 log2 where "tk_events log_deal es (k1, log1) = Inr (k2, log2)" "tk_inv k2"
      "log2 @ pending k2 = log1 @ pending k1 @ added es"
    using Cons.IH [OF e(2)] by blast
  with e show ?case by (auto simp: added_Cons [of e es])
qed auto

text \<open>The worker's steps among the events, and how many it needs until the first \<open>d\<close> pending tasks are dealt with.\<close>

definition worker_steps :: "'t task_event list \<Rightarrow> nat" where
  "worker_steps es = length (filter (\<lambda>e. case e of Worker_step \<Rightarrow> True | _ \<Rightarrow> False) es)"

lemma worker_steps_simps [simp]:
  "worker_steps [] = 0" "worker_steps (Add_task t # es) = worker_steps es" "worker_steps (Close_called # es) = worker_steps es"
  "worker_steps (Worker_step # es) = Suc (worker_steps es)"
  by (simp_all add: worker_steps_def)

definition rounds_left :: "nat \<Rightarrow> 't task_server \<Rightarrow> nat" where
  "rounds_left d k =
     (if d = 0 then 0
      else case tk_pos k of
        None \<Rightarrow> d + 1
      | Some i \<Rightarrow> if i + d \<le> length (tk_task k) then d else d + 2)"

lemma tk_event_progress:
  assumes "tk_inv k" "d \<le> length (pending k)" "tk_event log_deal e (k, log) = Inr (k', log')"
  shows "\<exists>n. log' = log @ take n (pending k) \<and> n \<le> length (pending k) \<and> pending k' = drop n (pending k) @ added [e] \<and>
    rounds_left (d - n) k' + worker_steps [e] \<le> rounds_left d k + (if rounds_left d k = 0 then 1 else 0)"
proof (cases e)
  case Worker_step
  show ?thesis
  proof (cases "tk_pos k")
    case None
    then show ?thesis using assms Worker_step
      by (intro exI [of _ 0]) (auto simp: tk_work_def tk_merge_def tk_inv_def pending_def rounds_left_def Let_def split: if_splits)
  next
    case (Some i)
    show ?thesis
    proof (cases "i < length (tk_task k)")
      case True
      then have "drop i (tk_task k) = tk_task k ! i # drop (Suc i) (tk_task k)" by (simp add: Cons_nth_drop_Suc)
      then show ?thesis using assms Worker_step Some True
        by (intro exI [of _ 1]) (auto simp: tk_work_def tk_inv_def pending_def log_deal_def rounds_left_def)
    next
      case False
      then show ?thesis using assms Worker_step Some
        by (intro exI [of _ 0]) (auto simp: tk_work_def tk_inv_def pending_def rounds_left_def)
    qed
  qed
qed (use assms in \<open>auto simp: addTask_def tk_Close_def tk_inv_def pending_def rounds_left_def intro!: exI [of _ 0] split: option.splits\<close>)

lemma tk_events_finish:
  assumes "tk_inv k" "rounds_left d k \<le> worker_steps es" "d \<le> length (pending k)"
  shows "\<exists>k' more. tk_events log_deal es (k, log) = Inr (k', log @ take d (pending k) @ more) \<and>
    more @ pending k' = drop d (pending k) @ added es"
  using assms
proof (induction es arbitrary: k d log)
  case Nil
  then have "d = 0" by (auto simp: rounds_left_def split: option.splits if_splits)
  then show ?case by simp
next
  case (Cons e es)
  obtain k1 log1 where e: "tk_event log_deal e (k, log) = Inr (k1, log1)" "tk_inv k1"
    using tk_event_log [OF Cons.prems(1)] by blast
  obtain n where n: "log1 = log @ take n (pending k)" "n \<le> length (pending k)" "pending k1 = drop n (pending k) @ added [e]"
    "rounds_left (d - n) k1 + worker_steps [e] \<le> rounds_left d k + (if rounds_left d k = 0 then 1 else 0)"
    using tk_event_progress [OF Cons.prems(1,3) e(1)] by blast
  have "worker_steps (e # es) = worker_steps [e] + worker_steps es" by (simp add: worker_steps_def)
  then have "rounds_left (d - n) k1 \<le> worker_steps es"
    using n(4) Cons.prems(2) by (cases "d = 0") (auto simp: rounds_left_def split: if_splits option.splits)
  moreover have "d - n \<le> length (pending k1)" using Cons.prems(3) n(3) by simp
  ultimately obtain k' more where k': "tk_events log_deal es (k1, log1) = Inr (k', log1 @ take (d - n) (pending k1) @ more)"
    "more @ pending k' = drop (d - n) (pending k1) @ added es"
    using Cons.IH [OF e(2)] by blast
  show ?case
  proof (cases "n \<le> d")
    case True
    then have "take n (pending k) @ take (d - n) (pending k1) = take d (pending k)"
      "drop (d - n) (pending k1) = drop d (pending k) @ added [e]"
      using n(3) Cons.prems(3) by (auto simp: take_add [symmetric])
    moreover have "log1 @ take (d - n) (pending k1) @ more = log @ take n (pending k) @ take (d - n) (pending k1) @ more"
      by (simp add: n(1))
    ultimately have "log1 @ take (d - n) (pending k1) @ more = log @ take d (pending k) @ more" by (metis append_assoc)
    then show ?thesis using k' e(1) \<open>drop (d - n) (pending k1) = _\<close>
      by (intro exI [of _ k'] exI [of _ more]) (simp add: added_Cons [of e es])
  next
    case False
    then have "take n (pending k) = take d (pending k) @ take (n - d) (drop d (pending k))"
      by (metis le_add_diff_inverse nat_le_linear take_add)
    moreover have "take (n - d) (drop d (pending k)) @ drop n (pending k) = drop d (pending k)"
      using False by (metis append_take_drop_id drop_drop le_add_diff_inverse2 nat_le_linear)
    ultimately show ?thesis using k' e(1) n False
      by (intro exI [of _ k'] exI [of _ "take (n - d) (drop d (pending k)) @ more"]) (simp add: added_Cons [of e es])
  qed
qed

section \<open>Properties\<close>

text \<open>C32: The semaphore counts exactly: whatever threads do, no more calls of \<open>wait\<close> have returned than
  calls of \<open>wakeup\<close> were made.  No wake-up is lost either: of the threads inside \<open>wait\<close>, as many as there are
  unused wake-ups have been woken from the condition variable (all of them, when there are more wake-ups), and
  as long as there is one unused any of these can return at once.\<close>

theorem semaphore_exact:
  assumes "sem_reach y"
  shows "sy_passed y \<le> sy_posts y \<and>
     min (sy_posts y - sy_passed y) (length (sy_sleeping y) + length (sy_awake y)) \<le> length (sy_awake y) \<and>
     (sy_passed y < sy_posts y \<longrightarrow>
        (\<forall>t \<in> set (sy_awake y). \<exists>z. sem_step y z \<and> sy_awake z = remove1 t (sy_awake y) \<and> sy_passed z = Suc (sy_passed y)))"
proof -
  have "sem_inv y" by (rule sem_reach_inv [OF assms])
  then have w: "0 \<le> sm_wakeup (sy_sem y)" "sm_wakeup (sy_sem y) \<le> int (length (sy_awake y))"
      "int (length (sy_sleeping y)) + int (length (sy_awake y)) = sm_wakeup (sy_sem y) + max 0 (- sm_wait (sy_sem y))"
      "int (sy_posts y) - int (sy_passed y) = sm_wait (sy_sem y) + (int (length (sy_sleeping y)) + int (length (sy_awake y)))"
    unfolding sem_inv_def balanced_def by (blast, blast, blast, linarith)
  have go: "\<exists>z. sem_step y z \<and> sy_awake z = remove1 t (sy_awake y) \<and> sy_passed z = Suc (sy_passed y)"
    if "sy_passed y < sy_posts y" "t \<in> set (sy_awake y)" for t
  proof -
    have "0 < length (sy_awake y)" using that(2) by (rule length_pos_if_in_set)
    with w that(1) have "0 < sm_wakeup (sy_sem y)" by linarith
    then obtain s where "sem_resume (sy_sem y) = Some s" by (simp add: sem_resume_def)
    from sem_return [OF that(2) this] show ?thesis by fastforce
  qed
  have "sy_passed y \<le> sy_posts y"
    "min (sy_posts y - sy_passed y) (length (sy_sleeping y) + length (sy_awake y)) \<le> length (sy_awake y)"
    using w by linarith+
  then show ?thesis using go by blast
qed

lemma semaphore_exact_witness:
  "sem_reach \<lparr>sy_sem = \<lparr>sm_wait = 0, sm_wakeup = 1\<rparr>, sy_sleeping = [], sy_awake = [7], sy_passed = 0, sy_posts = 1\<rparr> \<and>
   (\<exists>z. sem_step \<lparr>sy_sem = \<lparr>sm_wait = 0, sm_wakeup = 1\<rparr>, sy_sleeping = [], sy_awake = [7], sy_passed = 0, sy_posts = 1\<rparr> z \<and>
        sy_awake z = [] \<and> sy_passed z = 1)"
proof -
  have "sem_reach \<lparr>sy_sem = \<lparr>sm_wait = - 1, sm_wakeup = 0\<rparr>, sy_sleeping = [7], sy_awake = [], sy_passed = 0, sy_posts = 0\<rparr>"
    using sem_next [OF sem_init sem_sleep, of "\<lparr>sm_wait = - 1, sm_wakeup = 0\<rparr>" 7]
    by (simp add: step_defs)
  from sem_next [OF this sem_notify, of "\<lparr>sm_wait = 0, sm_wakeup = 1\<rparr>" 7]
  have r: "sem_reach \<lparr>sy_sem = \<lparr>sm_wait = 0, sm_wakeup = 1\<rparr>, sy_sleeping = [], sy_awake = [7], sy_passed = 0, sy_posts = 1\<rparr>"
    by (simp add: step_defs)
  from semaphore_exact [OF r] r show ?thesis by simp
qed

text \<open>C33: What closing a worker does: if \<open>Close\<close> found it running, then once \<open>Close\<close> has returned the
  worker has finished; if not, the worker may still be running its last callback.  The only states
  from which no thread can go on are the final one and the deadlock in which \<open>Close\<close>, holding the
  mutex, waits for a worker that waits for the mutex in \<open>Exit\<close>.\<close>

theorem control_stuck_iff:
  assumes "tc_reach y"
  shows "(cs_owner y = Owner_returned True \<longrightarrow> cs_worker y = Work_finished) \<and>
     ((\<nexists>z. tc_step y z) \<longleftrightarrow>
        (cs_owner y = Owner_waiting \<and> cs_worker y = Work_exit) \<or>
        (\<exists>found. cs_owner y = Owner_returned found \<and> cs_worker y = Work_finished))"
proof -
  have i: "tc_inv y" by (rule tc_reach_inv [OF assms])
  have go: "\<exists>z. tc_step y z"
    if "\<not> (cs_owner y = Owner_waiting \<and> cs_worker y = Work_exit)"
       "\<not> (\<exists>found. cs_owner y = Owner_returned found \<and> cs_worker y = Work_finished)"
  proof (cases "cs_worker y")
    case Work_exit
    then have "\<not> cs_locked y" using i that(1) by (cases "cs_owner y") (simp_all add: tc_inv_def)
    with Work_exit show ?thesis by (blast intro: work_exit)
  next
    case Work_finished
    show ?thesis
    proof (cases "cs_owner y")
      case Owner_before
      moreover have "\<not> cs_locked y" using i Owner_before by (simp add: tc_inv_def)
      moreover obtain f b c where "tc_Close (cs_ctl y) = (f, b, c)" by (cases "tc_Close (cs_ctl y)") auto
      ultimately show ?thesis using close_now [of y f c] close_block [of y f c] by (cases b) auto
    next
      case Owner_waiting
      then show ?thesis using i Work_finished by (simp add: tc_inv_def)
    next
      case Owner_woken
      then have "\<exists>s. sem_resume (tc_sem (cs_ctl y)) = Some s"
        using i by (simp add: tc_inv_def sem_resume_def)
      with Owner_woken show ?thesis by (blast intro: close_resume)
    qed (use that(2) Work_finished in blast)
  next
    case Work_wakeup
    obtain n c where "tc_Run_end (cs_ctl y) = (n, c)" by fastforce
    with Work_wakeup show ?thesis by (blast intro: work_wakeup)
  qed (blast intro: work_enter work_leave work_round work_destroy)+
  have stop: "\<not> tc_step y z" if "(cs_owner y = Owner_waiting \<and> cs_worker y = Work_exit) \<or>
       (\<exists>found. cs_owner y = Owner_returned found \<and> cs_worker y = Work_finished)" for z
    using i that by (auto simp: tc_inv_def step_defs Let_def elim!: tc_step.cases)
  show ?thesis using i go stop by (auto simp: tc_inv_def Let_def)
qed

lemma control_stuck_iff_witness:
  "\<exists>y. tc_reach y \<and> cs_owner y = Owner_waiting \<and> cs_worker y = Work_exit \<and> (\<nexists>z. tc_step y z)"
proof -
  let ?b = "started\<lparr>cs_worker := Work_body\<rparr>"
  let ?c = "?b\<lparr>cs_ctl := \<lparr>tc_isRun = False, tc_sem = \<lparr>sm_wait = - 1, sm_wakeup = 0\<rparr>\<rparr>, cs_locked := True,
     cs_owner := Owner_waiting\<rparr>"
  have b: "tc_reach ?b" by (rule tc_next [OF tc_init work_enter]) (simp_all add: step_defs)
  have c: "tc_reach ?c" by (rule tc_next [OF b close_block [where found = True]]) (simp_all add: step_defs)
  have d: "tc_reach (?c\<lparr>cs_worker := Work_exit\<rparr>)" by (rule tc_next [OF c work_fail]) simp
  from control_stuck_iff [OF d] d show ?thesis by force
qed

text \<open>C34: The task server deals with every task once and in the order of the calls of \<open>addTask\<close>, whenever the
  calls come, also during the worker's loop: what has been dealt with and what is pending is what was added.  And none stays
  pending: after the events \<open>es\<close>, any further events among which the worker takes as many steps as tasks were added,
  and two more, see all tasks of \<open>es\<close> dealt with.  Its \<open>Close\<close> does not change that.\<close>

theorem tasks_in_order:
  "\<exists>k log. tk_events log_deal es (tk_Start (new_task_server garbage), []) = Inr (k, log) \<and>
     log @ pending k = added es \<and> (AllDone k \<longrightarrow> log = added es) \<and>
     (\<forall>es'. length (added es) + 2 \<le> worker_steps es' \<longrightarrow>
        (\<exists>k' more. tk_events log_deal es' (k, log) = Inr (k', added es @ more) \<and> more @ pending k' = added es'))"
proof -
  have "tk_inv (tk_Start (new_task_server garbage))" "pending (tk_Start (new_task_server garbage)) = []"
    by (simp_all add: tk_inv_def tk_Start_def new_task_server_def pending_def step_defs)
  with tk_events_log [of "tk_Start (new_task_server garbage)" es "[]"] obtain k log where
    k: "tk_events log_deal es (tk_Start (new_task_server garbage), []) = Inr (k, log)" "log @ pending k = added es" "tk_inv k"
    by force
  have "\<exists>k' more. tk_events log_deal es' (k, log) = Inr (k', added es @ more) \<and> more @ pending k' = added es'"
    if "length (added es) + 2 \<le> worker_steps es'" for es'
  proof -
    have "length (pending k) \<le> length (added es)" using k(2) by (metis le_add2 length_append)
    then have "rounds_left (length (pending k)) k \<le> worker_steps es'"
      using that by (simp add: rounds_left_def split: option.split)
    from tk_events_finish [OF k(3) this order_refl, of log] show ?thesis by (simp add: k(2) [symmetric])
  qed
  moreover have "AllDone k \<Longrightarrow> pending k = []" by (auto simp: AllDone_def pending_def split: option.splits)
  ultimately show ?thesis using k(1,2) by auto
qed

lemma tasks_in_order_witness:
  "\<exists>k log. tk_events log_deal [Add_task (1 :: nat), Worker_step, Add_task 2, Close_called] (tk_Start (new_task_server False), []) =
       Inr (k, log) \<and> (\<exists>k'. tk_events log_deal [Worker_step, Worker_step, Worker_step, Worker_step] (k, log) = Inr (k', [1, 2]))"
  using tasks_in_order [of "[Add_task (1 :: nat), Worker_step, Add_task 2, Close_called]" False]
  by (auto dest!: spec [of _ "[Worker_step, Worker_step, Worker_step, Worker_step]"])

end
