(* ===== verification/SelectServer.thy ===== *)
theory SelectServer
  imports ObjPool Threads
begin

text \<open>
  The select-based server: \<open>Server/ThreadServer.hpp\<close> (one \<open>select\<close> loop over an ordered map of
  clients), \<open>Server/Easyserver.hpp\<close> (the accepting thread that spreads clients over the
  \<open>ThreadServer\<close>s) and \<open>Server/server.cpp\<close> (the answers to messages).  Client objects live in the
  pool of \<open>ObjPool\<close> and are named by their address.  Answers of the kernel are arguments: \<open>rd\<close> and
  \<open>wr\<close> tell what \<open>recv\<close> and \<open>send\<close> on a descriptor answer, \<open>sel\<close> what \<open>select\<close> reports.
\<close>

section \<open>The shared state\<close>

text \<open>The pool, the three atomic counters, the descriptors closed and the bytes handed to \<open>send\<close>.\<close>

record es_world =
  es_pool :: "tclient object_pool"
  es_recv :: u32
  es_mes :: u32
  es_clients :: u32
  es_closed :: "int list"
  es_out :: "(int \<times> cell list) list"

definition get_client :: "nat \<Rightarrow> es_world \<Rightarrow> tclient res" where
  "get_client x w = (case op_objs (es_pool w) x of None \<Rightarrow> Inl NullDeref | Some c \<Rightarrow> Inr c)"

definition put_client :: "nat \<Rightarrow> tclient \<Rightarrow> es_world \<Rightarrow> es_world" where
  "put_client x c w = w\<lparr>es_pool := write_obj x c (es_pool w)\<rparr>"

definition release :: "nat \<Rightarrow> es_world \<Rightarrow> es_world" where
  "release x w = w\<lparr>es_pool := drop_ptr x (es_pool w)\<rparr>"

text \<open>The event interface as \<open>EasyServer\<close> implements it.\<close>

definition OnNetJoin :: "es_world \<Rightarrow> es_world" where
  "OnNetJoin w = w\<lparr>es_clients := es_clients w + 1\<rparr>"

definition OnNetLeave :: "es_world \<Rightarrow> es_world" where
  "OnNetLeave w = w\<lparr>es_clients := es_clients w - 1\<rparr>"

definition OnNetRecv :: "es_world \<Rightarrow> es_world" where
  "OnNetRecv w = w\<lparr>es_recv := es_recv w + 1\<rparr>"

definition count_msg :: "es_world \<Rightarrow> es_world" where
  "count_msg w = w\<lparr>es_mes := es_mes w + 1\<rparr>"

text \<open>\<open>Server::OnNetMsg\<close>.  The client object is the one whose \<open>front()\<close> is handled.\<close>

definition OnNetMsg :: "cell list \<Rightarrow> tclient \<times> es_world \<Rightarrow> (tclient \<times> es_world) res" where
  "OnNetMsg header = (\<lambda>(c, w0).
     let w = count_msg w0 in
     bind_res (read_i16 (drop 2 header)) (\<lambda>cmd.
       if cmd = sint (cmd_code CMD_LOGIN) then
         bind_res (tq_SendData new_ClientLoginResult (Resettime c)) (\<lambda>(r, c'). Inr (c', w))
       else if cmd = sint (cmd_code CMD_LOGOUT) then Inr (c, w)
       else if cmd = sint (cmd_code CMD_EXPIRE) then
         bind_res (tq_SendData new_Expire (Resettime c)) (\<lambda>(r, c'). Inr (c', w))
       else Inr (c, w)))"

section \<open>ThreadServer\<close>

text \<open>\<open>ts_Clients\<close> is the \<open>std::map\<close> in the order of its keys.\<close>

record thread_server =
  ts_id :: int
  ts_socket :: int
  ts_Clients :: "(int \<times> nat) list"
  ts_buf :: "nat list"
  ts_event :: bool
  ts_fds :: "int list"
  ts_max :: int
  ts_last :: int
  ts_change :: bool
  ts_isRun :: bool
  ts_tasks :: "(nat \<times> cell list) task_server"
  ts_ctl :: control_state

definition new_thread_server :: "int \<Rightarrow> int \<Rightarrow> int \<Rightarrow> bool \<Rightarrow> thread_server" where
  "new_thread_server i sock now garbage = \<lparr>ts_id = i, ts_socket = sock, ts_Clients = [], ts_buf = [], ts_event = False,
     ts_fds = [], ts_max = 0, ts_last = now, ts_change = True, ts_isRun = garbage,
     ts_tasks = new_task_server garbage, ts_ctl = new_control_state\<rparr>"

definition SetEvent :: "thread_server \<Rightarrow> thread_server" where
  "SetEvent t = t\<lparr>ts_event := True\<rparr>"

definition ts_Start :: "thread_server \<Rightarrow> thread_server" where
  "ts_Start t = t\<lparr>ts_tasks := tk_Start (ts_tasks t), ts_ctl := snd (tc_Start (ts_ctl t))\<rparr>"

text \<open>\<open>Close\<close> up to the point where it may block on the worker.\<close>

definition ts_Close :: "thread_server \<Rightarrow> bool \<times> thread_server" where
  "ts_Close t =
     (let (found, blocks, c) = tc_Close (ts_ctl t)
      in (blocks, t\<lparr>ts_isRun := False, ts_tasks := tk_Close (ts_tasks t), ts_ctl := c\<rparr>))"

definition getTotalClient :: "thread_server \<Rightarrow> nat" where
  "getTotalClient t = length (ts_Clients t) + length (ts_buf t)"

definition addClient :: "nat \<Rightarrow> thread_server \<times> es_world \<Rightarrow> thread_server \<times> es_world" where
  "addClient x = (\<lambda>(t, w). (t\<lparr>ts_buf := ts_buf t @ [x]\<rparr>, w\<lparr>es_pool := copy_ptr x (es_pool w)\<rparr>))"

definition addSendTask :: "nat \<Rightarrow> cell list \<Rightarrow> thread_server \<Rightarrow> thread_server" where
  "addSendTask x header t = t\<lparr>ts_tasks := addTask (x, header) (ts_tasks t)\<rparr>"

definition FD_SETSIZE :: int where "FD_SETSIZE = 1024"

text \<open>\<open>FD_SET\<close> and \<open>FD_ISSET\<close> do not check the descriptor.\<close>

definition FD_SET :: "int \<Rightarrow> int list \<Rightarrow> int list res" where
  "FD_SET fd s = (if 0 \<le> fd \<and> fd < FD_SETSIZE then Inr (List.insert fd s) else Inl OutOfBounds)"

definition FD_ISSET :: "int \<Rightarrow> int list \<Rightarrow> bool res" where
  "FD_ISSET fd s = (if 0 \<le> fd \<and> fd < FD_SETSIZE then Inr (fd \<in> set s) else Inl OutOfBounds)"

text \<open>\<open>Clients[key] = pClient\<close>; the pointer that was there before is returned.\<close>

fun map_put :: "int \<Rightarrow> nat \<Rightarrow> (int \<times> nat) list \<Rightarrow> nat option \<times> (int \<times> nat) list" where
  "map_put k v [] = (None, [(k, v)])"
| "map_put k v ((k', v') # m) =
     (if k < k' then (None, (k, v) # (k', v') # m)
      else if k = k' then (Some v', (k, v) # m)
      else let (old, m') = map_put k v m in (old, (k', v') # m'))"

text \<open>The loops over the map.  \<open>f\<close> says whether the entry is erased; after \<open>it = erase(it)\<close> the loop
  ends at the end of the map, and otherwise steps back, which is undefined at the first entry.\<close>

fun scan :: "('e \<Rightarrow> 's \<Rightarrow> (bool \<times> 's) res option) \<Rightarrow> 'e list \<Rightarrow> 'e list \<Rightarrow> 's \<Rightarrow> ('e list \<times> 's) res option" where
  "scan f pre [] s = Some (Inr (pre, s))"
| "scan f pre (x # xs) s =
     (case f x s of
        None \<Rightarrow> None
      | Some (Inl e) \<Rightarrow> Some (Inl e)
      | Some (Inr (gone, s')) \<Rightarrow>
          if \<not> gone then scan f (pre @ [x]) xs s'
          else if xs = [] then Some (Inr (pre, s'))
          else if pre = [] then Some (Inl BadIterator)
          else scan f pre xs s')"

text \<open>\<open>OnNetLeave\<close>, and the pointer of the map ends.\<close>

definition leave :: "bool \<Rightarrow> nat \<Rightarrow> es_world \<Rightarrow> es_world" where
  "leave event x w = release x (if event then OnNetLeave w else w)"

definition close_fd :: "int \<Rightarrow> es_world \<Rightarrow> es_world" where
  "close_fd fd w = w\<lparr>es_closed := es_closed w @ [fd]\<rparr>"

definition ts_RecvData :: "nat \<Rightarrow> (int \<Rightarrow> int \<Rightarrow> sys_read) \<Rightarrow> bool \<Rightarrow> nat \<Rightarrow> es_world \<Rightarrow> (int \<times> es_world) res option" where
  "ts_RecvData fuel rd event x w =
     (case get_client x w of
        Inl e \<Rightarrow> Some (Inl e)
      | Inr c \<Rightarrow>
          if fst (tq_RecvData (rd (tq_socket c)) c) > 0 \<and> \<not> event then Some (Inl NullDeref)
          else (case recv_dispatch fuel (rd (tq_socket c)) OnNetRecv OnNetMsg (c, w) of
                  None \<Rightarrow> None
                | Some r \<Rightarrow> Some (bind_res r (\<lambda>(ret, c', w'). Inr (ret, put_client x c' w')))))"

definition read_entry :: "nat \<Rightarrow> (int \<Rightarrow> int \<Rightarrow> sys_read) \<Rightarrow> bool \<Rightarrow> int list \<Rightarrow> int \<times> nat \<Rightarrow> es_world
    \<Rightarrow> (bool \<times> es_world) res option" where
  "read_entry fuel rd event fdRead = (\<lambda>(k, x) w.
     case bind_res (get_client x w) (\<lambda>c. FD_ISSET (tq_socket c) fdRead) of
       Inl e \<Rightarrow> Some (Inl e)
     | Inr False \<Rightarrow> Some (Inr (False, w))
     | Inr True \<Rightarrow>
         (case ts_RecvData fuel rd event x w of
            None \<Rightarrow> None
          | Some r \<Rightarrow> Some (bind_res r (\<lambda>(ret, w').
              if ret = - 1 then Inr (True, leave event x (close_fd k w')) else Inr (False, w')))))"

definition write_entry :: "(int \<Rightarrow> int) \<Rightarrow> bool \<Rightarrow> int list \<Rightarrow> int \<times> nat \<Rightarrow> es_world
    \<Rightarrow> (bool \<times> es_world) res option" where
  "write_entry wr event fdWrite = (\<lambda>(k, x) w. Some (
     bind_res (get_client x w) (\<lambda>c.
     bind_res (FD_ISSET (tq_socket c) fdWrite) (\<lambda>ready.
       if \<not> ready then Inr (False, w)
       else let (ret, out, c') = SendDataReal (wr (tq_socket c)) c;
                w' = put_client x c' (w\<lparr>es_out := es_out w @ (if out = [] then [] else [(tq_socket c, out)])\<rparr>)
            in if ret = - 1 then Inr (True, leave event x w') else Inr (False, w')))))"

definition time_entry :: "int \<Rightarrow> bool \<Rightarrow> int \<times> nat \<Rightarrow> es_world \<Rightarrow> (bool \<times> es_world) res option" where
  "time_entry passby event = (\<lambda>(k, x) w. Some (
     bind_res (get_client x w) (\<lambda>c.
       let (expired, c') = checkexpire passby c; w' = put_client x c' w
       in if expired then Inr (True, leave event x (close_fd k w')) else Inr (False, w'))))"

definition scan_clients :: "(int \<times> nat \<Rightarrow> es_world \<Rightarrow> (bool \<times> es_world) res option)
    \<Rightarrow> thread_server \<times> es_world \<Rightarrow> (thread_server \<times> es_world) res option" where
  "scan_clients f = (\<lambda>(t, w).
     case scan f [] (ts_Clients t) w of
       None \<Rightarrow> None
     | Some r \<Rightarrow> Some (bind_res r (\<lambda>(m, w').
         Inr (t\<lparr>ts_Clients := m, ts_change := ts_change t \<or> length m < length (ts_Clients t)\<rparr>, w'))))"

definition ReadData :: "nat \<Rightarrow> (int \<Rightarrow> int \<Rightarrow> sys_read) \<Rightarrow> int list \<Rightarrow> thread_server \<times> es_world
    \<Rightarrow> (thread_server \<times> es_world) res option" where
  "ReadData fuel rd fdRead = (\<lambda>(t, w). scan_clients (read_entry fuel rd (ts_event t) fdRead) (t, w))"

definition WiriteData :: "(int \<Rightarrow> int) \<Rightarrow> int list \<Rightarrow> thread_server \<times> es_world \<Rightarrow> (thread_server \<times> es_world) res option" where
  "WiriteData wr fdWrite = (\<lambda>(t, w). scan_clients (write_entry wr (ts_event t) fdWrite) (t, w))"

definition checkTime :: "int \<Rightarrow> thread_server \<times> es_world \<Rightarrow> (thread_server \<times> es_world) res option" where
  "checkTime curtime = (\<lambda>(t, w).
     let passby = curtime - ts_last t
     in scan_clients (time_entry passby (ts_event t)) (t\<lparr>ts_last := curtime\<rparr>, w))"

text \<open>New clients move from the buffer into the map.\<close>

fun merge_clients :: "nat list \<Rightarrow> (int \<times> nat) list \<times> es_world \<Rightarrow> ((int \<times> nat) list \<times> es_world) res" where
  "merge_clients [] mw = Inr mw"
| "merge_clients (x # xs) (m, w) =
     bind_res (get_client x w) (\<lambda>c.
       let (old, m') = map_put (tq_socket c) x m;
           w1 = w\<lparr>es_pool := copy_ptr x (es_pool w)\<rparr>;
           w2 = (case old of None \<Rightarrow> w1 | Some y \<Rightarrow> release y w1)
       in merge_clients xs (m', w2))"

definition take_new :: "thread_server \<times> es_world \<Rightarrow> (thread_server \<times> es_world) res" where
  "take_new = (\<lambda>(t, w).
     if ts_buf t = [] then Inr (t, w)
     else bind_res (merge_clients (ts_buf t) (ts_Clients t, w)) (\<lambda>(m, w').
            Inr (t\<lparr>ts_Clients := m, ts_buf := [], ts_change := True\<rparr>, fold release (ts_buf t) w')))"

fun fd_collect :: "(int \<times> nat) list \<Rightarrow> es_world \<Rightarrow> int list \<times> int \<Rightarrow> (int list \<times> int) res" where
  "fd_collect [] w acc = Inr acc"
| "fd_collect ((k, x) # m) w (s, mx) =
     bind_res (get_client x w) (\<lambda>c.
     bind_res (FD_SET (tq_socket c) s) (\<lambda>s'.
       fd_collect m w (s', if tq_socket c > mx then tq_socket c else mx)))"

definition fd_build :: "thread_server \<times> es_world \<Rightarrow> thread_server res" where
  "fd_build = (\<lambda>(t, w).
     if \<not> ts_change t then Inr t
     else case ts_Clients t of
       [] \<Rightarrow> Inl BadIterator
     | (k, x) # m \<Rightarrow>
         bind_res (get_client x w) (\<lambda>c.
         bind_res (fd_collect (ts_Clients t) w ([], tq_socket c)) (\<lambda>(s, mx).
           Inr (t\<lparr>ts_change := False, ts_fds := s, ts_max := mx\<rparr>))))"

definition bind_ro :: "'a res option \<Rightarrow> ('a \<Rightarrow> 'b res option) \<Rightarrow> 'b res option" where
  "bind_ro m k = (case m of None \<Rightarrow> None | Some (Inl e) \<Rightarrow> Some (Inl e) | Some (Inr a) \<Rightarrow> k a)"

text \<open>One turn of \<open>Run\<close>; the flag says whether the loop goes on.  The set for writing is a copy of the
  set for reading.\<close>

definition ts_round :: "nat \<Rightarrow> (int \<Rightarrow> int list \<Rightarrow> (int list \<times> int list) option) \<Rightarrow> (int \<Rightarrow> int \<Rightarrow> sys_read)
    \<Rightarrow> (int \<Rightarrow> int) \<Rightarrow> int \<Rightarrow> thread_server \<times> es_world \<Rightarrow> (bool \<times> thread_server \<times> es_world) res option" where
  "ts_round fuel sel rd wr now = (\<lambda>(t0, w0).
     if \<not> tc_isRun (ts_ctl t0) then Some (Inr (False, t0, w0))
     else bind_ro (Some (take_new (t0, w0))) (\<lambda>(t, w).
       if ts_Clients t = [] then Some (Inr (True, t, w))
       else bind_ro (Some (fd_build (t, w))) (\<lambda>t.
         case sel (ts_max t + 1) (ts_fds t) of
           None \<Rightarrow> Some (Inr (False, t\<lparr>ts_ctl := tc_Exit (ts_ctl t)\<rparr>, w))
         | Some (fdRead, fdWrite) \<Rightarrow>
             bind_ro (ReadData fuel rd fdRead (t, w)) (\<lambda>tw.
             bind_ro (WiriteData wr fdWrite tw) (\<lambda>tw.
             bind_ro (checkTime now tw) (\<lambda>tw. Some (Inr (True, tw))))))))"

text \<open>The callback that runs when the loop has ended.\<close>

definition ClearAllCLient :: "thread_server \<times> es_world \<Rightarrow> thread_server \<times> es_world" where
  "ClearAllCLient = (\<lambda>(t, w).
     (t\<lparr>ts_Clients := [], ts_buf := []\<rparr>, fold release (map snd (ts_Clients t) @ ts_buf t) w))"

section \<open>EasyServer\<close>

record easy_server =
  sv_socket :: int
  sv_threads :: "thread_server list"
  sv_control :: control_state

definition new_easy_server :: easy_server where
  "new_easy_server = \<lparr>sv_socket = - 1, sv_threads = [], sv_control = new_control_state\<rparr>"

definition ThreadServer_COUNT :: nat where "ThreadServer_COUNT = 4"
definition max_obj_nmber :: nat where "max_obj_nmber = 10"

definition InitSocket :: "int \<Rightarrow> easy_server \<Rightarrow> int \<times> easy_server" where
  "InitSocket ret s = (if ret < 0 then (- 1, s\<lparr>sv_socket := ret\<rparr>) else (1, s\<lparr>sv_socket := ret\<rparr>))"

text \<open>\<open>Close\<close>, for the case that no worker has to be waited for; the flag says whether it blocks.\<close>

definition es_Close :: "easy_server \<Rightarrow> bool \<times> easy_server \<times> int list" where
  "es_Close s =
     (let (found, blocks, c) = tc_Close (sv_control s); s1 = s\<lparr>sv_control := c\<rparr>
      in if blocks then (True, s1, [])
         else if sv_socket s > 0
         then (list_ex (\<lambda>t. fst (ts_Close t)) (sv_threads s), s1\<lparr>sv_socket := - 1, sv_threads := []\<rparr>, [sv_socket s])
         else (False, s1, []))"

definition Bindserver :: "int \<Rightarrow> easy_server \<Rightarrow> int \<times> easy_server" where
  "Bindserver ret s = (if ret < 0 then (- 1, fst (snd (es_Close s))) else (1, s))"

definition Listen :: "int \<Rightarrow> easy_server \<Rightarrow> int \<times> easy_server" where
  "Listen ret s = (if ret < 0 then (- 1, fst (snd (es_Close s))) else (1, s))"

definition es_Start :: "nat \<Rightarrow> int \<Rightarrow> bool \<Rightarrow> easy_server \<Rightarrow> easy_server" where
  "es_Start n now garbage s =
     s\<lparr>sv_threads := sv_threads s @
         map (\<lambda>i. ts_Start (SetEvent (new_thread_server (int i) (sv_socket s) now garbage))) [0..<n],
       sv_control := snd (tc_Start (sv_control s))\<rparr>"

definition InitALL :: "int \<Rightarrow> int \<Rightarrow> int \<Rightarrow> int \<Rightarrow> bool \<Rightarrow> easy_server \<Rightarrow> easy_server" where
  "InitALL sock bnd lst now garbage s =
     es_Start ThreadServer_COUNT now garbage (snd (Listen lst (snd (Bindserver bnd (snd (InitSocket sock s))))))"

text \<open>The server with the fewest clients, the first of them, if it has fewer than \<open>mx\<close>.\<close>

fun least_loaded :: "nat \<Rightarrow> nat option \<Rightarrow> nat \<Rightarrow> thread_server list \<Rightarrow> nat option" where
  "least_loaded i best mx [] = best"
| "least_loaded i best mx (t # ts) =
     (if getTotalClient t < mx then least_loaded (Suc i) (Some i) (getTotalClient t) ts
      else least_loaded (Suc i) best mx ts)"

definition MaxClient :: nat where "MaxClient = 1025"

definition addclient2pThreadServer :: "nat \<Rightarrow> easy_server \<times> es_world \<Rightarrow> (easy_server \<times> es_world) res" where
  "addclient2pThreadServer x = (\<lambda>(s, w).
     case least_loaded 0 None MaxClient (sv_threads s) of
       None \<Rightarrow> Inl NullDeref
     | Some i \<Rightarrow>
         let (t, w') = addClient x (sv_threads s ! i, w)
         in Inr (s\<lparr>sv_threads := (sv_threads s)[i := t]\<rparr>, OnNetJoin w'))"

text \<open>\<open>Accept\<close>; \<open>fd\<close> is the kernel's answer.\<close>

definition es_Accept :: "int \<Rightarrow> easy_server \<times> es_world \<Rightarrow> (int \<times> easy_server \<times> es_world) res" where
  "es_Accept fd = (\<lambda>(s, w).
     if fd < 0 then Inr (fd, s, w)
     else bind_res (alloc (new_tclient (- 1)) (es_pool w)) (\<lambda>(x, p).
          let w1 = w\<lparr>es_pool := p\<rparr> in
          bind_res (get_client x w1) (\<lambda>c.
          bind_res (addclient2pThreadServer x (s, put_client x (SetSocket fd c) w1)) (\<lambda>(s', w2).
            Inr (fd, s', release x w2)))))"

definition Throughput :: "bool \<Rightarrow> es_world \<Rightarrow> es_world" where
  "Throughput elapsed w = (if elapsed then w\<lparr>es_recv := 0, es_mes := 0\<rparr> else w)"

text \<open>One turn of \<open>EasyServer::Run\<close>.\<close>

definition es_round :: "bool \<Rightarrow> (int \<Rightarrow> int list \<Rightarrow> int list option) \<Rightarrow> int \<Rightarrow> easy_server \<times> es_world
    \<Rightarrow> (bool \<times> easy_server \<times> es_world) res" where
  "es_round elapsed sel fd = (\<lambda>(s, w0).
     if \<not> tc_isRun (sv_control s) then Inr (False, s, w0)
     else let w = Throughput elapsed w0 in
       bind_res (FD_SET (sv_socket s) []) (\<lambda>fds.
         case sel (sv_socket s + 1) fds of
           None \<Rightarrow> Inr (False, s\<lparr>sv_control := tc_Exit (sv_control s)\<rparr>, w)
         | Some ready \<Rightarrow>
             bind_res (FD_ISSET (sv_socket s) ready) (\<lambda>r.
               if r then bind_res (es_Accept fd (s, w)) (\<lambda>(ret, sw). Inr (True, sw))
               else Inr (True, s, w))))"

text \<open>\<open>main\<close> up to the reading of commands: the results of the set-up calls are ignored.\<close>

definition server_main :: "int \<Rightarrow> int \<Rightarrow> int \<Rightarrow> int \<Rightarrow> bool \<Rightarrow> easy_server" where
  "server_main sock bnd lst now garbage =
     (let s1 = snd (InitSocket sock new_easy_server); s2 = snd (Bindserver bnd s1); s3 = snd (Listen lst s2)
      in es_Start ThreadServer_COUNT now garbage s3)"

section \<open>Lemmas\<close>

lemma pool_update_simps [simp]:
  "op_objs (write_obj x v p) = (op_objs p)(x \<mapsto> v)" "op_refs (write_obj x v p) = op_refs p"
  "op_free (write_obj x v p) = op_free p" "op_dec (write_obj x v p) = op_dec p"
  by (simp_all add: write_obj_def)

lemma world_update_simps [simp]:
  "es_pool (put_client x c w) = write_obj x c (es_pool w)" "es_closed (put_client x c w) = es_closed w"
  "es_clients (put_client x c w) = es_clients w" "es_out (put_client x c w) = es_out w"
  "es_pool (close_fd k w) = es_pool w" "es_closed (close_fd k w) = es_closed w @ [k]"
  "es_clients (close_fd k w) = es_clients w"
  "es_pool (leave ev x w) = drop_ptr x (es_pool w)" "es_closed (leave ev x w) = es_closed w"
  "es_clients (leave ev x w) = (if ev then es_clients w - 1 else es_clients w)"
  by (simp_all add: put_client_def close_fd_def leave_def release_def OnNetLeave_def)

text \<open>A loop whose decisions do not depend on the entries before.\<close>

lemma scan_filter:
  assumes "\<And>x s. x \<in> set xs \<Longrightarrow> R s x \<Longrightarrow> f x s = Some (Inr (bad x, g x s))"
    "\<And>x y s. x \<in> set xs \<Longrightarrow> y \<in> set xs \<Longrightarrow> x \<noteq> y \<Longrightarrow> R s x \<Longrightarrow> R s y \<Longrightarrow> R (g x s) y"
    "distinct xs" "\<forall>x \<in> set xs. R s x"
  shows "scan f pre xs s =
     (if pre = [] \<and> xs \<noteq> [] \<and> bad (hd xs) \<and> tl xs \<noteq> [] then Some (Inl BadIterator)
      else Some (Inr (pre @ filter (\<lambda>x. \<not> bad x) xs, fold g xs s)))"
  using assms
proof (induction xs arbitrary: pre s)
  case (Cons x xs)
  have x: "f x s = Some (Inr (bad x, g x s))" using Cons.prems by simp
  have R: "\<forall>y \<in> set xs. R (g x s) y"
  proof
    fix y assume "y \<in> set xs"
    then show "R (g x s) y" using Cons.prems(2) [of x y s] Cons.prems(3,4) by auto
  qed
  have ih: "scan f pre' xs (g x s) =
     (if pre' = [] \<and> xs \<noteq> [] \<and> bad (hd xs) \<and> tl xs \<noteq> [] then Some (Inl BadIterator)
      else Some (Inr (pre' @ filter (\<lambda>x. \<not> bad x) xs, fold g xs (g x s))))" for pre'
    by (rule Cons.IH) (use Cons.prems R in auto)
  show ?case
  proof (cases "bad x")
    case False
    then show ?thesis using x ih [of "pre @ [x]"] by simp
  next
    case True
    then show ?thesis using x ih [of pre] by (cases "xs = []") auto
  qed
qed simp

text \<open>A client that only its map points to.\<close>

definition owned :: "(nat \<Rightarrow> tclient) \<Rightarrow> es_world \<Rightarrow> int \<times> nat \<Rightarrow> bool" where
  "owned cl w = (\<lambda>(k, x). op_objs (es_pool w) x = Some (cl x) \<and> op_refs (es_pool w) x = 1 \<and>
     x \<notin> set (op_free (es_pool w)) \<and> \<not> op_dec (es_pool w))"

lemma drop_owned:
  assumes "owned cl w (k, x)"
  shows "op_free (drop_ptr x (es_pool w)) = op_free (es_pool w) @ [x]"
    "op_objs (drop_ptr x (es_pool w)) = op_objs (es_pool w)"
    "op_refs (drop_ptr x (es_pool w)) = (op_refs (es_pool w))(x := 0)"
    "op_dec (drop_ptr x (es_pool w)) = op_dec (es_pool w)"
  using assms by (simp_all add: owned_def drop_ptr_def ObjDeleter_def Let_def)

text \<open>The effect of one entry of \<open>checkTime\<close>.\<close>

definition aged :: "int \<Rightarrow> tclient \<Rightarrow> tclient" where
  "aged passby c = c\<lparr>tq_deadtime := tq_deadtime c + passby\<rparr>"

definition over :: "int \<Rightarrow> (nat \<Rightarrow> tclient) \<Rightarrow> int \<times> nat \<Rightarrow> bool" where
  "over passby cl = (\<lambda>(k, x). ExpireTime \<le> tq_deadtime (cl x) + passby)"

definition time_effect :: "int \<Rightarrow> bool \<Rightarrow> (nat \<Rightarrow> tclient) \<Rightarrow> int \<times> nat \<Rightarrow> es_world \<Rightarrow> es_world" where
  "time_effect passby ev cl = (\<lambda>(k, x) w.
     let w' = put_client x (aged passby (cl x)) w
     in if over passby cl (k, x) then leave ev x (close_fd k w') else w')"

lemma owned_put: "owned cl w (k, x) \<Longrightarrow> owned (cl(x := c)) (put_client x c w) (k, x)"
  by (simp add: owned_def)

lemma time_effect_owned:
  assumes "owned cl w (k, x)"
  shows "time_entry passby ev (k, x) w = Some (Inr (over passby cl (k, x), time_effect passby ev cl (k, x) w))"
    "es_closed (time_effect passby ev cl (k, x) w) = es_closed w @ (if over passby cl (k, x) then [k] else [])"
    "es_clients (time_effect passby ev cl (k, x) w) =
       es_clients w - (if ev \<and> over passby cl (k, x) then 1 else 0)"
    "op_free (es_pool (time_effect passby ev cl (k, x) w)) =
       op_free (es_pool w) @ (if over passby cl (k, x) then [x] else [])"
    "op_objs (es_pool (time_effect passby ev cl (k, x) w)) = (op_objs (es_pool w))(x \<mapsto> aged passby (cl x))"
    "y \<noteq> x \<Longrightarrow> owned cl w (k', y) \<Longrightarrow> owned cl (time_effect passby ev cl (k, x) w) (k', y)"
proof -
  have x: "get_client x w = Inr (cl x)" using assms by (simp add: owned_def get_client_def)
  note d = drop_owned [OF owned_put [OF assms], of "aged passby (cl x)"]
  show "time_entry passby ev (k, x) w = Some (Inr (over passby cl (k, x), time_effect passby ev cl (k, x) w))"
    using x by (simp add: time_entry_def time_effect_def over_def aged_def checkexpire_def Let_def)
  show "es_closed (time_effect passby ev cl (k, x) w) = es_closed w @ (if over passby cl (k, x) then [k] else [])"
    "es_clients (time_effect passby ev cl (k, x) w) = es_clients w - (if ev \<and> over passby cl (k, x) then 1 else 0)"
    by (simp_all add: time_effect_def Let_def)
  show "op_free (es_pool (time_effect passby ev cl (k, x) w)) =
       op_free (es_pool w) @ (if over passby cl (k, x) then [x] else [])"
    "op_objs (es_pool (time_effect passby ev cl (k, x) w)) = (op_objs (es_pool w))(x \<mapsto> aged passby (cl x))"
    using d by (simp_all add: time_effect_def Let_def)
  show "y \<noteq> x \<Longrightarrow> owned cl w (k', y) \<Longrightarrow> owned cl (time_effect passby ev cl (k, x) w) (k', y)"
    using d by (simp add: time_effect_def Let_def owned_def [of cl])
qed

lemma time_effects:
  assumes "\<forall>e \<in> set m. owned cl w e" "distinct (map snd m)"
  shows "es_closed (fold (time_effect passby ev cl) m w) = es_closed w @ map fst (filter (over passby cl) m) \<and>
     es_clients (fold (time_effect passby ev cl) m w) =
       es_clients w - (if ev then of_nat (length (filter (over passby cl) m)) else 0) \<and>
     op_free (es_pool (fold (time_effect passby ev cl) m w)) =
       op_free (es_pool w) @ map snd (filter (over passby cl) m) \<and>
     op_objs (es_pool (fold (time_effect passby ev cl) m w)) =
       (\<lambda>x. if x \<in> snd ` set m then Some (aged passby (cl x)) else op_objs (es_pool w) x)"
  using assms
proof (induction m arbitrary: w)
  case (Cons e m)
  obtain k x where e: "e = (k, x)" by (cases e)
  have o: "owned cl w (k, x)" using Cons.prems e by simp
  note t = time_effect_owned [OF o, where passby = passby and ev = ev]
  have "\<forall>e' \<in> set m. owned cl (time_effect passby ev cl e w) e'"
  proof
    fix e' assume "e' \<in> set m"
    moreover obtain k' y where "e' = (k', y)" by (cases e')
    ultimately show "owned cl (time_effect passby ev cl e w) e'"
      using t(6) [of y k'] Cons.prems e by force
  qed
  from Cons.IH [OF this] Cons.prems(2) show ?case
    using t(2-5) by (auto simp: e fun_eq_iff algebra_simps)
qed auto

section \<open>Properties\<close>

text \<open>Clients that stay silent are closed and no others: \<open>checkTime\<close> adds the time that has passed
  to every client, closes exactly those that reach the limit, announces each once and gives their
  objects back to the pool; but when the first client of the map is one of them and not the only
  one, the loop steps back from the beginning of the map.\<close>

theorem checkTime_expires:
  fixes now :: int
  assumes "\<forall>e \<in> set (ts_Clients t). owned cl w e" "distinct (map snd (ts_Clients t))" "ts_event t"
  defines "late \<equiv> over (now - ts_last t) cl"
  shows "if 1 < length (ts_Clients t) \<and> late (hd (ts_Clients t)) then checkTime now (t, w) = Some (Inl BadIterator)
     else \<exists>t' w'. checkTime now (t, w) = Some (Inr (t', w')) \<and>
       ts_Clients t' = filter (\<lambda>e. \<not> late e) (ts_Clients t) \<and>
       es_closed w' = es_closed w @ map fst (filter late (ts_Clients t)) \<and>
       es_clients w' = es_clients w - of_nat (length (filter late (ts_Clients t))) \<and>
       op_free (es_pool w') = op_free (es_pool w) @ map snd (filter late (ts_Clients t)) \<and>
       (\<forall>(k, x) \<in> set (ts_Clients t'). op_objs (es_pool w') x = Some (aged (now - ts_last t) (cl x)))"
proof -
  let ?p = "now - ts_last t" and ?m = "ts_Clients t"
  have d: "distinct ?m" using assms(2) by (simp add: distinct_map)
  have inj: "x \<in> set ?m \<Longrightarrow> y \<in> set ?m \<Longrightarrow> x \<noteq> y \<Longrightarrow> snd x \<noteq> snd y" for x y
    using assms(2) by (auto simp: distinct_map dest: inj_onD)
  have h1: "time_entry ?p True e v = Some (Inr (late e, time_effect ?p True cl e v))" if "owned cl v e" for e v
    using time_effect_owned(1) that by (cases e) (simp add: late_def)
  have h2: "owned cl (time_effect ?p True cl e v) e'"
    if "e \<in> set ?m" "e' \<in> set ?m" "e \<noteq> e'" "owned cl v e" "owned cl v e'" for e e' v
    using time_effect_owned(6) [of cl v "fst e" "snd e" "snd e'" "fst e'"] inj [of e e'] that by simp
  have s: "scan (time_entry ?p True) [] ?m w =
     (if ([] :: (int \<times> nat) list) = [] \<and> ?m \<noteq> [] \<and> late (hd ?m) \<and> tl ?m \<noteq> [] then Some (Inl BadIterator)
      else Some (Inr ([] @ filter (\<lambda>e. \<not> late e) ?m, fold (time_effect ?p True cl) ?m w)))"
    by (rule scan_filter [where R = "owned cl"]) (use h1 h2 d assms(1) in blast)+
  have one: "1 < length ?m \<longleftrightarrow> ?m \<noteq> [] \<and> tl ?m \<noteq> []" by (cases ?m) auto
  note eff = time_effects [OF assms(1,2), of ?p True]
  show ?thesis
  proof (cases "1 < length ?m \<and> late (hd ?m)")
    case True
    then show ?thesis using s one by (simp add: checkTime_def scan_clients_def assms(3))
  next
    case False
    let ?k = "filter (\<lambda>e. \<not> late e) ?m"
    have "checkTime now (t, w) = Some (Inr (t\<lparr>ts_last := now, ts_Clients := ?k,
        ts_change := ts_change t \<or> length ?k < length ?m\<rparr>, fold (time_effect ?p True cl) ?m w))"
      using s one False by (auto simp: checkTime_def scan_clients_def assms(3))
    with eff False show ?thesis by (force simp: late_def)
  qed
qed

text \<open>A server with two clients, of which the second has been silent for long.\<close>

definition old_client :: "int \<Rightarrow> tclient" where
  "old_client fd = (new_tclient fd)\<lparr>tq_deadtime := 49995\<rparr>"

definition sample_es_world :: es_world where
  "sample_es_world = \<lparr>es_pool = zero_pool\<lparr>op_objs := [0 \<mapsto> new_tclient 6, 1 \<mapsto> old_client 7],
     op_refs := (\<lambda>_. 0)(0 := 1, 1 := 1), op_next := 2, op_inc := 1, op_use := 2, op_cur := 2\<rparr>,
     es_recv = 0, es_mes = 0, es_clients = 2, es_closed = [], es_out = []\<rparr>"

definition sample_thread :: "(int \<times> nat) list \<Rightarrow> thread_server" where
  "sample_thread m = (SetEvent (new_thread_server 0 3 100 False))\<lparr>ts_Clients := m, ts_ctl := \<lparr>tc_isRun = True, tc_sem = new_sem\<rparr>\<rparr>"

definition sample_clients :: "nat \<Rightarrow> tclient" where
  "sample_clients x = (if x = 0 then new_tclient 6 else old_client 7)"

lemma sample_thread_simps [simp]:
  "ts_Clients (sample_thread m) = m" "ts_event (sample_thread m)" "ts_last (sample_thread m) = 100"
  "ts_buf (sample_thread m) = []" "ts_ctl (sample_thread m) = \<lparr>tc_isRun = True, tc_sem = new_sem\<rparr>"
  by (simp_all add: sample_thread_def SetEvent_def new_thread_server_def)

lemma sample_owned: "owned sample_clients sample_es_world (6, 0)" "owned sample_clients sample_es_world (7, 1)"
  by (simp_all add: owned_def sample_es_world_def sample_clients_def zero_pool_def)

lemma checkTime_expires_witness:
  "(\<exists>t' w'. checkTime 110 (sample_thread [(6, 0), (7, 1)], sample_es_world) = Some (Inr (t', w')) \<and>
      ts_Clients t' = [(6, 0)] \<and> es_closed w' = [7] \<and> es_clients w' = 1 \<and> op_free (es_pool w') = [1]) \<and>
   checkTime 110 (sample_thread [(7, 1), (8, 0)], sample_es_world\<lparr>es_clients := 5\<rparr>) = Some (Inl BadIterator)"
proof
  have o: "over 10 sample_clients (6, 0) = False" "over 10 sample_clients (7, 1) = True"
    by (simp_all add: over_def sample_clients_def new_tclient_def old_client_def ExpireTime_def)
  show "\<exists>t' w'. checkTime 110 (sample_thread [(6, 0), (7, 1)], sample_es_world) = Some (Inr (t', w')) \<and>
      ts_Clients t' = [(6, 0)] \<and> es_closed w' = [7] \<and> es_clients w' = 1 \<and> op_free (es_pool w') = [1]"
    using checkTime_expires [of "sample_thread [(6, 0), (7, 1)]" sample_clients sample_es_world 110] sample_owned o
    by (auto simp: sample_es_world_def zero_pool_def)
  have "owned sample_clients (sample_es_world\<lparr>es_clients := 5\<rparr>) (8, 0)"
    "owned sample_clients (sample_es_world\<lparr>es_clients := 5\<rparr>) (7, 1)"
    using sample_owned by (simp_all add: owned_def)
  then show "checkTime 110 (sample_thread [(7, 1), (8, 0)], sample_es_world\<lparr>es_clients := 5\<rparr>) = Some (Inl BadIterator)"
    using checkTime_expires [of "sample_thread [(7, 1), (8, 0)]" sample_clients "sample_es_world\<lparr>es_clients := 5\<rparr>" 110] o
    by simp
qed

text \<open>The choice of a thread.\<close>

lemma least_loaded_spec:
  "least_loaded i best mx ts = r \<Longrightarrow>
     (if \<forall>t \<in> set ts. mx \<le> getTotalClient t then r = best
      else \<exists>j < length ts. r = Some (i + j) \<and> getTotalClient (ts ! j) < mx \<and>
             (\<forall>t \<in> set ts. getTotalClient (ts ! j) \<le> getTotalClient t))"
proof (induction ts arbitrary: i best mx)
  case (Cons t ts)
  show ?case
  proof (cases "getTotalClient t < mx")
    case True
    then have r: "least_loaded (Suc i) (Some i) (getTotalClient t) ts = r" using Cons.prems by simp
    show ?thesis
    proof (cases "\<forall>u \<in> set ts. getTotalClient t \<le> getTotalClient u")
      case all: True
      with Cons.IH [OF r] have "r = Some (i + 0)" by simp
      with True all show ?thesis by (intro if_bool_eq_conj [THEN iffD2] conjI impI exI [of _ 0]) auto
    next
      case False
      with Cons.IH [OF r] obtain j where "j < length ts" "r = Some (Suc i + j)"
        "getTotalClient (ts ! j) < getTotalClient t" "\<forall>u \<in> set ts. getTotalClient (ts ! j) \<le> getTotalClient u"
        by auto
      with True show ?thesis
        by (intro if_bool_eq_conj [THEN iffD2] conjI impI exI [of _ "Suc j"]) auto
    qed
  next
    case False
    then have r: "least_loaded (Suc i) best mx ts = r" using Cons.prems by simp
    show ?thesis
    proof (cases "\<forall>u \<in> set ts. mx \<le> getTotalClient u")
      case True
      with Cons.IH [OF r] False show ?thesis by auto
    next
      case some: False
      with Cons.IH [OF r] obtain j where j: "j < length ts" "r = Some (Suc i + j)"
        "getTotalClient (ts ! j) < mx" "\<forall>u \<in> set ts. getTotalClient (ts ! j) \<le> getTotalClient u"
        by auto
      with False some show ?thesis
        by (intro if_bool_eq_conj [THEN iffD2] conjI impI exI [of _ "Suc j"]) auto
    qed
  qed
qed simp

text \<open>C35: New clients are spread evenly: if the loads of the threads differ by at most one, then a new
  client goes to a thread with the smallest load, the loads still differ by at most one, and no thread
  gets more than 1025 clients; when all threads are full (or there is none) the server dereferences a
  null pointer instead.\<close>

theorem clients_balanced:
  assumes "\<forall>a \<in> set (sv_threads s). \<forall>b \<in> set (sv_threads s). getTotalClient a \<le> getTotalClient b + 1"
  shows "if \<forall>t \<in> set (sv_threads s). MaxClient \<le> getTotalClient t
     then addclient2pThreadServer x (s, w) = Inl NullDeref
     else \<exists>i s' w'. addclient2pThreadServer x (s, w) = Inr (s', w') \<and> i < length (sv_threads s) \<and>
       (\<forall>t \<in> set (sv_threads s). getTotalClient (sv_threads s ! i) \<le> getTotalClient t) \<and>
       map getTotalClient (sv_threads s') = (map getTotalClient (sv_threads s))[i := getTotalClient (sv_threads s ! i) + 1] \<and>
       getTotalClient (sv_threads s ! i) + 1 \<le> MaxClient \<and>
       (\<forall>a \<in> set (sv_threads s'). \<forall>b \<in> set (sv_threads s'). getTotalClient a \<le> getTotalClient b + 1)"
proof (cases "\<forall>t \<in> set (sv_threads s). MaxClient \<le> getTotalClient t")
  case True
  with least_loaded_spec [OF refl, where i = 0 and best = None and mx = MaxClient and ts = "sv_threads s"] show ?thesis
    by (simp add: addclient2pThreadServer_def)
next
  case False
  let ?ts = "sv_threads s"
  from least_loaded_spec [OF refl, where i = 0 and best = None and mx = MaxClient and ts = ?ts]
  obtain i where
    i: "i < length ?ts" "least_loaded 0 None MaxClient ?ts = Some i" "getTotalClient (?ts ! i) < MaxClient"
      "\<forall>t \<in> set ?ts. getTotalClient (?ts ! i) \<le> getTotalClient t"
    unfolding if_not_P [OF False] add_0 by blast
  let ?t = "(?ts ! i)\<lparr>ts_buf := ts_buf (?ts ! i) @ [x]\<rparr>"
  have add: "addclient2pThreadServer x (s, w) =
      Inr (s\<lparr>sv_threads := ?ts[i := ?t]\<rparr>, OnNetJoin (w\<lparr>es_pool := copy_ptr x (es_pool w)\<rparr>))"
    using i(2) by (simp add: addclient2pThreadServer_def addClient_def)
  have tot: "getTotalClient ?t = getTotalClient (?ts ! i) + 1" by (simp add: getTotalClient_def)
  have sub: "set (?ts[i := ?t]) \<subseteq> insert ?t (set ?ts)" by (rule set_update_subset_insert)
  have hi: "\<forall>a \<in> set ?ts. getTotalClient a \<le> getTotalClient (?ts ! i) + 1"
    using assms i(1) nth_mem by blast
  have bal: "getTotalClient a \<le> getTotalClient b + 1" if "a \<in> set (?ts[i := ?t])" "b \<in> set (?ts[i := ?t])" for a b
  proof -
    have "getTotalClient a \<le> getTotalClient (?ts ! i) + 1" using that(1) sub hi tot by auto
    moreover have "getTotalClient (?ts ! i) \<le> getTotalClient b" using that(2) sub i(4) tot by auto
    ultimately show ?thesis by simp
  qed
  have "map getTotalClient (?ts[i := ?t]) = (map getTotalClient ?ts)[i := getTotalClient (?ts ! i) + 1]"
    by (simp add: map_update tot)
  with False add i bal show ?thesis
    by (intro if_bool_eq_conj [THEN iffD2] conjI impI exI [of _ i]) auto
qed

lemma clients_balanced_witness:
  "\<exists>s' w'. addclient2pThreadServer 1 (es_Start 4 0 False new_easy_server, sample_es_world) = Inr (s', w') \<and>
     (\<forall>a \<in> set (sv_threads s'). \<forall>b \<in> set (sv_threads s'). getTotalClient a \<le> getTotalClient b + 1)"
proof -
  have z: "\<forall>t \<in> set (sv_threads (es_Start 4 0 False new_easy_server)). getTotalClient t = 0"
    "sv_threads (es_Start 4 0 False new_easy_server) \<noteq> []"
    by (auto simp: es_Start_def ts_Start_def SetEvent_def new_thread_server_def getTotalClient_def new_easy_server_def)
  then have n: "\<not> (\<forall>t \<in> set (sv_threads (es_Start 4 0 False new_easy_server)). MaxClient \<le> getTotalClient t)"
    by (auto simp: MaxClient_def dest: list.set_sel(1))
  have b: "\<forall>a \<in> set (sv_threads (es_Start 4 0 False new_easy_server)).
      \<forall>b \<in> set (sv_threads (es_Start 4 0 False new_easy_server)). getTotalClient a \<le> getTotalClient b + 1"
    using z(1) by simp
  from clients_balanced [OF b, of 1 sample_es_world] n show ?thesis by auto
qed

text \<open>An accepted connection gets an object as its last user left it, under the new descriptor: the
  bytes in its two buffers and its timer are those of an earlier client.  If that client was closed
  for being silent, the first \<open>checkTime\<close> closes the new one, whenever it comes.\<close>

theorem accepted_client_inherits:
  assumes "pool_inv (es_pool w)" "op_free (es_pool w) = x # xs" "op_objs (es_pool w) x = Some v" "0 \<le> fd"
    "\<exists>t \<in> set (sv_threads s). getTotalClient t < MaxClient"
  shows "\<exists>s' w'. es_Accept fd (s, w) = Inr (fd, s', w') \<and> op_objs (es_pool w') x = Some (v\<lparr>tq_socket := fd\<rparr>) \<and>
     op_refs (es_pool w') x = 1 \<and> es_clients w' = es_clients w + 1 \<and>
     (ExpireTime \<le> tq_deadtime v \<and> 0 \<le> passby \<longrightarrow>
        (\<exists>w''. time_entry passby True (fd, x) w' = Some (Inr (True, w'')) \<and> es_closed w'' = es_closed w' @ [fd]))"
proof -
  have "op_free (es_pool w) \<noteq> []" using assms(2) by simp
  from take_front_inv [OF assms(1) this] assms(2) obtain p where p: "alloc (new_tclient (- 1)) (es_pool w) = Inr (x, p)"
      "op_refs p x = 1" "op_objs p = op_objs (es_pool w)" "op_free p = xs" by (auto simp: alloc_def)
  from least_loaded_spec [OF refl, where i = 0 and best = None and mx = MaxClient and ts = "sv_threads s"] assms(5) obtain i where
    i: "least_loaded 0 None MaxClient (sv_threads s) = Some i" by (auto simp: not_le split: if_splits)
  let ?w1 = "put_client x (SetSocket fd v) (w\<lparr>es_pool := p\<rparr>)"
  let ?w2 = "OnNetJoin (?w1\<lparr>es_pool := copy_ptr x (es_pool ?w1)\<rparr>)"
  let ?s = "s\<lparr>sv_threads := (sv_threads s)[i := (sv_threads s ! i)\<lparr>ts_buf := ts_buf (sv_threads s ! i) @ [x]\<rparr>]\<rparr>"
  have acc: "es_Accept fd (s, w) = Inr (fd, ?s, release x ?w2)"
    using p assms(3,4) i
    by (simp add: es_Accept_def get_client_def addclient2pThreadServer_def addClient_def)
  have r: "op_refs (es_pool (release x ?w2)) x = 1"
    "op_objs (es_pool (release x ?w2)) x = Some (v\<lparr>tq_socket := fd\<rparr>)" "es_clients (release x ?w2) = es_clients w + 1"
    using p by (simp_all add: release_def OnNetJoin_def copy_ptr_def drop_ptr_def SetSocket_def)
  have "\<exists>w''. time_entry passby True (fd, x) (release x ?w2) = Some (Inr (True, w'')) \<and>
      es_closed w'' = es_closed (release x ?w2) @ [fd]"
    if "ExpireTime \<le> tq_deadtime v" "0 \<le> passby"
    using r(2) that by (simp add: time_entry_def get_client_def checkexpire_def)
  with acc r show ?thesis by blast
qed

definition stale_world :: es_world where
  "stale_world = sample_es_world\<lparr>es_pool := zero_pool\<lparr>op_free := [4], op_objs := [4 \<mapsto> (new_tclient 5)\<lparr>tq_deadtime := 50020\<rparr>],
     op_next := 5, op_inc := 1, op_cur := 1\<rparr>\<rparr>"

lemma accepted_client_inherits_witness:
  "\<exists>s' w' w''. es_Accept 9 (es_Start 4 0 False new_easy_server, stale_world) = Inr (9, s', w') \<and>
     time_entry 0 True (9, 4) w' = Some (Inr (True, w'')) \<and> es_closed w'' = es_closed w' @ [9]"
proof -
  have p: "pool_inv (es_pool stale_world)" "op_free (es_pool stale_world) = 4 # []"
    "op_objs (es_pool stale_world) 4 = Some ((new_tclient 5)\<lparr>tq_deadtime := 50020\<rparr>)"
    by (auto simp: stale_world_def zero_pool_def pool_inv_def live_def)
  have t: "\<exists>t \<in> set (sv_threads (es_Start 4 0 False new_easy_server)). getTotalClient t < MaxClient"
    by (auto simp: es_Start_def ts_Start_def SetEvent_def new_thread_server_def getTotalClient_def
        new_easy_server_def MaxClient_def intro: exI [of _ 0])
  from accepted_client_inherits [OF p _ t, of 9 0] show ?thesis by (auto simp: ExpireTime_def)
qed

text \<open>One turn with a single readable and writable client.\<close>

lemma tb_push_empty:
  assumes "tb_inv b" "tb_last b = 0" "int (length m) \<le> tb_size b"
  shows "\<exists>b'. tb_push m (int (length m)) b = Inr (True, b') \<and> tb_inv b' \<and> tb_content b' = m \<and>
     tb_last b' = int (length m)"
proof -
  obtain b' where b': "tb_push m (int (length m)) b = Inr (True, b')" "tb_inv b'" "tb_content b' = m"
    using tb_push_ok [OF assms(1), of "int (length m)" m] assms(2,3) by (auto simp: tb_content_def)
  with length_tb_content [OF b'(2)] show ?thesis by simp
qed

lemma login_handled:
  assumes "read_i16 (drop 2 header) = Inr 0" "tb_inv (tq_send c)" "tb_last (tq_send c) = 0" "8 \<le> tb_size (tq_send c)"
  shows "\<exists>b. OnNetMsg header (c, w) = Inr (c\<lparr>tq_deadtime := 0, tq_send := b\<rparr>, count_msg w) \<and> tb_inv b \<and>
     tb_content b = new_ClientLoginResult \<and> tb_last b = 8"
proof -
  have f: "read_i16 new_ClientLoginResult = Inr 8" "int (length new_ClientLoginResult) = 8"
    by (simp_all add: new_ClientLoginResult_def header_image_def)
  obtain b where b: "tb_push new_ClientLoginResult 8 (tq_send c) = Inr (True, b)" "tb_inv b"
      "tb_content b = new_ClientLoginResult" "tb_last b = 8"
    using tb_push_empty [OF assms(2,3), of new_ClientLoginResult] assms(4) unfolding f(2) by blast
  show ?thesis using assms(1) b f(1)
    by (intro exI [of _ b]) (simp add: OnNetMsg_def Let_def tq_SendData_def Resettime_def)
qed

lemma drain_one:
  assumes "tb_inv (tq_recv c)" "tb_content (tq_recv c) = m" "framed m"
    "h (tq_front c) (c, s) = Inr (c', s')" "tq_recv c' = tq_recv c"
  shows "\<exists>b. tq_drain 2 h (c, s) = Some (Inr (c'\<lparr>tq_recv := b\<rparr>, s')) \<and> tb_inv b \<and> tb_content b = []"
proof -
  have m: "tb_content (tq_recv c) = m @ []" using assms(2) by simp
  note e = tb_empty_framed [OF assms(1) m assms(3)]
  obtain b where b: "tb_pop (int (length m)) (tq_recv c) = Inr b" "tb_inv b" "tb_content b = []"
    using tb_pop_ok [OF assms(1), of "int (length m)"] e assms(2) length_tb_content [OF assms(1)] by auto
  have "tb_empty b = Inr True" by (rule tb_empty_incomplete [OF b(2)]) (simp add: b(3) incomplete_def)
  then show ?thesis using e b assms(4,5)
    by (intro exI [of _ b]) (simp add: numeral_2_eq_2 tq_empty_def pop_front_def tq_front_def)
qed

text \<open>Reading a login: the client as it is afterwards, with the answer in its buffer for sending.\<close>

lemma login_received:
  assumes "op_objs (es_pool w) x = Some c" "tq_socket c = fd" "0 < fd" "fd < FD_SETSIZE"
    "tb_inv (tq_recv c)" "tb_content (tq_recv c) = []" "68 \<le> tb_size (tq_recv c)"
    "tb_inv (tq_send c)" "tb_last (tq_send c) = 0" "8 \<le> tb_size (tq_send c)"
    "m = header_image 68 CMD_LOGIN @ body" "length body = 64" "rd fd = (\<lambda>_. RData m)"
  shows "\<exists>s b. read_entry 2 rd True [fd] (fd, x) w =
      Some (Inr (False, put_client x (c\<lparr>tq_deadtime := 0, tq_send := s, tq_recv := b\<rparr>) (count_msg (OnNetRecv w)))) \<and>
    tb_content b = [] \<and> tb_last s = 8 \<and> take 8 (tb_data s) = new_ClientLoginResult"
proof -
  have m: "framed m" "length m = 68" "m \<noteq> []" "read_i16 (drop 2 m) = Inr 0"
    using assms(11,12) by (auto simp: framed_def header_image_def)
  have fit: "tb_last (tq_recv c) + int (length m) \<le> tb_size (tq_recv c)"
    using length_tb_content [OF assms(5)] assms(6,7) m(2) by simp
  obtain b where b: "tb_read4socket (\<lambda>_. RData m) (tq_recv c) = (68, b)" "tb_inv b" "tb_content b = m"
    using tb_read_ok [OF assms(5) _ m(3) fit, of "\<lambda>_. RData m"] m(2) assms(6) by auto
  let ?c1 = "c\<lparr>tq_recv := b\<rparr>"
  have front: "read_i16 (drop 2 (tq_front ?c1)) = Inr 0"
  proof -
    have "tq_front ?c1 = m @ drop (nat (tb_last b)) (tb_data b)"
      using tb_data_content [OF b(2)] b(3) by (simp add: tq_front_def)
    then have "drop 2 (tq_front ?c1) = drop 2 m @ drop (nat (tb_last b)) (tb_data b)" using m(2) by simp
    then show ?thesis using read_i16_append [of "drop 2 m"] m by simp
  qed
  obtain s where s: "OnNetMsg (tq_front ?c1) (?c1, OnNetRecv w) =
      Inr (?c1\<lparr>tq_deadtime := 0, tq_send := s\<rparr>, count_msg (OnNetRecv w))" "tb_inv s"
      "tb_content s = new_ClientLoginResult" "tb_last s = 8"
    using login_handled [OF front, where c = "c\<lparr>tq_recv := b\<rparr>" and w = "OnNetRecv w"] assms(8-10) by auto
  obtain b2 where d: "tq_drain 2 OnNetMsg (?c1, OnNetRecv w) =
      Some (Inr (?c1\<lparr>tq_deadtime := 0, tq_send := s\<rparr>\<lparr>tq_recv := b2\<rparr>, count_msg (OnNetRecv w)))"
      "tb_inv b2" "tb_content b2 = []"
    using drain_one [of ?c1 m OnNetMsg "OnNetRecv w"] s(1) b m(1) by auto
  have "get_client x w = Inr c" "FD_ISSET fd [fd] = Inr True" using assms(1,3,4) by (simp_all add: get_client_def FD_ISSET_def)
  then have "read_entry 2 rd True [fd] (fd, x) w =
      Some (Inr (False, put_client x (c\<lparr>tq_deadtime := 0, tq_send := s, tq_recv := b2\<rparr>) (count_msg (OnNetRecv w))))"
    using assms(2,13) b(1) d(1) by (simp add: read_entry_def ts_RecvData_def recv_dispatch_def tq_RecvData_def)
  moreover have "take 8 (tb_data s) = new_ClientLoginResult" using s(3,4) by (simp add: tb_content_def)
  ultimately show ?thesis using d(3) s(4) by blast
qed

text \<open>C30: A login is answered in the turn in which it arrives: when the only client of a thread sends a
  complete login message and can be written to, one turn of the loop reads it, resets the client's
  timer, counts it, and hands exactly the bytes of a \<open>ClientLoginResult\<close> to \<open>send\<close>; the client
  stays in the map and both its buffers are empty again.\<close>

theorem login_answered:
  assumes "tc_isRun (ts_ctl t)" "ts_Clients t = [(fd, x)]" "ts_buf t = []" "ts_event t" "ts_change t"
    "op_objs (es_pool w) x = Some c" "tq_socket c = fd" "0 < fd" "fd < FD_SETSIZE"
    "tb_inv (tq_recv c)" "tb_content (tq_recv c) = []" "68 \<le> tb_size (tq_recv c)"
    "tb_inv (tq_send c)" "tb_last (tq_send c) = 0" "8 \<le> tb_size (tq_send c)"
    "m = header_image 68 CMD_LOGIN @ body" "length body = 64" "rd fd = (\<lambda>_. RData m)" "wr fd = 8"
    "sel (fd + 1) [fd] = Some ([fd], [fd])" "now - ts_last t < ExpireTime"
  shows "\<exists>t' w' c'. ts_round 2 sel rd wr now (t, w) = Some (Inr (True, t', w')) \<and> ts_Clients t' = [(fd, x)] \<and>
     es_out w' = es_out w @ [(fd, new_ClientLoginResult)] \<and> es_mes w' = es_mes w + 1 \<and> es_recv w' = es_recv w + 1 \<and>
     op_objs (es_pool w') x = Some c' \<and> tb_content (tq_recv c') = [] \<and> tb_last (tq_send c') = 0 \<and>
     tq_deadtime c' = now - ts_last t"
proof -
  obtain s b where recv: "read_entry 2 rd True [fd] (fd, x) w =
      Some (Inr (False, put_client x (c\<lparr>tq_deadtime := 0, tq_send := s, tq_recv := b\<rparr>) (count_msg (OnNetRecv w))))"
    and b: "tb_content b = []" and s: "tb_last s = 8" "take 8 (tb_data s) = new_ClientLoginResult"
    using login_received [of w x c fd m body rd] assms(6-18) by blast
  let ?c2 = "c\<lparr>tq_deadtime := 0, tq_send := s, tq_recv := b\<rparr>"
  let ?w2 = "put_client x ?c2 (count_msg (OnNetRecv w))"
  have get: "get_client x w = Inr c" using assms(6) by (simp add: get_client_def)
  have isset: "FD_ISSET fd [fd] = Inr True" using assms(8,9) by (simp add: FD_ISSET_def)
  have build: "fd_build (t, w) = Inr (t\<lparr>ts_change := False, ts_fds := [fd], ts_max := fd\<rparr>)"
    using assms(2,5,7-9) get by (simp add: fd_build_def FD_SET_def)
  let ?s3 = "s\<lparr>tb_last := 0, tb_full := 0\<rparr>"
  let ?c3 = "?c2\<lparr>tq_senddeadtime := 0, tq_send := ?s3\<rparr>"
  let ?w3 = "put_client x ?c3 (?w2\<lparr>es_out := es_out w @ [(fd, new_ClientLoginResult)]\<rparr>)"
  have out: "length new_ClientLoginResult = 8" by (simp add: new_ClientLoginResult_def header_image_def)
  have send: "write_entry wr True [fd] (fd, x) ?w2 = Some (Inr (False, ?w3))"
    using assms(7,8,19) isset s out
    by (simp add: write_entry_def get_client_def SendDataReal_def Resetsendtime_def tb_write2socket_def
        put_client_def count_msg_def OnNetRecv_def)
       (metis list.size(3) zero_neq_numeral)
  let ?w4 = "put_client x (?c3\<lparr>tq_deadtime := now - ts_last t\<rparr>) ?w3"
  have time: "time_entry (now - ts_last t) True (fd, x) ?w3 = Some (Inr (False, ?w4))"
    using assms(21) by (simp add: time_entry_def get_client_def checkexpire_def)
  have "ts_round 2 sel rd wr now (t, w) =
     Some (Inr (True, t\<lparr>ts_change := False, ts_fds := [fd], ts_max := fd, ts_last := now\<rparr>, ?w4))"
    using assms(1-4,20) build recv send time
    by (simp add: ts_round_def bind_ro_def take_new_def ReadData_def WiriteData_def checkTime_def scan_clients_def)
  then show ?thesis using b assms(2)
    by (auto simp: put_client_def count_msg_def OnNetRecv_def)
qed

lemma login_answered_witness:
  "\<exists>t' w' c'. ts_round 2 (\<lambda>_ s. Some (s, s)) (\<lambda>_ _. RData (header_image 68 CMD_LOGIN @ replicate 64 (Some 65))) (\<lambda>_. 8) 105
      (sample_thread [(6, 0)], sample_es_world) = Some (Inr (True, t', w')) \<and> es_out w' = [(6, new_ClientLoginResult)]"
proof -
  have b: "tb_inv (tq_recv (new_tclient 6))" "tb_content (tq_recv (new_tclient 6)) = []"
    "tb_inv (tq_send (new_tclient 6))"
    using new_tbuf_inv [of MaxBufSize] by (simp_all add: new_tclient_def MaxBufSize_def)
  have z: "tq_socket (new_tclient 6) = 6" "68 \<le> tb_size (tq_recv (new_tclient 6))"
      "tb_last (tq_send (new_tclient 6)) = 0" "8 \<le> tb_size (tq_send (new_tclient 6))"
    by (simp_all add: new_tclient_def new_tbuf_def MaxBufSize_def)
  have t: "ts_change (sample_thread [(6, 0)])"
    by (simp add: sample_thread_def SetEvent_def new_thread_server_def)
  have o: "op_objs (es_pool sample_es_world) 0 = Some (new_tclient 6)" "es_out sample_es_world = []"
    by (simp_all add: sample_es_world_def zero_pool_def)
  from login_answered [OF _ _ _ _ t o(1) z(1) _ _ b(1,2) z(2) b(3) z(3,4) refl,
      of "replicate 64 (Some 65)" "\<lambda>_ _. RData (header_image 68 CMD_LOGIN @ replicate 64 (Some 65))" "\<lambda>_. 8"
         "\<lambda>_ s. Some (s, s)" 105] o(2)
  show ?thesis by (auto simp: FD_SETSIZE_def ExpireTime_def)
qed

text \<open>\<open>main\<close> ignores the results of its set-up calls: when \<open>socket\<close>, \<open>bind\<close> or \<open>listen\<close> fails, the
  accepting thread is started all the same and its first turn writes outside the descriptor set.\<close>

theorem failed_setup_runs_on:
  assumes "sock \<noteq> 0" "sock < 0 \<or> bnd < 0 \<or> lst < 0"
  shows "tc_isRun (sv_control (server_main sock bnd lst now garbage)) \<and>
     length (sv_threads (server_main sock bnd lst now garbage)) = 4 \<and>
     es_round elapsed sel fd (server_main sock bnd lst now garbage, w) = Inl OutOfBounds"
proof -
  have c: "snd (tc_Start new_control_state) = \<lparr>tc_isRun = True, tc_sem = new_sem\<rparr>" "\<not> tc_isRun new_control_state"
    by (simp_all add: tc_Start_def new_control_state_def)
  have "sv_socket (server_main sock bnd lst now garbage) < 0 \<and>
      sv_control (server_main sock bnd lst now garbage) = \<lparr>tc_isRun = True, tc_sem = new_sem\<rparr> \<and>
      length (sv_threads (server_main sock bnd lst now garbage)) = 4"
    using assms c
    by (auto simp: server_main_def InitSocket_def Bindserver_def Listen_def es_Close_def tc_Close_def es_Start_def
        new_easy_server_def ThreadServer_COUNT_def Let_def)
  then show ?thesis by (simp add: es_round_def FD_SET_def Let_def)
qed

lemma failed_setup_runs_on_witness:
  "es_round False (\<lambda>_ s. Some s) 5 (server_main 3 (- 1) 0 100 False, sample_es_world) = Inl OutOfBounds"
  using failed_setup_runs_on [of 3 "- 1" 0 100 False False "\<lambda>_ s. Some s" 5 sample_es_world] by simp

end
