(* ===== verification/SelectClient.thy ===== *)
theory SelectClient
  imports SelectServer
begin

text \<open>
  The select-based client: \<open>Client/Easyclient.hpp\<close>, and the test driver \<open>Client/client.cpp\<close> that
  divides a fixed number of clients among threads.  The kernel's answers are arguments, as for the
  server.
\<close>

section \<open>EasyClient\<close>

record easy_client =
  ec_recvcount :: u32
  ec_socket :: int
  ec_client :: tclient
  ec_isRun :: bool
  ec_closed :: "int list"
  ec_out :: "cell list"

definition new_easy_client :: easy_client where
  "new_easy_client = \<lparr>ec_recvcount = 0, ec_socket = - 1, ec_client = new_tclient (- 1), ec_isRun = False,
     ec_closed = [], ec_out = []\<rparr>"

definition ec_Close :: "easy_client \<Rightarrow> easy_client" where
  "ec_Close c =
     (let c1 = (if ec_socket c > 0 then c\<lparr>ec_closed := ec_closed c @ [ec_socket c]\<rparr> else c)
      in c1\<lparr>ec_isRun := False, ec_socket := - 1\<rparr>)"

definition ec_InitSocket :: "int \<Rightarrow> easy_client \<Rightarrow> int \<times> easy_client" where
  "ec_InitSocket ret c =
     (let c1 = (if ec_socket c < 0 then c\<lparr>ec_socket := ret\<rparr> else c)
      in if ec_socket c1 < 0 then (- 1, c1)
         else (1, c1\<lparr>ec_client := SetSocket (ec_socket c1) (ec_client c1)\<rparr>))"

text \<open>\<open>sock\<close> and \<open>state\<close> are what \<open>socket\<close> and \<open>connect\<close> answer.\<close>

definition ec_Connect :: "int \<Rightarrow> int \<Rightarrow> easy_client \<Rightarrow> int \<times> easy_client" where
  "ec_Connect sock state c =
     (let c1 = (if ec_socket c < 0 then snd (ec_InitSocket sock c) else c)
      in if state < 0 then (- 1, ec_Close c1) else (state, c1\<lparr>ec_isRun := True\<rparr>))"

text \<open>\<open>Message\<close> only counts; the command decides what is printed.\<close>

definition ec_Message :: "cell list \<Rightarrow> tclient \<times> u32 \<Rightarrow> (tclient \<times> u32) res" where
  "ec_Message header = (\<lambda>(c, n).
     bind_res (read_i16 (drop 2 header)) (\<lambda>cmd. Inr (c, n + 1)))"

definition ec_RecvData :: "nat \<Rightarrow> (int \<Rightarrow> sys_read) \<Rightarrow> easy_client \<Rightarrow> (int \<times> easy_client) res option" where
  "ec_RecvData fuel rd c =
     (case recv_dispatch fuel rd (\<lambda>n. n) ec_Message (ec_client c, ec_recvcount c) of
        None \<Rightarrow> None
      | Some r \<Rightarrow> Some (bind_res r (\<lambda>(ret, tc, n). Inr (ret, c\<lparr>ec_client := tc, ec_recvcount := n\<rparr>))))"

definition ec_ReadData :: "nat \<Rightarrow> (int \<Rightarrow> sys_read) \<Rightarrow> int list \<Rightarrow> easy_client \<Rightarrow> easy_client res option" where
  "ec_ReadData fuel rd fds c =
     bind_ro (Some (FD_ISSET (ec_socket c) fds)) (\<lambda>ready.
       if \<not> ready then Some (Inr c)
       else bind_ro (ec_RecvData fuel rd c) (\<lambda>(ret, c').
              Some (Inr (if ret = - 1 then ec_Close c' else c'))))"

definition ec_WriteData :: "int \<Rightarrow> int list \<Rightarrow> easy_client \<Rightarrow> easy_client res" where
  "ec_WriteData wr fds c =
     bind_res (FD_ISSET (ec_socket c) fds) (\<lambda>ready.
       if \<not> ready then Inr c
       else let (ret, out, tc) = SendDataReal wr (ec_client c);
                c' = c\<lparr>ec_client := tc, ec_out := ec_out c @ out\<rparr>
            in Inr (if ret = - 1 then ec_Close c' else c'))"

definition Handel :: "nat \<Rightarrow> (int \<Rightarrow> int list \<Rightarrow> int list \<Rightarrow> (int list \<times> int list) option) \<Rightarrow> (int \<Rightarrow> sys_read) \<Rightarrow> int
    \<Rightarrow> easy_client \<Rightarrow> easy_client res option" where
  "Handel fuel sel rd wr c =
     (if \<not> ec_isRun c then Some (Inr c)
      else bind_ro (Some (FD_SET (ec_socket c) [])) (\<lambda>fds.
        case sel (ec_socket c + 1) fds fds of
          None \<Rightarrow> Some (Inr c)
        | Some (fdRead, fdWrite) \<Rightarrow>
            bind_ro (ec_ReadData fuel rd fdRead c) (\<lambda>c'. Some (ec_WriteData wr fdWrite c'))))"

definition ec_SendData :: "cell list \<Rightarrow> easy_client \<Rightarrow> (int \<times> easy_client) res" where
  "ec_SendData header c =
     bind_res (tq_SendData header (ec_client c)) (\<lambda>(r, tc). Inr (r, c\<lparr>ec_client := tc\<rparr>))"

section \<open>The test driver\<close>

definition totalClient :: nat where "totalClient = 8"
definition totalSend :: nat where "totalSend = 4"

text \<open>The clients of a thread, from \<open>begin\<close> up to \<open>end\<close>.\<close>

definition thread_clients :: "nat \<Rightarrow> nat list" where
  "thread_clients i = (let c = totalClient div totalSend in [i * c..<(i + 1) * c])"

text \<open>\<open>sendThread\<close> up to the barrier: the clients are created, connected and counted as ready.\<close>

definition send_thread_start :: "(nat \<Rightarrow> int \<times> int) \<Rightarrow> nat \<Rightarrow> (nat \<Rightarrow> easy_client option) \<times> nat
    \<Rightarrow> (nat \<Rightarrow> easy_client option) \<times> nat" where
  "send_thread_start ans i = (\<lambda>(client, ready).
     let made = fold (\<lambda>j cl. cl(j := Some new_easy_client)) (thread_clients i) client
     in (fold (\<lambda>j cl. cl(j := map_option (\<lambda>c. snd (ec_Connect (fst (ans j)) (snd (ans j)) c)) (cl j)))
           (thread_clients i) made, Suc ready))"

definition past_barrier :: "nat \<Rightarrow> bool" where "past_barrier ready \<longleftrightarrow> \<not> ready < totalSend"

text \<open>One pass of \<open>receive_thread\<close>.\<close>

fun receive_pass :: "(nat \<Rightarrow> easy_client \<Rightarrow> easy_client res option) \<Rightarrow> nat list \<Rightarrow> (nat \<Rightarrow> easy_client option)
    \<Rightarrow> (nat \<Rightarrow> easy_client option) res option" where
  "receive_pass handel [] client = Some (Inr client)"
| "receive_pass handel (i # is) client =
     (case client i of
        None \<Rightarrow> Some (Inl NullDeref)
      | Some c \<Rightarrow> bind_ro (handel i c) (\<lambda>c'. receive_pass handel is (client(i \<mapsto> c'))))"

text \<open>\<open>Client/oneclient.cpp\<close>: a login is queued every 100 ms, whatever has become of the connection.\<close>

definition oneclient_turn :: "easy_client \<Rightarrow> (bool \<times> easy_client) res" where
  "oneclient_turn c = bind_res (ec_SendData new_ClientLogin c) (\<lambda>(r, c'). Inr (r = 0, c'))"

section \<open>Lemmas\<close>

text \<open>A handler that looks at the complete message in front only and leaves the client alone.\<close>

lemma drain_handles:
  assumes "\<forall>m \<in> set ms. framed m \<and> (\<forall>c s junk. h (m @ junk) (c, s) = Inr (c, g m s))" "incomplete part"
    "tb_inv (tq_recv c)" "tb_content (tq_recv c) = concat ms @ part" "length ms < fuel" "pops_apart ms (length part)"
  shows "\<exists>c'. tq_drain fuel h (c, s) = Some (Inr (c', fold g ms s)) \<and> tb_inv (tq_recv c') \<and>
     tb_content (tq_recv c') = part"
  using assms
proof (induction ms arbitrary: c s fuel)
  case Nil
  then obtain f where "fuel = Suc f" by (cases fuel) auto
  with Nil tb_empty_incomplete [of "tq_recv c"] show ?case by (auto simp: tq_empty_def)
next
  case (Cons m ms)
  then obtain f where f: "fuel = Suc f" "length ms < f" by (cases fuel) auto
  have m: "framed m" "\<And>c s junk. h (m @ junk) (c, s) = Inr (c, g m s)" using Cons.prems(1) by auto
  have content: "tb_content (tq_recv c) = m @ (concat ms @ part)" using Cons.prems(4) by simp
  note e = tb_empty_framed [OF Cons.prems(3) this m(1)]
  obtain b where b: "tb_pop (int (length m)) (tq_recv c) = Inr b" "tb_inv b" "tb_content b = concat ms @ part"
    using tb_pop_ok [OF Cons.prems(3), of "int (length m)"] e content length_tb_content [OF Cons.prems(3)] Cons.prems(6) by auto
  have "tq_front c = m @ drop (length m) (tb_data (tq_recv c))"
    using e by (metis append_take_drop_id tq_front_def)
  then have "h (tq_front c) (c, s) = Inr (c, g m s)" using m(2) by metis
  then have "tq_drain fuel h (c, s) = tq_drain f h (c\<lparr>tq_recv := b\<rparr>, g m s)"
    using f(1) e b(1) by (simp add: tq_empty_def pop_front_def tq_front_def)
  with Cons.IH [of "c\<lparr>tq_recv := b\<rparr>" f "g m s"] Cons.prems(1,2,6) b(2,3) f(2) show ?case by auto
qed

text \<open>Messages whose command field has been written.\<close>

definition commanded :: "cell list \<Rightarrow> bool" where
  "commanded m \<longleftrightarrow> framed m \<and> (\<exists>cmd. read_i16 (drop 2 m) = Inr cmd)"

lemma ec_Message_counts: "commanded m \<Longrightarrow> ec_Message (m @ junk) (c, n) = Inr (c, n + 1)"
proof -
  assume m: "commanded m"
  then obtain cmd where "read_i16 (drop 2 m) = Inr cmd" "2 \<le> length (drop 2 m)" "drop 2 (m @ junk) = drop 2 m @ junk"
    by (auto simp: commanded_def framed_def)
  then show ?thesis using read_i16_append [of "drop 2 m" junk] by (simp add: ec_Message_def)
qed

lemma fold_count: "fold (\<lambda>m n. n + 1) ms (n :: u32) = n + of_nat (length ms)"
  by (induction ms arbitrary: n) (simp_all add: algebra_simps)

lemma thread_clients_cover: "concat (map thread_clients [0..<totalSend]) = [0..<totalClient]"
  by (simp add: thread_clients_def totalClient_def totalSend_def upt_rec)

section \<open>Properties\<close>

text \<open>A turn of the client counts exactly the messages that it completes: whatever part of a
  message was waiting, the messages that are complete after the new bytes have been received are
  counted one by one, and the rest waits for the next turn, as long as the buffer is never moved onto itself.\<close>

theorem client_counts_messages:
  assumes "ec_isRun c" "0 \<le> ec_socket c" "ec_socket c < FD_SETSIZE" "tb_inv (tq_recv (ec_client c))"
    "rd (tb_size (tq_recv (ec_client c)) - tb_last (tq_recv (ec_client c))) = RData cs" "cs \<noteq> []"
    "tb_last (tq_recv (ec_client c)) + int (length cs) \<le> tb_size (tq_recv (ec_client c))"
    "tb_content (tq_recv (ec_client c)) @ cs = concat ms @ part" "\<forall>m \<in> set ms. commanded m" "incomplete part"
    "length ms < fuel" "pops_apart ms (length part)" "sel (ec_socket c + 1) [ec_socket c] [ec_socket c] = Some ([ec_socket c], [])"
  shows "\<exists>c'. Handel fuel sel rd wr c = Some (Inr c') \<and> ec_recvcount c' = ec_recvcount c + of_nat (length ms) \<and>
     tb_content (tq_recv (ec_client c')) = part \<and> ec_isRun c'"
proof -
  let ?t = "ec_client c"
  obtain b where b: "tb_read4socket rd (tq_recv ?t) = (int (length cs), b)" "tb_inv b"
      "tb_content b = tb_content (tq_recv ?t) @ cs"
    using tb_read_ok [of "tq_recv ?t" rd cs] assms(4-7) by blast
  have h: "\<forall>m \<in> set ms. framed m \<and>
      (\<forall>c s junk. ec_Message (m @ junk) (c, s) = Inr (c, (\<lambda>m n. n + 1) m s))"
    using assms(9) ec_Message_counts by (auto simp: commanded_def)
  obtain t' where t': "tq_drain fuel ec_Message (?t\<lparr>tq_recv := b\<rparr>, ec_recvcount c) =
      Some (Inr (t', fold (\<lambda>m n. n + 1) ms (ec_recvcount c)))" "tb_content (tq_recv t') = part"
    using drain_handles [OF h assms(10), of "?t\<lparr>tq_recv := b\<rparr>" fuel "ec_recvcount c"] b(2,3) assms(8,11,12) by auto
  have set: "FD_SET (ec_socket c) [] = Inr [ec_socket c]" "FD_ISSET (ec_socket c) [ec_socket c] = Inr True"
    "FD_ISSET (ec_socket c) [] = Inr False"
    using assms(2,3) by (simp_all add: FD_SET_def FD_ISSET_def)
  show ?thesis
    using assms(1,6,13) set b(1) t'
    by (simp add: Handel_def bind_ro_def ec_ReadData_def ec_RecvData_def recv_dispatch_def tq_RecvData_def
        ec_WriteData_def fold_count)
qed

lemma client_counts_messages_witness:
  "\<exists>c'. Handel 3 (\<lambda>_ r _. Some (r, [])) (\<lambda>_. RData (new_Expire @ new_ClientLoginResult)) 0
     (snd (ec_Connect 5 0 new_easy_client)) = Some (Inr c') \<and> ec_recvcount c' = 2"
proof -
  let ?c = "snd (ec_Connect 5 0 new_easy_client)"
  have c: "ec_isRun ?c" "ec_socket ?c = 5" "tq_recv (ec_client ?c) = new_tbuf MaxBufSize" "ec_recvcount ?c = 0"
    by (simp_all add: ec_Connect_def ec_InitSocket_def new_easy_client_def SetSocket_def new_tclient_def)
  have b: "tb_inv (new_tbuf MaxBufSize)" "tb_content (new_tbuf MaxBufSize) = []" "tb_last (new_tbuf MaxBufSize) = 0"
    "tb_size (new_tbuf MaxBufSize) = 81920"
    using new_tbuf_inv [of MaxBufSize] by (simp_all add: MaxBufSize_def new_tbuf_def)
  have m: "\<forall>m \<in> set [new_Expire, new_ClientLoginResult]. commanded m"
    using constructors_framed by (auto simp: commanded_def new_Expire_def new_ClientLoginResult_def header_image_def)
  have len: "length (new_Expire @ new_ClientLoginResult) = 16"
    by (simp add: new_Expire_def new_ClientLoginResult_def header_image_def)
  then have ne: "new_Expire @ new_ClientLoginResult \<noteq> []" by auto
  show ?thesis
    using client_counts_messages [of ?c "\<lambda>_. RData (new_Expire @ new_ClientLoginResult)" "new_Expire @ new_ClientLoginResult"
        "[new_Expire, new_ClientLoginResult]" "[]" 3 "\<lambda>_ r _. Some (r, [])" 0] c b m ne len expire_login_lengths
    by (auto simp: FD_SETSIZE_def incomplete_def)
qed

text \<open>When the server ends the connection, the turn that notices it goes on to test the closed
  descriptor, now \<open>-1\<close>, against the set for writing.\<close>

theorem closed_client_tests_bad_descriptor:
  assumes "ec_isRun c" "0 < ec_socket c" "ec_socket c < FD_SETSIZE"
    "sel (ec_socket c + 1) [ec_socket c] [ec_socket c] = Some ([ec_socket c], fdWrite)"
    "fst (tq_RecvData rd (ec_client c)) \<le> 0"
  shows "Handel fuel sel rd wr c = Some (Inl OutOfBounds)"
proof -
  obtain len tc where r: "tq_RecvData rd (ec_client c) = (len, tc)" "len \<le> 0"
    using assms(5) by (cases "tq_RecvData rd (ec_client c)") auto
  then have "ec_RecvData fuel rd c = Some (Inr (- 1, c\<lparr>ec_client := tc\<rparr>))"
    by (simp add: ec_RecvData_def recv_dispatch_def)
  then have "ec_ReadData fuel rd [ec_socket c] c = Some (Inr (ec_Close (c\<lparr>ec_client := tc\<rparr>)))"
    using assms(2,3) by (simp add: ec_ReadData_def bind_ro_def FD_ISSET_def)
  moreover have "ec_WriteData wr fdWrite (ec_Close (c\<lparr>ec_client := tc\<rparr>)) = Inl OutOfBounds"
    by (simp add: ec_WriteData_def ec_Close_def FD_ISSET_def Let_def)
  ultimately show ?thesis using assms(1-4) by (simp add: Handel_def bind_ro_def FD_SET_def)
qed

lemma closed_client_tests_bad_descriptor_witness:
  "Handel 1 (\<lambda>_ r w. Some (r, w)) (\<lambda>_. RData []) 8 (snd (ec_Connect 5 0 new_easy_client)) = Some (Inl OutOfBounds)"
  by (rule closed_client_tests_bad_descriptor [where fdWrite = "[5]"])
     (simp_all add: ec_Connect_def ec_InitSocket_def new_easy_client_def SetSocket_def new_tclient_def
        FD_SETSIZE_def tq_RecvData_def tb_read4socket_def new_tbuf_def MaxBufSize_def)

end
