(* ===== verification/Mains.thy ===== *)
theory Mains
  imports Utils
begin

text \<open>
  The two programs' arguments: \<open>Proxyserver/Main.cpp\<close> and \<open>Proxyclient/main.cpp\<close>.
  \<open>getopt_long\<close> is given by the sequence of options it reports, each with its argument.
\<close>

section \<open>The server's arguments\<close>

datatype server_opt = Ctl_port | Proxy_port | Work_threads | Unknown_opt

record server_args =
  sa_ctl_port :: u32
  sa_proxy_port :: u32
  sa_threads :: int

fun server_option :: "server_opt \<times> u8 list \<Rightarrow> server_args \<Rightarrow> server_args res" where
  "server_option (Ctl_port, optarg) a = bind_res (atoi optarg) (\<lambda>n. Inr (a\<lparr>sa_ctl_port := word_of_int n\<rparr>))"
| "server_option (Proxy_port, optarg) a = bind_res (atoi optarg) (\<lambda>n. Inr (a\<lparr>sa_proxy_port := word_of_int n\<rparr>))"
| "server_option (Work_threads, optarg) a = bind_res (atoi optarg) (\<lambda>n. Inr (a\<lparr>sa_threads := n\<rparr>))"
| "server_option (Unknown_opt, optarg) a = Inr a"

fun server_options :: "(server_opt \<times> u8 list) list \<Rightarrow> server_args \<Rightarrow> server_args res" where
  "server_options [] a = Inr a"
| "server_options (x # opts) a = bind_res (server_option x a) (server_options opts)"

definition server_arguments :: "(server_opt \<times> u8 list) list \<Rightarrow> server_args res" where
  "server_arguments opts =
     bind_res (server_options opts \<lparr>sa_ctl_port = 0, sa_proxy_port = 0, sa_threads = 0\<rparr>) (\<lambda>a. Inr
       \<lparr>sa_ctl_port = (if sa_ctl_port a > 0 then sa_ctl_port a else 8080),
        sa_proxy_port = (if sa_proxy_port a > 0 then sa_proxy_port a else 8089),
        sa_threads = (if sa_threads a > 0 then sa_threads a else 1)\<rparr>)"

section \<open>The client's arguments\<close>

datatype client_opt = Local_server | Cproxy_server | Client_threads | Unknown_client_opt

text \<open>The two ports have no initial value.\<close>

record client_args =
  ca_local_host :: "u8 list"
  ca_local_port :: "u32 option"
  ca_proxy_host :: "u8 list"
  ca_proxy_port :: "u32 option"
  ca_threads :: int

fun client_option :: "client_opt \<times> u8 list \<Rightarrow> client_args \<Rightarrow> client_args res" where
  "client_option (Local_server, optarg) a =
     bind_res (parse_host_port optarg) (\<lambda>(h, p). Inr (a\<lparr>ca_local_host := h, ca_local_port := Some p\<rparr>))"
| "client_option (Cproxy_server, optarg) a =
     bind_res (parse_host_port optarg) (\<lambda>(h, p). Inr (a\<lparr>ca_proxy_host := h, ca_proxy_port := Some p\<rparr>))"
| "client_option (Client_threads, optarg) a = bind_res (atoi optarg) (\<lambda>n. Inr (a\<lparr>ca_threads := n\<rparr>))"
| "client_option (Unknown_client_opt, optarg) a = Inr a"

fun client_options :: "(client_opt \<times> u8 list) list \<Rightarrow> client_args \<Rightarrow> client_args res" where
  "client_options [] a = Inr a"
| "client_options (x # opts) a = bind_res (client_option x a) (client_options opts)"

text \<open>The test of a host and its port, which is not read when the host is empty.\<close>

definition check_server :: "u8 list \<Rightarrow> u32 option \<Rightarrow> unit res" where
  "check_server host port =
     (if host = [] then Inl Aborted
      else case port of None \<Rightarrow> Inl Uninitialised | Some p \<Rightarrow> if p = 0 then Inl Aborted else Inr ())"

definition client_arguments :: "(client_opt \<times> u8 list) list \<Rightarrow> client_args res" where
  "client_arguments opts =
     bind_res (client_options opts \<lparr>ca_local_host = [], ca_local_port = None, ca_proxy_host = [],
       ca_proxy_port = None, ca_threads = 1\<rparr>) (\<lambda>a.
     bind_res (check_server (ca_local_host a) (ca_local_port a)) (\<lambda>_.
     bind_res (check_server (ca_proxy_host a) (ca_proxy_port a)) (\<lambda>_.
       Inr (a\<lparr>ca_threads := if ca_threads a > 0 then ca_threads a else 1\<rparr>))))"

section \<open>Lemmas\<close>

text \<open>A host that is set has come with its port.\<close>

definition hosts_with_ports :: "client_args \<Rightarrow> bool" where
  "hosts_with_ports a \<longleftrightarrow> (ca_local_host a \<noteq> [] \<longrightarrow> ca_local_port a \<noteq> None) \<and>
     (ca_proxy_host a \<noteq> [] \<longrightarrow> ca_proxy_port a \<noteq> None)"

lemma client_option_ports: "client_option x a = Inr b \<Longrightarrow> hosts_with_ports a \<Longrightarrow> hosts_with_ports b"
  by (induction x a rule: client_option.induct) (auto simp: bind_res_eq_Inr hosts_with_ports_def)

lemma client_options_ports: "client_options opts a = Inr b \<Longrightarrow> hosts_with_ports a \<Longrightarrow> hosts_with_ports b"
  by (induction opts arbitrary: a) (auto simp: bind_res_eq_Inr intro: client_option_ports)

section \<open>Properties\<close>

text \<open>The client starts only with two hosts, two non-zero ports and at least one thread, and the
  ports it uses are never the uninitialised ones: missing arguments end the program through
  \<open>abort\<close>.\<close>

theorem client_arguments_checked:
  "(case client_options opts \<lparr>ca_local_host = [], ca_local_port = None, ca_proxy_host = [], ca_proxy_port = None,
       ca_threads = 1\<rparr> of
      Inl e \<Rightarrow> client_arguments opts = Inl e
    | Inr a \<Rightarrow> client_arguments opts = Inl Aborted \<or>
        (\<exists>b lp pp. client_arguments opts = Inr b \<and> ca_local_host b \<noteq> [] \<and> ca_proxy_host b \<noteq> [] \<and>
           ca_local_port b = Some lp \<and> ca_proxy_port b = Some pp \<and> 0 < lp \<and> 0 < pp \<and> 1 \<le> ca_threads b))"
proof (cases "client_options opts \<lparr>ca_local_host = [], ca_local_port = None, ca_proxy_host = [],
    ca_proxy_port = None, ca_threads = 1\<rparr>")
  case (Inl e)
  then show ?thesis by (simp add: client_arguments_def)
next
  case (Inr a)
  have "hosts_with_ports a" by (rule client_options_ports [OF Inr]) (simp add: hosts_with_ports_def)
  with Inr show ?thesis
    by (auto simp: client_arguments_def check_server_def hosts_with_ports_def word_gt_0 split: if_splits)
qed

text \<open>The server always gets two non-zero ports and at least one thread, whatever numbers the
  options hold.\<close>

theorem server_arguments_bounds:
  assumes "server_arguments opts = Inr a"
  shows "0 < sa_ctl_port a \<and> 0 < sa_proxy_port a \<and> 1 \<le> sa_threads a"
  using assms by (auto simp: server_arguments_def bind_res_eq_Inr split: if_splits)

lemma server_arguments_bounds_witness:
  "\<exists>a. server_arguments [(Ctl_port, decimal 9000), (Work_threads, 45 # decimal 3)] = Inr a \<and> 0 < sa_ctl_port a \<and>
     0 < sa_proxy_port a \<and> 1 \<le> sa_threads a"
proof -
  have "atoi (45 # decimal 3) = Inr (- 3)" by (simp add: decimal.simps) code_simp
  then have "\<exists>a. server_arguments [(Ctl_port, decimal 9000), (Work_threads, 45 # decimal 3)] = Inr a"
    by (simp add: server_arguments_def atoi_decimal)
  then obtain a where "server_arguments [(Ctl_port, decimal 9000), (Work_threads, 45 # decimal 3)] = Inr a" ..
  with server_arguments_bounds [OF this] show ?thesis by blast
qed

end
