(* ===== verification/Digits.thy ===== *)
theory Digits
  imports Prelude
begin

text \<open>
  The integer formatting that the log formatter rests on, from \<open>fmt/bundled/format.h\<close> and
  \<open>details/fmt_helper.h\<close>: three ways of counting decimal digits (a loop, and two table look-ups by
  the position of the highest bit, for 64 and for 32 bits), and the conversion that writes two
  digits at a time.  Numbers are naturals below \<open>2 ^ 64\<close> or \<open>2 ^ 32\<close>.  The properties show that
  all of them compute the decimal notation \<open>dec\<close> and its length.
\<close>

section \<open>Decimal notation\<close>

definition digit :: "nat \<Rightarrow> char" where "digit d = char_of (48 + d)"

fun dec :: "nat \<Rightarrow> string" where
  "dec n = (if n < 10 then [digit n] else dec (n div 10) @ [digit (n mod 10)])"

declare dec.simps [simp del]

definition dec_int :: "int \<Rightarrow> string" where
  "dec_int i = (if i < 0 then CHR ''-'' # dec (nat (- i)) else dec (nat i))"

lemma dec_small: "n < 10 \<Longrightarrow> dec n = [digit n]"
  by (simp add: dec.simps)

lemma dec_step: "10 \<le> n \<Longrightarrow> dec n = dec (n div 10) @ [digit (n mod 10)]"
  by (subst dec.simps) simp

lemma dec_nonempty [simp]: "dec n \<noteq> []"
  by (subst dec.simps) simp

lemma length_dec_step: "10 \<le> n \<Longrightarrow> length (dec n) = Suc (length (dec (n div 10)))"
  by (simp add: dec_step)

lemma length_dec_bounds: "n < 10 ^ length (dec n) \<and> (n = 0 \<or> 10 ^ (length (dec n) - 1) \<le> n)"
proof (induction n rule: dec.induct)
  case (1 n)
  show ?case
  proof (cases "n < 10")
    case True
    then show ?thesis by (auto simp: dec_small)
  next
    case False
    then have ih: "n div 10 < 10 ^ length (dec (n div 10))" "10 ^ (length (dec (n div 10)) - 1) \<le> n div 10"
      using 1 by (auto simp: div_eq_0_iff)
    obtain k where k: "length (dec (n div 10)) = Suc k" by (cases "length (dec (n div 10))") auto
    have "n < 10 * 10 ^ length (dec (n div 10))"
      using ih(1) by (simp add: div_less_iff_less_mult algebra_simps)
    moreover have "10 * 10 ^ k \<le> n" using ih(2) k by simp
    ultimately show ?thesis using False k by (simp add: length_dec_step)
  qed
qed

lemma length_dec_unique:
  assumes "n < 10 ^ d" "0 < d" "n = 0 \<and> d = 1 \<or> 10 ^ (d - 1) \<le> n"
  shows "length (dec n) = d"
proof (cases "n = 0")
  case True
  with assms show ?thesis by (auto simp: dec_small)
next
  case False
  let ?l = "length (dec n)"
  have l: "n < 10 ^ ?l" "10 ^ (?l - 1) \<le> n" "0 < ?l" using length_dec_bounds [of n] False by auto
  have d: "10 ^ (d - 1) \<le> n" using assms(3) False by simp
  have p: "1 < (10 :: nat)" by simp
  have "d - 1 < ?l" by (rule power_less_imp_less_exp [OF p le_less_trans [OF d l(1)]])
  moreover have "?l - 1 < d" by (rule power_less_imp_less_exp [OF p le_less_trans [OF l(2) assms(1)]])
  ultimately show ?thesis using assms(2) l(3) by simp
qed

section \<open>Counting digits\<close>

text \<open>\<open>count_digits_fallback\<close>: four digits per division.\<close>

function count_digits_fallback :: "nat \<Rightarrow> nat \<Rightarrow> nat" where
  "count_digits_fallback n count =
     (if n < 10 then count
      else if n < 100 then count + 1
      else if n < 1000 then count + 2
      else if n < 10000 then count + 3
      else count_digits_fallback (n div 10000) (count + 4))"
  by pat_completeness auto

termination by (relation "measure fst") auto

declare count_digits_fallback.simps [simp del]

text \<open>The position of the highest bit set, as the compiler's builtin gives it: \<open>clz(n | 1) ^ 63\<close>.\<close>

fun bsr :: "nat \<Rightarrow> nat" where
  "bsr n = (if n < 2 then 0 else Suc (bsr (n div 2)))"

declare bsr.simps [simp del]

definition or_one :: "nat \<Rightarrow> nat" where "or_one n = (if even n then n + 1 else n)"

definition bsr2log10 :: "nat list" where
  "bsr2log10 =
     [1, 1, 1, 2, 2, 2, 3, 3, 3, 4, 4, 4, 4, 5, 5, 5,
      6, 6, 6, 7, 7, 7, 7, 8, 8, 8, 9, 9, 9, 10, 10, 10,
      10, 11, 11, 11, 12, 12, 12, 13, 13, 13, 13, 14, 14, 14, 15, 15,
      15, 16, 16, 16, 16, 17, 17, 17, 18, 18, 18, 19, 19, 19, 19, 20]"

definition zero_or_powers_of_10 :: "nat list" where
  "zero_or_powers_of_10 = [0, 0] @ map (\<lambda>e. 1 * 10 ^ e) [1..<10] @ map (\<lambda>e. 1000000000 * 10 ^ e) [1..<10] @
     [10000000000000000000]"

definition do_count_digits64 :: "nat \<Rightarrow> nat" where
  "do_count_digits64 n =
     (let t = bsr2log10 ! bsr (or_one n) in t - (if n < zero_or_powers_of_10 ! t then 1 else 0))"

text \<open>\<open>FMT_INC(T)\<close>, with the number of characters of the literal \<open>T\<close>.\<close>

definition FMT_INC :: "nat \<Rightarrow> nat" where
  "FMT_INC T = (let len = length (dec T) in len * 2 ^ 32 - T)"

definition count_digits_table :: "nat list" where
  "count_digits_table = map FMT_INC
     [0, 0, 0, 10, 10, 10, 100, 100, 100, 1000, 1000, 1000,
      10000, 10000, 10000, 100000, 100000, 100000, 1000000, 1000000, 1000000,
      10000000, 10000000, 10000000, 100000000, 100000000, 100000000,
      1000000000, 1000000000, 1000000000, 1000000000, 1000000000]"

definition do_count_digits32 :: "nat \<Rightarrow> nat" where
  "do_count_digits32 n = (n + count_digits_table ! bsr (or_one n)) mod 2 ^ 64 div 2 ^ 32"

section \<open>Writing digits\<close>

definition digits2 :: "nat \<Rightarrow> string" where
  "digits2 v =
     (let table = ''0001020304050607080910111213141516171819'' @ ''2021222324252627282930313233343536373839'' @
                  ''4041424344454647484950515253545556575859'' @ ''6061626364656667686970717273747576777879'' @
                  ''8081828384858687888990919293949596979899''
      in [table ! (2 * v), table ! (2 * v + 1)])"

text \<open>\<open>format_decimal\<close> fills its buffer from the end; \<open>done\<close> is what has been written.\<close>

function write_decimal :: "nat \<Rightarrow> string \<Rightarrow> string" where
  "write_decimal v written =
     (if v \<ge> 100 then write_decimal (v div 100) (digits2 (v mod 100) @ written)
      else if v < 10 then digit v # written
      else digits2 v @ written)"
  by pat_completeness auto

termination by (relation "measure fst") auto

declare write_decimal.simps [simp del]

definition format_decimal :: "nat \<Rightarrow> nat \<Rightarrow> string res" where
  "format_decimal v sz = (if sz < do_count_digits64 v then Inl Aborted else Inr (write_decimal v []))"

definition format_int_buffer_size :: nat where "format_int_buffer_size = 19 + 3"

definition format_unsigned :: "nat \<Rightarrow> string res" where
  "format_unsigned v = format_decimal v (format_int_buffer_size - 1)"

text \<open>\<open>format_signed\<close> for an integer type of \<open>w\<close> bits.\<close>

definition format_signed :: "nat \<Rightarrow> int \<Rightarrow> string res" where
  "format_signed w value =
     (let abs_value = value mod 2 ^ w
      in if value < 0
         then bind_res (format_unsigned (nat ((0 - abs_value) mod 2 ^ w))) (\<lambda>s. Inr (CHR ''-'' # s))
         else format_unsigned (nat abs_value))"

section \<open>Lemmas\<close>

lemma bsr_bounds: "0 < n \<Longrightarrow> 2 ^ bsr n \<le> n \<and> n < 2 ^ Suc (bsr n)"
proof (induction n rule: bsr.induct)
  case (1 n)
  show ?case
  proof (cases "n < 2")
    case True
    with 1 show ?thesis by (simp add: bsr.simps)
  next
    case False
    then have "2 ^ bsr (n div 2) \<le> n div 2" "n div 2 < 2 ^ Suc (bsr (n div 2))" using 1 by auto
    then have "2 * 2 ^ bsr (n div 2) \<le> n" "n < 2 * 2 ^ Suc (bsr (n div 2))" by auto
    moreover have "bsr n = Suc (bsr (n div 2))" using False by (subst bsr.simps) simp
    ultimately show ?thesis by simp
  qed
qed

lemma bsr_less:
  assumes "0 < n" "n < 2 ^ k"
  shows "bsr n < k"
proof -
  have "(2 :: nat) ^ bsr n < 2 ^ k" using bsr_bounds [OF assms(1)] assms(2) by (blast intro: le_less_trans)
  then show ?thesis by (rule power_less_imp_less_exp [rotated]) simp
qed

lemma or_one_bsr:
  assumes "n < 2 ^ Suc k"
  shows "bsr (or_one n) < Suc k" "n < 2 ^ Suc (bsr (or_one n))" "n = 0 \<or> 2 ^ bsr (or_one n) \<le> n"
proof -
  have o: "0 < or_one n" "or_one n < 2 ^ Suc k" "n \<le> or_one n"
  proof -
    show "0 < or_one n" "n \<le> or_one n" by (auto simp: or_one_def intro: odd_pos)
    show "or_one n < 2 ^ Suc k"
    proof (cases "even n")
      case True
      then obtain j where "n = 2 * j" by (elim evenE)
      with assms show ?thesis by (simp add: or_one_def)
    qed (use assms in \<open>simp add: or_one_def\<close>)
  qed
  show "bsr (or_one n) < Suc k" by (rule bsr_less [OF o(1,2)])
  note b = bsr_bounds [OF o(1)]
  show "n < 2 ^ Suc (bsr (or_one n))" using b o(3) by simp
  show "n = 0 \<or> 2 ^ bsr (or_one n) \<le> n"
  proof (cases "bsr (or_one n)")
    case 0
    then show ?thesis by auto
  next
    case (Suc j)
    then have "even ((2 :: nat) ^ bsr (or_one n))" by (metis dvd_triv_left power_Suc)
    show ?thesis
    proof (cases "even n")
      case True
      then have "or_one n = Suc n" by (simp add: or_one_def)
      moreover have "2 ^ bsr (or_one n) \<noteq> Suc n"
        using \<open>even (2 ^ bsr (or_one n))\<close> True by (metis even_Suc)
      ultimately show ?thesis using b by linarith
    next
      case False
      then have "or_one n = n" by (simp add: or_one_def)
      with b show ?thesis by simp
    qed
  qed
qed

text \<open>What the tables hold, for every position of the highest bit.\<close>

definition table64_ok :: "nat \<Rightarrow> nat \<Rightarrow> bool" where
  "table64_ok k t \<longleftrightarrow> 2 ^ Suc k \<le> (10 :: nat) ^ t \<and> 0 < t \<and>
     (if t = 1 then zero_or_powers_of_10 ! t = 0
      else zero_or_powers_of_10 ! t = 10 ^ (t - 1) \<and> (10 :: nat) ^ (t - 2) \<le> 2 ^ k)"

lemma powers_nth:
  "zero_or_powers_of_10 = [0, 0, 10, 100, 1000, 10000, 100000, 1000000, 10000000, 100000000, 1000000000,
     10000000000, 100000000000, 1000000000000, 10000000000000, 100000000000000, 1000000000000000,
     10000000000000000, 100000000000000000, 1000000000000000000, 10000000000000000000]"
  by (simp add: zero_or_powers_of_10_def upt_rec)

lemma table64: "k < 64 \<Longrightarrow> table64_ok k (bsr2log10 ! k)"
proof -
  have "list_all (\<lambda>(k, t). table64_ok k t) (zip [0..<64] bsr2log10)"
    by (simp add: upt_rec bsr2log10_def table64_ok_def powers_nth)
  then show "k < 64 \<Longrightarrow> table64_ok k (bsr2log10 ! k)"
    by (simp add: list_all_length bsr2log10_def)
qed

lemma count_digits64: "n < 2 ^ 64 \<Longrightarrow> do_count_digits64 n = length (dec n)"
proof -
  assume n: "n < 2 ^ 64"
  let ?k = "bsr (or_one n)" let ?t = "bsr2log10 ! ?k"
  have n': "n < 2 ^ Suc 63" using n by simp
  note b = or_one_bsr [OF n']
  then have "?k < 64" by simp
  from table64 [OF this] have t: "table64_ok ?k ?t" .
  then have hi: "n < 10 ^ ?t" "0 < ?t" using b(2) by (auto simp: table64_ok_def)
  show ?thesis
  proof (cases "?t = 1")
    case True
    then have "zero_or_powers_of_10 ! ?t = 0" using t by (simp add: table64_ok_def)
    moreover have "length (dec n) = 1" by (rule length_dec_unique) (use hi True in auto)
    ultimately show ?thesis using True by (simp add: do_count_digits64_def Let_def)
  next
    case False
    then have p: "zero_or_powers_of_10 ! ?t = 10 ^ (?t - 1)" "(10 :: nat) ^ (?t - 2) \<le> 2 ^ ?k"
      using t by (auto simp: table64_ok_def)
    show ?thesis
    proof (cases "n < 10 ^ (?t - 1)")
      case True
      have "length (dec n) = ?t - 1"
      proof (rule length_dec_unique [OF True])
        show "0 < ?t - 1" using False hi(2) by simp
        show "n = 0 \<and> ?t - 1 = 1 \<or> 10 ^ (?t - 1 - 1) \<le> n"
        proof (cases "n = 0")
          case True
          then have "?t = 1" by (simp add: or_one_def bsr.simps bsr2log10_def)
          with False show ?thesis by simp
        next
          case n: False
          then have "2 ^ ?k \<le> n" using b(3) by simp
          with p(2) show ?thesis by (simp add: numeral_2_eq_2)
        qed
      qed
      with True p(1) show ?thesis by (simp add: do_count_digits64_def Let_def)
    next
      case lo: False
      have "length (dec n) = ?t" by (rule length_dec_unique [OF hi]) (use lo in auto)
      with lo p(1) show ?thesis by (simp add: do_count_digits64_def Let_def)
    qed
  qed
qed

definition table32_T :: "nat list" where
  "table32_T =
     [0, 0, 0, 10, 10, 10, 100, 100, 100, 1000, 1000, 1000,
      10000, 10000, 10000, 100000, 100000, 100000, 1000000, 1000000, 1000000,
      10000000, 10000000, 10000000, 100000000, 100000000, 100000000,
      1000000000, 1000000000, 1000000000, 1000000000, 1000000000]"

definition table32_ok :: "nat \<Rightarrow> nat \<Rightarrow> bool" where
  "table32_ok k T \<longleftrightarrow> T < 2 ^ 32 \<and> length (dec T) \<le> 10 \<and> 2 ^ Suc k \<le> (10 :: nat) ^ length (dec T) \<and>
     (if length (dec T) = 1 then T = 0
      else T = 10 ^ (length (dec T) - 1) \<and> (10 :: nat) ^ (length (dec T) - 2) \<le> 2 ^ k)"

lemma length_dec_powers:
  "length (dec 0) = 1" "length (dec 10) = 2" "length (dec 100) = 3" "length (dec 1000) = 4" "length (dec 10000) = 5"
  "length (dec 100000) = 6" "length (dec 1000000) = 7" "length (dec 10000000) = 8" "length (dec 100000000) = 9"
  "length (dec 1000000000) = 10"
  by (simp_all add: dec.simps)

lemma table32: "k < 32 \<Longrightarrow> table32_ok k (table32_T ! k)"
proof -
  have "list_all (\<lambda>(k, T). table32_ok k T) (zip [0..<32] table32_T)"
    by (simp add: upt_rec table32_T_def table32_ok_def length_dec_powers)
  then show "k < 32 \<Longrightarrow> table32_ok k (table32_T ! k)"
    by (simp add: list_all_length table32_T_def)
qed

lemma table32_nth: "k < 32 \<Longrightarrow> count_digits_table ! k = length (dec (table32_T ! k)) * 2 ^ 32 - table32_T ! k"
  unfolding count_digits_table_def table32_T_def [symmetric]
  by (subst nth_map) (simp_all add: table32_T_def FMT_INC_def Let_def)

lemma count_digits32: "n < 2 ^ 32 \<Longrightarrow> do_count_digits32 n = length (dec n)"
proof -
  assume n: "n < 2 ^ 32"
  let ?k = "bsr (or_one n)"
  define T where "T = table32_T ! ?k"
  define d where "d = length (dec T)"
  have "n < 2 ^ Suc 31" using n by simp
  note b = or_one_bsr [OF this]
  then have k: "?k < 32" by simp
  have t: "table32_ok ?k T" unfolding T_def by (rule table32 [OF k])
  have d: "0 < d" "d \<le> 10" "T < 2 ^ 32" "n < 10 ^ d"
    using t b(2) by (auto simp: d_def table32_ok_def)
  have "T \<le> d * 2 ^ 32" using d(1,3) by (cases d) auto
  then have sum: "n + count_digits_table ! ?k = n + d * 2 ^ 32 - T"
    using table32_nth [OF k] by (simp add: T_def d_def)
  have "n + d * 2 ^ 32 < 2 ^ 64" using n d(2) by simp
  then have q: "do_count_digits32 n = (n + d * 2 ^ 32 - T) div 2 ^ 32"
    by (simp add: do_count_digits32_def sum)
  show ?thesis
  proof (cases "T \<le> n")
    case True
    then have "n + d * 2 ^ 32 - T = (n - T) + d * 2 ^ 32" "n - T < 2 ^ 32" using n by auto
    then have "do_count_digits32 n = d" using q by simp
    moreover have "length (dec n) = d"
    proof (rule length_dec_unique [OF d(4,1)])
      show "n = 0 \<and> d = 1 \<or> 10 ^ (d - 1) \<le> n"
      proof (cases "d = 1")
        case True
        then show ?thesis by (cases "n = 0") auto
      next
        case False
        then have "T = 10 ^ (d - 1)" using t by (simp add: table32_ok_def d_def)
        with \<open>T \<le> n\<close> show ?thesis by simp
      qed
    qed
    ultimately show ?thesis by simp
  next
    case False
    then have "T \<noteq> 0" by auto
    then have T: "T = 10 ^ (d - 1)" "(10 :: nat) ^ (d - 2) \<le> 2 ^ ?k" "d \<noteq> 1"
      using t by (auto simp: table32_ok_def d_def split: if_splits)
    have "n + d * 2 ^ 32 - T = (n + 2 ^ 32 - T) + (d - 1) * 2 ^ 32" "n + 2 ^ 32 - T < 2 ^ 32"
      using False d(1,3) by (cases d; auto)+
    then have "do_count_digits32 n = d - 1" using q by simp
    moreover have "length (dec n) = d - 1"
    proof (rule length_dec_unique)
      show "n < 10 ^ (d - 1)" using False T(1) by simp
      show "0 < d - 1" using T(3) d(1) by simp
      show "n = 0 \<and> d - 1 = 1 \<or> 10 ^ (d - 1 - 1) \<le> n"
      proof (cases "n = 0")
        case True
        then have "T = 0" by (simp add: T_def or_one_def bsr.simps table32_T_def)
        with \<open>T \<noteq> 0\<close> show ?thesis by simp
      next
        case n: False
        with b(3) T(2) show ?thesis by (simp add: numeral_2_eq_2)
      qed
    qed
    ultimately show ?thesis by simp
  qed
qed

lemma count_digits_fallback_dec: "count_digits_fallback n c = c + length (dec n) - 1"
proof (induction n c rule: count_digits_fallback.induct)
  case (1 n c)
  have len: "10 \<le> m \<Longrightarrow> length (dec m) = Suc (length (dec (m div 10)))" for m by (rule length_dec_step)
  have one: "m < 10 \<Longrightarrow> length (dec m) = 1" for m by (simp add: dec_small)
  show ?case
  proof (cases "n < 10000")
    case True
    then consider "n < 10" | "10 \<le> n" "n < 100" | "100 \<le> n" "n < 1000" | "1000 \<le> n" by linarith
    then show ?thesis
    proof cases
      case 1
      then show ?thesis by (simp add: count_digits_fallback.simps one)
    next
      case 2
      then show ?thesis by (simp add: count_digits_fallback.simps [of n] len one div_less_iff_less_mult)
    next
      case 3
      then have "10 \<le> n div 10" "n div 10 div 10 < 10" by (simp_all add: div_less_iff_less_mult)
      with 3 show ?thesis by (simp add: count_digits_fallback.simps [of n] len one)
    next
      case 4
      then have "10 \<le> n div 10" "10 \<le> n div 10 div 10" "n div 10 div 10 div 10 < 10"
        using True by (simp_all add: div_less_iff_less_mult div_mult2_eq [symmetric] less_eq_div_iff_mult_less_eq)
      with 4 True show ?thesis by (simp add: count_digits_fallback.simps [of n] len one)
    qed
  next
    case False
    then have "10 \<le> n" "10 \<le> n div 10" "10 \<le> n div 10 div 10" "10 \<le> n div 10 div 10 div 10"
      by (simp_all add: div_mult2_eq [symmetric] less_eq_div_iff_mult_less_eq)
    then have "length (dec n) = 4 + length (dec (n div 10000))"
      by (simp add: len div_mult2_eq [symmetric])
    moreover have "count_digits_fallback n c = count_digits_fallback (n div 10000) (c + 4)"
      using False by (subst count_digits_fallback.simps) simp
    moreover have "0 < length (dec (n div 10000))" by simp
    ultimately show ?thesis using 1 False by simp
  qed
qed

lemma digits2_digits: "v < 100 \<Longrightarrow> digits2 v = [digit (v div 10), digit (v mod 10)]"
proof -
  have "list_all (\<lambda>v. digits2 v = [digit (v div 10), digit (v mod 10)]) [0..<100]" by code_simp
  then show "v < 100 \<Longrightarrow> digits2 v = [digit (v div 10), digit (v mod 10)]" by (simp add: list_all_iff)
qed

lemma write_decimal_dec: "write_decimal v written = dec v @ written"
proof (induction v written rule: write_decimal.induct)
  case (1 v written)
  consider "v < 10" | "10 \<le> v" "v < 100" | "100 \<le> v" by linarith
  then show ?case
  proof cases
    case 1
    then show ?thesis by (simp add: write_decimal.simps dec_small)
  next
    case 2
    then show ?thesis by (simp add: write_decimal.simps [of v] digits2_digits dec_step [of v] dec_small div_less_iff_less_mult)
  next
    case 3
    then have "dec v = dec (v div 100) @ [digit (v div 10 mod 10), digit (v mod 10)]"
      by (simp add: dec_step [of v] dec_step [of "v div 10"] less_eq_div_iff_mult_less_eq div_mult2_eq [symmetric])
    moreover have "v mod 100 = 10 * (v div 10 mod 10) + v mod 10" using mod_mult2_eq [of v 10 10] by simp
    then have "v mod 100 div 10 = v div 10 mod 10" "v mod 100 mod 10 = v mod 10" by simp_all
    ultimately show ?thesis using 1 3
      by (subst write_decimal.simps) (simp add: digits2_digits)
  qed
qed

lemma format_unsigned_dec:
  assumes "v < 2 ^ 64"
  shows "format_unsigned v = Inr (dec v)"
proof -
  have "length (dec v) \<le> 21"
  proof (rule ccontr)
    assume "\<not> ?thesis"
    then have "(10 :: nat) ^ 20 \<le> 10 ^ (length (dec v) - 1)" by (intro power_increasing) auto
    moreover have "v = 0 \<or> 10 ^ (length (dec v) - 1) \<le> v" using length_dec_bounds by blast
    ultimately show False using assms \<open>\<not> length (dec v) \<le> 21\<close> by (auto simp: dec_small)
  qed
  then show ?thesis using assms
    by (simp add: format_unsigned_def format_decimal_def count_digits64 write_decimal_dec format_int_buffer_size_def)
qed

lemma format_signed_dec:
  assumes "0 < w" "w \<le> 64" "- (2 ^ (w - 1)) \<le> v" "v < 2 ^ (w - 1)"
  shows "format_signed w v = Inr (dec_int v)"
proof -
  have half: "(2 :: int) ^ (w - 1) \<le> 2 ^ 63" using assms(2) by (intro power_increasing) auto
  have w: "(2 :: int) ^ w = 2 * 2 ^ (w - 1)" using assms(1) by (cases w) auto
  have pos: "(0 :: int) < 2 ^ (w - 1)" by simp
  show ?thesis
  proof (cases "v < 0")
    case True
    have "(0 - v mod 2 ^ w) mod 2 ^ w = (- v) mod 2 ^ w" by (simp add: mod_minus_eq)
    also have "\<dots> = - v" using True assms(3) w pos by (intro mod_pos_pos_trivial) linarith+
    finally have "(0 - v mod 2 ^ w) mod 2 ^ w = - v" .
    moreover have "nat (- v) < 2 ^ 64" using assms(3) half by (simp add: nat_less_iff)
    ultimately show ?thesis using True format_unsigned_dec [of "nat (- v)"]
      by (simp add: format_signed_def Let_def dec_int_def)
  next
    case False
    then have "v mod 2 ^ w = v" using assms(4) w pos by (intro mod_pos_pos_trivial) linarith+
    moreover have "nat v < 2 ^ 64" using assms(4) half False by (simp add: nat_less_iff)
    ultimately show ?thesis using False format_unsigned_dec [of "nat v"]
      by (simp add: format_signed_def Let_def dec_int_def)
  qed
qed

section \<open>Properties\<close>

text \<open>C38: The three ways of counting digits agree with the length of the decimal notation: the loop for
  every number, the look-up by highest bit for every 64-bit number, and the one that adds a table
  entry and shifts for every 32-bit number.\<close>

theorem count_digits_exact:
  assumes "n < 2 ^ 64"
  shows "count_digits_fallback n 1 = length (dec n) \<and> do_count_digits64 n = length (dec n) \<and>
     (n < 2 ^ 32 \<longrightarrow> do_count_digits32 n = length (dec n))"
  using count_digits_fallback_dec [of n 1] count_digits64 [OF assms] count_digits32 [of n] by simp

lemma count_digits_exact_witness:
  "count_digits_fallback 4294967295 1 = length (dec 4294967295) \<and> do_count_digits64 4294967295 = length (dec 4294967295) \<and>
   do_count_digits32 4294967295 = length (dec 4294967295)"
  using count_digits_exact [of 4294967295] by simp

text \<open>\<open>format_int\<close> writes the decimal notation of every integer of at most 64 bits, with a minus
  sign for the negative ones and also for the least one, whose absolute value does not fit; its
  buffer is always long enough.\<close>

theorem format_int_exact:
  assumes "0 < w" "w \<le> 64"
  shows "(\<forall>v. - (2 ^ (w - 1)) \<le> v \<and> v < 2 ^ (w - 1) \<longrightarrow> format_signed w v = Inr (dec_int v)) \<and>
     (\<forall>v < 2 ^ w. format_unsigned v = Inr (dec v))"
proof -
  have "(2 :: nat) ^ w \<le> 2 ^ 64" using assms(2) by (intro power_increasing) auto
  then show ?thesis using format_signed_dec [OF assms] format_unsigned_dec by (auto intro: less_le_trans)
qed

lemma format_int_exact_witness:
  "format_signed 32 (- 2147483648) = Inr (dec_int (- 2147483648)) \<and> format_unsigned 4294967295 = Inr (dec 4294967295)"
  using format_int_exact [of 32] by simp

end
