(* ===== verification/LogLevels.thy ===== *)
theory LogLevels
  imports Prelude "HOL-Library.AList"
begin

text \<open>
  The levels of the log library that both programs use: their names (\<open>common.h\<close>,
  \<open>common-inl.h\<close>), the reading of a level configuration (\<open>cfg/helpers-inl.h\<close>), the loggers'
  tests of a level (\<open>logger-inl.h\<close>, \<open>logger.h\<close>) and the registry that spreads levels over the
  loggers (\<open>details/registry-inl.h\<close>).  The hash maps of the code are association lists; their
  order is never observable below.
\<close>

section \<open>Levels\<close>

datatype log_level = L_trace | L_debug | L_info | L_warn | L_err | L_critical | L_off

fun level_num :: "log_level \<Rightarrow> nat" where
  "level_num L_trace = 0"
| "level_num L_debug = 1"
| "level_num L_info = 2"
| "level_num L_warn = 3"
| "level_num L_err = 4"
| "level_num L_critical = 5"
| "level_num L_off = 6"

definition all_levels :: "log_level list" where
  "all_levels = [L_trace, L_debug, L_info, L_warn, L_err, L_critical, L_off]"

definition level_string_views :: "string list" where
  "level_string_views = [''trace'', ''debug'', ''info'', ''warning'', ''error'', ''critical'', ''off'']"

definition short_level_names :: "string list" where
  "short_level_names = [''T'', ''D'', ''I'', ''W'', ''E'', ''C'', ''O'']"

definition level_view :: "log_level \<Rightarrow> string" where "level_view l = level_string_views ! level_num l"

definition level_short :: "log_level \<Rightarrow> string" where "level_short l = short_level_names ! level_num l"

fun find_index :: "'a \<Rightarrow> 'a list \<Rightarrow> nat \<Rightarrow> nat option" where
  "find_index x [] i = None"
| "find_index x (y # ys) i = (if x = y then Some i else find_index x ys (Suc i))"

definition level_from_str :: "string \<Rightarrow> log_level" where
  "level_from_str name =
     (case find_index name level_string_views 0 of
        Some i \<Rightarrow> all_levels ! i
      | None \<Rightarrow> if name = ''warn'' then L_warn else if name = ''err'' then L_err else L_off)"

section \<open>Reading a configuration\<close>

definition to_lower_char :: "char \<Rightarrow> char" where
  "to_lower_char c =
     (let n = of_char c :: nat in if 65 \<le> n \<and> n \<le> 90 then char_of (n + (97 - 65)) else c)"

definition to_lower :: "string \<Rightarrow> string" where "to_lower s = map to_lower_char s"

definition is_blank :: "char \<Rightarrow> bool" where "is_blank c \<longleftrightarrow> c \<in> set '' \<newline>'' \<or> of_char c \<in> {13 :: nat, 9}"

text \<open>Erase behind the last non-blank, then up to the first.\<close>

definition trim_str :: "string \<Rightarrow> string" where
  "trim_str s = (let s1 = rev (dropWhile is_blank (rev s)) in dropWhile is_blank s1)"

definition extract_kv :: "char \<Rightarrow> string \<Rightarrow> string \<times> string" where
  "extract_kv sep str =
     (let (k, v) = (if sep \<notin> set str then ([], str)
                    else (takeWhile (\<lambda>c. c \<noteq> sep) str, tl (dropWhile (\<lambda>c. c \<noteq> sep) str)))
      in (trim_str k, trim_str v))"

lemma tl_dropWhile_shorter: "s \<noteq> [] \<Longrightarrow> length (tl (dropWhile P s)) < length s"
proof -
  assume "s \<noteq> []"
  then have "0 < length s" by simp
  with length_dropWhile_le [of P s] show ?thesis unfolding length_tl by linarith
qed

text \<open>\<open>std::getline\<close> with a delimiter: no token follows a delimiter at the end.\<close>

function tokens :: "char \<Rightarrow> string \<Rightarrow> string list" where
  "tokens d s =
     (if s = [] then []
      else takeWhile (\<lambda>c. c \<noteq> d) s # tokens d (tl (dropWhile (\<lambda>c. c \<noteq> d) s)))"
  by pat_completeness auto

termination
  by (relation "measure (\<lambda>(d, s). length s)") (use tl_dropWhile_shorter in \<open>simp_all del: length_tl\<close>)

declare tokens.simps [simp del]

definition extract_key_vals :: "string \<Rightarrow> (string \<times> string) list" where
  "extract_key_vals str =
     fold (\<lambda>token rv. if token = [] then rv
                      else let kv = extract_kv CHR ''='' token in AList.update (fst kv) (snd kv) rv)
       (tokens CHR '','' str) []"

text \<open>The levels by logger name and the global level found; \<open>None\<close>: the input is ignored.\<close>

definition read_level :: "string \<times> string \<Rightarrow> (string \<times> log_level) list \<times> log_level option
    \<Rightarrow> (string \<times> log_level) list \<times> log_level option" where
  "read_level = (\<lambda>(logger_name, value) (levels, global).
     let level_name = to_lower value; level = level_from_str level_name
     in if level = L_off \<and> level_name \<noteq> ''off'' then (levels, global)
        else if logger_name = [] then (levels, Some level)
        else (AList.update logger_name level levels, global))"

definition load_levels :: "string \<Rightarrow> ((string \<times> log_level) list \<times> log_level option) option" where
  "load_levels input =
     (if input = [] \<or> 512 < length input then None
      else Some (fold read_level (extract_key_vals input) ([], None)))"

section \<open>Loggers and the registry\<close>

record logger =
  lg_name :: string
  lg_level :: log_level
  lg_flush :: log_level
  lg_trace :: "nat option"

text \<open>Loggers are shared objects, named by their address.\<close>

record registry =
  rg_loggers :: "(string \<times> nat) list"
  rg_objs :: "nat \<Rightarrow> logger"
  rg_levels :: "(string \<times> log_level) list"
  rg_global :: log_level
  rg_flush :: log_level
  rg_backtrace :: nat
  rg_auto :: bool
  rg_default :: "nat option"

definition should_log :: "log_level \<Rightarrow> logger \<Rightarrow> bool" where
  "should_log msg_level l \<longleftrightarrow> level_num msg_level \<ge> level_num (lg_level l)"

definition should_flush :: "log_level \<Rightarrow> logger \<Rightarrow> bool" where
  "should_flush msg_level l \<longleftrightarrow> level_num msg_level \<ge> level_num (lg_flush l) \<and> msg_level \<noteq> L_off"

definition on_logger :: "(logger \<Rightarrow> logger) \<Rightarrow> nat \<Rightarrow> registry \<Rightarrow> registry" where
  "on_logger f r g = g\<lparr>rg_objs := (rg_objs g)(r := f (rg_objs g r))\<rparr>"

definition lg_set_level :: "log_level \<Rightarrow> logger \<Rightarrow> logger" where "lg_set_level v l = l\<lparr>lg_level := v\<rparr>"
definition lg_flush_on :: "log_level \<Rightarrow> logger \<Rightarrow> logger" where "lg_flush_on v l = l\<lparr>lg_flush := v\<rparr>"

definition apply_all :: "(logger \<Rightarrow> logger) \<Rightarrow> registry \<Rightarrow> registry" where
  "apply_all f g = fold (\<lambda>(n, r). on_logger f r) (rg_loggers g) g"

definition rg_get :: "string \<Rightarrow> registry \<Rightarrow> nat option" where
  "rg_get name g = map_of (rg_loggers g) name"

definition register_logger :: "nat \<Rightarrow> registry \<Rightarrow> registry res" where
  "register_logger r g =
     (let name = lg_name (rg_objs g r)
      in if map_of (rg_loggers g) name \<noteq> None then Inl (Exn ''logger already exists'')
         else Inr (g\<lparr>rg_loggers := AList.update name r (rg_loggers g)\<rparr>))"

definition initialize_logger :: "nat \<Rightarrow> registry \<Rightarrow> registry res" where
  "initialize_logger r g =
     (let name = lg_name (rg_objs g r);
          new_level = (case map_of (rg_levels g) name of Some v \<Rightarrow> v | None \<Rightarrow> rg_global g);
          g1 = on_logger (lg_set_level new_level) r g;
          g2 = on_logger (lg_flush_on (rg_flush g)) r g1;
          g3 = (if rg_backtrace g > 0 then on_logger (\<lambda>l. l\<lparr>lg_trace := Some (rg_backtrace g)\<rparr>) r g2 else g2)
      in if rg_auto g then register_logger r g3 else Inr g3)"

definition set_default_logger :: "nat option \<Rightarrow> registry \<Rightarrow> registry" where
  "set_default_logger d g =
     (let ls1 = (case rg_default g of None \<Rightarrow> rg_loggers g
                                    | Some r \<Rightarrow> AList.delete (lg_name (rg_objs g r)) (rg_loggers g));
          ls2 = (case d of None \<Rightarrow> ls1 | Some r \<Rightarrow> AList.update (lg_name (rg_objs g r)) r ls1)
      in g\<lparr>rg_loggers := ls2, rg_default := d\<rparr>)"

definition rg_set_level :: "log_level \<Rightarrow> registry \<Rightarrow> registry" where
  "rg_set_level v g = (apply_all (lg_set_level v) g)\<lparr>rg_global := v\<rparr>"

definition rg_flush_on :: "log_level \<Rightarrow> registry \<Rightarrow> registry" where
  "rg_flush_on v g = (apply_all (lg_flush_on v) g)\<lparr>rg_flush := v\<rparr>"

definition rg_enable_backtrace :: "nat \<Rightarrow> registry \<Rightarrow> registry" where
  "rg_enable_backtrace n g = apply_all (\<lambda>l. l\<lparr>lg_trace := Some n\<rparr>) (g\<lparr>rg_backtrace := n\<rparr>)"

definition rg_disable_backtrace :: "registry \<Rightarrow> registry" where
  "rg_disable_backtrace g = apply_all (\<lambda>l. l\<lparr>lg_trace := None\<rparr>) (g\<lparr>rg_backtrace := 0\<rparr>)"

definition rg_drop :: "string \<Rightarrow> registry \<Rightarrow> registry" where
  "rg_drop name g =
     g\<lparr>rg_loggers := AList.delete name (rg_loggers g),
       rg_default := (case rg_default g of None \<Rightarrow> None
                                         | Some r \<Rightarrow> if lg_name (rg_objs g r) = name then None else Some r)\<rparr>"

definition rg_drop_all :: "registry \<Rightarrow> registry" where
  "rg_drop_all g = g\<lparr>rg_loggers := [], rg_default := None\<rparr>"

definition set_automatic_registration :: "bool \<Rightarrow> registry \<Rightarrow> registry" where
  "set_automatic_registration a g = g\<lparr>rg_auto := a\<rparr>"

definition set_levels :: "(string \<times> log_level) list \<Rightarrow> log_level option \<Rightarrow> registry \<Rightarrow> registry" where
  "set_levels levels global g =
     (let g1 = g\<lparr>rg_levels := levels, rg_global := (case global of Some v \<Rightarrow> v | None \<Rightarrow> rg_global g)\<rparr>
      in fold (\<lambda>(name, r) g.
           case map_of levels name of
             Some v \<Rightarrow> on_logger (lg_set_level v) r g
           | None \<Rightarrow> (case global of Some v \<Rightarrow> on_logger (lg_set_level v) r g | None \<Rightarrow> g))
         (rg_loggers g1) g1)"

section \<open>Lemmas\<close>

lemma from_view [simp]: "level_from_str (level_view l) = l"
  by (cases l) (simp_all add: level_view_def level_string_views_def level_from_str_def all_levels_def)

lemma view_inj: "level_view a = level_view b \<Longrightarrow> a = b"
  by (metis from_view)

lemma from_off: "level_from_str name = L_off \<Longrightarrow> name = ''off'' \<or> name \<notin> set level_string_views"
  by (auto simp: level_from_str_def level_string_views_def all_levels_def split: if_splits)

lemma tokens_Nil [simp]: "tokens d [] = []"
  by (simp add: tokens.simps)

lemma before_delimiter:
  "d \<notin> set t \<Longrightarrow> takeWhile (\<lambda>c. c \<noteq> d) (t @ d # rest) = t \<and> dropWhile (\<lambda>c. c \<noteq> d) (t @ d # rest) = d # rest"
  by (induction t) auto

lemma no_delimiter: "d \<notin> set t \<Longrightarrow> takeWhile (\<lambda>c. c \<noteq> d) t = t \<and> dropWhile (\<lambda>c. c \<noteq> d) t = []"
  by (induction t) auto

lemma tokens_join: "d \<notin> set t \<Longrightarrow> tokens d (t @ d # rest) = t # tokens d rest"
  by (subst tokens.simps) (simp add: before_delimiter)

lemma tokens_last: "d \<notin> set t \<Longrightarrow> t \<noteq> [] \<Longrightarrow> tokens d t = [t]"
  by (subst tokens.simps) (simp add: no_delimiter)

text \<open>Strings without blanks at their ends are not changed by trimming.\<close>

definition bare :: "string \<Rightarrow> bool" where
  "bare s \<longleftrightarrow> (s \<noteq> [] \<longrightarrow> \<not> is_blank (hd s) \<and> \<not> is_blank (last s))"

lemma trim_bare: "bare s \<Longrightarrow> trim_str s = s"
proof (cases s rule: rev_cases)
  case (snoc xs x)
  assume "bare s"
  then have "\<not> is_blank x" "\<not> is_blank (hd s)" using snoc by (auto simp: bare_def)
  then show ?thesis using snoc by (cases xs) (auto simp: trim_str_def)
qed (simp add: trim_str_def)

lemma view_plain:
  "to_lower (level_view l) = level_view l" "bare (level_view l)" "CHR '','' \<notin> set (level_view l)"
  by (cases l; simp add: level_view_def level_string_views_def to_lower_def to_lower_char_def bare_def is_blank_def)+

text \<open>A configuration as it is written.\<close>

definition entry_text :: "string \<times> log_level \<Rightarrow> string" where
  "entry_text = (\<lambda>(name, l). name @ CHR ''='' # level_view l)"

fun config_text :: "(string \<times> log_level) list \<Rightarrow> string" where
  "config_text [] = []"
| "config_text [e] = entry_text e"
| "config_text (e # es) = entry_text e @ CHR '','' # config_text es"

definition plain_name :: "string \<Rightarrow> bool" where
  "plain_name n \<longleftrightarrow> bare n \<and> CHR ''='' \<notin> set n \<and> CHR '','' \<notin> set n"

lemma tokens_config: "\<forall>(n, l) \<in> set es. plain_name n \<Longrightarrow> tokens CHR '','' (config_text es) = map entry_text es"
proof (induction es rule: config_text.induct)
  case (2 e)
  then have "CHR '','' \<notin> set (entry_text e)" "entry_text e \<noteq> []"
    using view_plain(3) by (auto simp: entry_text_def plain_name_def)
  then show ?case by (simp add: tokens_last)
next
  case (3 e e' es)
  then have "CHR '','' \<notin> set (entry_text e)"
    using view_plain(3) by (auto simp: entry_text_def plain_name_def)
  then show ?case using 3 by (simp add: tokens_join)
qed simp

lemma extract_entry: "plain_name n \<Longrightarrow> extract_kv CHR ''='' (entry_text (n, l)) = (n, level_view l)"
  using view_plain(2) [of l] by (simp add: extract_kv_def entry_text_def plain_name_def before_delimiter trim_bare)

lemma update_new: "k \<notin> fst ` set al \<Longrightarrow> AList.update k v al = al @ [(k, v)]"
  by (induction al) auto

lemma extract_config:
  assumes "\<forall>(n, l) \<in> set es. plain_name n" "distinct (map fst es)"
  shows "extract_key_vals (config_text es) = map (\<lambda>(n, l). (n, level_view l)) es"
proof -
  have fold: "fold (\<lambda>token rv. if token = [] then rv
        else let kv = extract_kv CHR ''='' token in AList.update (fst kv) (snd kv) rv) (map entry_text es) acc =
      acc @ map (\<lambda>(n, l). (n, level_view l)) es"
    if "fst ` set acc \<inter> fst ` set es = {}" for acc
    using assms that
  proof (induction es arbitrary: acc)
    case (Cons e es)
    obtain n l where e: "e = (n, l)" by (cases e)
    have "entry_text e \<noteq> []" by (simp add: e entry_text_def)
    moreover have "n \<notin> fst ` set acc" using Cons.prems(3) by (auto simp: e)
    moreover have "plain_name n" using Cons.prems(1) by (simp add: e)
    moreover have "fst ` set (acc @ [(n, level_view l)]) \<inter> fst ` set es = {}"
      using Cons.prems(2,3) by (auto simp: e)
    ultimately show ?case using Cons.IH [of "acc @ [(n, level_view l)]"] Cons.prems(1,2)
      by (simp add: e extract_entry update_new)
  qed simp
  then show ?thesis using tokens_config [OF assms(1)] by (simp add: extract_key_vals_def)
qed

lemma read_levels:
  assumes "distinct (map fst es)" "fst ` set acc \<inter> fst ` set es = {}"
  shows "fold read_level (map (\<lambda>(n, l). (n, level_view l)) es) (acc, global) =
     (acc @ filter (\<lambda>(n, l). n \<noteq> []) es,
      case map_of es [] of Some l \<Rightarrow> Some l | None \<Rightarrow> global)"
  using assms
proof (induction es arbitrary: acc global)
  case (Cons e es)
  obtain n l where e: "e = (n, l)" by (cases e)
  have off: "\<not> (l = L_off \<and> level_view l \<noteq> ''off'')" by (cases l) (simp_all add: level_view_def level_string_views_def)
  have n: "n \<notin> fst ` set acc" "map_of es n = None"
    using Cons.prems by (auto simp: e map_of_eq_None_iff)
  show ?case
  proof (cases "n = []")
    case True
    then have "read_level (n, level_view l) (acc, global) = (acc, Some l)"
      using off by (auto simp: read_level_def view_plain(1) Let_def)
    with Cons.IH [of acc "Some l"] Cons.prems n(2) True show ?thesis by (simp add: e)
  next
    case False
    then have "read_level (n, level_view l) (acc, global) = (acc @ [(n, l)], global)"
      using off n(1) by (auto simp: read_level_def view_plain(1) Let_def update_new)
    moreover have "fst ` set (acc @ [(n, l)]) \<inter> fst ` set es = {}" using Cons.prems by (auto simp: e)
    ultimately show ?thesis using Cons.IH [of "acc @ [(n, l)]" global] Cons.prems(1) False by (simp add: e)
  qed
qed simp

lemma set_levels_fold:
  fixes levels :: "(string \<times> log_level) list" and global :: "log_level option"
  defines "f \<equiv> (\<lambda>(name, r) g. case map_of levels name of
             Some v \<Rightarrow> on_logger (lg_set_level v) r g
           | None \<Rightarrow> (case global of Some v \<Rightarrow> on_logger (lg_set_level v) r g | None \<Rightarrow> g))"
  assumes "distinct (map snd ls)"
  shows "rg_levels (fold f ls g) = rg_levels g \<and> rg_global (fold f ls g) = rg_global g \<and>
     rg_loggers (fold f ls g) = rg_loggers g \<and>
     (\<forall>(name, r) \<in> set ls. lg_level (rg_objs (fold f ls g) r) =
        (case map_of levels name of Some v \<Rightarrow> v
         | None \<Rightarrow> (case global of Some v \<Rightarrow> v | None \<Rightarrow> lg_level (rg_objs g r)))) \<and>
     (\<forall>r. r \<notin> snd ` set ls \<longrightarrow> rg_objs (fold f ls g) r = rg_objs g r)"
  using assms(2)
proof (induction ls arbitrary: g)
  case (Cons e ls)
  obtain n r where e [simp]: "e = (n, r)" by (cases e)
  have step: "rg_levels (f e g) = rg_levels g" "rg_global (f e g) = rg_global g" "rg_loggers (f e g) = rg_loggers g"
    "lg_level (rg_objs (f e g) r) = (case map_of levels n of Some v \<Rightarrow> v
         | None \<Rightarrow> (case global of Some v \<Rightarrow> v | None \<Rightarrow> lg_level (rg_objs g r)))"
    "\<And>x. x \<noteq> r \<Longrightarrow> rg_objs (f e g) x = rg_objs g x"
    by (simp_all add: e f_def on_logger_def lg_set_level_def split: option.splits)
  have r: "r \<notin> snd ` set ls" using Cons.prems by (simp add: e)
  have ih: "rg_levels (fold f ls (f e g)) = rg_levels (f e g)" "rg_global (fold f ls (f e g)) = rg_global (f e g)"
    "rg_loggers (fold f ls (f e g)) = rg_loggers (f e g)"
    "\<And>name x. (name, x) \<in> set ls \<Longrightarrow> lg_level (rg_objs (fold f ls (f e g)) x) =
        (case map_of levels name of Some v \<Rightarrow> v
         | None \<Rightarrow> (case global of Some v \<Rightarrow> v | None \<Rightarrow> lg_level (rg_objs (f e g) x)))"
    "\<And>x. x \<notin> snd ` set ls \<Longrightarrow> rg_objs (fold f ls (f e g)) x = rg_objs (f e g) x"
    using Cons.IH [of "f e g"] Cons.prems by auto
  have other: "x \<noteq> r" if "(name, x) \<in> set ls" for name x using r that by force
  have old: "rg_objs (f e g) x = rg_objs g x" if "(name, x) \<in> set ls" for name x
    using step(5) other [OF that] by blast
  have "lg_level (rg_objs (fold f ls (f e g)) x) = (case map_of levels name of Some v \<Rightarrow> v
         | None \<Rightarrow> (case global of Some v \<Rightarrow> v | None \<Rightarrow> lg_level (rg_objs g x)))"
    if "(name, x) \<in> set ls" for name x using ih(4) [OF that] unfolding old [OF that] .
  moreover have "rg_objs (fold f ls (f e g)) r = rg_objs (f e g) r" using ih(5) r by blast
  ultimately show ?case using ih(1-3,5) step r by auto
qed simp

section \<open>Properties\<close>

text \<open>What a written configuration is read as, and what it does to the registered loggers.\<close>

lemma load_config:
  assumes "es \<noteq> []" "length (config_text es) \<le> 512" "distinct (map fst es)" "\<forall>(n, l) \<in> set es. plain_name n"
  shows "load_levels (config_text es) = Some (filter (\<lambda>(n, l). n \<noteq> []) es, map_of es [])"
proof -
  have "config_text es \<noteq> []" using assms(1) by (cases es rule: config_text.cases) (auto simp: entry_text_def)
  moreover have "fold read_level (map (\<lambda>(n, l). (n, level_view l)) es) ([], None) =
      (filter (\<lambda>(n, l). n \<noteq> []) es, map_of es [])"
    using read_levels [OF assms(3), of "[]" None] by (simp split: option.splits)
  ultimately show ?thesis using assms(2) extract_config [OF assms(4,3)] by (simp add: load_levels_def)
qed

lemma set_levels_registered:
  assumes "distinct (map snd (rg_loggers g))" "(name, r) \<in> set (rg_loggers g)"
  shows "lg_level (rg_objs (set_levels levels global g) r) =
     (case map_of levels name of Some v \<Rightarrow> v
      | None \<Rightarrow> (case global of Some v \<Rightarrow> v | None \<Rightarrow> lg_level (rg_objs g r)))"
proof -
  let ?g1 = "g\<lparr>rg_levels := levels, rg_global := (case global of Some v \<Rightarrow> v | None \<Rightarrow> rg_global g)\<rparr>"
  have all: "\<forall>(name, r) \<in> set (rg_loggers ?g1). lg_level (rg_objs (set_levels levels global g) r) =
        (case map_of levels name of Some v \<Rightarrow> v
         | None \<Rightarrow> (case global of Some v \<Rightarrow> v | None \<Rightarrow> lg_level (rg_objs ?g1 r)))"
    unfolding set_levels_def Let_def
    using set_levels_fold [of "rg_loggers ?g1" global levels ?g1] assms(1) by simp
  from bspec [OF all, of "(name, r)"] assms(2) show ?thesis by (simp split: option.splits)
qed

lemma map_of_named: "name \<noteq> [] \<Longrightarrow> map_of (filter (\<lambda>(n, l). n \<noteq> []) es) name = map_of es name"
  by (induction es) auto

lemma map_of_unnamed: "map_of (filter (\<lambda>(n, l). n \<noteq> []) es) [] = None"
  by (induction es) auto

text \<open>C40: A level configuration is read back as it was written, and takes effect as written: a list
  of loggers with distinct plain names and their levels.  A registered logger gets the level written
  for its name, or else the level written for the empty name, or else keeps its own.  The empty name
  alone stands for all other loggers; a star is a plain name like any other.\<close>

theorem config_roundtrip:
  assumes "es \<noteq> []" "length (config_text es) \<le> 512" "distinct (map fst es)" "\<forall>(n, l) \<in> set es. plain_name n"
    "distinct (map snd (rg_loggers g))"
  shows "load_levels (config_text es) = Some (filter (\<lambda>(n, l). n \<noteq> []) es, map_of es []) \<and>
     (\<forall>levels global. load_levels (config_text es) = Some (levels, global) \<longrightarrow>
       (\<forall>(name, r) \<in> set (rg_loggers g). lg_level (rg_objs (set_levels levels global g) r) =
         (case map_of es name of Some v \<Rightarrow> v
          | None \<Rightarrow> (case map_of es [] of Some v \<Rightarrow> v | None \<Rightarrow> lg_level (rg_objs g r)))))"
proof -
  have "lg_level (rg_objs (set_levels (filter (\<lambda>(n, l). n \<noteq> []) es) (map_of es []) g) r) =
      (case map_of es name of Some v \<Rightarrow> v
       | None \<Rightarrow> (case map_of es [] of Some v \<Rightarrow> v | None \<Rightarrow> lg_level (rg_objs g r)))"
    if "(name, r) \<in> set (rg_loggers g)" for name r
    unfolding set_levels_registered [OF assms(5) that]
    by (cases "name = []") (auto simp: map_of_named map_of_unnamed split: option.splits)
  with load_config [OF assms(1-4)] show ?thesis by auto
qed

definition sample_registry :: registry where
  "sample_registry = \<lparr>rg_loggers = [([], 0), (''net'', 1)],
     rg_objs = (\<lambda>r. \<lparr>lg_name = (if r = 0 then [] else if r = 1 then ''net'' else ''new''), lg_level = L_info,
        lg_flush = L_off, lg_trace = None\<rparr>),
     rg_levels = [], rg_global = L_info, rg_flush = L_off, rg_backtrace = 0, rg_auto = True, rg_default = Some 0\<rparr>"

lemma config_roundtrip_witness:
  "load_levels ''net=debug,=warning'' = Some ([(''net'', L_debug)], Some L_warn) \<and>
   lg_level (rg_objs (set_levels [(''net'', L_debug)] (Some L_warn) sample_registry) 1) = L_debug"
proof -
  have t: "config_text [(''net'', L_debug), ([], L_warn)] = ''net=debug,=warning''"
    by (simp add: entry_text_def level_view_def level_string_views_def)
  have d: "distinct (map snd (rg_loggers sample_registry))" "(''net'', 1) \<in> set (rg_loggers sample_registry)"
    by (simp_all add: sample_registry_def)
  have e: "[(''net'', L_debug), ([], L_warn)] \<noteq> []" "length ''net=debug,=warning'' \<le> 512"
    "distinct (map fst [(''net'', L_debug), ([], L_warn)])"
    "\<forall>(n, l) \<in> set [(''net'', L_debug), ([], L_warn)]. plain_name n"
    by (simp_all add: plain_name_def bare_def is_blank_def)
  note c = config_roundtrip [OF e(1) _ e(3,4) d(1), unfolded t, OF e(2)]
  then have "load_levels ''net=debug,=warning'' = Some ([(''net'', L_debug)], Some L_warn)" by simp
  with c d(2) show ?thesis by fastforce
qed

text \<open>The documented configuration that turns off all loggers but one does not: the star is the name
  of one logger, no level for the others is found, and every other registered logger keeps its level.\<close>

theorem star_is_a_plain_name:
  assumes "distinct (map snd (rg_loggers g))" "(name, r) \<in> set (rg_loggers g)"
    "name \<noteq> ''*''" "name \<noteq> ''logger1''"
  shows "load_levels ''*=off,logger1=debug'' = Some ([(''*'', L_off), (''logger1'', L_debug)], None) \<and>
     lg_level (rg_objs (set_levels [(''*'', L_off), (''logger1'', L_debug)] None g) r) = lg_level (rg_objs g r)"
proof -
  have t: "config_text [(''*'', L_off), (''logger1'', L_debug)] = ''*=off,logger1=debug''"
    by (simp add: entry_text_def level_view_def level_string_views_def)
  have "load_levels ''*=off,logger1=debug'' = Some ([(''*'', L_off), (''logger1'', L_debug)], None)"
    using load_config [of "[(''*'', L_off), (''logger1'', L_debug)]"]
    unfolding t by (simp add: plain_name_def bare_def is_blank_def)
  with assms(3,4) show ?thesis by (simp add: set_levels_registered [OF assms(1,2)])
qed

lemma star_is_a_plain_name_witness:
  "load_levels ''*=off,logger1=debug'' = Some ([(''*'', L_off), (''logger1'', L_debug)], None) \<and>
   lg_level (rg_objs (set_levels [(''*'', L_off), (''logger1'', L_debug)] None sample_registry) 1) = L_info"
  using star_is_a_plain_name [of sample_registry "''net''" 1] by (simp add: sample_registry_def)

text \<open>A level that is not recognised is ignored, and not taken for \<open>info\<close>.\<close>

lemma unknown_level_ignored:
  "load_levels ''net=verbose'' = Some ([], None)" "load_levels ''verbose'' = Some ([], None)"
  by code_simp+

text \<open>Setting levels reaches every logger: a registered logger gets the level of its name, or the
  global level if one is given, or keeps its own; a logger initialised later gets the level of its
  name or the global level.\<close>

theorem levels_reach_all_loggers:
  assumes "distinct (map snd (rg_loggers g))" "r0 \<notin> snd ` set (rg_loggers g)"
    "initialize_logger r0 (set_levels levels global g) = Inr g'"
  shows "(\<forall>(name, r) \<in> set (rg_loggers g). lg_level (rg_objs g' r) =
        (case map_of levels name of Some v \<Rightarrow> v
         | None \<Rightarrow> (case global of Some v \<Rightarrow> v | None \<Rightarrow> lg_level (rg_objs g r)))) \<and>
     lg_level (rg_objs g' r0) = (case map_of levels (lg_name (rg_objs g r0)) of Some v \<Rightarrow> v
         | None \<Rightarrow> (case global of Some v \<Rightarrow> v | None \<Rightarrow> rg_global g))"
proof -
  let ?g1 = "g\<lparr>rg_levels := levels, rg_global := (case global of Some v \<Rightarrow> v | None \<Rightarrow> rg_global g)\<rparr>"
  let ?g2 = "set_levels levels global g"
  have F: "rg_levels ?g2 = rg_levels ?g1 \<and> rg_global ?g2 = rg_global ?g1 \<and> rg_loggers ?g2 = rg_loggers ?g1 \<and>
     (\<forall>(name, r) \<in> set (rg_loggers ?g1). lg_level (rg_objs ?g2 r) =
        (case map_of levels name of Some v \<Rightarrow> v
         | None \<Rightarrow> (case global of Some v \<Rightarrow> v | None \<Rightarrow> lg_level (rg_objs ?g1 r)))) \<and>
     (\<forall>r. r \<notin> snd ` set (rg_loggers ?g1) \<longrightarrow> rg_objs ?g2 r = rg_objs ?g1 r)"
    unfolding set_levels_def Let_def by (rule set_levels_fold) (simp add: assms(1))
  have o: "rg_objs ?g1 = rg_objs g" by simp
  from F have f: "rg_levels ?g2 = levels" "rg_global ?g2 = (case global of Some v \<Rightarrow> v | None \<Rightarrow> rg_global g)"
    "\<And>name r. (name, r) \<in> set (rg_loggers g) \<Longrightarrow> lg_level (rg_objs ?g2 r) =
        (case map_of levels name of Some v \<Rightarrow> v
         | None \<Rightarrow> (case global of Some v \<Rightarrow> v | None \<Rightarrow> lg_level (rg_objs g r)))"
    "rg_objs ?g2 r0 = rg_objs g r0"
    using assms(2) unfolding o by auto
  have i: "lg_level (rg_objs g' r0) = (case map_of (rg_levels ?g2) (lg_name (rg_objs ?g2 r0)) of Some v \<Rightarrow> v
       | None \<Rightarrow> rg_global ?g2)" "\<And>r. r \<noteq> r0 \<Longrightarrow> rg_objs g' r = rg_objs ?g2 r"
    using assms(3)
    by (auto simp: initialize_logger_def register_logger_def on_logger_def lg_set_level_def lg_flush_on_def Let_def
        split: if_splits)
  have "r \<noteq> r0" if "(name, r) \<in> set (rg_loggers g)" for name r using assms(2) that by force
  then show ?thesis using f i by (auto split: option.splits)
qed

lemma levels_reach_all_loggers_witness:
  "\<exists>g'. initialize_logger 2 (set_levels [(''net'', L_debug)] (Some L_warn) sample_registry) = Inr g' \<and>
     lg_level (rg_objs g' 0) = L_warn \<and> lg_level (rg_objs g' 1) = L_debug \<and> lg_level (rg_objs g' 2) = L_warn"
proof -
  have "\<exists>g'. initialize_logger 2 (set_levels [(''net'', L_debug)] (Some L_warn) sample_registry) = Inr g'"
    by (simp add: sample_registry_def set_levels_def initialize_logger_def register_logger_def on_logger_def
        lg_set_level_def lg_flush_on_def Let_def)
  then obtain g' where g': "initialize_logger 2 (set_levels [(''net'', L_debug)] (Some L_warn) sample_registry) = Inr g'" ..
  have d: "distinct (map snd (rg_loggers sample_registry))" "2 \<notin> snd ` set (rg_loggers sample_registry)"
    by (simp_all add: sample_registry_def)
  from levels_reach_all_loggers [OF d g'] g' show ?thesis by (simp add: sample_registry_def)
qed

end
