(* ===== verification/LogFormat.thy ===== *)
theory LogFormat
  imports Digits LogLevels
begin

text \<open>
  The log formatter of \<open>pattern_formatter.h\<close>, \<open>pattern_formatter-inl.h\<close> and
  \<open>details/fmt_helper.h\<close>: the padding of fields, one definition per flag formatter, the compilation of
  a pattern and the formatting of a message with its cached broken-down time.  Both programs set a
  pattern of their own.  Text is a list of characters; a formatter maps the text written so far to the
  text afterwards.  Times count nanoseconds since the epoch, as the clock of the platform does.  The
  conversion of seconds to a broken-down time and the process id are arguments.
\<close>

section \<open>Messages\<close>

record tm =
  tm_sec :: int
  tm_min :: int
  tm_hour :: int
  tm_mday :: int
  tm_mon :: int
  tm_year :: int
  tm_wday :: int
  tm_gmtoff :: int

definition zero_tm :: tm where
  "zero_tm = \<lparr>tm_sec = 0, tm_min = 0, tm_hour = 0, tm_mday = 0, tm_mon = 0, tm_year = 0, tm_wday = 0, tm_gmtoff = 0\<rparr>"

record source_loc =
  sl_filename :: string
  sl_line :: int
  sl_funcname :: string

definition sl_empty :: "source_loc \<Rightarrow> bool" where "sl_empty s \<longleftrightarrow> sl_line s = 0"

record lmsg =
  lm_logger_name :: string
  lm_level :: log_level
  lm_time :: int
  lm_thread_id :: nat
  lm_color_start :: nat
  lm_color_end :: nat
  lm_source :: source_loc
  lm_payload :: string

section \<open>Padding\<close>

datatype pad_side = Pad_left | Pad_right | Pad_center

record padding_info =
  pi_width :: nat
  pi_side :: pad_side
  pi_truncate :: bool
  pi_enabled :: bool

definition no_padding :: padding_info where
  "no_padding = \<lparr>pi_width = 0, pi_side = Pad_left, pi_truncate = False, pi_enabled = False\<rparr>"

definition mk_padding :: "nat \<Rightarrow> pad_side \<Rightarrow> bool \<Rightarrow> padding_info" where
  "mk_padding width side tr =
     \<lparr>pi_width = width, pi_side = side, pi_truncate = tr, pi_enabled = True\<rparr>"

text \<open>The padder reads from a string of 64 spaces.\<close>

definition pad_it :: "int \<Rightarrow> string \<Rightarrow> string res" where
  "pad_it count dest =
     (if count < 0 \<or> 64 < count then Inl OutOfBounds else Inr (dest @ replicate (nat count) CHR '' ''))"

definition padder_open :: "nat \<Rightarrow> padding_info \<Rightarrow> string \<Rightarrow> (int \<times> string) res" where
  "padder_open wrapped_size p dest =
     (let remaining = int (pi_width p) - int wrapped_size
      in if remaining \<le> 0 then Inr (remaining, dest)
         else case pi_side p of
           Pad_left \<Rightarrow> bind_res (pad_it remaining dest) (\<lambda>d. Inr (0, d))
         | Pad_center \<Rightarrow>
             (let half_pad = remaining div 2; reminder = remaining mod 2
              in bind_res (pad_it half_pad dest) (\<lambda>d. Inr (half_pad + reminder, d)))
         | Pad_right \<Rightarrow> Inr (remaining, dest))"

text \<open>The destructor.  A negative new size becomes a huge one, and the exception of \<open>resize\<close> leaves a
  destructor, which ends the program.\<close>

definition padder_close :: "int \<Rightarrow> padding_info \<Rightarrow> string \<Rightarrow> string res" where
  "padder_close remaining p dest =
     (if remaining \<ge> 0 then pad_it remaining dest
      else if pi_truncate p then
        (let new_size = int (length dest) + remaining
         in if new_size < 0 then Inl Aborted else Inr (take (nat new_size) dest))
      else Inr dest)"

text \<open>A formatter's body between construction and destruction of its padder; \<open>null_scoped_padder\<close> is used
  when the padding is not enabled.\<close>

definition padded :: "padding_info \<Rightarrow> nat \<Rightarrow> string \<Rightarrow> string \<Rightarrow> string res" where
  "padded p wrapped_size body dest =
     (if pi_enabled p
      then bind_res (padder_open wrapped_size p dest) (\<lambda>(r, d). padder_close r p (d @ body))
      else Inr (dest @ body))"

definition padder_digits :: "padding_info \<Rightarrow> (nat \<Rightarrow> nat) \<Rightarrow> nat \<Rightarrow> nat" where
  "padder_digits p count n = (if pi_enabled p then count n else 0)"

section \<open>Numbers and times\<close>

text \<open>Division and remainder of C++ round towards zero.\<close>

definition cdiv :: "int \<Rightarrow> int \<Rightarrow> int" where "cdiv a b = sgn a * (\<bar>a\<bar> div b)"
definition crem :: "int \<Rightarrow> int \<Rightarrow> int" where "crem a b = sgn a * (\<bar>a\<bar> mod b)"

text \<open>\<open>{:02}\<close> adds nothing to a negative number or one of three digits.\<close>

definition pad2 :: "int \<Rightarrow> string" where
  "pad2 n = (if 0 \<le> n \<and> n < 100 then [digit (nat n div 10), digit (nat n mod 10)] else dec_int n)"

definition pad_uint :: "nat \<Rightarrow> nat \<Rightarrow> string" where
  "pad_uint n width = replicate (width - do_count_digits64 n) CHR ''0'' @ dec n"

definition pad3 :: "nat \<Rightarrow> string" where
  "pad3 n = (if n < 1000 then [digit (n div 100), digit (n mod 100 div 10), digit (n mod 100 mod 10)] else dec n)"

definition ns_per_sec :: int where "ns_per_sec = 1000000000"

definition time_secs :: "int \<Rightarrow> int" where "time_secs t = cdiv t ns_per_sec"

text \<open>The part of a time below a second, in a unit of \<open>u\<close> nanoseconds.\<close>

definition time_fraction :: "int \<Rightarrow> int \<Rightarrow> int" where
  "time_fraction u t = cdiv t u - time_secs t * (ns_per_sec div u)"

definition ampm :: "tm \<Rightarrow> string" where "ampm t = (if tm_hour t \<ge> 12 then ''PM'' else ''AM'')"

definition to12h :: "tm \<Rightarrow> int" where "to12h t = (if tm_hour t > 12 then tm_hour t - 12 else tm_hour t)"

definition days :: "string list" where
  "days = [''Sun'', ''Mon'', ''Tue'', ''Wed'', ''Thu'', ''Fri'', ''Sat'']"

definition full_days :: "string list" where
  "full_days = [''Sunday'', ''Monday'', ''Tuesday'', ''Wednesday'', ''Thursday'', ''Friday'', ''Saturday'']"

definition months :: "string list" where
  "months = [''Jan'', ''Feb'', ''Mar'', ''Apr'', ''May'', ''Jun'', ''Jul'', ''Aug'', ''Sept'', ''Oct'', ''Nov'', ''Dec'']"

definition full_months :: "string list" where
  "full_months = [''January'', ''February'', ''March'', ''April'', ''May'', ''June'', ''July'', ''August'',
     ''September'', ''October'', ''November'', ''December'']"

definition name_at :: "string list \<Rightarrow> int \<Rightarrow> string res" where
  "name_at xs i = (if 0 \<le> i \<and> i < int (length xs) then Inr (xs ! nat i) else Inl OutOfBounds)"

definition utc_minutes_offset :: "tm \<Rightarrow> int" where "utc_minutes_offset t = cdiv (tm_gmtoff t) 60"

definition src_basename :: "string \<Rightarrow> string" where
  "src_basename filename = (if CHR ''/'' \<in> set filename then rev (takeWhile (\<lambda>c. c \<noteq> CHR ''/'') (rev filename)) else filename)"

section \<open>The flag formatters\<close>

definition name_formatter :: "padding_info \<Rightarrow> lmsg \<Rightarrow> string \<Rightarrow> string res" where
  "name_formatter p msg = padded p (length (lm_logger_name msg)) (lm_logger_name msg)"

definition level_formatter :: "padding_info \<Rightarrow> lmsg \<Rightarrow> string \<Rightarrow> string res" where
  "level_formatter p msg = padded p (length (level_view (lm_level msg))) (level_view (lm_level msg))"

definition short_level_formatter :: "padding_info \<Rightarrow> lmsg \<Rightarrow> string \<Rightarrow> string res" where
  "short_level_formatter p msg = padded p (length (level_short (lm_level msg))) (level_short (lm_level msg))"

definition named :: "string list \<Rightarrow> int \<Rightarrow> padding_info \<Rightarrow> string \<Rightarrow> string res" where
  "named names i p dest = bind_res (name_at names i) (\<lambda>s. padded p (length s) s dest)"

definition a_formatter :: "padding_info \<Rightarrow> tm \<Rightarrow> string \<Rightarrow> string res" where
  "a_formatter p t = named days (tm_wday t) p"

definition A_formatter :: "padding_info \<Rightarrow> tm \<Rightarrow> string \<Rightarrow> string res" where
  "A_formatter p t = named full_days (tm_wday t) p"

definition b_formatter :: "padding_info \<Rightarrow> tm \<Rightarrow> string \<Rightarrow> string res" where
  "b_formatter p t = named months (tm_mon t) p"

definition B_formatter :: "padding_info \<Rightarrow> tm \<Rightarrow> string \<Rightarrow> string res" where
  "B_formatter p t = named full_months (tm_mon t) p"

definition c_formatter :: "padding_info \<Rightarrow> tm \<Rightarrow> string \<Rightarrow> string res" where
  "c_formatter p t dest =
     bind_res (name_at days (tm_wday t)) (\<lambda>day. bind_res (name_at months (tm_mon t)) (\<lambda>month.
       padded p 24 (day @ '' '' @ month @ '' '' @ dec_int (tm_mday t) @ '' '' @
         pad2 (tm_hour t) @ '':'' @ pad2 (tm_min t) @ '':'' @ pad2 (tm_sec t) @ '' '' @ dec_int (tm_year t + 1900)) dest))"

definition C_formatter :: "padding_info \<Rightarrow> tm \<Rightarrow> string \<Rightarrow> string res" where
  "C_formatter p t = padded p 2 (pad2 (crem (tm_year t) 100))"

definition D_formatter :: "padding_info \<Rightarrow> tm \<Rightarrow> string \<Rightarrow> string res" where
  "D_formatter p t = padded p 10
     (pad2 (tm_mon t + 1) @ ''/'' @ pad2 (tm_mday t) @ ''/'' @ pad2 (crem (tm_year t) 100))"

definition Y_formatter :: "padding_info \<Rightarrow> tm \<Rightarrow> string \<Rightarrow> string res" where
  "Y_formatter p t = padded p 4 (dec_int (tm_year t + 1900))"

definition m_formatter :: "padding_info \<Rightarrow> tm \<Rightarrow> string \<Rightarrow> string res" where
  "m_formatter p t = padded p 2 (pad2 (tm_mon t + 1))"

definition d_formatter :: "padding_info \<Rightarrow> tm \<Rightarrow> string \<Rightarrow> string res" where
  "d_formatter p t = padded p 2 (pad2 (tm_mday t))"

definition H_formatter :: "padding_info \<Rightarrow> tm \<Rightarrow> string \<Rightarrow> string res" where
  "H_formatter p t = padded p 2 (pad2 (tm_hour t))"

definition I_formatter :: "padding_info \<Rightarrow> tm \<Rightarrow> string \<Rightarrow> string res" where
  "I_formatter p t = padded p 2 (pad2 (to12h t))"

definition M_formatter :: "padding_info \<Rightarrow> tm \<Rightarrow> string \<Rightarrow> string res" where
  "M_formatter p t = padded p 2 (pad2 (tm_min t))"

definition S_formatter :: "padding_info \<Rightarrow> tm \<Rightarrow> string \<Rightarrow> string res" where
  "S_formatter p t = padded p 2 (pad2 (tm_sec t))"

definition e_formatter :: "padding_info \<Rightarrow> lmsg \<Rightarrow> string \<Rightarrow> string res" where
  "e_formatter p msg = padded p 3 (pad3 (nat (time_fraction 1000000 (lm_time msg) mod 2 ^ 32)))"

definition f_formatter :: "padding_info \<Rightarrow> lmsg \<Rightarrow> string \<Rightarrow> string res" where
  "f_formatter p msg = padded p 6 (pad_uint (nat (time_fraction 1000 (lm_time msg) mod 2 ^ 64)) 6)"

definition F_formatter :: "padding_info \<Rightarrow> lmsg \<Rightarrow> string \<Rightarrow> string res" where
  "F_formatter p msg = padded p 9 (pad_uint (nat (time_fraction 1 (lm_time msg) mod 2 ^ 64)) 9)"

definition E_formatter :: "padding_info \<Rightarrow> lmsg \<Rightarrow> string \<Rightarrow> string res" where
  "E_formatter p msg = padded p 10 (dec_int (time_secs (lm_time msg)))"

definition p_formatter :: "padding_info \<Rightarrow> tm \<Rightarrow> string \<Rightarrow> string res" where
  "p_formatter p t = padded p 2 (ampm t)"

definition r_formatter :: "padding_info \<Rightarrow> tm \<Rightarrow> string \<Rightarrow> string res" where
  "r_formatter p t = padded p 11
     (pad2 (to12h t) @ '':'' @ pad2 (tm_min t) @ '':'' @ pad2 (tm_sec t) @ '' '' @ ampm t)"

definition R_formatter :: "padding_info \<Rightarrow> tm \<Rightarrow> string \<Rightarrow> string res" where
  "R_formatter p t = padded p 5 (pad2 (tm_hour t) @ '':'' @ pad2 (tm_min t))"

definition T_formatter :: "padding_info \<Rightarrow> tm \<Rightarrow> string \<Rightarrow> string res" where
  "T_formatter p t = padded p 8 (pad2 (tm_hour t) @ '':'' @ pad2 (tm_min t) @ '':'' @ pad2 (tm_sec t))"

text \<open>\<open>%z\<close> keeps its offset for ten seconds.\<close>

definition get_cached_offset :: "lmsg \<Rightarrow> tm \<Rightarrow> int \<times> int \<Rightarrow> int \<times> int" where
  "get_cached_offset msg t = (\<lambda>(last_update, offset).
     if lm_time msg - last_update \<ge> 10 * ns_per_sec then (lm_time msg, utc_minutes_offset t)
     else (last_update, offset))"

definition z_formatter :: "padding_info \<Rightarrow> lmsg \<Rightarrow> tm \<Rightarrow> int \<times> int \<Rightarrow> string \<Rightarrow> ((int \<times> int) \<times> string) res" where
  "z_formatter p msg t cache dest =
     (let cache' = get_cached_offset msg t cache; total = snd cache'; minutes = \<bar>total\<bar>
      in bind_res (padded p 6 ((if total < 0 then ''-'' else ''+'') @ pad2 (minutes div 60) @ '':'' @ pad2 (minutes mod 60)) dest)
           (\<lambda>d. Inr (cache', d)))"

definition t_formatter :: "padding_info \<Rightarrow> lmsg \<Rightarrow> string \<Rightarrow> string res" where
  "t_formatter p msg = padded p (padder_digits p do_count_digits64 (lm_thread_id msg)) (dec (lm_thread_id msg))"

definition pid_formatter :: "padding_info \<Rightarrow> nat \<Rightarrow> string \<Rightarrow> string res" where
  "pid_formatter p pid = padded p (padder_digits p do_count_digits32 pid) (dec pid)"

definition v_formatter :: "padding_info \<Rightarrow> lmsg \<Rightarrow> string \<Rightarrow> string res" where
  "v_formatter p msg = padded p (length (lm_payload msg)) (lm_payload msg)"

text \<open>The line is counted as an unsigned number of 32 bits.\<close>

definition line_digits :: "padding_info \<Rightarrow> int \<Rightarrow> nat" where
  "line_digits p line = padder_digits p do_count_digits32 (nat (line mod 2 ^ 32))"

definition source_location_formatter :: "padding_info \<Rightarrow> lmsg \<Rightarrow> string \<Rightarrow> string res" where
  "source_location_formatter p msg =
     (let s = lm_source msg
      in if sl_empty s then padded p 0 []
         else padded p (if pi_enabled p then length (sl_filename s) + line_digits p (sl_line s) + 1 else 0)
                (sl_filename s @ '':'' @ dec_int (sl_line s)))"

definition source_filename_formatter :: "padding_info \<Rightarrow> lmsg \<Rightarrow> string \<Rightarrow> string res" where
  "source_filename_formatter p msg =
     (let s = lm_source msg
      in if sl_empty s then padded p 0 []
         else padded p (if pi_enabled p then length (sl_filename s) else 0) (sl_filename s))"

definition short_filename_formatter :: "padding_info \<Rightarrow> lmsg \<Rightarrow> string \<Rightarrow> string res" where
  "short_filename_formatter p msg =
     (let s = lm_source msg; filename = src_basename (sl_filename s)
      in if sl_empty s then padded p 0 [] else padded p (if pi_enabled p then length filename else 0) filename)"

definition source_linenum_formatter :: "padding_info \<Rightarrow> lmsg \<Rightarrow> string \<Rightarrow> string res" where
  "source_linenum_formatter p msg =
     (let s = lm_source msg
      in if sl_empty s then padded p 0 [] else padded p (line_digits p (sl_line s)) (dec_int (sl_line s)))"

definition source_funcname_formatter :: "padding_info \<Rightarrow> lmsg \<Rightarrow> string \<Rightarrow> string res" where
  "source_funcname_formatter p msg =
     (let s = lm_source msg
      in if sl_empty s then padded p 0 []
         else padded p (if pi_enabled p then length (sl_funcname s) else 0) (sl_funcname s))"

text \<open>The time since the last message, in units of \<open>u\<close> nanoseconds.\<close>

definition elapsed_formatter :: "int \<Rightarrow> padding_info \<Rightarrow> lmsg \<Rightarrow> int \<Rightarrow> string \<Rightarrow> (int \<times> string) res" where
  "elapsed_formatter u p msg prev dest =
     (let delta = max (lm_time msg - prev) 0; n = nat (cdiv delta u)
      in bind_res (padded p (padder_digits p do_count_digits64 n) (dec n) dest) (\<lambda>d. Inr (lm_time msg, d)))"

text \<open>The default format, with the date cached for a second.\<close>

definition full_datetime :: "tm \<Rightarrow> string" where
  "full_datetime t = ''['' @ dec_int (tm_year t + 1900) @ ''-'' @ pad2 (tm_mon t + 1) @ ''-'' @ pad2 (tm_mday t) @ '' '' @
     pad2 (tm_hour t) @ '':'' @ pad2 (tm_min t) @ '':'' @ pad2 (tm_sec t) @ ''.''"

definition full_formatter :: "lmsg \<Rightarrow> tm \<Rightarrow> int \<times> string \<Rightarrow> string \<Rightarrow> (int \<times> string) \<times> lmsg \<times> string" where
  "full_formatter msg t cache dest =
     (let secs = time_secs (lm_time msg);
          cache' = (if fst cache \<noteq> secs \<or> snd cache = [] then (secs, full_datetime t) else cache);
          d1 = dest @ snd cache' @ pad3 (nat (time_fraction 1000000 (lm_time msg) mod 2 ^ 32)) @ ''] '';
          d2 = (if lm_logger_name msg \<noteq> [] then d1 @ ''['' @ lm_logger_name msg @ ''] '' else d1) @ ''['';
          d3 = d2 @ level_view (lm_level msg);
          msg' = msg\<lparr>lm_color_start := length d2, lm_color_end := length d3\<rparr>;
          d4 = d3 @ ''] '';
          s = lm_source msg;
          d5 = (if \<not> sl_empty s then d4 @ ''['' @ src_basename (sl_filename s) @ '':'' @ dec_int (sl_line s) @ ''] '' else d4)
      in (cache', msg', d5 @ lm_payload msg))"

end
