(* ===== verification/LogPattern.thy ===== *)
theory LogPattern
  imports LogFormat
begin

text \<open>
  Patterns of the log formatter, from \<open>pattern_formatter.h\<close> and \<open>pattern_formatter-inl.h\<close>: the list of
  flag formatters a pattern is compiled to, the padding specifications in it, and the formatting of a
  message with the broken-down time of the last second and the caches of the flags.  The properties:
  padding is exact, specifications and plain text survive compilation, and a formatter that has been in
  use writes what a fresh clone of it writes.  A custom flag is a function given by the user of the library.
\<close>

section \<open>Flags\<close>

text \<open>The state of a flag formatter: its padding, and for four of them what they remember.\<close>

datatype msg_kind =
  K_name | K_level | K_short_level | K_thread | K_payload | K_millis | K_micros | K_nanos | K_epoch
| K_source_location | K_short_filename | K_filename | K_line | K_funcname

datatype time_kind =
  K_a | K_A | K_b | K_B | K_c | K_C | K_Y | K_D | K_m | K_d | K_H | K_I | K_M | K_S | K_p | K_r | K_R | K_T

type_synonym custom_handler = "padding_info \<Rightarrow> lmsg \<Rightarrow> tm \<Rightarrow> string \<Rightarrow> string res"

datatype flag =
  Msg_flag msg_kind padding_info
| Time_flag time_kind padding_info
| Zone_flag padding_info int int
| Full_flag int string
| Elapsed_flag int padding_info int
| Pid_flag padding_info
| Ch_flag char
| Aggregate string
| Color_start
| Color_stop
| Custom_flag custom_handler padding_info

datatype time_type = Local_time | Utc_time

text \<open>What the operating system provides: both conversions of seconds to a broken-down time, the process
  id, and the time at which formatters are constructed.\<close>

record os_env =
  os_localtime :: "int \<Rightarrow> tm"
  os_gmtime :: "int \<Rightarrow> tm"
  os_pid :: nat
  os_now :: int

record pattern_formatter =
  pf_pattern :: string
  pf_eol :: string
  pf_time_type :: time_type
  pf_need_localtime :: bool
  pf_cached_tm :: tm
  pf_last_log_secs :: int
  pf_formatters :: "flag list"
  pf_custom :: "char \<rightharpoonup> custom_handler"

section \<open>Formatting with one flag\<close>

fun msg_formatter :: "msg_kind \<Rightarrow> padding_info \<Rightarrow> lmsg \<Rightarrow> string \<Rightarrow> string res" where
  "msg_formatter K_name = name_formatter"
| "msg_formatter K_level = level_formatter"
| "msg_formatter K_short_level = short_level_formatter"
| "msg_formatter K_thread = t_formatter"
| "msg_formatter K_payload = v_formatter"
| "msg_formatter K_millis = e_formatter"
| "msg_formatter K_micros = f_formatter"
| "msg_formatter K_nanos = F_formatter"
| "msg_formatter K_epoch = E_formatter"
| "msg_formatter K_source_location = source_location_formatter"
| "msg_formatter K_short_filename = short_filename_formatter"
| "msg_formatter K_filename = source_filename_formatter"
| "msg_formatter K_line = source_linenum_formatter"
| "msg_formatter K_funcname = source_funcname_formatter"

fun time_formatter :: "time_kind \<Rightarrow> padding_info \<Rightarrow> tm \<Rightarrow> string \<Rightarrow> string res" where
  "time_formatter K_a = a_formatter"
| "time_formatter K_A = A_formatter"
| "time_formatter K_b = b_formatter"
| "time_formatter K_B = B_formatter"
| "time_formatter K_c = c_formatter"
| "time_formatter K_C = C_formatter"
| "time_formatter K_Y = Y_formatter"
| "time_formatter K_D = D_formatter"
| "time_formatter K_m = m_formatter"
| "time_formatter K_d = d_formatter"
| "time_formatter K_H = H_formatter"
| "time_formatter K_I = I_formatter"
| "time_formatter K_M = M_formatter"
| "time_formatter K_S = S_formatter"
| "time_formatter K_p = p_formatter"
| "time_formatter K_r = r_formatter"
| "time_formatter K_R = R_formatter"
| "time_formatter K_T = T_formatter"

text \<open>The virtual call \<open>f->format(msg, tm, dest)\<close>: the flag afterwards, the message (its colour range is
  mutable) and the text.\<close>

fun flag_format :: "os_env \<Rightarrow> flag \<Rightarrow> lmsg \<Rightarrow> tm \<Rightarrow> string \<Rightarrow> (flag \<times> lmsg \<times> string) res" where
  "flag_format env (Msg_flag k p) msg t dest =
     bind_res (msg_formatter k p msg dest) (\<lambda>d. Inr (Msg_flag k p, msg, d))"
| "flag_format env (Time_flag k p) msg t dest =
     bind_res (time_formatter k p t dest) (\<lambda>d. Inr (Time_flag k p, msg, d))"
| "flag_format env (Zone_flag p upd off) msg t dest =
     bind_res (z_formatter p msg t (upd, off) dest) (\<lambda>((upd', off'), d). Inr (Zone_flag p upd' off', msg, d))"
| "flag_format env (Full_flag secs txt) msg t dest =
     (case full_formatter msg t (secs, txt) dest of ((secs', txt'), msg', d) \<Rightarrow> Inr (Full_flag secs' txt', msg', d))"
| "flag_format env (Elapsed_flag u p prev) msg t dest =
     bind_res (elapsed_formatter u p msg prev dest) (\<lambda>(prev', d). Inr (Elapsed_flag u p prev', msg, d))"
| "flag_format env (Pid_flag p) msg t dest =
     bind_res (pid_formatter p (os_pid env mod 2 ^ 32) dest) (\<lambda>d. Inr (Pid_flag p, msg, d))"
| "flag_format env (Ch_flag c) msg t dest = Inr (Ch_flag c, msg, dest @ [c])"
| "flag_format env (Aggregate s) msg t dest = Inr (Aggregate s, msg, dest @ s)"
| "flag_format env Color_start msg t dest = Inr (Color_start, msg\<lparr>lm_color_start := length dest\<rparr>, dest)"
| "flag_format env Color_stop msg t dest = Inr (Color_stop, msg\<lparr>lm_color_end := length dest\<rparr>, dest)"
| "flag_format env (Custom_flag h p) msg t dest =
     bind_res (h p msg t dest) (\<lambda>d. Inr (Custom_flag h p, msg, d))"

section \<open>Compiling a pattern\<close>

text \<open>The built-in flags, with whether the flag asks for the broken-down time.\<close>

definition flag_table :: "os_env \<Rightarrow> padding_info \<Rightarrow> (char \<times> flag \<times> bool) list" where
  "flag_table env p =
     [(CHR ''+'', Full_flag 0 [], True),
      (CHR ''n'', Msg_flag K_name p, False), (CHR ''l'', Msg_flag K_level p, False),
      (CHR ''L'', Msg_flag K_short_level p, False), (CHR ''t'', Msg_flag K_thread p, False),
      (CHR ''v'', Msg_flag K_payload p, False), (CHR ''a'', Time_flag K_a p, True),
      (CHR ''A'', Time_flag K_A p, True), (CHR ''b'', Time_flag K_b p, True), (CHR ''h'', Time_flag K_b p, True),
      (CHR ''B'', Time_flag K_B p, True), (CHR ''c'', Time_flag K_c p, True), (CHR ''C'', Time_flag K_C p, True),
      (CHR ''Y'', Time_flag K_Y p, True), (CHR ''D'', Time_flag K_D p, True), (CHR ''x'', Time_flag K_D p, True),
      (CHR ''m'', Time_flag K_m p, True), (CHR ''d'', Time_flag K_d p, True), (CHR ''H'', Time_flag K_H p, True),
      (CHR ''I'', Time_flag K_I p, True), (CHR ''M'', Time_flag K_M p, True), (CHR ''S'', Time_flag K_S p, True),
      (CHR ''e'', Msg_flag K_millis p, False), (CHR ''f'', Msg_flag K_micros p, False),
      (CHR ''F'', Msg_flag K_nanos p, False), (CHR ''E'', Msg_flag K_epoch p, False),
      (CHR ''p'', Time_flag K_p p, True), (CHR ''r'', Time_flag K_r p, True), (CHR ''R'', Time_flag K_R p, True),
      (CHR ''T'', Time_flag K_T p, True), (CHR ''X'', Time_flag K_T p, True), (CHR ''z'', Zone_flag p 0 0, True),
      (CHR ''P'', Pid_flag p, False), (CHR ''^'', Color_start, False), (CHR ''$'', Color_stop, False),
      (CHR ''@'', Msg_flag K_source_location p, False), (CHR ''s'', Msg_flag K_short_filename p, False),
      (CHR ''g'', Msg_flag K_filename p, False), (CHR ''#'', Msg_flag K_line p, False),
      (CHR ''!'', Msg_flag K_funcname p, False), (CHR ''%'', Ch_flag (CHR ''%''), False),
      (CHR ''u'', Elapsed_flag 1 p (os_now env), False), (CHR ''i'', Elapsed_flag 1000 p (os_now env), False),
      (CHR ''o'', Elapsed_flag 1000000 p (os_now env), False), (CHR ''O'', Elapsed_flag ns_per_sec p (os_now env), False)]"

definition push_flags :: "flag list \<Rightarrow> pattern_formatter \<Rightarrow> pattern_formatter" where
  "push_flags fs pf = pf\<lparr>pf_formatters := pf_formatters pf @ fs\<rparr>"

definition handle_flag :: "os_env \<Rightarrow> char \<Rightarrow> padding_info \<Rightarrow> pattern_formatter \<Rightarrow> pattern_formatter" where
  "handle_flag env c p pf =
     (case pf_custom pf c of Some h \<Rightarrow> push_flags [Custom_flag h p] pf
      | None \<Rightarrow>
        case map_of (flag_table env p) c of
        Some (f, need) \<Rightarrow> (push_flags [f] pf)\<lparr>pf_need_localtime := pf_need_localtime pf \<or> need\<rparr>
      | None \<Rightarrow>
          if \<not> pi_truncate p then push_flags [Aggregate [CHR ''%'', c]] pf
          else push_flags [Msg_flag K_funcname (p\<lparr>pi_truncate := False\<rparr>), Aggregate [c]] pf)"

definition isdigit :: "char \<Rightarrow> bool" where
  "isdigit c \<longleftrightarrow> (48::nat) \<le> of_char c \<and> of_char c \<le> (57::nat)"

definition digit_val :: "char \<Rightarrow> nat" where "digit_val c = of_char c - 48"

fun read_width :: "nat \<Rightarrow> string \<Rightarrow> nat \<times> string" where
  "read_width w [] = (w, [])"
| "read_width w (c # cs) =
     (if isdigit c then read_width ((w * 10 + digit_val c) mod 2 ^ 64) cs else (w, c # cs))"

definition max_width :: nat where "max_width = 64"

definition padspec_side :: "string \<Rightarrow> pad_side \<times> string" where
  "padspec_side s =
     (case s of
        [] \<Rightarrow> (Pad_left, [])
      | c # cs \<Rightarrow> if c = CHR ''-'' then (Pad_right, cs) else if c = CHR ''='' then (Pad_center, cs) else (Pad_left, s))"

definition padspec_truncate :: "string \<Rightarrow> bool \<times> string" where
  "padspec_truncate s =
     (case s of [] \<Rightarrow> (False, []) | c # cs \<Rightarrow> if c = CHR ''!'' then (True, cs) else (False, s))"

definition handle_padspec :: "string \<Rightarrow> padding_info \<times> string" where
  "handle_padspec s =
     (case padspec_side s of
        (side, []) \<Rightarrow> (no_padding, [])
      | (side, c # cs) \<Rightarrow>
          if \<not> isdigit c then (no_padding, c # cs)
          else (case read_width (digit_val c) cs of (width, rest) \<Rightarrow>
                case padspec_truncate rest of (tr, rest') \<Rightarrow> (mk_padding (min width max_width) side tr, rest')))"

text \<open>The characters between flags are collected in an aggregate, which is there only while there are any.\<close>

definition flush_chars :: "string option \<Rightarrow> pattern_formatter \<Rightarrow> pattern_formatter" where
  "flush_chars user pf = (case user of None \<Rightarrow> pf | Some s \<Rightarrow> push_flags [Aggregate s] pf)"

definition add_ch :: "string option \<Rightarrow> char \<Rightarrow> string option" where
  "add_ch user c = Some ((case user of None \<Rightarrow> [] | Some s \<Rightarrow> s) @ [c])"

lemma read_width_length: "length (snd (read_width w s)) \<le> length s"
  by (induction w s rule: read_width.induct) auto

lemma padspec_lengths:
  "length (snd (padspec_side s)) \<le> length s"
  "length (snd (padspec_truncate s)) \<le> length s"
  by (auto simp: padspec_side_def padspec_truncate_def split: list.splits)

lemma handle_padspec_length: "length (snd (handle_padspec s)) \<le> length s"
proof (cases "snd (padspec_side s)")
  case Nil
  then show ?thesis by (auto simp: handle_padspec_def split: prod.split)
next
  case (Cons c cs)
  then have s: "Suc (length cs) \<le> length s" and p: "padspec_side s = (fst (padspec_side s), c # cs)"
    using padspec_lengths(1) [of s] by (simp_all add: prod_eq_iff)
  have "length (snd (padspec_truncate (snd (read_width (digit_val c) cs)))) \<le> length cs"
    using padspec_lengths(2) read_width_length le_trans by blast
  then show ?thesis
    using s by (subst handle_padspec_def, subst p) (simp add: case_prod_unfold)
qed

function compile_loop :: "os_env \<Rightarrow> string \<Rightarrow> string option \<Rightarrow> pattern_formatter \<Rightarrow> pattern_formatter" where
  "compile_loop env [] user pf = flush_chars user pf"
| "compile_loop env (c # cs) user pf =
     (if c = CHR ''%'' then
        (case handle_padspec cs of
           (p, []) \<Rightarrow> flush_chars user pf
         | (p, f # rest) \<Rightarrow> compile_loop env rest None (handle_flag env f p (flush_chars user pf)))
      else compile_loop env cs (add_ch user c) pf)"
  by pat_completeness auto
termination
  by (relation "measure (\<lambda>(_, s, _, _). length s)") (simp_all, metis handle_padspec_length le_imp_less_Suc length_Cons snd_conv Suc_leD)

definition compile_pattern :: "os_env \<Rightarrow> string \<Rightarrow> pattern_formatter \<Rightarrow> pattern_formatter" where
  "compile_pattern env pattern pf = compile_loop env pattern None (pf\<lparr>pf_formatters := []\<rparr>)"

section \<open>The formatter\<close>

definition new_pattern_formatter :: "os_env \<Rightarrow> string \<Rightarrow> time_type \<Rightarrow> string \<Rightarrow> (char \<rightharpoonup> custom_handler) \<Rightarrow> pattern_formatter" where
  "new_pattern_formatter env pattern ty eol custom =
     compile_pattern env pattern
       \<lparr>pf_pattern = pattern, pf_eol = eol, pf_time_type = ty, pf_need_localtime = False, pf_cached_tm = zero_tm,
        pf_last_log_secs = 0, pf_formatters = [], pf_custom = custom\<rparr>"

definition default_pattern_formatter :: "time_type \<Rightarrow> string \<Rightarrow> pattern_formatter" where
  "default_pattern_formatter ty eol =
     \<lparr>pf_pattern = ''%+'', pf_eol = eol, pf_time_type = ty, pf_need_localtime = True, pf_cached_tm = zero_tm,
      pf_last_log_secs = 0, pf_formatters = [Full_flag 0 []], pf_custom = Map.empty\<rparr>"

definition pf_clone :: "os_env \<Rightarrow> pattern_formatter \<Rightarrow> pattern_formatter" where
  "pf_clone env pf = new_pattern_formatter env (pf_pattern pf) (pf_time_type pf) (pf_eol pf) (pf_custom pf)"

definition set_pattern :: "os_env \<Rightarrow> string \<Rightarrow> pattern_formatter \<Rightarrow> pattern_formatter" where
  "set_pattern env pattern pf = compile_pattern env pattern (pf\<lparr>pf_pattern := pattern, pf_need_localtime := False\<rparr>)"

definition add_flag :: "char \<Rightarrow> custom_handler \<Rightarrow> pattern_formatter \<Rightarrow> pattern_formatter" where
  "add_flag c h pf = pf\<lparr>pf_custom := (pf_custom pf)(c \<mapsto> h)\<rparr>"

definition get_time :: "os_env \<Rightarrow> pattern_formatter \<Rightarrow> lmsg \<Rightarrow> tm" where
  "get_time env pf msg =
     (if pf_time_type pf = Local_time then os_localtime env (time_secs (lm_time msg))
      else os_gmtime env (time_secs (lm_time msg)))"

definition refresh_time :: "os_env \<Rightarrow> lmsg \<Rightarrow> pattern_formatter \<Rightarrow> pattern_formatter" where
  "refresh_time env msg pf =
     (if pf_need_localtime pf \<and> time_secs (lm_time msg) \<noteq> pf_last_log_secs pf
      then pf\<lparr>pf_cached_tm := get_time env pf msg, pf_last_log_secs := time_secs (lm_time msg)\<rparr>
      else pf)"

fun flags_format :: "os_env \<Rightarrow> flag list \<Rightarrow> lmsg \<Rightarrow> tm \<Rightarrow> string
    \<Rightarrow> (flag list \<times> lmsg \<times> string) res" where
  "flags_format env [] msg t dest = Inr ([], msg, dest)"
| "flags_format env (f # fs) msg t dest =
     bind_res (flag_format env f msg t dest) (\<lambda>(f', msg', d).
     bind_res (flags_format env fs msg' t d) (\<lambda>(fs', msg'', d'). Inr (f' # fs', msg'', d')))"

definition pf_format :: "os_env \<Rightarrow> pattern_formatter \<Rightarrow> lmsg \<Rightarrow> string \<Rightarrow> (pattern_formatter \<times> lmsg \<times> string) res" where
  "pf_format env pf msg dest =
     (let pf1 = refresh_time env msg pf
      in bind_res (flags_format env (pf_formatters pf1) msg (pf_cached_tm pf1) dest)
           (\<lambda>(fs, msg', d). Inr (pf1\<lparr>pf_formatters := fs\<rparr>, msg', d @ pf_eol pf1)))"

section \<open>Padding is exact\<close>

text \<open>The reference: fill up to the width on the side asked for, or cut when the text is longer.\<close>

definition pad_spec :: "padding_info \<Rightarrow> string \<Rightarrow> string" where
  "pad_spec p s =
     (let fill = pi_width p - length s; sp = (\<lambda>k. replicate k CHR '' '')
      in if \<not> pi_enabled p then s
         else if pi_width p < length s then (if pi_truncate p then take (pi_width p) s else s)
         else case pi_side p of
           Pad_left \<Rightarrow> sp fill @ s
         | Pad_right \<Rightarrow> s @ sp fill
         | Pad_center \<Rightarrow> sp (fill div 2) @ s @ sp (fill - fill div 2))"

lemma pad_it_exact: "n \<le> 64 \<Longrightarrow> pad_it (int n) dest = Inr (dest @ replicate n CHR '' '')"
  by (simp add: pad_it_def)

lemma padded_fits:
  assumes "pi_enabled p" "pi_width p \<le> 64" "length s \<le> pi_width p"
  shows "padded p (length s) s dest = Inr (dest @ pad_spec p s)"
proof -
  obtain n where w: "pi_width p = length s + n" using assms(3) le_Suc_ex by blast
  then have n: "n \<le> 64" "n div 2 \<le> 64" "n - n div 2 \<le> 64" using assms(2) by linarith+
  have "int (n div 2) + int n mod 2 = int (n div 2 + n mod 2)" by (simp add: zmod_int)
  moreover have "n div 2 + n mod 2 = n - n div 2" by presburger
  ultimately have h: "int n div 2 = int (n div 2)" "int (n div 2) + int n mod 2 = int (n - n div 2)"
    by (simp_all add: zdiv_int)
  have z: "pad_it 0 d = Inr d" for d by (simp add: pad_it_def)
  show ?thesis
    using assms(1) w n
    by (cases "pi_side p"; cases "n = 0")
      (simp_all add: padded_def padder_open_def padder_close_def pad_spec_def h Let_def pad_it_exact z del: of_nat_diff)
qed

lemma padded_too_long:
  assumes "pi_enabled p" "pi_width p < length s"
  shows "padded p (length s) s dest = Inr (dest @ pad_spec p s)"
proof -
  have neg: "int (pi_width p) - int (length s) < 0" using assms by simp
  have "int (length dest + length s) + (int (pi_width p) - int (length s)) = int (length dest + pi_width p)"
    by simp
  then have n: "nat (int (length dest + length s) + (int (pi_width p) - int (length s))) = length dest + pi_width p"
    by (simp only: nat_int)
  show ?thesis
    using assms neg n by (simp add: padded_def padder_open_def padder_close_def pad_spec_def Let_def)
qed

text \<open>A field whose announced size is its length comes out padded on the side asked for to exactly the
  width, or cut to it when truncation is asked for, after the text that was there; widths of a compiled
  pattern never read past the 64 spaces.\<close>

theorem padding_exact:
  assumes "pi_width p \<le> max_width"
  shows "padded p (length s) s dest = Inr (dest @ pad_spec p s)"
proof (cases "pi_enabled p")
  case True
  then show ?thesis
    using assms padded_fits [of p s dest] padded_too_long [of p s dest]
    by (cases "length s \<le> pi_width p") (simp_all add: max_width_def)
qed (simp add: padded_def pad_spec_def)

theorem padding_exact_witness:
  "padded (mk_padding 7 Pad_center False) (length ''main'') ''main'' ''['' = Inr ''[ main  ''"
proof -
  have "pad_spec (mk_padding 7 Pad_center False) ''main'' = '' main  ''" by code_simp
  then show ?thesis
    using padding_exact [of "mk_padding 7 Pad_center False" "''main''" "''[''"]
    by (simp add: max_width_def mk_padding_def)
qed

section \<open>Padding specifications\<close>

definition show_side :: "pad_side \<Rightarrow> string" where
  "show_side side = (case side of Pad_left \<Rightarrow> '''' | Pad_right \<Rightarrow> ''-'' | Pad_center \<Rightarrow> ''='')"

definition show_padspec :: "nat \<Rightarrow> pad_side \<Rightarrow> bool \<Rightarrow> string" where
  "show_padspec w side tr = show_side side @ dec w @ (if tr then ''!'' else '''')"

lemma isdigit_digit [simp]: "d < 10 \<Longrightarrow> isdigit (digit d)"
  by (simp add: isdigit_def digit_def)

lemma digit_val_digit [simp]: "d < 10 \<Longrightarrow> digit_val (digit d) = d"
  by (simp add: digit_val_def digit_def)

lemma dec_hd: "\<exists>d rest. dec n = digit d # rest \<and> d < 10 \<and> (\<forall>r. n < 2 ^ 64 \<longrightarrow> read_width d (rest @ r) = read_width n r)"
proof (induction n rule: dec.induct)
  case (1 n)
  show ?case
  proof (cases "n < 10")
    case True
    then show ?thesis by (auto simp: dec_small)
  next
    case False
    then obtain d rest where h: "dec (n div 10) = digit d # rest" "d < 10"
      "\<And>r. n div 10 < 2 ^ 64 \<Longrightarrow> read_width d (rest @ r) = read_width (n div 10) r"
      using "1.IH" by blast
    have e: "n div 10 * 10 + n mod 10 = n" by simp
    have "read_width d ((rest @ [digit (n mod 10)]) @ r) = read_width n r" if "n < 2 ^ 64" for r
      using h(3) [of "digit (n mod 10) # r"] that e by simp
    moreover have "dec n = digit d # rest @ [digit (n mod 10)]"
      using False h(1) by (simp add: dec.simps [of n])
    ultimately show ?thesis using h(2) by blast
  qed
qed

lemma padspec_side_show:
  "d < 10 \<Longrightarrow> padspec_side (show_side side @ digit d # r) = (side, digit d # r)"
  by (cases side) (auto simp: padspec_side_def show_side_def digit_def char_of_eq_iff take_bit_nat_eq_self)

lemma padspec_truncate_show:
  "tr \<or> c \<noteq> CHR ''!'' \<Longrightarrow> padspec_truncate ((if tr then ''!'' else '''') @ c # r) = (tr, c # r)"
  by (auto simp: padspec_truncate_def)

lemma not_digit_bang: "\<not> isdigit (CHR ''!'')"
  by (simp add: isdigit_def)

text \<open>A padding specification written in a pattern is read back as written, its width cut to 64, and the
  flag character is left to be read; the flag must not continue the number, nor be the truncation mark.\<close>

theorem padspec_roundtrip:
  assumes "w < 2 ^ 64" "\<not> isdigit c" "tr \<or> c \<noteq> CHR ''!''"
  shows "handle_padspec (show_padspec w side tr @ c # rest) = (mk_padding (min w max_width) side tr, c # rest)"
proof -
  obtain d ds where d: "dec w = digit d # ds" "d < 10"
    "\<And>r. read_width d (ds @ r) = read_width w r"
    using dec_hd [of w] assms(1) by blast
  let ?t = "(if tr then ''!'' else '''') @ c # rest"
  have side: "padspec_side (show_padspec w side tr @ c # rest) = (side, digit d # ds @ ?t)"
    using padspec_side_show [OF d(2), of side "ds @ ?t"] by (simp add: show_padspec_def d(1))
  have "read_width w ?t = (w, ?t)"
    using assms(2) not_digit_bang by simp
  then show ?thesis
    using d(2) padspec_truncate_show [OF assms(3), of rest]
    by (simp only: handle_padspec_def side prod.case list.case d(3) isdigit_digit digit_val_digit not_True_eq_False if_False)
qed

theorem padspec_roundtrip_witness:
  "handle_padspec ''-12!v rest'' = (mk_padding 12 Pad_right True, ''v rest'')"
proof -
  have "show_padspec 12 Pad_right True = ''-12!''" by code_simp
  then show ?thesis
    using padspec_roundtrip [of 12 "CHR ''v''" True Pad_right "'' rest''"]
    by (simp add: isdigit_def max_width_def)
qed

section \<open>Samples\<close>

text \<open>A small calendar, for the witnesses: the time of day of the first day.\<close>

definition sample_os :: os_env where
  "sample_os = \<lparr>os_localtime = (\<lambda>s. zero_tm\<lparr>tm_sec := s mod 60, tm_min := s div 60 mod 60, tm_hour := s div 3600 mod 24\<rparr>),
     os_gmtime = (\<lambda>s. zero_tm\<lparr>tm_sec := s mod 60, tm_min := s div 60 mod 60, tm_hour := s div 3600 mod 24\<rparr>),
     os_pid = 42, os_now = 0\<rparr>"

definition sample_msg :: "int \<Rightarrow> string \<Rightarrow> lmsg" where
  "sample_msg t s = \<lparr>lm_logger_name = ''main'', lm_level = L_info, lm_time = t, lm_thread_id = 7, lm_color_start = 0,
     lm_color_end = 0, lm_source = \<lparr>sl_filename = ''Main.cpp'', sl_line = 10, sl_funcname = ''main''\<rparr>, lm_payload = s\<rparr>"

section \<open>Plain text\<close>

fun escape :: "string \<Rightarrow> string" where
  "escape [] = []"
| "escape (c # cs) = (if c = CHR ''%'' then ''%%'' else [c]) @ escape cs"

lemma flags_format_append:
  "flags_format env (fs @ gs) msg t d =
     bind_res (flags_format env fs msg t d) (\<lambda>(fs', msg', d').
     bind_res (flags_format env gs msg' t d') (\<lambda>(gs', msg'', d''). Inr (fs' @ gs', msg'', d'')))"
proof (induction fs arbitrary: msg d)
  case Nil
  show ?case by (cases "flags_format env gs msg t d") auto
next
  case (Cons f fs)
  show ?case
    by (cases "flag_format env f msg t d")
      (auto simp: Cons.IH bind_res_def split: sum.splits)
qed

lemma push_flags_simps [simp]:
  "push_flags [] pf = pf"
  "push_flags gs (push_flags fs pf) = push_flags (fs @ gs) pf"
  "pf_custom (push_flags fs pf) = pf_custom pf"
  "pf_formatters (push_flags fs pf) = pf_formatters pf @ fs"
  "pf_need_localtime (push_flags fs pf) = pf_need_localtime pf"
  "pf_eol (push_flags fs pf) = pf_eol pf"
  "pf_pattern (push_flags fs pf) = pf_pattern pf"
  "pf_time_type (push_flags fs pf) = pf_time_type pf"
  "pf_cached_tm (push_flags fs pf) = pf_cached_tm pf"
  "pf_last_log_secs (push_flags fs pf) = pf_last_log_secs pf"
  by (simp_all add: push_flags_def)

lemma handle_percent:
  "pf_custom pf CHR ''%'' = None \<Longrightarrow> handle_flag env CHR ''%'' p pf = push_flags [Ch_flag CHR ''%''] pf"
  by (simp add: handle_flag_def flag_table_def push_flags_def)

lemma padspec_percent: "handle_padspec (CHR ''%'' # r) = (no_padding, CHR ''%'' # r)"
  by (simp add: handle_padspec_def padspec_side_def isdigit_def)

definition writes :: "os_env \<Rightarrow> flag list \<Rightarrow> string \<Rightarrow> bool" where
  "writes env fs s \<longleftrightarrow> (\<forall>msg t d. flags_format env fs msg t d = Inr (fs, msg, d @ s))"

lemma writes_append: "writes env fs a \<Longrightarrow> writes env gs b \<Longrightarrow> writes env (fs @ gs) (a @ b)"
  by (simp add: writes_def flags_format_append)

lemma writes_single [simp]: "writes env [Aggregate s] s" "writes env [Ch_flag c] [c]" "writes env [] []"
  by (simp_all add: writes_def)

definition user_text :: "string option \<Rightarrow> string" where
  "user_text user = (case user of None \<Rightarrow> [] | Some s \<Rightarrow> s)"

lemma flush_writes: "\<exists>fs. flush_chars user pf = push_flags fs pf \<and> writes env fs (user_text user)"
proof (cases user)
  case None
  then show ?thesis by (intro exI [of _ "[]"]) (simp add: flush_chars_def user_text_def)
next
  case (Some s)
  then show ?thesis by (intro exI [of _ "[Aggregate s]"]) (simp add: flush_chars_def user_text_def)
qed

lemma compile_escape:
  assumes "pf_custom pf CHR ''%'' = None"
  shows "\<exists>fs. compile_loop env (escape s) user pf = push_flags fs pf \<and> writes env fs (user_text user @ s)"
  using assms
proof (induction s arbitrary: user pf)
  case Nil
  then show ?case using flush_writes [of user pf env] by simp
next
  case (Cons c cs)
  show ?case
  proof (cases "c = CHR ''%''")
    case True
    obtain fs where f: "flush_chars user pf = push_flags fs pf" "writes env fs (user_text user)"
      using flush_writes by blast
    have h: "handle_flag env CHR ''%'' no_padding (push_flags fs pf) = push_flags (fs @ [Ch_flag CHR ''%'']) pf"
      using Cons.prems by (simp add: handle_percent)
    obtain gs where g: "compile_loop env (escape cs) None (push_flags (fs @ [Ch_flag CHR ''%'']) pf)
        = push_flags gs (push_flags (fs @ [Ch_flag CHR ''%'']) pf)" "writes env gs (user_text None @ cs)"
      using Cons.IH [of "push_flags (fs @ [Ch_flag CHR ''%'']) pf" None] Cons.prems by auto
    have "writes env ((fs @ [Ch_flag CHR ''%'']) @ gs) ((user_text user @ ''%'') @ user_text None @ cs)"
      using f(2) g(2) by (intro writes_append) simp_all
    then show ?thesis
      using True f(1) g(1) h
      by (intro exI [of _ "(fs @ [Ch_flag CHR ''%'']) @ gs"]) (simp add: padspec_percent user_text_def)
  next
    case False
    have "user_text (add_ch user c) = user_text user @ [c]"
      by (simp add: user_text_def add_ch_def split: option.split)
    then show ?thesis
      using Cons.IH [of pf "add_ch user c"] Cons.prems False by simp
  qed
qed

text \<open>Any text comes out as it is from a pattern in which its percent signs are doubled, whatever the
  message and the formatter's history, with the end of line after it.\<close>

theorem plain_text_roundtrip:
  assumes "pf_custom pf CHR ''%'' = None"
  shows "pf_format env (set_pattern env (escape plain) pf) msg dest =
    Inr (set_pattern env (escape plain) pf, msg, dest @ plain @ pf_eol pf)"
proof -
  let ?pf = "pf\<lparr>pf_pattern := escape plain, pf_need_localtime := False, pf_formatters := []\<rparr>"
  obtain fs where fs: "compile_loop env (escape plain) None ?pf = push_flags fs ?pf" "writes env fs plain"
    using compile_escape [of ?pf env plain None] assms by (auto simp: user_text_def)
  have s: "set_pattern env (escape plain) pf = push_flags fs ?pf"
    using fs(1) by (simp add: set_pattern_def compile_pattern_def)
  have "refresh_time env msg (push_flags fs ?pf) = push_flags fs ?pf"
    by (simp add: refresh_time_def)
  then show ?thesis
    using fs(2) by (simp add: s pf_format_def writes_def push_flags_def)
qed

theorem plain_text_roundtrip_witness:
  "\<exists>pf. pf_format sample_os (set_pattern sample_os ''100%% done%%'' (default_pattern_formatter Utc_time ''!'')) (sample_msg 5 ''x'') [] =
    Inr (pf, sample_msg 5 ''x'', ''100% done%!'')"
  using plain_text_roundtrip [of "default_pattern_formatter Utc_time ''!''" sample_os "''100% done%''" "sample_msg 5 ''x''" "[]"]
  by (simp add: default_pattern_formatter_def)

section \<open>A formatter that has been used writes what a fresh one writes\<close>

fun pf_lines :: "os_env \<Rightarrow> pattern_formatter \<Rightarrow> lmsg list \<Rightarrow> string list res" where
  "pf_lines env pf [] = Inr []"
| "pf_lines env pf (m # ms) =
     bind_res (pf_format env pf m []) (\<lambda>(pf', _, line).
     bind_res (pf_lines env pf' ms) (\<lambda>ls. Inr (line # ls)))"

text \<open>The reference formats each message with a clone of the formatter it starts from.\<close>

fun fresh_lines :: "os_env \<Rightarrow> pattern_formatter \<Rightarrow> lmsg list \<Rightarrow> string list res" where
  "fresh_lines env pf [] = Inr []"
| "fresh_lines env pf (m # ms) =
     bind_res (pf_format env (pf_clone env pf) m []) (\<lambda>(_, _, line).
     bind_res (fresh_lines env pf ms) (\<lambda>ls. Inr (line # ls)))"

fun is_elapsed :: "flag \<Rightarrow> bool" where
  "is_elapsed (Elapsed_flag _ _ _) = True"
| "is_elapsed _ = False"

fun uses_tm :: "flag \<Rightarrow> bool" where
  "uses_tm (Time_flag _ _) = True"
| "uses_tm (Zone_flag _ _ _) = True"
| "uses_tm (Full_flag _ _) = True"
| "uses_tm _ = False"

fun is_custom :: "flag \<Rightarrow> bool" where
  "is_custom (Custom_flag _ _) = True"
| "is_custom _ = False"

text \<open>What a used flag may differ in from its fresh copy: the caches hold what a fresh flag would compute,
  the one of the time zone for one of the times \<open>G\<close> of the messages so far.\<close>

fun used_flag :: "(int \<Rightarrow> tm) \<Rightarrow> int set \<Rightarrow> flag \<Rightarrow> flag \<Rightarrow> bool" where
  "used_flag T G (Zone_flag p u off) f0 \<longleftrightarrow> f0 = Zone_flag p 0 0 \<and> ((u = 0 \<and> off = 0) \<or> u \<in> G \<and> off = utc_minutes_offset (T (time_secs u)))"
| "used_flag T G (Full_flag secs txt) f0 \<longleftrightarrow> f0 = Full_flag 0 [] \<and> (txt = [] \<or> txt = full_datetime (T secs))"
| "used_flag T G f f0 \<longleftrightarrow> f0 = f \<and> \<not> is_elapsed f \<and> \<not> is_custom f"

definition same_text :: "(flag \<times> lmsg \<times> string) res \<Rightarrow> (flag \<times> lmsg \<times> string) res \<Rightarrow> (flag \<Rightarrow> bool) \<Rightarrow> bool" where
  "same_text r r0 P \<longleftrightarrow>
     (\<exists>e. r = Inl e \<and> r0 = Inl e) \<or> (\<exists>f f0 m d. r = Inr (f, m, d) \<and> r0 = Inr (f0, m, d) \<and> P f)"

text \<open>The offset from UTC has not changed in the ten seconds after any of the times \<open>G\<close>, as far as a message at \<open>t\<close> can tell.\<close>

definition steady :: "(int \<Rightarrow> tm) \<Rightarrow> int set \<Rightarrow> int \<Rightarrow> bool" where
  "steady T G t \<longleftrightarrow>
     (\<forall>u\<in>G. t - u < 10 * ns_per_sec \<longrightarrow> utc_minutes_offset (T (time_secs u)) = utc_minutes_offset (T (time_secs t)))"

lemma z_formatter_used:
  assumes "(u = 0 \<and> off = 0) \<or> u \<in> G \<and> off = utc_minutes_offset (T (time_secs u))" "steady T G (lm_time m)"
    "t = T (time_secs (lm_time m))" "10 * ns_per_sec \<le> lm_time m"
  shows "\<exists>u'. get_cached_offset m t (u, off) = (u', utc_minutes_offset t) \<and> u' \<in> insert (lm_time m) G \<and>
      utc_minutes_offset t = utc_minutes_offset (T (time_secs u'))"
    "get_cached_offset m t (0, 0) = (lm_time m, utc_minutes_offset t)"
  using assms by (auto simp: get_cached_offset_def steady_def)

lemma z_same:
  assumes "get_cached_offset m t c = (u, o1)" "get_cached_offset m t c0 = (u0, o1)"
  shows "(\<exists>e. z_formatter p m t c dest = Inl e \<and> z_formatter p m t c0 dest = Inl e) \<or>
    (\<exists>d. z_formatter p m t c dest = Inr ((u, o1), d) \<and> z_formatter p m t c0 dest = Inr ((u0, o1), d))"
  by (cases "padded p 6 ((if o1 < 0 then ''-'' else ''+'') @ pad2 (\<bar>o1\<bar> div 60) @ '':'' @ pad2 (\<bar>o1\<bar> mod 60)) dest")
    (simp_all add: z_formatter_def assms Let_def)

lemma full_same:
  assumes "cached = [] \<or> cached = full_datetime (T secs)" "t = T (time_secs (lm_time m))"
  shows "\<exists>m' d. full_formatter m t (secs, cached) dest = ((time_secs (lm_time m), full_datetime t), m', d)
    \<and> full_formatter m t (0, []) dest = ((time_secs (lm_time m), full_datetime t), m', d)"
  using assms by (auto simp: full_formatter_def Let_def full_datetime_def)

lemma same_text_refl_intro:
  "(\<And>f m d. r = Inr (f, m, d) \<Longrightarrow> P f) \<Longrightarrow> same_text r r P"
  by (cases r) (auto simp: same_text_def)

lemma used_step:
  assumes "used_flag T G f f0" "10 * ns_per_sec \<le> lm_time m"
    "uses_tm f \<Longrightarrow> t = T (time_secs (lm_time m)) \<and> t0 = t" "steady T G (lm_time m)"
  shows "same_text (flag_format env f m t dest) (flag_format env f0 m t0 dest) (\<lambda>f'. used_flag T (insert (lm_time m) G) f' f0)"
proof (cases f)
  case (Msg_flag k p)
  then show ?thesis using assms(1)
    by (cases "msg_formatter k p m dest") (simp_all add: same_text_def)
next
  case (Time_flag k p)
  then show ?thesis using assms
    by (cases "time_formatter k p t dest") (simp_all add: same_text_def)
next
  case (Zone_flag p u off)
  then have t: "t = T (time_secs (lm_time m))" "t0 = t" using assms(3) by auto
  have f: "f0 = Zone_flag p 0 0" "(u = 0 \<and> off = 0) \<or> u \<in> G \<and> off = utc_minutes_offset (T (time_secs u))"
    using assms(1) Zone_flag by (auto simp only: used_flag.simps)
  obtain u' where u': "get_cached_offset m t (u, off) = (u', utc_minutes_offset t)" "u' \<in> insert (lm_time m) G"
      "utc_minutes_offset t = utc_minutes_offset (T (time_secs u'))"
    using z_formatter_used(1) [OF f(2) assms(4) t(1) assms(2)] by blast
  show ?thesis
    using z_same [OF u'(1) z_formatter_used(2) [OF f(2) assms(4) t(1) assms(2)], of p dest] Zone_flag f(1) t(2) u'(2,3)
    by (auto simp: same_text_def)
next
  case (Full_flag secs cached)
  then have f: "f0 = Full_flag 0 []" "cached = [] \<or> cached = full_datetime (T secs)" "t0 = t" "t = T (time_secs (lm_time m))"
    using assms by simp_all
  show ?thesis
    using full_same [OF f(2,4), of dest] Full_flag f(1,3,4) by (auto simp: same_text_def)
next
  case (Pid_flag p)
  then show ?thesis using assms(1)
    by (cases "pid_formatter p (os_pid env mod 2 ^ 32) dest") (simp_all add: same_text_def)
qed (use assms(1) in \<open>simp_all add: same_text_def\<close>)

lemma used_uses_tm: "used_flag T G f f0 \<Longrightarrow> uses_tm f = uses_tm f0"
  by (cases f) auto

definition same_run :: "(flag list \<times> lmsg \<times> string) res \<Rightarrow> (flag list \<times> lmsg \<times> string) res \<Rightarrow> (flag list \<Rightarrow> bool) \<Rightarrow> bool" where
  "same_run r r0 P \<longleftrightarrow>
     (\<exists>e. r = Inl e \<and> r0 = Inl e) \<or> (\<exists>f f0 m d. r = Inr (f, m, d) \<and> r0 = Inr (f0, m, d) \<and> P f)"

lemma full_formatter_time: "full_formatter m t c dest = (c', m', d) \<Longrightarrow> lm_time m' = lm_time m"
  by (drule arg_cong [where f = "\<lambda>r. lm_time (fst (snd r))"]) (simp add: full_formatter_def Let_def)

lemma flag_format_time: "flag_format env f m t dest = Inr (f', m', d) \<Longrightarrow> lm_time m' = lm_time m"
  by (cases f) (auto simp: bind_res_eq_Inr full_formatter_time split: option.splits prod.splits)

lemma used_run:
  assumes "list_all2 (used_flag T G) fs gs" "10 * ns_per_sec \<le> lm_time m"
    "\<And>f. f \<in> set fs \<Longrightarrow> uses_tm f \<Longrightarrow> t = T (time_secs (lm_time m)) \<and> t0 = t" "steady T G (lm_time m)"
  shows "same_run (flags_format env fs m t dest) (flags_format env gs m t0 dest) (\<lambda>fs'. list_all2 (used_flag T (insert (lm_time m) G)) fs' gs)"
  using assms
proof (induction fs gs arbitrary: m dest rule: list_all2_induct)
  case Nil
  then show ?case by (simp add: same_run_def)
next
  case (Cons f fs f0 gs)
  have step: "same_text (flag_format env f m t dest) (flag_format env f0 m t0 dest) (\<lambda>f'. used_flag T (insert (lm_time m) G) f' f0)"
    using Cons.hyps(1) Cons.prems by (intro used_step) auto
  show ?case
  proof (cases "flag_format env f m t dest")
    case (Inl e)
    then show ?thesis using step by (auto simp: same_text_def same_run_def)
  next
    case (Inr r)
    then obtain f' f0' m' d where e: "flag_format env f m t dest = Inr (f', m', d)"
      "flag_format env f0 m t0 dest = Inr (f0', m', d)" "used_flag T (insert (lm_time m) G) f' f0"
      using step by (auto simp: same_text_def)
    have time: "lm_time m' = lm_time m" using flag_format_time [OF e(1)] .
    have "same_run (flags_format env fs m' t d) (flags_format env gs m' t0 d)
        (\<lambda>fs'. list_all2 (used_flag T (insert (lm_time m') G)) fs' gs)"
      using Cons.prems time by (intro Cons.IH) auto
    then have "same_run (flags_format env fs m' t d) (flags_format env gs m' t0 d)
        (\<lambda>fs'. list_all2 (used_flag T (insert (lm_time m) G)) fs' gs)" by (simp only: time)
    then show ?thesis using e by (auto simp: same_run_def)
  qed
qed

text \<open>Which conversion a formatter uses, as a function of the seconds.\<close>

definition pf_tm :: "os_env \<Rightarrow> time_type \<Rightarrow> int \<Rightarrow> tm" where
  "pf_tm env ty = (if ty = Local_time then os_localtime env else os_gmtime env)"

lemma get_time_pf_tm: "get_time env pf m = pf_tm env (pf_time_type pf) (time_secs (lm_time m))"
  by (simp add: get_time_def pf_tm_def)

definition pf_used :: "os_env \<Rightarrow> int set \<Rightarrow> pattern_formatter \<Rightarrow> pattern_formatter \<Rightarrow> bool" where
  "pf_used env G pf pf0 \<longleftrightarrow>
     pf_time_type pf = pf_time_type pf0 \<and> pf_eol pf = pf_eol pf0 \<and> pf_need_localtime pf = pf_need_localtime pf0 \<and>
     list_all2 (used_flag (pf_tm env (pf_time_type pf0)) G) (pf_formatters pf) (pf_formatters pf0) \<and>
     (\<forall>f \<in> set (pf_formatters pf0). uses_tm f \<longrightarrow> pf_need_localtime pf0) \<and>
     (pf_last_log_secs pf = 0 \<or> pf_cached_tm pf = pf_tm env (pf_time_type pf0) (pf_last_log_secs pf))"

lemma time_secs_nonzero: "10 * ns_per_sec \<le> t \<Longrightarrow> time_secs t \<noteq> 0"
  by (simp add: time_secs_def cdiv_def ns_per_sec_def)

lemma refresh_time_simps [simp]:
  "pf_formatters (refresh_time env m pf) = pf_formatters pf"
  "pf_eol (refresh_time env m pf) = pf_eol pf"
  "pf_time_type (refresh_time env m pf) = pf_time_type pf"
  "pf_need_localtime (refresh_time env m pf) = pf_need_localtime pf"
  "pf_custom (refresh_time env m pf) = pf_custom pf"
  by (simp_all add: refresh_time_def)

lemma refresh_time_used:
  assumes "pf_last_log_secs pf = 0 \<or> pf_cached_tm pf = pf_tm env (pf_time_type pf) (pf_last_log_secs pf)"
    "pf_need_localtime pf" "10 * ns_per_sec \<le> lm_time m"
  shows "pf_cached_tm (refresh_time env m pf) = pf_tm env (pf_time_type pf) (time_secs (lm_time m))"
    "pf_last_log_secs (refresh_time env m pf) = time_secs (lm_time m)"
  using assms time_secs_nonzero [OF assms(3)] by (auto simp: refresh_time_def get_time_pf_tm)

text \<open>One message: the same text and message as from the fresh formatter, and still as good as fresh.\<close>

lemma pf_format_used:
  assumes u: "pf_used env G pf pf0" and z: "pf_last_log_secs pf0 = 0" and t: "10 * ns_per_sec \<le> lm_time m"
    and g: "steady (pf_tm env (pf_time_type pf0)) G (lm_time m)"
  shows "(\<exists>e. pf_format env pf m dest = Inl e \<and> pf_format env pf0 m dest = Inl e) \<or>
    (\<exists>pf' pf0' m' d. pf_format env pf m dest = Inr (pf', m', d) \<and> pf_format env pf0 m dest = Inr (pf0', m', d)
      \<and> pf_used env (insert (lm_time m) G) pf' pf0)"
proof -
  let ?T = "pf_tm env (pf_time_type pf0)"
  have uu: "pf_time_type pf = pf_time_type pf0" "pf_eol pf = pf_eol pf0" "pf_need_localtime pf = pf_need_localtime pf0"
    "list_all2 (used_flag ?T G) (pf_formatters pf) (pf_formatters pf0)"
    "\<And>f. f \<in> set (pf_formatters pf0) \<Longrightarrow> uses_tm f \<Longrightarrow> pf_need_localtime pf0"
    "pf_last_log_secs pf = 0 \<or> pf_cached_tm pf = ?T (pf_last_log_secs pf)"
    using u by (auto simp: pf_used_def)
  have need: "pf_need_localtime pf0" if "f \<in> set (pf_formatters pf)" "uses_tm f" for f
    using that uu(4,5) used_uses_tm by (auto simp: list_all2_conv_all_nth in_set_conv_nth) (metis nth_mem)
  have run: "same_run (flags_format env (pf_formatters pf) m (pf_cached_tm (refresh_time env m pf)) dest)
      (flags_format env (pf_formatters pf0) m (pf_cached_tm (refresh_time env m pf0)) dest)
      (\<lambda>fs'. list_all2 (used_flag ?T (insert (lm_time m) G)) fs' (pf_formatters pf0))"
    using uu need z t g
    by (intro used_run) (auto simp: refresh_time_used)
  have last: "pf_last_log_secs (refresh_time env m pf) = 0 \<or>
      pf_cached_tm (refresh_time env m pf) = ?T (pf_last_log_secs (refresh_time env m pf))"
    using uu(1,6) by (auto simp: refresh_time_def get_time_pf_tm)
  from run show ?thesis
    using uu last u by (auto simp: same_run_def pf_format_def pf_used_def)
qed

fun fresh_flag :: "flag \<Rightarrow> bool" where
  "fresh_flag (Zone_flag _ u off) \<longleftrightarrow> u = 0 \<and> off = 0"
| "fresh_flag (Full_flag secs cached) \<longleftrightarrow> secs = 0 \<and> cached = []"
| "fresh_flag (Custom_flag _ _) \<longleftrightarrow> False"
| "fresh_flag _ \<longleftrightarrow> True"

lemma fresh_flag_used: "fresh_flag f \<Longrightarrow> \<not> is_elapsed f \<Longrightarrow> used_flag T G f f"
  by (cases f) auto

definition compiled_ok :: "pattern_formatter \<Rightarrow> bool" where
  "compiled_ok pf \<longleftrightarrow> pf_custom pf = Map.empty \<and>
     (\<forall>f \<in> set (pf_formatters pf). fresh_flag f \<and> (uses_tm f \<longrightarrow> pf_need_localtime pf))"

lemma flag_table_ok: "(c, f, need) \<in> set (flag_table env p) \<Longrightarrow> fresh_flag f \<and> (uses_tm f \<longrightarrow> need)"
  unfolding flag_table_def by (simp only: set_simps insert_iff prod.inject empty_iff) auto

lemma push_flags_ok:
  "compiled_ok pf \<Longrightarrow> \<forall>f \<in> set fs. fresh_flag f \<and> \<not> uses_tm f \<Longrightarrow> compiled_ok (push_flags fs pf)"
  by (auto simp: compiled_ok_def)

lemma flush_chars_ok: "compiled_ok pf \<Longrightarrow> compiled_ok (flush_chars user pf)"
  by (auto simp: flush_chars_def intro!: push_flags_ok split: option.split)

lemma handle_flag_ok:
  assumes "compiled_ok pf"
  shows "compiled_ok (handle_flag env c p pf)"
proof (cases "map_of (flag_table env p) c")
  case None
  then show ?thesis using assms
    by (auto simp: handle_flag_def compiled_ok_def intro!: push_flags_ok)
next
  case (Some fn)
  obtain f need where fn: "fn = (f, need)" by fastforce
  have "fresh_flag f \<and> (uses_tm f \<longrightarrow> need)"
    using map_of_SomeD [OF Some] by (auto simp: fn dest: flag_table_ok)
  then show ?thesis using assms Some
    by (auto simp: handle_flag_def compiled_ok_def fn)
qed

lemma compile_loop_ok: "compiled_ok pf \<Longrightarrow> compiled_ok (compile_loop env s user pf)"
  by (induction env s user pf rule: compile_loop.induct)
    (auto simp: flush_chars_ok handle_flag_ok split: prod.split list.split)

lemma handle_flag_keeps [simp]:
  "pf_pattern (handle_flag env c p pf) = pf_pattern pf"
  "pf_eol (handle_flag env c p pf) = pf_eol pf"
  "pf_time_type (handle_flag env c p pf) = pf_time_type pf"
  "pf_custom (handle_flag env c p pf) = pf_custom pf"
  "pf_last_log_secs (handle_flag env c p pf) = pf_last_log_secs pf"
  "pf_cached_tm (handle_flag env c p pf) = pf_cached_tm pf"
  by (simp_all add: handle_flag_def split: option.split)

lemma flush_chars_keeps [simp]:
  "pf_pattern (flush_chars user pf) = pf_pattern pf"
  "pf_eol (flush_chars user pf) = pf_eol pf"
  "pf_time_type (flush_chars user pf) = pf_time_type pf"
  "pf_custom (flush_chars user pf) = pf_custom pf"
  "pf_last_log_secs (flush_chars user pf) = pf_last_log_secs pf"
  "pf_cached_tm (flush_chars user pf) = pf_cached_tm pf"
  by (simp_all add: flush_chars_def split: option.split)

lemma compile_loop_keeps [simp]:
  "pf_pattern (compile_loop env s user pf) = pf_pattern pf"
  "pf_eol (compile_loop env s user pf) = pf_eol pf"
  "pf_time_type (compile_loop env s user pf) = pf_time_type pf"
  "pf_custom (compile_loop env s user pf) = pf_custom pf"
  "pf_last_log_secs (compile_loop env s user pf) = pf_last_log_secs pf"
  "pf_cached_tm (compile_loop env s user pf) = pf_cached_tm pf"
  by (induction env s user pf rule: compile_loop.induct; simp split: prod.split list.split)+

lemma pf_clone_new: "pf_clone env (new_pattern_formatter env pat ty eol hs) = new_pattern_formatter env pat ty eol hs"
  by (simp add: pf_clone_def new_pattern_formatter_def compile_pattern_def)

lemma new_pattern_formatter_used:
  assumes "\<forall>f \<in> set (pf_formatters (new_pattern_formatter env pat ty eol Map.empty)). \<not> is_elapsed f"
  shows "pf_used env G (new_pattern_formatter env pat ty eol Map.empty) (new_pattern_formatter env pat ty eol Map.empty)"
proof -
  let ?pf = "new_pattern_formatter env pat ty eol Map.empty"
  have "compiled_ok ?pf"
    unfolding new_pattern_formatter_def compile_pattern_def by (intro compile_loop_ok) (simp add: compiled_ok_def)
  moreover have "pf_last_log_secs ?pf = 0"
    by (simp add: new_pattern_formatter_def compile_pattern_def)
  ultimately show ?thesis
    using assms by (auto simp: pf_used_def compiled_ok_def fresh_flag_used list_all2_same)
qed

text \<open>
  Messages whose time zone a cache of ten seconds gets right: of any two, if the later one's time is less than ten
  seconds after the earlier one's (or before it), both have the same offset from UTC.
\<close>

definition steady_offsets :: "(int \<Rightarrow> tm) \<Rightarrow> lmsg list \<Rightarrow> bool" where
  "steady_offsets T ms \<longleftrightarrow>
     sorted_wrt (\<lambda>m m'. lm_time m' - lm_time m < 10 * ns_per_sec \<longrightarrow>
       utc_minutes_offset (T (time_secs (lm_time m))) = utc_minutes_offset (T (time_secs (lm_time m')))) ms"

lemma pf_lines_used:
  assumes "pf_used env G pf pf0" "pf_clone env pf0 = pf0" "pf_last_log_secs pf0 = 0"
    "\<forall>m \<in> set ms. 10 * ns_per_sec \<le> lm_time m \<and> steady (pf_tm env (pf_time_type pf0)) G (lm_time m)"
    "steady_offsets (pf_tm env (pf_time_type pf0)) ms"
  shows "pf_lines env pf ms = fresh_lines env pf0 ms"
  using assms
proof (induction ms arbitrary: pf G)
  case (Cons m ms)
  have "(\<exists>e. pf_format env pf m [] = Inl e \<and> pf_format env pf0 m [] = Inl e) \<or>
    (\<exists>pf' pf0' m' d. pf_format env pf m [] = Inr (pf', m', d) \<and> pf_format env pf0 m [] = Inr (pf0', m', d)
      \<and> pf_used env (insert (lm_time m) G) pf' pf0)"
    using Cons.prems by (intro pf_format_used) auto
  moreover have "pf_lines env pf' ms = fresh_lines env pf0 ms" if "pf_used env (insert (lm_time m) G) pf' pf0" for pf'
    using Cons.prems by (intro Cons.IH [OF that]) (auto simp: steady_def steady_offsets_def)
  ultimately show ?case
    by (elim disjE exE conjE) (simp_all add: Cons.prems(2))
qed simp

text \<open>C37: The caches of the formatter are invisible.  A sequence of messages, each at least ten seconds after
  the epoch, comes out of one formatter that keeps its broken-down time, its date text and its time zone exactly as from a
  fresh clone for every message, as long as the offset from UTC is the same for two messages of which the later
  one's time is less than ten seconds after the earlier one's, or before it; the pattern has no custom flags and none for the time since the last message.\<close>

theorem caching_is_invisible:
  assumes "pf = new_pattern_formatter env pat ty eol Map.empty"
    "\<forall>f \<in> set (pf_formatters pf). \<not> is_elapsed f"
    "\<forall>m \<in> set ms. 10 * ns_per_sec \<le> lm_time m" "steady_offsets (pf_tm env ty) ms"
  shows "pf_lines env pf ms = fresh_lines env pf ms"
proof -
  have ty: "pf_time_type pf = ty" "pf_last_log_secs pf = 0"
    by (simp_all add: assms(1) new_pattern_formatter_def compile_pattern_def)
  have "pf_used env {} pf pf" using new_pattern_formatter_used assms(1,2) by blast
  moreover have "pf_clone env pf = pf" by (simp add: assms(1) pf_clone_new)
  ultimately show ?thesis
    using assms(3,4) ty by (intro pf_lines_used [where G = "{}"]) (auto simp: steady_def)
qed

section \<open>The programs' own pattern\<close>

definition own_pattern :: string where
  "own_pattern = ''[%@ %H:%M:%S:%e %z] [%^%L%$] [thread %t] %v''"

definition own_flags :: "flag list" where
  "own_flags =
     [Aggregate ''['', Msg_flag K_source_location no_padding, Aggregate '' '', Time_flag K_H no_padding,
      Aggregate '':'', Time_flag K_M no_padding, Aggregate '':'', Time_flag K_S no_padding, Aggregate '':'',
      Msg_flag K_millis no_padding, Aggregate '' '', Zone_flag no_padding 0 0, Aggregate ''] ['', Color_start,
      Msg_flag K_short_level no_padding, Color_stop, Aggregate ''] [thread '', Msg_flag K_thread no_padding,
      Aggregate ''] '', Msg_flag K_payload no_padding]"

definition own_formatter :: "os_env \<Rightarrow> pattern_formatter" where
  "own_formatter env = new_pattern_formatter env own_pattern Local_time [CHR 0x0A] Map.empty"

lemmas compile_evals =
  handle_padspec_def padspec_side_def isdigit_def handle_flag_def flag_table_def flush_chars_def add_ch_def push_flags_def

lemma own_formatter_flags:
  "own_formatter env =
     \<lparr>pf_pattern = own_pattern, pf_eol = [CHR 0x0A], pf_time_type = Local_time, pf_need_localtime = True,
      pf_cached_tm = zero_tm, pf_last_log_secs = 0, pf_formatters = own_flags, pf_custom = Map.empty\<rparr>"
  unfolding own_formatter_def new_pattern_formatter_def compile_pattern_def own_pattern_def own_flags_def
  by (simp add: compile_evals)

lemma padded_no_padding [simp]: "padded no_padding n s d = Inr (d @ s)"
  by (simp add: padded_def no_padding_def)

lemma no_padding_enabled [simp]: "\<not> pi_enabled no_padding"
  by (simp add: no_padding_def)

text \<open>The line as its readers expect it, before and after the level letter.\<close>

definition own_head :: "tm \<Rightarrow> lmsg \<Rightarrow> string" where
  "own_head t m =
     ''['' @ sl_filename (lm_source m) @ '':'' @ dec_int (sl_line (lm_source m)) @ '' '' @
     pad2 (tm_hour t) @ '':'' @ pad2 (tm_min t) @ '':'' @ pad2 (tm_sec t) @ '':'' @
     pad3 (nat (time_fraction 1000000 (lm_time m) mod 2 ^ 32)) @ '' '' @
     (if utc_minutes_offset t < 0 then ''-'' else ''+'') @ pad2 (\<bar>utc_minutes_offset t\<bar> div 60) @ '':'' @
     pad2 (\<bar>utc_minutes_offset t\<bar> mod 60) @ ''] [''"

definition own_tail :: "lmsg \<Rightarrow> string" where
  "own_tail m = ''] [thread '' @ dec (lm_thread_id m) @ ''] '' @ lm_payload m @ [CHR 0x0A]"

text \<open>The pattern both programs set formats a message as file, line, time with milliseconds, offset from
  UTC, level letter, thread and text on one line, and the colour range covers exactly the level letter.\<close>

lemma own_pattern_line:
  assumes "10 * ns_per_sec \<le> lm_time m" "sl_line (lm_source m) \<noteq> 0"
    "t = os_localtime env (time_secs (lm_time m))"
  shows "\<exists>pf. pf_format env (own_formatter env) m [] =
    Inr (pf, m\<lparr>lm_color_start := length (own_head t m),
               lm_color_end := length (own_head t m @ level_short (lm_level m))\<rparr>,
         own_head t m @ level_short (lm_level m) @ own_tail m)"
proof -
  have n: "time_secs (lm_time m) \<noteq> 0" using time_secs_nonzero [OF assms(1)] .
  have z: "get_cached_offset m t (0, 0) = (lm_time m, utc_minutes_offset t)"
    using assms(1) by (simp add: get_cached_offset_def)
  have sl: "source_location_formatter no_padding m d = Inr (d @ sl_filename (lm_source m) @ '':'' @ dec_int (sl_line (lm_source m)))" for d
    using assms(2) by (simp add: source_location_formatter_def sl_empty_def Let_def)
  define zs where "zs = (if utc_minutes_offset t < 0 then ''-'' else ''+'') @ pad2 (\<bar>utc_minutes_offset t\<bar> div 60) @
    '':'' @ pad2 (\<bar>utc_minutes_offset t\<bar> mod 60)"
  have zf: "z_formatter no_padding m t (0, 0) d = Inr ((lm_time m, utc_minutes_offset t), d @ zs)" for d
    unfolding z_formatter_def z Let_def zs_def by simp
  have h: "own_head t m = ''['' @ sl_filename (lm_source m) @ '':'' @ dec_int (sl_line (lm_source m)) @ '' '' @
     pad2 (tm_hour t) @ '':'' @ pad2 (tm_min t) @ '':'' @ pad2 (tm_sec t) @ '':'' @
     pad3 (nat (time_fraction 1000000 (lm_time m) mod 2 ^ 32)) @ '' '' @ zs @ ''] [''"
    by (simp add: own_head_def zs_def)
  have r: "refresh_time env m (own_formatter env) =
      (own_formatter env)\<lparr>pf_cached_tm := t, pf_last_log_secs := time_secs (lm_time m)\<rparr>"
    using n assms(3) by (simp add: refresh_time_def own_formatter_flags get_time_def)
  show ?thesis
    unfolding pf_format_def r Let_def h own_tail_def
    by (simp add: own_formatter_flags own_flags_def sl H_formatter_def
        M_formatter_def S_formatter_def e_formatter_def zf short_level_formatter_def t_formatter_def
        v_formatter_def padder_digits_def)
qed

lemma own_flags_plain: "\<forall>f \<in> set own_flags. \<not> is_elapsed f"
  by (simp add: own_flags_def)

text \<open>A system whose clock goes forward by an hour half a minute after the epoch.\<close>

definition shifting_os :: os_env where
  "shifting_os = sample_os\<lparr>os_localtime := (\<lambda>s. (os_localtime sample_os s)\<lparr>tm_gmtoff := (if s < 30 then 0 else 3600)\<rparr>)\<rparr>"

theorem caching_is_invisible_witness:
  "pf_lines shifting_os (own_formatter shifting_os) (map (\<lambda>t. sample_msg t ''a'') [20000000000, 20500000000, 40000000000]) =
    fresh_lines shifting_os (own_formatter shifting_os) (map (\<lambda>t. sample_msg t ''a'') [20000000000, 20500000000, 40000000000])"
proof -
  let ?pf = "own_formatter shifting_os" and ?ms = "map (\<lambda>t. sample_msg t ''a'') [20000000000, 20500000000, 40000000000]"
  have a: "\<forall>f \<in> set (pf_formatters ?pf). \<not> is_elapsed f"
    by (simp add: own_formatter_flags own_flags_plain)
  have b: "\<forall>m \<in> set ?ms. 10 * ns_per_sec \<le> lm_time m" by (simp add: sample_msg_def ns_per_sec_def)
  have c: "steady_offsets (pf_tm shifting_os Local_time) ?ms"
    by (simp add: steady_offsets_def sample_msg_def ns_per_sec_def pf_tm_def shifting_os_def time_secs_def cdiv_def
        utc_minutes_offset_def)
  show ?thesis
    by (rule caching_is_invisible [OF own_formatter_def a b c])
qed

section \<open>A field narrower than announced\<close>

text \<open>The flag for month, day and year announces ten characters and writes eight.  A pattern that truncates
  it to nothing makes the padder shrink the empty buffer below zero, which ends the program, for every message
  whose date has two-digit fields.\<close>

theorem short_date_aborts:
  assumes "t = os_localtime env (time_secs (lm_time m))" "time_secs (lm_time m) \<noteq> 0"
    "0 \<le> tm_mon t" "tm_mon t < 12" "0 \<le> tm_mday t" "tm_mday t < 32"
  shows "pf_format env (new_pattern_formatter env ''%0!D'' Local_time eol Map.empty) m [] = Inl Aborted"
proof -
  let ?pf = "new_pattern_formatter env ''%0!D'' Local_time eol Map.empty"
  let ?p = "mk_padding 0 Pad_left True"
  have pf: "pf_formatters ?pf = [Time_flag K_D ?p]" "pf_need_localtime ?pf" "pf_time_type ?pf = Local_time"
    "pf_last_log_secs ?pf = 0"
    unfolding new_pattern_formatter_def compile_pattern_def
    by (simp_all add: compile_evals padspec_truncate_def digit_val_def mk_padding_def max_width_def)
  have tm: "pf_cached_tm (refresh_time env m ?pf) = t"
    using assms(1,2) pf by (simp add: refresh_time_def get_time_def)
  have y: "length (pad2 (crem (tm_year t) 100)) \<le> 3"
  proof -
    have "\<bar>crem (tm_year t) 100\<bar> < 100" by (simp add: crem_def abs_mult sgn_if)
    then show ?thesis
      by (auto simp: pad2_def dec_int_def dec.simps dec_small Let_def)
  qed
  have two: "length (pad2 (tm_mon t + 1)) = 2" "length (pad2 (tm_mday t)) = 2"
    using assms(3-6) by (simp_all add: pad2_def)
  have "D_formatter ?p t [] = Inl Aborted"
    using y by (simp add: D_formatter_def padded_def padder_open_def padder_close_def mk_padding_def two)
  then show ?thesis
    using pf tm by (simp add: pf_format_def Let_def)
qed

theorem short_date_aborts_witness:
  "pf_format sample_os (new_pattern_formatter sample_os ''%0!D'' Local_time [] Map.empty) (sample_msg 20000000000 ''a'') [] = Inl Aborted"
  by (rule short_date_aborts [OF refl]) (simp_all add: sample_msg_def sample_os_def zero_tm_def time_secs_def cdiv_def ns_per_sec_def)

end
