(* ===== verification/LogQueue.thy ===== *)
theory LogQueue
  imports Prelude "HOL-Library.Multiset"
begin

text \<open>
  The bounded queues of the logging library: \<open>details/circular_q.h\<close>, the blocking queue over it
  (\<open>details/mpmc_blocking_q.h\<close>), the thread pool of the asynchronous loggers (\<open>details/thread_pool-inl.h\<close>),
  the backtracer (\<open>details/backtracer-inl.h\<close>) and the ring buffer sink.  The circular queue refines a list
  that forgets its oldest element; the clients are proved over that contract.
\<close>

section \<open>The circular queue\<close>

record 'a circular_q =
  cq_max :: nat
  cq_head :: nat
  cq_tail :: nat
  cq_overrun :: nat
  cq_v :: "'a list"

text \<open>The default constructor, and the one for \<open>n\<close> items, whose size wraps at 64 bits; \<open>d\<close> is a
  default-constructed item.\<close>

definition cq_disabled :: "'a circular_q" where
  "cq_disabled = \<lparr>cq_max = 0, cq_head = 0, cq_tail = 0, cq_overrun = 0, cq_v = []\<rparr>"

definition cq_new :: "'a \<Rightarrow> nat \<Rightarrow> 'a circular_q" where
  "cq_new d max_items =
     (let m = (max_items + 1) mod 2 ^ 64
      in \<lparr>cq_max = m, cq_head = 0, cq_tail = 0, cq_overrun = 0, cq_v = replicate m d\<rparr>)"

definition cq_push_back :: "'a \<Rightarrow> 'a circular_q \<Rightarrow> 'a circular_q" where
  "cq_push_back item q =
     (if cq_max q > 0 then
        (let q1 = q\<lparr>cq_v := (cq_v q)[cq_tail q := item], cq_tail := (cq_tail q + 1) mod cq_max q\<rparr>
         in if cq_tail q1 = cq_head q1
            then q1\<lparr>cq_head := (cq_head q1 + 1) mod cq_max q1, cq_overrun := (cq_overrun q1 + 1) mod 2 ^ 64\<rparr>
            else q1)
      else q)"

definition cq_front :: "'a circular_q \<Rightarrow> 'a res" where
  "cq_front q = (if cq_head q < length (cq_v q) then Inr (cq_v q ! cq_head q) else Inl OutOfBounds)"

definition cq_size :: "'a circular_q \<Rightarrow> nat" where
  "cq_size q = (if cq_tail q \<ge> cq_head q then cq_tail q - cq_head q else cq_max q - (cq_head q - cq_tail q))"

definition cq_at :: "nat \<Rightarrow> 'a circular_q \<Rightarrow> 'a res" where
  "cq_at i q =
     (if i < cq_size q \<and> (cq_head q + i) mod cq_max q < length (cq_v q)
      then Inr (cq_v q ! ((cq_head q + i) mod cq_max q)) else Inl Aborted)"

definition cq_pop_front :: "'a circular_q \<Rightarrow> 'a circular_q" where
  "cq_pop_front q = q\<lparr>cq_head := (cq_head q + 1) mod cq_max q\<rparr>"

definition cq_empty :: "'a circular_q \<Rightarrow> bool" where "cq_empty q \<longleftrightarrow> cq_tail q = cq_head q"

definition cq_full :: "'a circular_q \<Rightarrow> bool" where
  "cq_full q \<longleftrightarrow> cq_max q > 0 \<and> (cq_tail q + 1) mod cq_max q = cq_head q"

text \<open>Moving a queue leaves the source disabled.\<close>

definition copy_moveable :: "'a circular_q \<Rightarrow> 'a circular_q \<times> 'a circular_q" where
  "copy_moveable other =
     (other, other\<lparr>cq_max := 0, cq_head := 0, cq_tail := 0, cq_overrun := 0, cq_v := []\<rparr>)"

section \<open>What the queue holds\<close>

definition cq_items :: "'a circular_q \<Rightarrow> 'a list" where
  "cq_items q = map (\<lambda>i. cq_v q ! ((cq_head q + i) mod cq_max q)) [0..<cq_size q]"

definition cq_inv :: "nat \<Rightarrow> 'a circular_q \<Rightarrow> bool" where
  "cq_inv cap q \<longleftrightarrow> cq_max q = Suc cap \<and> length (cq_v q) = Suc cap \<and> cq_head q < Suc cap \<and> cq_tail q < Suc cap"

text \<open>The last \<open>n\<close> elements of a list.\<close>

definition last_n :: "nat \<Rightarrow> 'a list \<Rightarrow> 'a list" where
  "last_n n xs = drop (length xs - n) xs"

lemma last_n_short [simp]: "length xs \<le> n \<Longrightarrow> last_n n xs = xs"
  by (simp add: last_n_def)

lemma length_last_n [simp]: "length (last_n n xs) = min n (length xs)"
  by (simp add: last_n_def)

lemma last_n_last_n_snoc: "last_n n (last_n n xs @ [x]) = last_n n (xs @ [x])"
  by (cases "length xs \<le> n") (simp_all add: last_n_def Suc_diff_le)

lemma last_n_last_n: "last_n a (last_n b xs) = last_n (min a b) xs"
proof -
  have "length xs - (length xs - b) - a + (length xs - b) = length xs - min a b" by linarith
  then show ?thesis by (simp add: last_n_def)
qed

lemma last_n_min_length: "last_n (min k (length xs)) xs = last_n k xs"
  by (auto simp: last_n_def min_def)

lemma ring_pos: "(h :: nat) < m \<Longrightarrow> i < m \<Longrightarrow> (h + i) mod m = (if h + i < m then h + i else h + i - m)"
  by (simp add: mod_if)

lemma ring_pos_inj: "(h :: nat) < m \<Longrightarrow> i < m \<Longrightarrow> j < m \<Longrightarrow> (h + i) mod m = (h + j) mod m \<Longrightarrow> i = j"
  by (auto simp: ring_pos split: if_splits)

lemma cq_size_pos:
  assumes "cq_inv cap q"
  shows "cq_size q \<le> cap" "cq_tail q = (cq_head q + cq_size q) mod cq_max q"
  using assms by (auto simp: cq_inv_def cq_size_def mod_if)

lemma cq_size_unique:
  assumes "cq_inv cap q" "s \<le> cap" "cq_tail q = (cq_head q + s) mod cq_max q"
  shows "cq_size q = s"
  using ring_pos_inj [of "cq_head q" "cq_max q" "cq_size q" s] cq_size_pos [OF assms(1)] assms
  by (simp add: cq_inv_def)

lemma cq_items_length [simp]: "length (cq_items q) = cq_size q"
  by (simp add: cq_items_def)

lemma cq_new_inv: "n < 2 ^ 64 - 1 \<Longrightarrow> cq_inv n (cq_new d n)"
  by (simp add: cq_inv_def cq_new_def Let_def)

lemma cq_new_items: "cq_items (cq_new d n) = []"
  by (simp add: cq_items_def cq_new_def cq_size_def Let_def)

lemma cq_push_inv: "cq_inv cap q \<Longrightarrow> cq_inv cap (cq_push_back x q)"
  by (simp add: cq_inv_def cq_push_back_def Let_def)

lemma cq_pop_inv: "cq_inv cap q \<Longrightarrow> cq_inv cap (cq_pop_front q)"
  by (simp add: cq_inv_def cq_pop_front_def)

lemma cq_empty_items: "cq_inv cap q \<Longrightarrow> cq_empty q \<longleftrightarrow> cq_items q = []"
  by (auto simp: cq_empty_def cq_items_def cq_size_def cq_inv_def)

lemma cq_front_items: "cq_inv cap q \<Longrightarrow> cq_items q \<noteq> [] \<Longrightarrow> cq_front q = Inr (hd (cq_items q))"
  by (auto simp: cq_front_def cq_items_def cq_inv_def hd_map hd_upt)

lemma cq_at_items: "cq_inv cap q \<Longrightarrow> i < cq_size q \<Longrightarrow> cq_at i q = Inr (cq_items q ! i)"
  by (simp add: cq_at_def cq_items_def cq_inv_def)

lemma cq_full_items:
  assumes "cq_inv cap q"
  shows "cq_full q \<longleftrightarrow> length (cq_items q) = cap"
proof -
  let ?h = "cq_head q" and ?s = "cq_size q" and ?m = "cq_max q"
  have m: "?m = Suc cap" "?h < ?m" using assms by (simp_all add: cq_inv_def)
  have t: "(cq_tail q + 1) mod ?m = (?h + (?s + 1)) mod ?m"
    using cq_size_pos(2) [OF assms] by (simp add: mod_add_left_eq mod_Suc_eq)
  show ?thesis
  proof (cases "?s = cap")
    case True
    then have "(?h + (?s + 1)) mod ?m = (?h + ?m) mod ?m" using m by simp
    also have "\<dots> = ?h" using m(2) by simp
    finally have "(?h + (?s + 1)) mod ?m = ?h" .
    then show ?thesis using t True m by (simp add: cq_full_def)
  next
    case False
    then have "?s + 1 < ?m" using cq_size_pos(1) [OF assms] m by simp
    then have "(?h + (?s + 1)) mod ?m \<noteq> (?h + 0) mod ?m" using ring_pos_inj [of ?h ?m "?s + 1" 0] m by auto
    then show ?thesis using t False m by (simp add: cq_full_def)
  qed
qed

lemma cq_pop_items:
  assumes "cq_inv cap q" "cq_items q \<noteq> []"
  shows "cq_items (cq_pop_front q) = tl (cq_items q)"
proof -
  obtain s where s: "cq_size q = Suc s" using assms(2) by (cases "cq_size q") (auto simp: cq_items_def)
  let ?q = "cq_pop_front q"
  have h: "(cq_head ?q + i) mod cq_max q = (cq_head q + Suc i) mod cq_max q" for i
    by (simp add: cq_pop_front_def mod_add_left_eq mod_Suc_eq)
  have "cq_size ?q = s"
    using cq_size_pos [OF assms(1)] s h [of s]
    by (intro cq_size_unique [OF cq_pop_inv [OF assms(1)]]) (simp_all add: cq_pop_front_def)
  moreover have "map f [0..<Suc s] = f 0 # map (\<lambda>i. f (Suc i)) [0..<s]" for f :: "nat \<Rightarrow> 'a"
    by (simp only: upt_conv_Cons zero_less_Suc list.map map_Suc_upt [symmetric] map_map comp_def)
  ultimately show ?thesis
    unfolding cq_items_def s using h by (simp add: cq_pop_front_def del: upt_Suc)
qed

lemma cq_push_items:
  assumes "cq_inv cap q"
  shows "cq_items (cq_push_back x q) = last_n cap (cq_items q @ [x])"
    "cq_overrun (cq_push_back x q) = (cq_overrun q + (if cq_size q = cap then 1 else 0)) mod 2 ^ 64 \<or>
      cq_size q < cap \<and> cq_overrun (cq_push_back x q) = cq_overrun q"
proof -
  let ?h = "cq_head q" and ?s = "cq_size q" and ?m = "cq_max q"
  let ?q1 = "q\<lparr>cq_v := (cq_v q)[cq_tail q := x], cq_tail := (cq_tail q + 1) mod ?m\<rparr>"
  have m: "?m = Suc cap" "?h < ?m" "length (cq_v q) = ?m" "cq_tail q < ?m" using assms by (simp_all add: cq_inv_def)
  have s: "?s \<le> cap" "cq_tail q = (?h + ?s) mod ?m" using cq_size_pos [OF assms] by simp_all
  have full: "cq_tail ?q1 = cq_head ?q1 \<longleftrightarrow> ?s = cap"
    using cq_full_items [OF assms] m by (simp add: cq_full_def)
  have old: "(cq_v q)[cq_tail q := x] ! ((?h + i) mod ?m) = (cq_items q @ [x]) ! i" if "i \<le> ?s" for i
  proof (cases "i = ?s")
    case True
    then show ?thesis using s m by (simp add: nth_append)
  next
    case False
    then have "i < ?s" using that by simp
    moreover have "(?h + i) mod ?m \<noteq> cq_tail q"
      using ring_pos_inj [of ?h ?m i ?s] False s m that by auto
    ultimately show ?thesis using m by (simp add: nth_append cq_items_def)
  qed
  have items: "map (\<lambda>i. (cq_v q)[cq_tail q := x] ! ((?h + i) mod ?m)) [0..<Suc ?s] = cq_items q @ [x]"
    by (rule nth_equalityI) (simp_all add: old del: upt_Suc)
  show "cq_items (cq_push_back x q) = last_n cap (cq_items q @ [x])"
  proof (cases "?s = cap")
    case False
    then have p: "cq_push_back x q = ?q1" using full m by (simp add: cq_push_back_def Let_def)
    have "cq_size ?q1 = Suc ?s"
      using False s m cq_push_inv [OF assms, of x]
      by (intro cq_size_unique [of cap]) (simp_all add: p mod_Suc_eq)
    then have "cq_items (cq_push_back x q) = cq_items q @ [x]" unfolding p cq_items_def [of ?q1] using items by simp
    then show ?thesis using False s by simp
  next
    case True
    have p: "cq_push_back x q = ?q1\<lparr>cq_head := (?h + 1) mod ?m, cq_overrun := (cq_overrun q + 1) mod 2 ^ 64\<rparr>"
      using True full m by (simp add: cq_push_back_def Let_def)
    have "cq_size (cq_push_back x q) = ?s"
      using s True m
      by (intro cq_size_unique [OF cq_push_inv [OF assms]]) (simp_all add: p mod_add_left_eq mod_Suc_eq)
    then have "cq_items (cq_push_back x q) = map (\<lambda>i. (cq_v q)[cq_tail q := x] ! ((?h + Suc i) mod ?m)) [0..<?s]"
      unfolding cq_items_def by (simp add: p mod_add_left_eq mod_Suc_eq)
    also have "\<dots> = tl (cq_items q @ [x])"
      by (rule nth_equalityI) (use old [of "Suc _"] in \<open>simp_all add: nth_tl del: tl_append2\<close>)
    also have "\<dots> = last_n cap (cq_items q @ [x])"
    proof -
      have "length (cq_items q @ [x]) - cap = Suc 0" using True by simp
      then show ?thesis by (simp only: last_n_def drop_Suc drop_0)
    qed
    finally show ?thesis .
  qed
  show "cq_overrun (cq_push_back x q) = (cq_overrun q + (if cq_size q = cap then 1 else 0)) mod 2 ^ 64 \<or>
      cq_size q < cap \<and> cq_overrun (cq_push_back x q) = cq_overrun q"
    using full m s by (auto simp: cq_push_back_def Let_def)
qed

section \<open>The contract of a queue that forgets its oldest element\<close>

locale forgetful_queue =
  fixes push :: "'a \<Rightarrow> 'q \<Rightarrow> 'q"
    and front :: "'q \<Rightarrow> 'a res"
    and pop :: "'q \<Rightarrow> 'q"
    and is_empty :: "'q \<Rightarrow> bool"
    and items :: "'q \<Rightarrow> 'a list"
    and inv :: "'q \<Rightarrow> bool"
    and cap :: nat
  assumes push_inv: "inv q \<Longrightarrow> inv (push x q)"
    and push_items: "inv q \<Longrightarrow> items (push x q) = last_n cap (items q @ [x])"
    and pop_inv: "inv q \<Longrightarrow> inv (pop q)"
    and pop_items: "inv q \<Longrightarrow> items q \<noteq> [] \<Longrightarrow> items (pop q) = tl (items q)"
    and front_items: "inv q \<Longrightarrow> items q \<noteq> [] \<Longrightarrow> front q = Inr (hd (items q))"
    and empty_items: "inv q \<Longrightarrow> is_empty q \<longleftrightarrow> items q = []"
    and items_bound: "inv q \<Longrightarrow> length (items q) \<le> cap"
begin

lemma push_all_inv: "inv q \<Longrightarrow> inv (fold push xs q)"
  by (induction xs arbitrary: q) (simp_all add: push_inv)

lemma push_all: "inv q \<Longrightarrow> items (fold push xs q) = last_n cap (items q @ xs)"
proof (induction xs rule: rev_induct)
  case Nil
  then show ?case by (simp add: items_bound)
next
  case (snoc x xs)
  then show ?case
    using last_n_last_n_snoc [of cap "items q @ xs" x] by (simp add: push_items push_all_inv)
qed

lemma take_one:
  assumes "inv q" "items q = x # xs"
  shows "\<not> is_empty q" "front q = Inr x" "inv (pop q)" "items (pop q) = xs"
  using assms by (simp_all add: empty_items front_items pop_inv pop_items)

end

interpretation cq: forgetful_queue cq_push_back cq_front cq_pop_front cq_empty cq_items "cq_inv cap" cap for cap
  by unfold_locales
    (simp_all add: cq_push_inv cq_push_items(1) cq_pop_inv cq_pop_items cq_front_items cq_empty_items cq_size_pos)

section \<open>The backtracer and the ring buffer sink\<close>

record 'a backtracer =
  bt_enabled :: bool
  bt_messages :: "'a circular_q"

definition bt_enable :: "'a \<Rightarrow> nat \<Rightarrow> 'a backtracer \<Rightarrow> 'a backtracer" where
  "bt_enable d n b = b\<lparr>bt_enabled := True, bt_messages := cq_new d n\<rparr>"

definition bt_disable :: "'a backtracer \<Rightarrow> 'a backtracer" where "bt_disable b = b\<lparr>bt_enabled := False\<rparr>"

definition bt_push_back :: "'a \<Rightarrow> 'a backtracer \<Rightarrow> 'a backtracer" where
  "bt_push_back m b = b\<lparr>bt_messages := cq_push_back m (bt_messages b)\<rparr>"

text \<open>The loop of \<open>foreach_pop\<close>, with a bound on its rounds; \<open>f\<close> acts on the state of the caller.\<close>

fun foreach_pop :: "nat \<Rightarrow> ('a \<Rightarrow> 's \<Rightarrow> 's res) \<Rightarrow> 'a circular_q \<times> 's \<Rightarrow> ('a circular_q \<times> 's) res" where
  "foreach_pop 0 f (q, s) = (if cq_empty q then Inr (q, s) else Inl NotReturned)"
| "foreach_pop (Suc n) f (q, s) =
     (if cq_empty q then Inr (q, s)
      else bind_res (cq_front q) (\<lambda>m. bind_res (f m s) (\<lambda>s'. foreach_pop n f (cq_pop_front q, s'))))"

definition bt_foreach_pop :: "('a \<Rightarrow> 's \<Rightarrow> 's res) \<Rightarrow> 'a backtracer \<Rightarrow> 's \<Rightarrow> ('a backtracer \<times> 's) res" where
  "bt_foreach_pop f b s =
     bind_res (foreach_pop (cq_size (bt_messages b)) f (bt_messages b, s))
       (\<lambda>(q, s'). Inr (b\<lparr>bt_messages := q\<rparr>, s'))"

fun run_all :: "('a \<Rightarrow> 's \<Rightarrow> 's res) \<Rightarrow> 'a list \<Rightarrow> 's \<Rightarrow> 's res" where
  "run_all f [] s = Inr s"
| "run_all f (m # ms) s = bind_res (f m s) (run_all f ms)"

lemma foreach_pop_runs_all:
  assumes "cq_inv cap q" "run_all f (cq_items q) s = Inr s'"
  shows "\<exists>q'. foreach_pop (length (cq_items q)) f (q, s) = Inr (q', s') \<and> cq_inv cap q' \<and> cq_items q' = []"
  using assms
proof (induction "cq_items q" arbitrary: q s)
  case Nil
  then have "cq_empty q" "cq_size q = 0" using cq_items_length [of q] by (simp_all add: cq_empty_items)
  then show ?case using Nil by (auto simp: cq_items_def)
next
  case (Cons x xs)
  note one = cq.take_one [OF Cons.prems(1) Cons.hyps(2) [symmetric]]
  obtain s1 where s1: "f x s = Inr s1" "run_all f xs s1 = Inr s'"
    using Cons.prems(2) by (auto simp: Cons.hyps(2) [symmetric] bind_res_eq_Inr)
  have "length (cq_items q) = Suc (length xs)" by (simp only: Cons.hyps(2) [symmetric] list.size)
  then show ?case
    using Cons.hyps(1) [of "cq_pop_front q" s1] one s1 by (simp del: cq_items_length)
qed

text \<open>The backtracer hands over the last messages, at most as many as it was enabled for, oldest first,
  and each once: what was pushed before is gone, and it is empty afterwards.\<close>

lemma backtrace_replays_last:
  assumes "n < 2 ^ 64 - 1" "run_all f (last_n n ms) s = Inr s'"
  shows "\<exists>b'. bt_foreach_pop f (fold bt_push_back ms (bt_enable d n b)) s = Inr (b', s')
    \<and> bt_enabled b' \<and> cq_items (bt_messages b') = []"
proof -
  have b: "fold bt_push_back ms b1 = b1\<lparr>bt_messages := fold cq_push_back ms (bt_messages b1)\<rparr>" for b1
    by (induction ms arbitrary: b1) (simp_all add: bt_push_back_def)
  let ?q = "fold cq_push_back ms (cq_new d n)"
  have q: "cq_inv n ?q" "cq_items ?q = last_n n ms"
    using cq.push_all_inv [OF cq_new_inv [OF assms(1)]] cq.push_all [OF cq_new_inv [OF assms(1)], of ms d]
    by (simp_all add: cq_new_items)
  then obtain q' where "foreach_pop (length (cq_items ?q)) f (?q, s) = Inr (q', s')" "cq_items q' = []"
    using foreach_pop_runs_all [OF q(1), of f s s'] assms(2) unfolding q(2) by blast
  then show ?thesis by (simp add: bt_foreach_pop_def b bt_enable_def)
qed

text \<open>The ring buffer sink.\<close>

definition rb_sink_it :: "'a \<Rightarrow> 'a circular_q \<Rightarrow> 'a circular_q" where "rb_sink_it m q = cq_push_back m q"

fun collect_at :: "nat list \<Rightarrow> 'a circular_q \<Rightarrow> 'a list res" where
  "collect_at [] q = Inr []"
| "collect_at (i # is) q = bind_res (cq_at i q) (\<lambda>x. bind_res (collect_at is q) (\<lambda>xs. Inr (x # xs)))"

definition last_raw :: "nat \<Rightarrow> 'a circular_q \<Rightarrow> 'a list res" where
  "last_raw lim q =
     (let items_available = cq_size q;
          n_items = (if lim > 0 then min lim items_available else items_available)
      in collect_at [items_available - n_items ..< items_available] q)"

lemma collect_at_items:
  "cq_inv cap q \<Longrightarrow> \<forall>i \<in> set is. i < cq_size q \<Longrightarrow> collect_at is q = Inr (map (\<lambda>i. cq_items q ! i) is)"
  by (induction "is") (simp_all add: cq_at_items)

lemma map_nth_last: "n \<le> length xs \<Longrightarrow> map (\<lambda>i. xs ! i) [length xs - n ..< length xs] = last_n n xs"
  unfolding last_n_def by (rule nth_equalityI) simp_all

text \<open>The ring buffer sink returns the last messages it was given, as many as asked for and stored.\<close>

theorem last_raw_exact:
  assumes "cap < 2 ^ 64 - 1"
  shows "last_raw lim (fold rb_sink_it ms (cq_new d cap)) =
    Inr (last_n (if lim > 0 then min lim cap else cap) ms)"
proof -
  let ?q = "fold cq_push_back ms (cq_new d cap)"
  have q: "cq_inv cap ?q" "cq_items ?q = last_n cap ms"
    using cq.push_all_inv [OF cq_new_inv [OF assms]] cq.push_all [OF cq_new_inv [OF assms], of ms d]
    by (simp_all add: cq_new_items)
  let ?n = "if lim > 0 then min lim (cq_size ?q) else cq_size ?q"
  have l: "length (cq_items ?q) = cq_size ?q" by simp
  have "last_raw lim ?q = Inr (last_n ?n (cq_items ?q))"
    unfolding last_raw_def Let_def
    using collect_at_items [OF q(1), of "[cq_size ?q - ?n ..< cq_size ?q]"] map_nth_last [of ?n "cq_items ?q"]
    unfolding l by auto
  moreover have "last_n ?n (last_n cap ms) = last_n (if lim > 0 then min lim cap else cap) ms"
  proof -
    have "cq_size ?q = min cap (length ms)" using l unfolding q(2) by simp
    then have "min ?n cap = min (if lim > 0 then min lim cap else cap) (length ms)" by auto
    then show ?thesis by (simp only: last_n_last_n last_n_min_length)
  qed
  moreover have "fold rb_sink_it ms (cq_new d cap) = ?q" by (simp add: rb_sink_it_def [abs_def])
  ultimately show ?thesis unfolding q(2) by (simp only:)
qed

theorem last_raw_exact_witness: "last_raw 2 (fold rb_sink_it [1 :: nat, 2, 3, 4] (cq_new 0 3)) = Inr [3, 4]"
  using last_raw_exact [of 3 2 "[1 :: nat, 2, 3, 4]" 0] by (simp add: last_n_def)

section \<open>The blocking queue and the thread pool\<close>

text \<open>The critical sections of the blocking queue, as atomic steps; \<open>None\<close> is a thread that waits on its
  condition variable (or, for \<open>dequeue_for\<close>, one whose time has run out).\<close>

definition mq_enqueue :: "'a \<Rightarrow> 'a circular_q \<Rightarrow> 'a circular_q option" where
  "mq_enqueue x q = (if cq_full q then None else Some (cq_push_back x q))"

definition mq_enqueue_nowait :: "'a \<Rightarrow> 'a circular_q \<Rightarrow> 'a circular_q" where
  "mq_enqueue_nowait x q = cq_push_back x q"

definition mq_dequeue_for :: "'a circular_q \<Rightarrow> ('a \<times> 'a circular_q) option res" where
  "mq_dequeue_for q =
     (if cq_empty q then Inr None else bind_res (cq_front q) (\<lambda>x. Inr (Some (x, cq_pop_front q))))"

datatype 'm async_msg = Async_log 'm | Async_flush 'm | Async_terminate

datatype overflow_policy = Block_policy | Overrun_oldest

text \<open>
  A worker between two messages, with one it has taken and not yet given to a back end, or out of its loop.  A pool has its queue,
  its workers, and the calls made to the back ends, in order.
\<close>

datatype 'm worker = In_loop | Holds "'m async_msg" | Has_left

record 'm thread_pool =
  tp_q :: "'m async_msg circular_q"
  tp_workers :: "'m worker list"
  tp_handled :: "'m async_msg list"

definition new_thread_pool :: "nat \<Rightarrow> nat \<Rightarrow> 'm thread_pool res" where
  "new_thread_pool q_max_items threads_n =
     (if threads_n = 0 \<or> threads_n > 1000 then Inl (Exn ''invalid threads_n param'')
      else Inr \<lparr>tp_q = cq_new Async_terminate q_max_items, tp_workers = replicate threads_n In_loop, tp_handled = []\<rparr>)"

definition post_async_msg :: "'m async_msg \<Rightarrow> overflow_policy \<Rightarrow> 'm thread_pool \<Rightarrow> 'm thread_pool option" where
  "post_async_msg m policy p =
     (if policy = Block_policy then
        (case mq_enqueue m (tp_q p) of None \<Rightarrow> None | Some q \<Rightarrow> Some (p\<lparr>tp_q := q\<rparr>))
      else Some (p\<lparr>tp_q := mq_enqueue_nowait m (tp_q p)\<rparr>))"

text \<open>
  \<open>process_next_msg_\<close> in its two parts, between which other threads run: taking a message under the queue's mutex
  (\<open>None\<close> when the time has run out), and the call it leads to, which says whether the worker goes on.
\<close>

definition process_take :: "'m thread_pool \<Rightarrow> ('m async_msg option \<times> 'm thread_pool) res" where
  "process_take p =
     bind_res (mq_dequeue_for (tp_q p)) (\<lambda>r. case r of
       None \<Rightarrow> Inr (None, p)
     | Some (m, q) \<Rightarrow> Inr (Some m, p\<lparr>tp_q := q\<rparr>))"

definition process_dispatch :: "'m async_msg \<Rightarrow> 'm thread_pool \<Rightarrow> bool \<times> 'm thread_pool" where
  "process_dispatch m p =
     (case m of
        Async_terminate \<Rightarrow> (False, p)
      | _ \<Rightarrow> (True, p\<lparr>tp_handled := tp_handled p @ [m]\<rparr>))"

text \<open>The two steps of \<open>worker_loop_\<close> in the thread \<open>i\<close>.\<close>

definition worker_take :: "nat \<Rightarrow> 'm thread_pool \<Rightarrow> 'm thread_pool res" where
  "worker_take i p =
     bind_res (process_take p) (\<lambda>(r, p'). Inr (p'\<lparr>tp_workers := (tp_workers p')[i := (case r of None \<Rightarrow> In_loop | Some m \<Rightarrow> Holds m)]\<rparr>))"

definition worker_handle :: "nat \<Rightarrow> 'm async_msg \<Rightarrow> 'm thread_pool \<Rightarrow> 'm thread_pool" where
  "worker_handle i m p =
     (let (active, p') = process_dispatch m p
      in p'\<lparr>tp_workers := (tp_workers p')[i := (if active then In_loop else Has_left)]\<rparr>)"

text \<open>The states of a pool to which the messages \<open>ms\<close> have been posted, all with the blocking policy, by
  any threads in any interleaving with the workers.\<close>

inductive tpool_run :: "nat \<Rightarrow> nat \<Rightarrow> 'm async_msg list \<Rightarrow> 'm thread_pool \<Rightarrow> bool" for cap n where
  pool_start: "new_thread_pool cap n = Inr p \<Longrightarrow> tpool_run cap n [] p"
| pool_post: "tpool_run cap n ms p \<Longrightarrow> post_async_msg m Block_policy p = Some p' \<Longrightarrow> tpool_run cap n (ms @ [m]) p'"
| pool_take: "tpool_run cap n ms p \<Longrightarrow> i < length (tp_workers p) \<Longrightarrow> tp_workers p ! i = In_loop \<Longrightarrow>
     worker_take i p = Inr p' \<Longrightarrow> tpool_run cap n ms p'"
| pool_handle: "tpool_run cap n ms p \<Longrightarrow> i < length (tp_workers p) \<Longrightarrow> tp_workers p ! i = Holds m \<Longrightarrow>
     tpool_run cap n ms (worker_handle i m p)"

abbreviation real_msgs :: "'m async_msg list \<Rightarrow> 'm async_msg list" where "real_msgs \<equiv> filter (\<lambda>m. m \<noteq> Async_terminate)"

abbreviation stops :: "'m async_msg list \<Rightarrow> 'm async_msg list" where "stops \<equiv> filter (\<lambda>m. m = Async_terminate)"

definition held :: "'m worker list \<Rightarrow> 'm async_msg list" where
  "held ws = concat (map (\<lambda>w. case w of Holds m \<Rightarrow> [m] | _ \<Rightarrow> []) ws)"

definition left_count :: "'m worker list \<Rightarrow> nat" where
  "left_count ws = length (filter (\<lambda>w. w = Has_left) ws)"

lemma held_simps [simp]:
  "held [] = []" "held (us @ vs) = held us @ held vs" "held (In_loop # ws) = held ws" "held (Has_left # ws) = held ws"
  "held (Holds m # ws) = m # held ws" "held (replicate n In_loop) = []"
  "held (replicate n Has_left) = []"
  by (simp_all add: held_def)

lemma left_count_simps [simp]:
  "left_count [] = 0" "left_count (us @ vs) = left_count us + left_count vs" "left_count (Has_left # ws) = Suc (left_count ws)"
  "left_count (In_loop # ws) = left_count ws" "left_count (Holds m # ws) = left_count ws"
  "left_count (replicate n In_loop) = 0" "left_count (replicate n Has_left) = n"
  by (simp_all add: left_count_def)

text \<open>
  The messages taken from the queue are those handled and those held, the requests to stop taken are held or have
  been obeyed; a message is handled at most as many places before its turn as there are workers.
\<close>

definition taken_ok :: "nat \<Rightarrow> 'm async_msg list \<Rightarrow> 'm worker list \<Rightarrow> 'm async_msg list \<Rightarrow> bool" where
  "taken_ok n taken ws handled \<longleftrightarrow> length ws = n \<and>
     mset handled + mset (real_msgs (held ws)) = mset (real_msgs taken) \<and>
     left_count ws + length (stops (held ws)) = length (stops taken) \<and>
     (n = 1 \<longrightarrow> handled @ real_msgs (held ws) = real_msgs taken) \<and>
     (\<forall>j < length handled. handled ! j \<in> set (take (j + n) (real_msgs taken)))"

lemma held_length: "length (held ws) + left_count ws \<le> length ws"
  by (induction ws) (auto simp: held_def left_count_def split: worker.split)

lemma worker_split:
  assumes "i < length ws" "ws ! i = w"
  obtains us vs where "ws = us @ w # vs" "\<And>v. ws[i := v] = us @ v # vs"
proof
  show "ws = take i ws @ w # drop (Suc i) ws" using id_take_nth_drop [OF assms(1)] assms(2) by simp
  show "ws[i := v] = take i ws @ v # drop (Suc i) ws" for v by (rule upd_conv_take_nth_drop [OF assms(1)])
qed


lemma taken_ok_take:
  assumes "taken_ok n taken ws handled" "i < length ws" "ws ! i = In_loop"
  shows "taken_ok n (taken @ [m]) (ws[i := Holds m]) handled"
proof -
  obtain us vs where ws: "ws = us @ In_loop # vs" "ws[i := Holds m] = us @ Holds m # vs"
    using worker_split [OF assms(2,3)] by blast
  have "set (take (j + n) (real_msgs taken)) \<subseteq> set (take (j + n) (real_msgs (taken @ [m])))" for j by auto
  moreover have "us = [] \<and> vs = []" if "n = 1" using assms(1) that by (simp add: taken_ok_def ws(1))
  ultimately show ?thesis
    using assms(1) [unfolded taken_ok_def ws(1)] unfolding taken_ok_def ws(2) by (auto simp: subset_iff)
qed

lemma taken_ok_handle:
  assumes "taken_ok n taken ws handled" "i < length ws" "ws ! i = Holds m"
  shows "m \<noteq> Async_terminate \<Longrightarrow> taken_ok n taken (ws[i := In_loop]) (handled @ [m])"
    "m = Async_terminate \<Longrightarrow> taken_ok n taken (ws[i := Has_left]) handled"
proof -
  obtain us vs where ws: "ws = us @ Holds m # vs" and upd: "\<And>v. ws[i := v] = us @ v # vs"
    using worker_split [OF assms(2,3)] by blast
  have one: "us = [] \<and> vs = []" if "n = 1" using assms(1) that by (simp add: taken_ok_def ws)
  note ok = assms(1) [unfolded taken_ok_def ws]
  show "taken_ok n taken (ws[i := Has_left]) handled" if "m = Async_terminate"
    using ok that one unfolding taken_ok_def upd by auto
  show "taken_ok n taken (ws[i := In_loop]) (handled @ [m])" if m: "m \<noteq> Async_terminate"
  proof -
    have sum: "mset handled + mset (real_msgs (held ws)) = mset (real_msgs taken)" using ok by (simp add: ws)
    have "length (real_msgs taken) = length handled + length (real_msgs (held ws))"
      using arg_cong [OF sum, of size] by (simp del: mset_filter)
    moreover have "length (real_msgs (held ws)) \<le> n"
      using held_length [of ws] length_filter_le [of _ "held ws"] ok by (metis (no_types, lifting) add_leD1 le_trans ws)
    ultimately have "take (length handled + n) (real_msgs taken) = real_msgs taken" by simp
    moreover have "m \<in># mset (real_msgs taken)" unfolding sum [symmetric] using m by (simp add: ws)
    ultimately have "m \<in> set (take (length handled + n) (real_msgs taken))" by simp
    then show ?thesis using ok m one unfolding taken_ok_def upd by (auto simp: nth_append less_Suc_eq)
  qed
qed

text \<open>All the messages posted are those taken and those still queued, in order.\<close>

definition pool_ok :: "nat \<Rightarrow> nat \<Rightarrow> 'm async_msg list \<Rightarrow> 'm thread_pool \<Rightarrow> bool" where
  "pool_ok cap n ms p \<longleftrightarrow> cq_inv cap (tp_q p) \<and>
     (\<exists>taken. ms = taken @ cq_items (tp_q p) \<and> taken_ok n taken (tp_workers p) (tp_handled p))"

lemma worker_take_takes:
  assumes "cq_inv cap (tp_q p)" "cq_items (tp_q p) = m # ms"
  shows "worker_take i p = Inr (p\<lparr>tp_q := cq_pop_front (tp_q p), tp_workers := (tp_workers p)[i := Holds m]\<rparr>)"
  using cq.take_one [OF assms] by (simp add: worker_take_def process_take_def mq_dequeue_for_def)

lemma worker_take_idle:
  assumes "cq_inv cap (tp_q p)" "cq_items (tp_q p) = []" "tp_workers p ! i = In_loop"
  shows "worker_take i p = Inr p"
proof -
  have "(tp_workers p)[i := In_loop] = tp_workers p" using list_update_id [of "tp_workers p" i] assms(3) by simp
  then show ?thesis using assms(1,2) by (simp add: worker_take_def process_take_def mq_dequeue_for_def cq_empty_items)
qed

lemma tpool_run_ok:
  assumes "tpool_run cap n ms p" "cap < 2 ^ 64 - 1"
  shows "pool_ok cap n ms p"
  using assms
proof (induction rule: tpool_run.induct)
  case (pool_start p)
  then have p: "p = \<lparr>tp_q = cq_new Async_terminate cap, tp_workers = replicate n In_loop, tp_handled = []\<rparr>"
    by (simp add: new_thread_pool_def split: if_splits)
  then show ?case
    using cq_new_inv [OF pool_start(2), of Async_terminate] by (simp add: pool_ok_def cq_new_items taken_ok_def)
next
  case (pool_post ms p m p')
  then have ok: "pool_ok cap n ms p" by simp
  then have q: "cq_inv cap (tp_q p)" by (simp add: pool_ok_def)
  have p': "\<not> cq_full (tp_q p)" "p' = p\<lparr>tp_q := cq_push_back m (tp_q p)\<rparr>"
    using pool_post.hyps(2) by (auto simp: post_async_msg_def mq_enqueue_def split: if_splits option.splits)
  have "length (cq_items (tp_q p) @ [m]) \<le> cap"
    using p'(1) cq_full_items [OF q] cq_size_pos(1) [OF q] by simp
  then have "cq_items (tp_q p') = cq_items (tp_q p) @ [m]"
    using cq_push_items(1) [OF q] p'(2) by simp
  then show ?case
    using ok p'(2) cq_push_inv [OF q] by (auto simp: pool_ok_def)
next
  case (pool_take ms p i p')
  then have ok: "pool_ok cap n ms p" by simp
  then have q: "cq_inv cap (tp_q p)" by (simp add: pool_ok_def)
  show ?case
  proof (cases "cq_items (tp_q p)")
    case Nil
    then show ?thesis using worker_take_idle [OF q Nil pool_take.hyps(3)] pool_take.hyps(4) ok by simp
  next
    case (Cons m rest)
    obtain taken where t: "ms = taken @ m # rest" "taken_ok n taken (tp_workers p) (tp_handled p)"
      using ok Cons by (auto simp: pool_ok_def)
    have "ms = (taken @ [m]) @ cq_items (cq_pop_front (tp_q p))"
      using t(1) cq.take_one(4) [OF q Cons] by simp
    then show ?thesis
      using worker_take_takes [OF q Cons, of i] pool_take.hyps(4) taken_ok_take [OF t(2) pool_take.hyps(2,3), of m] cq_pop_inv [OF q]
      unfolding pool_ok_def by (auto intro!: exI [of _ "taken @ [m]"])
  qed
next
  case (pool_handle ms p i m)
  then show ?case
    using taken_ok_handle [OF _ pool_handle.hyps(2,3)]
    by (cases m) (auto simp: pool_ok_def worker_handle_def process_dispatch_def)
qed







text \<open>A pool made for no messages never takes one: with the blocking policy every caller waits for ever, the
  destructor with its first request to stop included.\<close>

theorem empty_pool_blocks_forever:
  assumes "tpool_run 0 n ms p"
  shows "ms = [] \<and> post_async_msg m Block_policy p = None"
proof -
  have full: "post_async_msg m Block_policy p = None" if "tpool_run 0 n ms p" for ms p m
  proof -
    have q: "cq_inv 0 (tp_q p)" using tpool_run_ok [OF that] by (simp add: pool_ok_def)
    then have "cq_full (tp_q p)" using cq_full_items [OF q] cq_size_pos(1) [OF q] by simp
    then show ?thesis by (simp add: post_async_msg_def mq_enqueue_def)
  qed
  have "ms = []" using assms by (induction rule: tpool_run.induct) (simp_all add: full)
  then show ?thesis using full [OF assms] by simp
qed

theorem empty_pool_blocks_forever_witness:
  "\<exists>p :: nat thread_pool. new_thread_pool 0 1 = Inr p \<and> post_async_msg (Async_log (7 :: nat)) Block_policy p = None"
proof -
  obtain p :: "nat thread_pool" where p: "new_thread_pool 0 1 = Inr p" by (simp add: new_thread_pool_def)
  show ?thesis using empty_pool_blocks_forever [OF pool_start [OF p]] p by blast
qed

end
