(* ===== verification/LogSinks.thy ===== *)
theory LogSinks
  imports LogPattern LogQueue
begin

text \<open>
  Where log messages go: the coloured terminal sink that both programs write to
  (\<open>sinks/ansicolor_sink-inl.h\<close>), the loop of a logger over its sinks with flushing and backtrace
  (\<open>logger.h\<close>, \<open>logger-inl.h\<close>), the distributing sink and the filter of duplicates.  A sink's class is a
  record of functions, as its virtual table is; the terminal is the list of characters written.
\<close>

section \<open>The coloured terminal sink\<close>

definition esc :: "string \<Rightarrow> string" where "esc s = CHR 0x1B # s"

definition reset_code :: string where "reset_code = esc ''[m''"

text \<open>One colour per level: white, cyan, green, bold yellow, bold red, bold on red, none.\<close>

definition default_colors :: "string list" where
  "default_colors = [esc ''[37m'', esc ''[36m'', esc ''[32m'', esc ''[33m'' @ esc ''[1m'', esc ''[31m'' @ esc ''[1m'',
     esc ''[1m'' @ esc ''[41m'', reset_code]"

datatype color_mode = Color_always | Color_automatic | Color_never

record color_sink =
  cs_level :: log_level
  cs_formatter :: pattern_formatter
  cs_colors :: "string list"
  cs_do_colors :: bool
  cs_file :: string

text \<open>Whether the target is a terminal with colours is the caller's \<open>term\<close>.\<close>

definition set_color_mode :: "bool \<Rightarrow> color_mode \<Rightarrow> color_sink \<Rightarrow> color_sink" where
  "set_color_mode terminal mode s =
     s\<lparr>cs_do_colors := (case mode of Color_always \<Rightarrow> True | Color_automatic \<Rightarrow> terminal | Color_never \<Rightarrow> False)\<rparr>"

definition new_color_sink :: "bool \<Rightarrow> color_mode \<Rightarrow> string \<Rightarrow> color_sink" where
  "new_color_sink terminal mode eol =
     set_color_mode terminal mode
       \<lparr>cs_level = L_trace, cs_formatter = default_pattern_formatter Local_time eol, cs_colors = default_colors,
        cs_do_colors = False, cs_file = []\<rparr>"

definition set_color :: "log_level \<Rightarrow> string \<Rightarrow> color_sink \<Rightarrow> color_sink" where
  "set_color l c s = s\<lparr>cs_colors := (cs_colors s)[level_num l := c]\<rparr>"

definition cs_set_pattern :: "os_env \<Rightarrow> string \<Rightarrow> string \<Rightarrow> color_sink \<Rightarrow> color_sink" where
  "cs_set_pattern env pattern eol s =
     s\<lparr>cs_formatter := new_pattern_formatter env pattern Local_time eol Map.empty\<rparr>"

definition cs_set_formatter :: "pattern_formatter \<Rightarrow> color_sink \<Rightarrow> color_sink" where
  "cs_set_formatter f s = s\<lparr>cs_formatter := f\<rparr>"

definition print_ccode :: "string \<Rightarrow> color_sink \<Rightarrow> color_sink" where
  "print_ccode c s = s\<lparr>cs_file := cs_file s @ c\<rparr>"

text \<open>The length \<open>end - start\<close> is unsigned: a range that is not inside the text reads past it.\<close>

definition print_range :: "string \<Rightarrow> nat \<Rightarrow> nat \<Rightarrow> color_sink \<Rightarrow> color_sink res" where
  "print_range formatted a b s =
     (if a \<le> b \<and> b \<le> length formatted then Inr (s\<lparr>cs_file := cs_file s @ take (b - a) (drop a formatted)\<rparr>)
      else Inl OutOfBounds)"

definition cs_log :: "os_env \<Rightarrow> lmsg \<Rightarrow> color_sink \<Rightarrow> color_sink res" where
  "cs_log env msg s =
     bind_res (pf_format env (cs_formatter s) (msg\<lparr>lm_color_start := 0, lm_color_end := 0\<rparr>) []) (\<lambda>(pf, m, formatted).
     let s1 = s\<lparr>cs_formatter := pf\<rparr>
     in if cs_do_colors s \<and> lm_color_end m > lm_color_start m then
          bind_res (print_range formatted 0 (lm_color_start m) s1) (\<lambda>s2.
          bind_res (print_range formatted (lm_color_start m) (lm_color_end m)
                      (print_ccode (cs_colors s ! level_num (lm_level m)) s2)) (\<lambda>s3.
          print_range formatted (lm_color_end m) (length formatted) (print_ccode reset_code s3)))
        else print_range formatted 0 (length formatted) s1)"

lemma print_range_three:
  assumes "formatted = pre @ mid @ post"
  shows "print_range formatted 0 (length pre) s = Inr (s\<lparr>cs_file := cs_file s @ pre\<rparr>)"
    "print_range formatted (length pre) (length (pre @ mid)) s = Inr (s\<lparr>cs_file := cs_file s @ mid\<rparr>)"
    "print_range formatted (length (pre @ mid)) (length formatted) s = Inr (s\<lparr>cs_file := cs_file s @ post\<rparr>)"
  by (simp_all add: print_range_def assms)

text \<open>With colours, a program's log line reaches the terminal as formatted, with the level's colour code
  before the level letter and the code that resets it right after.\<close>

theorem colored_line:
  assumes "cs_formatter s = own_formatter env" "cs_do_colors s"
    "10 * ns_per_sec \<le> lm_time m" "sl_line (lm_source m) \<noteq> 0"
    "t = os_localtime env (time_secs (lm_time m))"
  shows "\<exists>pf. cs_log env m s = Inr (s\<lparr>cs_formatter := pf,
    cs_file := cs_file s @ own_head t m @ cs_colors s ! level_num (lm_level m) @ level_short (lm_level m) @ reset_code @ own_tail m\<rparr>)"
proof -
  let ?m = "m\<lparr>lm_color_start := 0, lm_color_end := 0\<rparr>"
  have e: "own_head t ?m = own_head t m" "own_tail ?m = own_tail m" by (simp_all add: own_head_def own_tail_def)
  have "\<exists>pf. pf_format env (own_formatter env) ?m [] =
    Inr (pf, ?m\<lparr>lm_color_start := length (own_head t ?m),
               lm_color_end := length (own_head t ?m @ level_short (lm_level ?m))\<rparr>,
         own_head t ?m @ level_short (lm_level ?m) @ own_tail ?m)"
    by (rule own_pattern_line) (use assms in simp_all)
  then obtain pf where pf: "pf_format env (own_formatter env) ?m [] =
    Inr (pf, m\<lparr>lm_color_start := length (own_head t m),
               lm_color_end := length (own_head t m @ level_short (lm_level m))\<rparr>,
         own_head t m @ level_short (lm_level m) @ own_tail m)"
    unfolding e by auto
  have pos: "0 < length (level_short (lm_level m))" 
    by (cases "lm_level m") (simp_all add: level_short_def short_level_names_def)
  then have pos: "length (own_head t m) < length (own_head t m @ level_short (lm_level m))" by simp
  show ?thesis
    using pos assms(2)
    by (intro exI [of _ pf])
      (simp add: cs_log_def assms(1) pf print_range_three [OF refl] print_ccode_def Let_def del: length_append)
qed

theorem colored_line_witness:
  "\<exists>pf. cs_log sample_os (sample_msg 3723004000000 ''hello'')
      \<lparr>cs_level = L_trace, cs_formatter = own_formatter sample_os, cs_colors = default_colors, cs_do_colors = True, cs_file = []\<rparr>
    = Inr \<lparr>cs_level = L_trace, cs_formatter = pf, cs_colors = default_colors, cs_do_colors = True,
        cs_file = ''[Main.cpp:10 01:02:03:004 +00:00] ['' @ esc ''[32m'' @ ''I'' @ esc ''[m'' @ ''] [thread 7] hello'' @ [CHR 0x0A]\<rparr>"
proof -
  let ?m = "sample_msg 3723004000000 ''hello''"
  let ?t = "os_localtime sample_os (time_secs (lm_time ?m))"
  let ?s = "\<lparr>cs_level = L_trace, cs_formatter = own_formatter sample_os, cs_colors = default_colors, cs_do_colors = True, cs_file = []\<rparr>"
  have a: "10 * ns_per_sec \<le> lm_time ?m" by code_simp
  have b: "sl_line (lm_source ?m) \<noteq> 0" by code_simp
  have c: "cs_formatter ?s = own_formatter sample_os" "cs_do_colors ?s" by simp_all
  have h: "own_head ?t ?m = ''[Main.cpp:10 01:02:03:004 +00:00] [''" by code_simp
  have l: "level_short (lm_level ?m) = ''I''" "default_colors ! level_num (lm_level ?m) = esc ''[32m''"
    "own_tail ?m = ''] [thread 7] hello'' @ [CHR 0x0A]"
    by code_simp+
  show ?thesis
    using colored_line [OF c a b refl] by (simp add: h l reset_code_def)
qed

text \<open>A pattern whose colour range is followed by a field that truncation shrinks makes the coloured sink
  read past the formatted text: the date flag, truncated to nothing, takes two characters of what is before it.\<close>

theorem shrunk_text_read_out_of_bounds:
  assumes "cs_formatter s = new_pattern_formatter env ''%^%v%$%0!D'' Local_time eol Map.empty" "cs_do_colors s"
    "t = os_localtime env (time_secs (lm_time m))" "time_secs (lm_time m) \<noteq> 0"
    "0 \<le> tm_mon t" "tm_mon t < 12" "0 \<le> tm_mday t" "tm_mday t < 32" "0 \<le> tm_year t"
    "length eol < 2" "2 \<le> length (lm_payload m)"
  shows "cs_log env m s = Inl OutOfBounds"
proof -
  let ?pf = "new_pattern_formatter env ''%^%v%$%0!D'' Local_time eol Map.empty"
  let ?p = "mk_padding 0 Pad_left True"
  let ?m = "m\<lparr>lm_color_start := 0, lm_color_end := 0\<rparr>"
  have pf: "pf_formatters ?pf = [Color_start, Msg_flag K_payload no_padding, Color_stop, Time_flag K_D ?p]"
    "pf_need_localtime ?pf" "pf_time_type ?pf = Local_time" "pf_last_log_secs ?pf = 0" "pf_eol ?pf = eol"
    unfolding new_pattern_formatter_def compile_pattern_def
    by (simp_all add: compile_evals padspec_truncate_def digit_val_def mk_padding_def max_width_def)
  have tm: "pf_cached_tm (refresh_time env ?m ?pf) = t"
    using assms(3,4) pf by (simp add: refresh_time_def get_time_def)
  have y: "0 \<le> crem (tm_year t) 100" "crem (tm_year t) 100 < 100"
    using assms(9) by (simp_all add: crem_def sgn_if)
  have two: "length (pad2 (tm_mon t + 1)) = 2" "length (pad2 (tm_mday t)) = 2" "length (pad2 (crem (tm_year t) 100)) = 2"
    using assms(5-8) y by (simp_all add: pad2_def)
  let ?n = "length (lm_payload m)"
  have n: "nat (int ?n - 2) < ?n" using assms(11) by simp
  have d: "\<exists>d. D_formatter ?p t (lm_payload m) = Inr d \<and> length d = ?n - 2"
    using assms(11) by (simp add: D_formatter_def padded_def padder_open_def padder_close_def mk_padding_def two nat_diff_distrib)
  then obtain d where d: "D_formatter ?p t (lm_payload m) = Inr d" "length d = ?n - 2" by blast
  have "\<exists>pf'. pf_format env ?pf ?m [] = Inr (pf', m\<lparr>lm_color_start := 0, lm_color_end := ?n\<rparr>, d @ eol)"
    using pf tm d(1) by (simp add: pf_format_def Let_def v_formatter_def)
  then obtain pf' where f: "pf_format env ?pf ?m [] = Inr (pf', m\<lparr>lm_color_start := 0, lm_color_end := ?n\<rparr>, d @ eol)" by blast
  have "\<not> ?n \<le> length (d @ eol)" using d(2) assms(10,11) by simp
  moreover have "0 < ?n" using assms(11) by linarith
  ultimately show ?thesis
    using assms(1,2) by (simp add: cs_log_def f print_range_def Let_def)
qed

theorem shrunk_text_read_out_of_bounds_witness:
  "cs_log sample_os (sample_msg 20000000000 ''hello'')
     \<lparr>cs_level = L_trace, cs_formatter = new_pattern_formatter sample_os ''%^%v%$%0!D'' Local_time [CHR 0x0A] Map.empty,
      cs_colors = default_colors, cs_do_colors = True, cs_file = []\<rparr> = Inl OutOfBounds"
  by (rule shrunk_text_read_out_of_bounds [where eol = "[CHR 0x0A]", OF _ _ refl])
    (simp_all add: sample_msg_def sample_os_def zero_tm_def time_secs_def cdiv_def ns_per_sec_def)

section \<open>The sinks of a logger\<close>

text \<open>The virtual functions of a sink; a log call may throw, with a message.\<close>

record 's sink_class =
  sc_level :: "'s \<Rightarrow> log_level"
  sc_log :: "lmsg \<Rightarrow> 's \<Rightarrow> ('s \<times> string option) res"
  sc_flush :: "'s \<Rightarrow> ('s \<times> string option) res"

definition sink_should_log :: "'s sink_class \<Rightarrow> log_level \<Rightarrow> 's \<Rightarrow> bool" where
  "sink_should_log cls l s \<longleftrightarrow> level_num l \<ge> level_num (sc_level cls s)"

text \<open>What the loops over the sinks change: the sinks, and the calls of the error handler.\<close>

record 's log_out =
  lo_sinks :: "'s list"
  lo_errors :: "string list"

definition lo_catch :: "string option \<Rightarrow> string list \<Rightarrow> string list" where
  "lo_catch e errs = (case e of None \<Rightarrow> errs | Some m \<Rightarrow> errs @ [m])"

fun each_sink :: "('s \<Rightarrow> bool) \<Rightarrow> ('s \<Rightarrow> ('s \<times> string option) res) \<Rightarrow> 's list \<times> string list \<Rightarrow> ('s list \<times> string list) res" where
  "each_sink wants f ([], errs) = Inr ([], errs)"
| "each_sink wants f (s # ss, errs) =
     (if wants s then
        bind_res (f s) (\<lambda>(s', e). bind_res (each_sink wants f (ss, lo_catch e errs)) (\<lambda>(ss', errs'). Inr (s' # ss', errs')))
      else bind_res (each_sink wants f (ss, errs)) (\<lambda>(ss', errs'). Inr (s # ss', errs')))"

definition on_sinks :: "('s \<Rightarrow> bool) \<Rightarrow> ('s \<Rightarrow> ('s \<times> string option) res) \<Rightarrow> 's log_out \<Rightarrow> 's log_out res" where
  "on_sinks wants f out =
     bind_res (each_sink wants f (lo_sinks out, lo_errors out)) (\<lambda>(ss, es). Inr \<lparr>lo_sinks = ss, lo_errors = es\<rparr>)"

definition lo_flush :: "'s sink_class \<Rightarrow> 's log_out \<Rightarrow> 's log_out res" where
  "lo_flush cls out = on_sinks (\<lambda>_. True) (sc_flush cls) out"

definition lo_sink_it :: "'s sink_class \<Rightarrow> logger \<Rightarrow> lmsg \<Rightarrow> 's log_out \<Rightarrow> 's log_out res" where
  "lo_sink_it cls l msg out =
     bind_res (on_sinks (sink_should_log cls (lm_level msg)) (sc_log cls msg) out) (\<lambda>out'.
     if should_flush (lm_level msg) l then lo_flush cls out' else Inr out')"

definition lo_log_it :: "'s sink_class \<Rightarrow> logger \<Rightarrow> lmsg \<Rightarrow> bool \<Rightarrow> bool \<Rightarrow> lmsg backtracer \<times> 's log_out
    \<Rightarrow> (lmsg backtracer \<times> 's log_out) res" where
  "lo_log_it cls l msg log_enabled traceback_enabled = (\<lambda>(tracer, out).
     bind_res (if log_enabled then lo_sink_it cls l msg out else Inr out) (\<lambda>out'.
     Inr (if traceback_enabled then bt_push_back msg tracer else tracer, out')))"

text \<open>The log calls differ in how they make the message.\<close>

definition lo_log :: "'s sink_class \<Rightarrow> logger \<Rightarrow> lmsg \<Rightarrow> lmsg backtracer \<times> 's log_out \<Rightarrow> (lmsg backtracer \<times> 's log_out) res" where
  "lo_log cls l msg = (\<lambda>(tracer, out).
     let log_enabled = should_log (lm_level msg) l; traceback_enabled = bt_enabled tracer
     in if \<not> log_enabled \<and> \<not> traceback_enabled then Inr (tracer, out)
        else lo_log_it cls l msg log_enabled traceback_enabled (tracer, out))"

definition plain_msg :: "int \<Rightarrow> nat \<Rightarrow> string \<Rightarrow> log_level \<Rightarrow> string \<Rightarrow> lmsg" where
  "plain_msg now tid name lvl s =
     \<lparr>lm_logger_name = name, lm_level = lvl, lm_time = now, lm_thread_id = tid, lm_color_start = 0, lm_color_end = 0,
      lm_source = \<lparr>sl_filename = [], sl_line = 0, sl_funcname = []\<rparr>, lm_payload = s\<rparr>"

definition backtrace_start :: string where
  "backtrace_start = ''****************** Backtrace Start ******************''"

definition backtrace_end :: string where
  "backtrace_end = ''****************** Backtrace End ********************''"

definition dump_backtrace :: "'s sink_class \<Rightarrow> int \<Rightarrow> nat \<Rightarrow> logger \<Rightarrow> lmsg backtracer \<times> 's log_out
    \<Rightarrow> (lmsg backtracer \<times> 's log_out) res" where
  "dump_backtrace cls now tid l = (\<lambda>(tracer, out).
     if bt_enabled tracer then
       bind_res (lo_sink_it cls l (plain_msg now tid (lg_name l) L_info backtrace_start) out) (\<lambda>out1.
       bind_res (bt_foreach_pop (lo_sink_it cls l) tracer out1) (\<lambda>(tracer', out2).
       bind_res (lo_sink_it cls l (plain_msg now tid (lg_name l) L_info backtrace_end) out2) (\<lambda>out3.
       Inr (tracer', out3))))
     else Inr (tracer, out))"

lemma log_disabled_messages:
  "bt_enabled tracer \<Longrightarrow> \<forall>m \<in> set ms. \<not> should_log (lm_level m) l \<Longrightarrow>
    run_all (lo_log cls l) ms (tracer, out) = Inr (fold bt_push_back ms tracer, out)"
  by (induction ms arbitrary: tracer) (simp_all add: lo_log_def lo_log_it_def bt_push_back_def)

text \<open>With the backtrace enabled for \<open>n\<close> messages, messages below the logger's level reach no sink when
  they are logged; dumping the backtrace then gives every sink a start line, the last \<open>n\<close> of them in order, and an
  end line, exactly as if they were logged then, and leaves the backtrace empty.\<close>

theorem backtrace_dump:
  assumes "n < 2 ^ 64 - 1" "\<forall>m \<in> set ms. \<not> should_log (lm_level m) l"
    "run_all (lo_sink_it cls l) (plain_msg now tid (lg_name l) L_info backtrace_start # last_n n ms
       @ [plain_msg now tid (lg_name l) L_info backtrace_end]) out = Inr out'"
  shows "\<exists>tracer. bind_res (run_all (lo_log cls l) ms (bt_enable d n b, out)) (dump_backtrace cls now tid l) = Inr (tracer, out')
    \<and> cq_items (bt_messages tracer) = []"
proof -
  have app: "run_all f (xs @ ys) s = bind_res (run_all f xs s) (run_all f ys)" for f :: "lmsg \<Rightarrow> 's log_out \<Rightarrow> 's log_out res" and xs ys s
    by (induction xs arbitrary: s) (simp_all add: bind_res_def split: sum.split)
  let ?m = "plain_msg now tid (lg_name l) L_info"
  obtain o1 o2 where r: "lo_sink_it cls l (?m backtrace_start) out = Inr o1"
    "run_all (lo_sink_it cls l) (last_n n ms) o1 = Inr o2" "lo_sink_it cls l (?m backtrace_end) o2 = Inr out'"
    using assms(3) by (auto simp: app bind_res_eq_Inr)
  obtain b' where b': "bt_foreach_pop (lo_sink_it cls l) (fold bt_push_back ms (bt_enable d n b)) o1 = Inr (b', o2)"
    "cq_items (bt_messages b') = []"
    using backtrace_replays_last [OF assms(1) r(2), of d b] by blast
  have en: "bt_enabled (fold bt_push_back ms b1) = bt_enabled b1" for b1
    by (induction ms arbitrary: b1) (simp_all add: bt_push_back_def)
  have "bt_enabled (bt_enable d n b)" by (simp add: bt_enable_def)
  then show ?thesis
    using r b' by (simp add: log_disabled_messages [OF _ assms(2)] dump_backtrace_def en)
qed

text \<open>A sink that keeps the payloads, for examples.\<close>

definition memo_class :: "string list sink_class" where
  "memo_class = \<lparr>sc_level = (\<lambda>_. L_trace), sc_log = (\<lambda>m s. Inr (s @ [lm_payload m], None)), sc_flush = (\<lambda>s. Inr (s, None))\<rparr>"

definition debug_msg :: "string \<Rightarrow> lmsg" where "debug_msg s = (sample_msg 20000000000 s)\<lparr>lm_level := L_debug\<rparr>"

theorem backtrace_dump_witness:
  "\<exists>tracer. bind_res (run_all (lo_log memo_class \<lparr>lg_name = ''x'', lg_level = L_info, lg_flush = L_off, lg_trace = None\<rparr>)
        [debug_msg ''a'', debug_msg ''b'', debug_msg ''c'']
        (bt_enable (debug_msg []) 2 \<lparr>bt_enabled = False, bt_messages = cq_disabled\<rparr>, \<lparr>lo_sinks = [[]], lo_errors = []\<rparr>))
      (dump_backtrace memo_class 0 1 \<lparr>lg_name = ''x'', lg_level = L_info, lg_flush = L_off, lg_trace = None\<rparr>)
    = Inr (tracer, \<lparr>lo_sinks = [[backtrace_start, ''b'', ''c'', backtrace_end]], lo_errors = []\<rparr>)"
proof -
  let ?l = "\<lparr>lg_name = ''x'', lg_level = L_info, lg_flush = L_off, lg_trace = None\<rparr>"
  let ?ms = "[debug_msg ''a'', debug_msg ''b'', debug_msg ''c'']"
  let ?out = "\<lparr>lo_sinks = [[]], lo_errors = []\<rparr> :: string list log_out"
  have n: "(2 :: nat) < 2 ^ 64 - 1" by simp
  have a: "\<forall>m \<in> set ?ms. \<not> should_log (lm_level m) ?l" by (simp add: debug_msg_def should_log_def)
  have r: "run_all (lo_sink_it memo_class ?l) (plain_msg 0 1 (lg_name ?l) L_info backtrace_start # last_n 2 ?ms
      @ [plain_msg 0 1 (lg_name ?l) L_info backtrace_end]) ?out
    = Inr \<lparr>lo_sinks = [[backtrace_start, ''b'', ''c'', backtrace_end]], lo_errors = []\<rparr>"
    by (simp add: last_n_def lo_sink_it_def on_sinks_def memo_class_def sink_should_log_def plain_msg_def
        debug_msg_def sample_msg_def should_flush_def lo_catch_def)
  show ?thesis
    using backtrace_dump [OF n a r, of "debug_msg []" "\<lparr>bt_enabled = False, bt_messages = cq_disabled\<rparr>"] by blast
qed

section \<open>The distributing sink and the filter of duplicates\<close>

text \<open>An exception of a sink leaves the loop.\<close>

fun dist_sink_it :: "'s sink_class \<Rightarrow> lmsg \<Rightarrow> 's list \<Rightarrow> ('s list \<times> string option) res" where
  "dist_sink_it cls msg [] = Inr ([], None)"
| "dist_sink_it cls msg (s # ss) =
     (if sink_should_log cls (lm_level msg) s then
        bind_res (sc_log cls msg s) (\<lambda>(s', e). case e of
          Some err \<Rightarrow> Inr (s' # ss, Some err)
        | None \<Rightarrow> bind_res (dist_sink_it cls msg ss) (\<lambda>(ss', e'). Inr (s' # ss', e')))
      else bind_res (dist_sink_it cls msg ss) (\<lambda>(ss', e'). Inr (s # ss', e')))"

record 's dup_filter =
  df_sinks :: "'s list"
  df_max_skip :: int
  df_last_time :: int
  df_last_payload :: string
  df_skipped :: nat

definition new_dup_filter :: "int \<Rightarrow> 's dup_filter" where
  "new_dup_filter max_skip_duration =
     \<lparr>df_sinks = [], df_max_skip = max_skip_duration, df_last_time = 0, df_last_payload = [], df_skipped = 0\<rparr>"

definition df_filter :: "lmsg \<Rightarrow> 's dup_filter \<Rightarrow> bool" where
  "df_filter msg f \<longleftrightarrow> lm_time msg - df_last_time f > df_max_skip f \<or> lm_payload msg \<noteq> df_last_payload f"

definition skipped_text :: "nat \<Rightarrow> string" where
  "skipped_text k = ''Skipped '' @ dec (k mod 2 ^ 32) @ '' duplicate messages..''"

text \<open>The text always fits the buffer of 64 characters.\<close>

lemma dec_length_le:
  assumes "n < 10 ^ k" "0 < k"
  shows "length (dec n) \<le> k"
proof (cases "n = 0")
  case False
  then have "(10 :: nat) ^ (length (dec n) - 1) < 10 ^ k" using length_dec_bounds [of n] assms(1) by linarith
  then have "length (dec n) - 1 < k" by (simp only: power_strict_increasing_iff)
  then show ?thesis by simp
qed (use assms(2) in \<open>simp add: dec_small\<close>)

lemma skipped_text_fits: "length (skipped_text k) < 64"
proof -
  have "length (dec (k mod 2 ^ 32)) \<le> 10" by (rule dec_length_le) simp_all
  then show ?thesis by (simp add: skipped_text_def)
qed

definition df_sink_it :: "'s sink_class \<Rightarrow> int \<Rightarrow> nat \<Rightarrow> lmsg \<Rightarrow> 's dup_filter \<Rightarrow> ('s dup_filter \<times> string option) res" where
  "df_sink_it cls now tid msg f =
     (if \<not> df_filter msg f then Inr (f\<lparr>df_skipped := (df_skipped f + 1) mod 2 ^ 64\<rparr>, None)
      else
        bind_res (if df_skipped f > 0
                  then dist_sink_it cls (plain_msg now tid (lm_logger_name msg) L_info (skipped_text (df_skipped f))) (df_sinks f)
                  else Inr (df_sinks f, None)) (\<lambda>(ss, e). case e of
          Some err \<Rightarrow> Inr (f\<lparr>df_sinks := ss\<rparr>, Some err)
        | None \<Rightarrow>
            bind_res (dist_sink_it cls msg ss) (\<lambda>(ss', e'). case e' of
              Some err \<Rightarrow> Inr (f\<lparr>df_sinks := ss'\<rparr>, Some err)
            | None \<Rightarrow> Inr (f\<lparr>df_sinks := ss', df_last_time := lm_time msg, df_skipped := 0, df_last_payload := lm_payload msg\<rparr>, None))))"

text \<open>Messages one after the other, while none throws.\<close>

fun df_run :: "'s sink_class \<Rightarrow> int \<Rightarrow> nat \<Rightarrow> lmsg list \<Rightarrow> 's dup_filter \<Rightarrow> ('s dup_filter \<times> string option) res" where
  "df_run cls now tid [] f = Inr (f, None)"
| "df_run cls now tid (m # ms) f =
     bind_res (df_sink_it cls now tid m f) (\<lambda>(f', e). if e = None then df_run cls now tid ms f' else Inr (f', e))"

lemma df_skips:
  assumes "\<forall>d \<in> set ds. \<not> df_filter d f" "df_skipped f + length ds < 2 ^ 64"
  shows "df_run cls now tid (ds @ rest) f = df_run cls now tid rest (f\<lparr>df_skipped := df_skipped f + length ds\<rparr>)"
  using assms
proof (induction ds arbitrary: f)
  case (Cons d ds)
  have "df_run cls now tid (ds @ rest) (f\<lparr>df_skipped := df_skipped f + 1\<rparr>) =
      df_run cls now tid rest (f\<lparr>df_skipped := df_skipped f + 1 + length ds\<rparr>)"
    using Cons.IH [of "f\<lparr>df_skipped := df_skipped f + 1\<rparr>"] Cons.prems by (simp add: df_filter_def)
  then show ?case using Cons.prems by (simp add: df_sink_it_def)
qed simp

text \<open>A message that repeats is shown once.  Its repetitions within the time allowed are only counted, and
  the next other message is preceded by a line with the number of those skipped, which does not include the
  one shown; with no repetition there is no such line.\<close>

theorem duplicates_counted:
  assumes "df_filter m f" "df_skipped f = 0" "df_max_skip f \<ge> 0"
    "\<forall>d \<in> set ds. lm_payload d = lm_payload m \<and> lm_time d - lm_time m \<le> df_max_skip f"
    "length ds < 2 ^ 64" "lm_payload x \<noteq> lm_payload m"
    "dist_sink_it cls m (df_sinks f) = Inr (ss1, None)"
    "(if ds = [] then Inr (ss1, None) else
       dist_sink_it cls (plain_msg now tid (lm_logger_name x) L_info (skipped_text (length ds))) ss1) = Inr (ss2, None)"
    "dist_sink_it cls x ss2 = Inr (ss3, None)"
  shows "df_run cls now tid (m # ds @ [x]) f =
    Inr (f\<lparr>df_sinks := ss3, df_last_time := lm_time x, df_last_payload := lm_payload x\<rparr>, None)"
proof -
  let ?f = "f\<lparr>df_sinks := ss1, df_last_time := lm_time m, df_skipped := 0, df_last_payload := lm_payload m\<rparr>"
  have one: "df_sink_it cls now tid m f = Inr (?f, None)"
    using assms(1,2,7) by (simp add: df_sink_it_def)
  have skip: "df_run cls now tid (ds @ [x]) ?f = df_run cls now tid [x] (?f\<lparr>df_skipped := df_skipped ?f + length ds\<rparr>)"
    by (rule df_skips) (use assms(4,5) in \<open>auto simp: df_filter_def\<close>)
  have "df_sink_it cls now tid x (?f\<lparr>df_skipped := length ds\<rparr>) =
      Inr (f\<lparr>df_sinks := ss3, df_last_time := lm_time x, df_skipped := 0, df_last_payload := lm_payload x\<rparr>, None)"
    using assms(6,8,9) by (cases "ds = []") (simp_all add: df_sink_it_def df_filter_def)
  then show ?thesis using one skip assms(2) by simp
qed

definition hello :: "int \<Rightarrow> lmsg" where "hello t = sample_msg t ''Hello''"

text \<open>The example of the header's comment: three times the same message, then another.\<close>

theorem duplicates_counted_witness:
  "\<exists>f'. df_run memo_class 0 1 [hello 10000000000, hello 10000000000, hello 10000000000, sample_msg 10000000000 ''Different Hello'']
      ((new_dup_filter 5000000000)\<lparr>df_sinks := [[]]\<rparr>)
    = Inr (f', None) \<and> df_sinks f' = [[''Hello'', ''Skipped 2 duplicate messages..'', ''Different Hello'']]"
proof -
  let ?f = "(new_dup_filter 5000000000)\<lparr>df_sinks := [[]]\<rparr> :: string list dup_filter"
  let ?h = "hello 10000000000" and ?x = "sample_msg 10000000000 ''Different Hello''"
  have memo: "dist_sink_it memo_class m [s] = Inr ([s @ [lm_payload m]], None)" for m s
    by (simp add: memo_class_def sink_should_log_def)
  have "digit 2 = CHR ''2''" by code_simp
  then have "skipped_text 2 = ''Skipped 2 duplicate messages..''" by (simp add: skipped_text_def dec_small)
  moreover have "df_run memo_class 0 1 (?h # [?h, ?h] @ [?x]) ?f =
    Inr (?f\<lparr>df_sinks := [[''Hello'', skipped_text 2, ''Different Hello'']], df_last_time := lm_time ?x, df_last_payload := lm_payload ?x\<rparr>, None)"
  proof (rule duplicates_counted)
    have l: "length [?h, ?h] = 2" by simp
    show "dist_sink_it memo_class ?h (df_sinks ?f) = Inr ([[''Hello'']], None)"
      using memo [of ?h "[]"] by (simp add: hello_def sample_msg_def new_dup_filter_def del: dist_sink_it.simps)
    show "(if [?h, ?h] = [] then Inr ([[''Hello'']], None) else dist_sink_it memo_class
        (plain_msg 0 1 (lm_logger_name ?x) L_info (skipped_text (length [?h, ?h]))) [[''Hello'']]) = Inr ([[''Hello'', skipped_text 2]], None)"
      unfolding l using memo [of "plain_msg 0 1 (lm_logger_name ?x) L_info (skipped_text 2)" "[''Hello'']"]
      by (simp add: plain_msg_def del: dist_sink_it.simps)
    show "dist_sink_it memo_class ?x [[''Hello'', skipped_text 2]] = Inr ([[''Hello'', skipped_text 2, ''Different Hello'']], None)"
      using memo [of ?x "[''Hello'', skipped_text 2]"] by (simp add: sample_msg_def del: dist_sink_it.simps)
    show "length [?h, ?h] < 2 ^ 64" unfolding l by simp
  qed (simp_all add: new_dup_filter_def df_filter_def hello_def sample_msg_def)
  ultimately show ?thesis by simp
qed

end
