(* ===== verification/LogSafe.thy ===== *)
theory LogSafe
  imports LogPattern
begin

text \<open>
  Formatting cannot go wrong: whatever the pattern and the message, a formatter made from a pattern never reads
  outside its tables and spaces, and only a truncating field can end the program.  The paddings that
  \<open>handle_padspec\<close> produces are the type of what \<open>compile_pattern\<close> stores, and every flag formatter
  is safe on that type.
\<close>

section \<open>The paddings of a compiled pattern\<close>

text \<open>\<open>tr\<close>: may the padding truncate?\<close>

definition pad_ok :: "bool \<Rightarrow> padding_info \<Rightarrow> bool" where
  "pad_ok tr p \<longleftrightarrow> pi_width p \<le> 64 \<and> (pi_truncate p \<longrightarrow> tr)"

fun flag_ok :: "bool \<Rightarrow> flag \<Rightarrow> bool" where
  "flag_ok tr (Msg_flag _ p) \<longleftrightarrow> pad_ok tr p"
| "flag_ok tr (Time_flag _ p) \<longleftrightarrow> pad_ok tr p"
| "flag_ok tr (Zone_flag p _ _) \<longleftrightarrow> pad_ok tr p"
| "flag_ok tr (Elapsed_flag u p _) \<longleftrightarrow> pad_ok tr p \<and> 0 < u"
| "flag_ok tr (Pid_flag p) \<longleftrightarrow> pad_ok tr p"
| "flag_ok tr (Custom_flag _ _) \<longleftrightarrow> False"
| "flag_ok tr _ \<longleftrightarrow> True"

definition pf_flags_ok :: "bool \<Rightarrow> pattern_formatter \<Rightarrow> bool" where
  "pf_flags_ok tr pf \<longleftrightarrow> pf_custom pf = Map.empty \<and> (\<forall>f \<in> set (pf_formatters pf). flag_ok tr f)"

lemma pad_ok_no_padding [simp]: "pad_ok tr no_padding"
  by (simp add: pad_ok_def no_padding_def)

lemma pad_ok_mono: "pad_ok tr p \<Longrightarrow> (tr \<Longrightarrow> tr') \<Longrightarrow> pad_ok tr' p"
  by (auto simp: pad_ok_def)

lemma read_width_set: "set (snd (read_width w s)) \<subseteq> set s"
  by (induction w s rule: read_width.induct) auto

lemma padspec_sets:
  "set (snd (padspec_side s)) \<subseteq> set s"
  "fst (padspec_truncate s) \<Longrightarrow> CHR ''!'' \<in> set s"
  "set (snd (padspec_truncate s)) \<subseteq> set s"
  by (auto simp: padspec_side_def padspec_truncate_def split: list.splits if_splits)

lemma handle_padspec_ok:
  "pad_ok (CHR ''!'' \<in> set s) (fst (handle_padspec s)) \<and> set (snd (handle_padspec s)) \<subseteq> set s"
proof (cases "snd (padspec_side s)")
  case Nil
  then show ?thesis by (auto simp: handle_padspec_def split: prod.split)
next
  case (Cons c cs)
  then have p: "padspec_side s = (fst (padspec_side s), c # cs)" and sub: "set (c # cs) \<subseteq> set s"
    using padspec_sets(1) [of s] by (simp_all add: prod_eq_iff)
  let ?rest = "snd (read_width (digit_val c) cs)"
  have r: "set ?rest \<subseteq> set s" using read_width_set [of "digit_val c" cs] sub by auto
  show ?thesis
    using padspec_sets(2,3) [of ?rest] r sub
    by (subst (1 2) handle_padspec_def, subst (1 2) p)
      (auto simp: case_prod_unfold pad_ok_def mk_padding_def max_width_def no_padding_def)
qed

lemma flag_table_flags: "(c, f, need) \<in> set (flag_table env p) \<Longrightarrow> pad_ok tr p \<Longrightarrow> flag_ok tr f"
  unfolding flag_table_def by (simp only: set_simps insert_iff prod.inject empty_iff) (auto simp: ns_per_sec_def)

lemma handle_flag_flags:
  assumes "pf_flags_ok tr pf" "pad_ok tr p"
  shows "pf_flags_ok tr (handle_flag env c p pf)"
proof (cases "map_of (flag_table env p) c")
  case None
  then show ?thesis using assms by (auto simp: handle_flag_def pf_flags_ok_def pad_ok_def)
next
  case (Some fn)
  obtain f need where fn: "fn = (f, need)" by fastforce
  have "flag_ok tr f" using map_of_SomeD [OF Some] assms(2) by (auto simp: fn dest: flag_table_flags)
  then show ?thesis using assms Some by (auto simp: handle_flag_def pf_flags_ok_def fn)
qed

lemma flush_chars_flags: "pf_flags_ok tr pf \<Longrightarrow> pf_flags_ok tr (flush_chars user pf)"
  by (auto simp: flush_chars_def pf_flags_ok_def split: option.split)

lemma compile_loop_flags:
  "pf_flags_ok tr pf \<Longrightarrow> (CHR ''!'' \<in> set s \<Longrightarrow> tr) \<Longrightarrow> pf_flags_ok tr (compile_loop env s user pf)"
proof (induction env s user pf rule: compile_loop.induct)
  case (1 env user pf)
  then show ?case by (simp add: flush_chars_flags)
next
  case (2 env c cs user pf)
  show ?case
  proof (cases "c = CHR ''%''")
    case False
    then show ?thesis using 2 by simp
  next
    case True
    obtain p r where h: "handle_padspec cs = (p, r)" by fastforce
    have pr: "pad_ok tr p" "set r \<subseteq> set cs"
      using handle_padspec_ok [of cs] "2.prems"(2) by (auto simp: h elim!: pad_ok_mono)
    show ?thesis
    proof (cases r)
      case Nil
      then show ?thesis using True h "2.prems"(1) by (simp add: flush_chars_flags)
    next
      case (Cons f rest)
      have "pf_flags_ok tr (compile_loop env rest None (handle_flag env f p (flush_chars user pf)))"
        using True h Cons "2.prems" pr by (intro "2.IH"(1)) (auto intro!: handle_flag_flags flush_chars_flags)
      then show ?thesis using True h Cons by simp
    qed
  qed
qed

section \<open>Every flag formatter is safe\<close>

text \<open>A result that is a value, or the end of the program where truncation is allowed.\<close>

definition sound :: "bool \<Rightarrow> 'a res \<Rightarrow> bool" where
  "sound tr r \<longleftrightarrow> (\<exists>x. r = Inr x) \<or> (r = Inl Aborted \<and> tr)"

lemma sound_Inr [simp, intro]: "sound tr (Inr x)"
  by (simp add: sound_def)

lemma sound_bind: "sound tr m \<Longrightarrow> (\<And>x. m = Inr x \<Longrightarrow> sound tr (f x)) \<Longrightarrow> sound tr (bind_res m f)"
  by (auto simp: sound_def)

lemma pad_it_sound: "0 \<le> n \<Longrightarrow> n \<le> 64 \<Longrightarrow> \<exists>d. pad_it n dest = Inr d"
  by (simp add: pad_it_def)

lemma padder_close_sound: "pad_ok tr p \<Longrightarrow> r \<le> 64 \<Longrightarrow> sound tr (padder_close r p dest)"
  by (auto simp: padder_close_def sound_def pad_it_def Let_def pad_ok_def)

lemma padder_open_sound:
  assumes "pad_ok tr p"
  shows "\<exists>r d. padder_open n p dest = Inr (r, d) \<and> r \<le> 64"
proof -
  have w: "int (pi_width p) - int n \<le> 64" using assms by (simp add: pad_ok_def)
  moreover have "(int (pi_width p) - int n) div 2 + (int (pi_width p) - int n) mod 2 \<le> 64" using w by linarith
  ultimately show ?thesis
    by (auto simp: padder_open_def Let_def pad_it_def split: pad_side.split)
qed

lemma padded_sound: "pad_ok tr p \<Longrightarrow> sound tr (padded p n s dest)"
  using padder_open_sound [of tr p n dest] padder_close_sound [of tr p]
  by (auto simp: padded_def)

definition tm_ok :: "tm \<Rightarrow> bool" where
  "tm_ok t \<longleftrightarrow> 0 \<le> tm_wday t \<and> tm_wday t < 7 \<and> 0 \<le> tm_mon t \<and> tm_mon t < 12"

lemma name_at_ok: "0 \<le> i \<Longrightarrow> i < int (length xs) \<Longrightarrow> name_at xs i = Inr (xs ! nat i)"
  by (simp add: name_at_def)

lemma named_sound: "pad_ok tr p \<Longrightarrow> 0 \<le> i \<Longrightarrow> i < int (length xs) \<Longrightarrow> sound tr (named xs i p dest)"
  by (simp add: named_def name_at_ok padded_sound)

lemma name_lengths [simp]:
  "length days = 7" "length full_days = 7" "length months = 12" "length full_months = 12"
  by (simp_all add: days_def full_days_def months_def full_months_def)

lemma time_formatter_sound: "pad_ok tr p \<Longrightarrow> tm_ok t \<Longrightarrow> sound tr (time_formatter k p t dest)"
  by (cases k)
    (simp_all add: tm_ok_def a_formatter_def A_formatter_def b_formatter_def B_formatter_def c_formatter_def
      C_formatter_def Y_formatter_def D_formatter_def m_formatter_def d_formatter_def H_formatter_def
      I_formatter_def M_formatter_def S_formatter_def p_formatter_def r_formatter_def R_formatter_def
      T_formatter_def name_at_ok padded_sound named_sound)

lemma msg_formatter_sound: "pad_ok tr p \<Longrightarrow> sound tr (msg_formatter k p m dest)"
  by (cases k)
    (simp_all add: name_formatter_def level_formatter_def short_level_formatter_def t_formatter_def v_formatter_def
      e_formatter_def f_formatter_def F_formatter_def E_formatter_def source_location_formatter_def
      short_filename_formatter_def source_filename_formatter_def source_linenum_formatter_def
      source_funcname_formatter_def Let_def padded_sound)

lemma flag_format_sound:
  assumes "flag_ok tr f" "tm_ok t"
  shows "sound tr (flag_format env f m t dest)"
proof (cases f)
  case (Zone_flag p u off)
  then show ?thesis using assms
    by (auto simp: z_formatter_def Let_def split: prod.split intro!: sound_bind padded_sound)
next
  case (Elapsed_flag u p prev)
  then show ?thesis using assms
    by (auto simp: elapsed_formatter_def Let_def split: prod.split intro!: sound_bind padded_sound)
qed (use assms in \<open>auto intro!: sound_bind msg_formatter_sound time_formatter_sound
      simp: pid_formatter_def padded_sound split: prod.split\<close>)

lemma flags_format_sound:
  "\<forall>f \<in> set fs. flag_ok tr f \<Longrightarrow> tm_ok t \<Longrightarrow> sound tr (flags_format env fs m t dest)"
  by (induction fs arbitrary: m dest) (auto intro!: sound_bind flag_format_sound split: prod.split)

text \<open>C36: Whatever the pattern, a formatter made from it formats every message: no field reads outside the
  names of days and months or the 64 spaces, provided the system gives months and weekdays in range; only a
  pattern with a truncation mark can end the program, and no other outcome is possible.\<close>

theorem formatting_is_safe:
  assumes "\<forall>s. tm_ok (os_localtime env s) \<and> tm_ok (os_gmtime env s)"
  shows "(\<exists>pf m d. pf_format env (new_pattern_formatter env pat ty eol Map.empty) msg dest = Inr (pf, m, d)) \<or>
    (CHR ''!'' \<in> set pat \<and> pf_format env (new_pattern_formatter env pat ty eol Map.empty) msg dest = Inl Aborted)"
proof -
  let ?pf = "new_pattern_formatter env pat ty eol Map.empty" and ?tr = "CHR ''!'' \<in> set pat"
  have flags: "\<forall>f \<in> set (pf_formatters ?pf). flag_ok ?tr f"
  proof -
    have "pf_flags_ok ?tr ?pf"
      unfolding new_pattern_formatter_def compile_pattern_def
      by (rule compile_loop_flags) (simp_all add: pf_flags_ok_def)
    then show ?thesis by (simp add: pf_flags_ok_def)
  qed
  have "pf_cached_tm ?pf = zero_tm" by (simp add: new_pattern_formatter_def compile_pattern_def)
  then have "tm_ok (pf_cached_tm (refresh_time env msg ?pf))"
    using assms by (auto simp: refresh_time_def get_time_def zero_tm_def tm_ok_def)
  then have "sound ?tr (flags_format env (pf_formatters ?pf) msg (pf_cached_tm (refresh_time env msg ?pf)) dest)"
    using flags_format_sound [OF flags] by blast
  then have "sound ?tr (pf_format env ?pf msg dest)"
    by (auto simp: pf_format_def Let_def split: prod.split intro!: sound_bind)
  then show ?thesis unfolding sound_def by (metis surj_pair)
qed

theorem formatting_is_safe_witness:
  "\<exists>pf m d. pf_format sample_os (new_pattern_formatter sample_os ''%8l %=12n %v %D'' Local_time [] Map.empty)
    (sample_msg 5 ''x'') [] = Inr (pf, m, d)"
proof -
  have ok: "\<forall>s. tm_ok (os_localtime sample_os s) \<and> tm_ok (os_gmtime sample_os s)"
    by (simp add: sample_os_def tm_ok_def zero_tm_def)
  have "CHR ''!'' \<notin> set ''%8l %=12n %v %D''" by simp
  then show ?thesis
    using formatting_is_safe [OF ok, of "''%8l %=12n %v %D''" Local_time "[]" "sample_msg 5 ''x''" "[]"] by blast
qed

end
