(* ===== verification/FmtParse.thy ===== *)
theory FmtParse
  imports Digits
begin

text \<open>
  The format string parser of \<open>fmt/bundled/core.h\<close>, which every log call goes through: the
  replacement fields \<open>{}\<close>, \<open>{n}\<close> and \<open>{name}\<close>, their format specifications, and the scan of the
  text around them.  As in the code the parsers are generic in a handler that receives what has
  been parsed; a handler is a record of functions on a state.  A pointer into the string is the rest of the string
  from there to its end.  Every error of the code ends in \<open>on_error\<close>, which throws \<open>format_error\<close>:
  it is the value \<open>Inl (Exn msg)\<close>.  The two scanning loops need not end for every handler, so they are
  partial functions.  The lemmas show that each parser only moves forward, that the loops end for every
  handler whose \<open>on_format_specs\<close> does not move back, and that the loop for short strings and the one for
  long strings make the same calls.
\<close>

section \<open>Specifications\<close>

datatype align_t = Align_none | Align_left | Align_right | Align_center | Align_numeric

datatype sign_t = Sign_none | Sign_minus | Sign_plus | Sign_space

datatype presentation_type =
    Type_none
  | Type_dec | Type_oct | Type_hex_lower | Type_hex_upper | Type_bin_lower | Type_bin_upper
  | Type_hexfloat_lower | Type_hexfloat_upper | Type_exp_lower | Type_exp_upper
  | Type_fixed_lower | Type_fixed_upper | Type_general_lower | Type_general_upper
  | Type_chr | Type_string | Type_pointer

text \<open>The fill: an array of four characters and how many of them are used.\<close>

record fill_t =
  fill_data :: string
  fill_size :: nat

definition fill_default :: fill_t where
  "fill_default = \<lparr>fill_data = CHR '' '' # replicate 3 CHR 0x00, fill_size = 1\<rparr>"

definition throw_format_error :: "string \<Rightarrow> 'a res" where
  "throw_format_error msg = Inl (Exn msg)"

definition fill_assign :: "string \<Rightarrow> fill_t \<Rightarrow> fill_t res" where
  "fill_assign s f =
     (if 4 < length s then throw_format_error ''invalid fill''
      else Inr \<lparr>fill_data = s @ drop (length s) (fill_data f), fill_size = length s\<rparr>)"

record format_specs =
  fs_width :: int
  fs_precision :: int
  fs_type :: presentation_type
  fs_align :: align_t
  fs_sign :: sign_t
  fs_alt :: bool
  fs_localized :: bool
  fs_fill :: fill_t

definition default_specs :: format_specs where
  "default_specs =
     \<lparr>fs_width = 0, fs_precision = -1, fs_type = Type_none, fs_align = Align_none, fs_sign = Sign_none,
      fs_alt = False, fs_localized = False, fs_fill = fill_default\<rparr>"

text \<open>A reference to an argument: by position, by index or by name.\<close>

datatype arg_id = Auto_id | Index_id int | Name_id string

section \<open>Argument indexing\<close>

text \<open>\<open>next_arg_id_\<close> of the parse context: -1 once an index has been given by hand.\<close>

definition next_arg_id :: "int \<Rightarrow> (int \<times> int) res" where
  "next_arg_id n =
     (if 0 \<le> n then Inr (n, n + 1)
      else throw_format_error ''cannot switch from manual to automatic argument indexing'')"

definition check_arg_id :: "int \<Rightarrow> int res" where
  "check_arg_id n =
     (if 0 < n then throw_format_error ''cannot switch from automatic to manual argument indexing''
      else Inr (-1))"

section \<open>Handlers\<close>

record 's spec_handler =
  on_align :: "align_t \<Rightarrow> 's \<Rightarrow> 's res"
  on_fill :: "string \<Rightarrow> 's \<Rightarrow> 's res"
  on_sign :: "sign_t \<Rightarrow> 's \<Rightarrow> 's res"
  on_hash :: "'s \<Rightarrow> 's res"
  on_zero :: "'s \<Rightarrow> 's res"
  on_width :: "int \<Rightarrow> 's \<Rightarrow> 's res"
  on_dynamic_width :: "arg_id \<Rightarrow> 's \<Rightarrow> 's res"
  on_precision :: "int \<Rightarrow> 's \<Rightarrow> 's res"
  on_dynamic_precision :: "arg_id \<Rightarrow> 's \<Rightarrow> 's res"
  end_precision :: "'s \<Rightarrow> 's res"
  on_localized :: "'s \<Rightarrow> 's res"
  on_type :: "presentation_type \<Rightarrow> 's \<Rightarrow> 's res"

record 's fmt_handler =
  on_text :: "string \<Rightarrow> 's \<Rightarrow> 's res"
  on_arg_id :: "arg_id \<Rightarrow> 's \<Rightarrow> (int \<times> 's) res"
  on_replacement_field :: "int \<Rightarrow> 's \<Rightarrow> 's res"
  on_format_specs :: "int \<Rightarrow> string \<Rightarrow> 's \<Rightarrow> (string \<times> 's) res"

section \<open>Characters and numbers\<close>

definition is_ascii_letter :: "char \<Rightarrow> bool" where
  "is_ascii_letter c \<longleftrightarrow>
     (97 \<le> (of_char c :: nat) \<and> (of_char c :: nat) \<le> 122) \<or> (65 \<le> (of_char c :: nat) \<and> (of_char c :: nat) \<le> 90)"

definition is_name_start :: "char \<Rightarrow> bool" where
  "is_name_start c \<longleftrightarrow> is_ascii_letter c \<or> c = CHR ''_''"

definition is_dig :: "char \<Rightarrow> bool" where
  "is_dig c \<longleftrightarrow> 48 \<le> (of_char c :: nat) \<and> (of_char c :: nat) \<le> 57"

definition dig_val :: "char \<Rightarrow> nat" where
  "dig_val c = of_char c - 48"

text \<open>The table of the code, by the five high bits of the byte; the terminating zero is the last entry.\<close>

definition code_point_lengths :: "nat list" where
  "code_point_lengths =
     [1, 1, 1, 1, 1, 1, 1, 1, 1, 1, 1, 1, 1, 1, 1, 1, 0, 0, 0, 0, 0, 0, 0, 0, 2, 2, 2, 2, 3, 3, 4, 0]"

definition code_point_length :: "char \<Rightarrow> nat" where
  "code_point_length c =
     (let len = code_point_lengths ! (of_char c div 8) in len + (if len = 0 then 1 else 0))"

text \<open>
  The loop of \<open>parse_nonnegative_int\<close> in 32-bit unsigned arithmetic; besides the value it keeps the
  previous value, the last digit and the number of digits.
\<close>

fun pni_loop :: "u32 \<Rightarrow> u32 \<Rightarrow> char \<Rightarrow> nat \<Rightarrow> string \<Rightarrow> u32 \<times> u32 \<times> char \<times> nat \<times> string" where
  "pni_loop prev value lst n [] = (prev, value, lst, n, [])"
| "pni_loop prev value lst n (c # p) =
     (if is_dig c then pni_loop value (value * 10 + of_nat (dig_val c)) c (n + 1) p
      else (prev, value, lst, n, c # p))"

definition int_max :: int where "int_max = 2147483647"

definition parse_nonnegative_int :: "string \<Rightarrow> int \<Rightarrow> int \<times> string" where
  "parse_nonnegative_int s error_value =
     (let (prev, value, lst, n, rest) = pni_loop 0 0 CHR 0x00 0 s in
      (if n \<le> 9 then sint value
       else if n = 10 \<and> int (unat prev * 10 + dig_val lst) \<le> int_max then sint value
       else error_value, rest))"

section \<open>Parsing a specification\<close>

definition align_of :: "char \<Rightarrow> align_t" where
  "align_of c =
     (if c = CHR ''<'' then Align_left else if c = CHR ''>'' then Align_right
      else if c = CHR ''^'' then Align_center else Align_none)"

text \<open>The loop of \<open>parse_align\<close>: looks for an alignment behind the first code point, then at the start.\<close>

fun parse_align_at :: "'s spec_handler \<Rightarrow> nat \<Rightarrow> string \<Rightarrow> 's \<Rightarrow> (string \<times> 's) res" where
  "parse_align_at h n s st =
     (let align = align_of (s ! n) in
      if align \<noteq> Align_none then
        (if n \<noteq> 0 then
           if hd s = CHR ''{'' then throw_format_error (''invalid fill character '' @ [CHR 0x27, CHR ''{'', CHR 0x27])
           else bind_res (on_fill h (take n s) st) (\<lambda>st.
                bind_res (on_align h align st) (\<lambda>st. Inr (drop (n + 1) s, st)))
         else bind_res (on_align h align st) (\<lambda>st. Inr (tl s, st)))
      else if n = 0 then Inr (s, st)
      else parse_align_at h 0 s st)"

declare parse_align_at.simps [simp del]

definition parse_align :: "'s spec_handler \<Rightarrow> string \<Rightarrow> 's \<Rightarrow> (string \<times> 's) res" where
  "parse_align h s st =
     (case s of [] \<Rightarrow> Inl OutOfBounds
      | c # _ \<Rightarrow> (let n = code_point_length c in parse_align_at h (if length s \<le> n then 0 else n) s st))"

definition do_parse_arg_id :: "(arg_id \<Rightarrow> 's \<Rightarrow> 's res) \<Rightarrow> string \<Rightarrow> 's \<Rightarrow> (string \<times> 's) res" where
  "do_parse_arg_id h s st =
     (case s of [] \<Rightarrow> Inl OutOfBounds
      | c # s' \<Rightarrow>
          if is_dig c then
            let (index, rest) = (if c \<noteq> CHR ''0'' then parse_nonnegative_int s int_max else (0, s')) in
            if rest = [] \<or> (hd rest \<noteq> CHR ''}'' \<and> hd rest \<noteq> CHR '':'')
            then throw_format_error ''invalid format string''
            else bind_res (h (Index_id index) st) (\<lambda>st. Inr (rest, st))
          else if \<not> is_name_start c then throw_format_error ''invalid format string''
          else
            let more = (\<lambda>c. is_name_start c \<or> is_dig c) in
            bind_res (h (Name_id (c # takeWhile more s')) st) (\<lambda>st. Inr (dropWhile more s', st)))"

definition parse_arg_id :: "(arg_id \<Rightarrow> 's \<Rightarrow> 's res) \<Rightarrow> string \<Rightarrow> 's \<Rightarrow> (string \<times> 's) res" where
  "parse_arg_id h s st =
     (case s of [] \<Rightarrow> Inl OutOfBounds
      | c # _ \<Rightarrow>
          if c \<noteq> CHR ''}'' \<and> c \<noteq> CHR '':'' then do_parse_arg_id h s st
          else bind_res (h Auto_id st) (\<lambda>st. Inr (s, st)))"

definition parse_width :: "'s spec_handler \<Rightarrow> string \<Rightarrow> 's \<Rightarrow> (string \<times> 's) res" where
  "parse_width h s st =
     (case s of [] \<Rightarrow> Inl OutOfBounds
      | c # s' \<Rightarrow>
          if is_dig c then
            let (width, rest) = parse_nonnegative_int s (-1) in
            if width \<noteq> -1 then bind_res (on_width h width st) (\<lambda>st. Inr (rest, st))
            else throw_format_error ''number is too big''
          else if c = CHR ''{'' then
            bind_res (if s' \<noteq> [] then parse_arg_id (on_dynamic_width h) s' st else Inr (s', st)) (\<lambda>(rest, st).
              if rest = [] \<or> hd rest \<noteq> CHR ''}'' then throw_format_error ''invalid format string''
              else Inr (tl rest, st))
          else Inr (s, st))"

text \<open>\<open>parse_precision\<close> is called at the dot; past the end the code reads a zero character.\<close>

definition parse_precision :: "'s spec_handler \<Rightarrow> string \<Rightarrow> 's \<Rightarrow> (string \<times> 's) res" where
  "parse_precision h s st =
     (let s = tl s; c = (if s \<noteq> [] then hd s else CHR 0x00) in
      if is_dig c then
        let (precision, rest) = parse_nonnegative_int s (-1) in
        if precision \<noteq> -1 then
          bind_res (on_precision h precision st) (\<lambda>st. bind_res (end_precision h st) (\<lambda>st. Inr (rest, st)))
        else throw_format_error ''number is too big''
      else if c = CHR ''{'' then
        let s = tl s in
        bind_res (if s \<noteq> [] then parse_arg_id (on_dynamic_precision h) s st else Inr (s, st)) (\<lambda>(rest, st).
          if rest = [] \<or> hd rest \<noteq> CHR ''}'' then throw_format_error ''invalid format string''
          else bind_res (end_precision h st) (\<lambda>st. Inr (tl rest, st)))
      else throw_format_error ''missing precision specifier'')"

definition parse_presentation_type :: "char \<Rightarrow> presentation_type" where
  "parse_presentation_type c =
     (case map_of
        [(CHR ''d'', Type_dec), (CHR ''o'', Type_oct), (CHR ''x'', Type_hex_lower), (CHR ''X'', Type_hex_upper),
         (CHR ''b'', Type_bin_lower), (CHR ''B'', Type_bin_upper), (CHR ''a'', Type_hexfloat_lower),
         (CHR ''A'', Type_hexfloat_upper), (CHR ''e'', Type_exp_lower), (CHR ''E'', Type_exp_upper),
         (CHR ''f'', Type_fixed_lower), (CHR ''F'', Type_fixed_upper), (CHR ''g'', Type_general_lower),
         (CHR ''G'', Type_general_upper), (CHR ''c'', Type_chr), (CHR ''s'', Type_string),
         (CHR ''p'', Type_pointer)] c of
        Some t \<Rightarrow> t | None \<Rightarrow> Type_none)"

text \<open>
  The parts of \<open>parse_format_specs\<close>.  Between them the code returns when it is at the end of the string;
  \<open>unless_end\<close> is that test, and past the end none of the remaining parts does anything.
\<close>

definition unless_end :: "(string \<Rightarrow> 's \<Rightarrow> (string \<times> 's) res) \<Rightarrow> string \<times> 's \<Rightarrow> (string \<times> 's) res" where
  "unless_end f p = (if fst p = [] then Inr p else f (fst p) (snd p))"

definition parse_sign :: "'s spec_handler \<Rightarrow> string \<Rightarrow> 's \<Rightarrow> (string \<times> 's) res" where
  "parse_sign h s st =
     (if hd s = CHR ''+'' then bind_res (on_sign h Sign_plus st) (\<lambda>st. Inr (tl s, st))
      else if hd s = CHR ''-'' then bind_res (on_sign h Sign_minus st) (\<lambda>st. Inr (tl s, st))
      else if hd s = CHR '' '' then bind_res (on_sign h Sign_space st) (\<lambda>st. Inr (tl s, st))
      else Inr (s, st))"

definition parse_hash :: "'s spec_handler \<Rightarrow> string \<Rightarrow> 's \<Rightarrow> (string \<times> 's) res" where
  "parse_hash h s st =
     (if hd s = CHR ''#'' then bind_res (on_hash h st) (\<lambda>st. Inr (tl s, st)) else Inr (s, st))"

definition parse_zero :: "'s spec_handler \<Rightarrow> string \<Rightarrow> 's \<Rightarrow> (string \<times> 's) res" where
  "parse_zero h s st =
     (if hd s = CHR ''0'' then bind_res (on_zero h st) (\<lambda>st. Inr (tl s, st)) else Inr (s, st))"

definition parse_dot :: "'s spec_handler \<Rightarrow> string \<Rightarrow> 's \<Rightarrow> (string \<times> 's) res" where
  "parse_dot h s st = (if hd s = CHR ''.'' then parse_precision h s st else Inr (s, st))"

definition parse_localized :: "'s spec_handler \<Rightarrow> string \<Rightarrow> 's \<Rightarrow> (string \<times> 's) res" where
  "parse_localized h s st =
     (if hd s = CHR ''L'' then bind_res (on_localized h st) (\<lambda>st. Inr (tl s, st)) else Inr (s, st))"

definition parse_type :: "'s spec_handler \<Rightarrow> string \<Rightarrow> 's \<Rightarrow> (string \<times> 's) res" where
  "parse_type h s st =
     (if hd s \<noteq> CHR ''}'' then
        let type = parse_presentation_type (hd s) in
        if type = Type_none then throw_format_error ''invalid type specifier''
        else bind_res (on_type h type st) (\<lambda>st. Inr (tl s, st))
      else Inr (s, st))"

definition parse_format_specs :: "'s spec_handler \<Rightarrow> string \<Rightarrow> 's \<Rightarrow> (string \<times> 's) res" where
  "parse_format_specs h s st =
     (if 1 < length s \<and> s ! 1 = CHR ''}'' \<and> is_ascii_letter (hd s) \<and> hd s \<noteq> CHR ''L'' then
        let type = parse_presentation_type (hd s) in
        if type = Type_none then throw_format_error ''invalid type specifier''
        else bind_res (on_type h type st) (\<lambda>st. Inr (tl s, st))
      else
        bind_res (unless_end (parse_align h) (s, st)) (\<lambda>p.
        bind_res (unless_end (parse_sign h) p) (\<lambda>p.
        bind_res (unless_end (parse_hash h) p) (\<lambda>p.
        bind_res (unless_end (parse_zero h) p) (\<lambda>p.
        bind_res (unless_end (parse_width h) p) (\<lambda>p.
        bind_res (unless_end (parse_dot h) p) (\<lambda>p.
        bind_res (unless_end (parse_localized h) p) (\<lambda>p.
        unless_end (parse_type h) p))))))))"

section \<open>Parsing a replacement field\<close>

text \<open>The string begins at the opening brace; the result is the string behind the field.\<close>

definition parse_replacement_field :: "'s fmt_handler \<Rightarrow> string \<Rightarrow> 's \<Rightarrow> (string \<times> 's) res" where
  "parse_replacement_field h s st =
     (let s = tl s in
      if s = [] then throw_format_error ''invalid format string''
      else if hd s = CHR ''}'' then
        bind_res (on_arg_id h Auto_id st) (\<lambda>(id, st).
        bind_res (on_replacement_field h id st) (\<lambda>st. Inr (tl s, st)))
      else if hd s = CHR ''{'' then
        bind_res (on_text h [hd s] st) (\<lambda>st. Inr (tl s, st))
      else
        bind_res (parse_arg_id (\<lambda>a (_, st). on_arg_id h a st) s (0, st)) (\<lambda>(rest, id, st).
          let c = (if rest \<noteq> [] then hd rest else CHR 0x00) in
          if c = CHR ''}'' then
            bind_res (on_replacement_field h id st) (\<lambda>st. Inr (tl rest, st))
          else if c = CHR '':'' then
            bind_res (on_format_specs h id (tl rest) st) (\<lambda>(rest, st).
              if rest = [] \<or> hd rest \<noteq> CHR ''}'' then throw_format_error ''unknown format specifier''
              else Inr (tl rest, st))
          else throw_format_error (''missing '' @ [CHR 0x27, CHR ''}'', CHR 0x27] @ '' in format string'')))"

section \<open>Parsing a format string\<close>

definition unmatched_brace :: "'a res" where
  "unmatched_brace = throw_format_error (''unmatched '' @ [CHR 0x27, CHR ''}'', CHR 0x27] @ '' in format string'')"

text \<open>The loop for strings of fewer than 32 characters; \<open>t\<close> is the text between \<open>begin\<close> and \<open>p\<close>.\<close>

partial_function (option) small_loop :: "'s fmt_handler \<Rightarrow> string \<Rightarrow> string \<Rightarrow> 's \<Rightarrow> 's res option" where
  "small_loop h t s st =
     (case s of [] \<Rightarrow> Some (on_text h t st)
      | c # p \<Rightarrow>
          if c = CHR ''{'' then
            (case bind_res (on_text h t st) (parse_replacement_field h s) of
               Inl e \<Rightarrow> Some (Inl e)
             | Inr q \<Rightarrow> small_loop h [] (fst q) (snd q))
          else if c = CHR ''}'' then
            (if p = [] \<or> hd p \<noteq> CHR ''}'' then Some unmatched_brace
             else case on_text h (t @ [c]) st of
                    Inl e \<Rightarrow> Some (Inl e)
                  | Inr st' \<Rightarrow> small_loop h [] (tl p) st')
          else small_loop h (t @ [c]) p st)"

lemma dropWhile_length_less: "dropWhile P s = c # p \<Longrightarrow> length p < length s"
  using length_dropWhile_le [of P s] by simp

text \<open>The local \<open>writer\<close>: text without an opening brace, closing braces doubled.\<close>

function writer_loop :: "'s fmt_handler \<Rightarrow> string \<Rightarrow> 's \<Rightarrow> 's res" where
  "writer_loop h s st =
     (case dropWhile (\<lambda>c. c \<noteq> CHR ''}'') s of
        [] \<Rightarrow> on_text h s st
      | c # p \<Rightarrow>
          if p = [] \<or> hd p \<noteq> CHR ''}'' then unmatched_brace
          else bind_res (on_text h (takeWhile (\<lambda>c. c \<noteq> CHR ''}'') s @ [c]) st) (writer_loop h (tl p)))"
  by pat_completeness auto

termination
  by (relation "measure (\<lambda>(h, s, st). length s)") (auto dest: dropWhile_length_less)

declare writer_loop.simps [simp del]

definition write_text :: "'s fmt_handler \<Rightarrow> string \<Rightarrow> 's \<Rightarrow> 's res" where
  "write_text h s st = (if s = [] then Inr st else writer_loop h s st)"

text \<open>The loop for longer strings: one pass for the next opening brace, a second one for the closing ones.\<close>

partial_function (option) large_loop :: "'s fmt_handler \<Rightarrow> string \<Rightarrow> 's \<Rightarrow> 's res option" where
  "large_loop h s st =
     (if s = [] then Some (Inr st)
      else
        let found = (if hd s \<noteq> CHR ''{'' then dropWhile (\<lambda>c. c \<noteq> CHR ''{'') (tl s) else s) in
        if found = [] then Some (write_text h s st)
        else
          let before = take (length s - length found) s in
          case bind_res (write_text h before st) (parse_replacement_field h found) of
            Inl e \<Rightarrow> Some (Inl e)
          | Inr q \<Rightarrow> large_loop h (fst q) (snd q))"

declare small_loop.simps [code] large_loop.simps [code]

definition parse_format_string :: "'s fmt_handler \<Rightarrow> string \<Rightarrow> 's \<Rightarrow> 's res option" where
  "parse_format_string h s st = (if length s < 32 then small_loop h [] s st else large_loop h s st)"

section \<open>Every parser only moves forward\<close>

named_theorems progress \<open>the string a parser returns is not longer than the one it was given\<close>

lemma pni_loop_rest: "pni_loop prev v lst n s = (a, b, c, d, rest) \<Longrightarrow> rest = dropWhile is_dig s"
  by (induction prev v lst n s rule: pni_loop.induct) (auto split: if_splits)

lemma parse_nonnegative_int_rest:
  assumes "parse_nonnegative_int s e = (v, rest)"
  shows "rest = dropWhile is_dig s"
proof -
  obtain a b c d r where l: "pni_loop 0 0 CHR 0x00 0 s = (a, b, c, d, r)" by (metis surj_pair)
  then show ?thesis using assms pni_loop_rest [OF l] by (simp add: parse_nonnegative_int_def)
qed

lemma parse_nonnegative_int_le [progress]:
  "parse_nonnegative_int s e = (v, rest) \<Longrightarrow> length rest \<le> length s"
  by (drule parse_nonnegative_int_rest) (simp add: length_dropWhile_le)

lemma parse_align_at_le:
  "parse_align_at h n s st = Inr (s', st') \<Longrightarrow> length s' \<le> length s"
proof (induction h n s st rule: parse_align_at.induct)
  case (1 h n s st)
  then show ?case
    by (subst (asm) parse_align_at.simps)
       (auto simp: Let_def bind_res_eq_Inr throw_format_error_def split: if_splits)
qed

lemma parse_align_le [progress]: "parse_align h s st = Inr (s', st') \<Longrightarrow> length s' \<le> length s"
  by (auto simp: parse_align_def Let_def split: list.splits dest: parse_align_at_le)

lemma do_parse_arg_id_le [progress]:
  "do_parse_arg_id h s st = Inr (s', st') \<Longrightarrow> length s' \<le> length s"
  by (auto simp: do_parse_arg_id_def Let_def bind_res_eq_Inr throw_format_error_def length_dropWhile_le le_SucI
      split: list.splits if_splits prod.splits dest: parse_nonnegative_int_le)

lemma parse_arg_id_le [progress]: "parse_arg_id h s st = Inr (s', st') \<Longrightarrow> length s' \<le> length s"
  by (auto simp: parse_arg_id_def bind_res_eq_Inr split: list.splits if_splits dest: do_parse_arg_id_le)

lemma parse_width_le [progress]: "parse_width h s st = Inr (s', st') \<Longrightarrow> length s' \<le> length s"
  by (auto simp: parse_width_def Let_def bind_res_eq_Inr throw_format_error_def
      split: list.splits if_splits prod.splits dest!: parse_nonnegative_int_le parse_arg_id_le)

lemma parse_precision_le [progress]:
  "parse_precision h s st = Inr (s', st') \<Longrightarrow> length s' \<le> length s"
  by (cases s)
     (auto simp: parse_precision_def Let_def bind_res_eq_Inr throw_format_error_def
      split: if_splits prod.splits dest!: parse_nonnegative_int_le parse_arg_id_le)

lemma parse_flags_le [progress]:
  "parse_sign h s st = Inr (s', st') \<Longrightarrow> length s' \<le> length s"
  "parse_hash h s st = Inr (s', st') \<Longrightarrow> length s' \<le> length s"
  "parse_zero h s st = Inr (s', st') \<Longrightarrow> length s' \<le> length s"
  "parse_localized h s st = Inr (s', st') \<Longrightarrow> length s' \<le> length s"
  "parse_type h s st = Inr (s', st') \<Longrightarrow> length s' \<le> length s"
  "parse_dot h s st = Inr (s', st') \<Longrightarrow> length s' \<le> length s"
  by (auto simp: parse_sign_def parse_hash_def parse_zero_def parse_localized_def parse_type_def parse_dot_def
      Let_def bind_res_eq_Inr throw_format_error_def split: if_splits dest: parse_precision_le)

lemma unless_end_le:
  "unless_end f p = Inr q \<Longrightarrow> (\<And>s st s' st'. f s st = Inr (s', st') \<Longrightarrow> length s' \<le> length s)
   \<Longrightarrow> length (fst q) \<le> length (fst p)"
  by (cases p; cases q) (auto simp: unless_end_def split: if_splits)

lemma parse_format_specs_le [progress]:
  assumes "parse_format_specs h s st = Inr (s', st')"
  shows "length s' \<le> length s"
proof (cases "1 < length s \<and> s ! 1 = CHR ''}'' \<and> is_ascii_letter (hd s) \<and> hd s \<noteq> CHR ''L''")
  case True
  then show ?thesis using assms
    by (auto simp: parse_format_specs_def Let_def bind_res_eq_Inr throw_format_error_def split: if_splits)
next
  case False
  then obtain p1 p2 p3 p4 p5 p6 p7 where
    p: "unless_end (parse_align h) (s, st) = Inr p1" "unless_end (parse_sign h) p1 = Inr p2"
       "unless_end (parse_hash h) p2 = Inr p3" "unless_end (parse_zero h) p3 = Inr p4"
       "unless_end (parse_width h) p4 = Inr p5" "unless_end (parse_dot h) p5 = Inr p6"
       "unless_end (parse_localized h) p6 = Inr p7" "unless_end (parse_type h) p7 = Inr (s', st')"
    using assms unfolding parse_format_specs_def if_not_P [OF False] bind_res_eq_Inr by blast
  have "length (fst p1) \<le> length (fst (s, st))"
    by (rule unless_end_le [OF p(1)]) (rule parse_align_le)
  moreover have "length (fst p2) \<le> length (fst p1)"
    by (rule unless_end_le [OF p(2)]) (rule parse_flags_le(1))
  moreover have "length (fst p3) \<le> length (fst p2)"
    by (rule unless_end_le [OF p(3)]) (rule parse_flags_le(2))
  moreover have "length (fst p4) \<le> length (fst p3)"
    by (rule unless_end_le [OF p(4)]) (rule parse_flags_le(3))
  moreover have "length (fst p5) \<le> length (fst p4)"
    by (rule unless_end_le [OF p(5)]) (rule parse_width_le)
  moreover have "length (fst p6) \<le> length (fst p5)"
    by (rule unless_end_le [OF p(6)]) (rule parse_flags_le(6))
  moreover have "length (fst p7) \<le> length (fst p6)"
    by (rule unless_end_le [OF p(7)]) (rule parse_flags_le(4))
  moreover have "length (fst (s', st')) \<le> length (fst p7)"
    by (rule unless_end_le [OF p(8)]) (rule parse_flags_le(5))
  ultimately show ?thesis by simp
qed

text \<open>
  What the scanning loops need of a handler: \<open>on_format_specs\<close> does not move back, and writing no text
  does nothing.
\<close>

locale scan_handler =
  fixes h :: "'s fmt_handler"
  assumes specs_forward: "on_format_specs h i s st = Inr (s', st') \<Longrightarrow> length s' \<le> length s"
    and no_text: "on_text h [] st = Inr st"
begin

lemma field_forward:
  assumes "parse_replacement_field h s st = Inr (s', st')" "s \<noteq> []"
  shows "length s' < length s"
proof -
  have tl: "tl s \<noteq> []" using assms by (auto simp: parse_replacement_field_def throw_format_error_def)
  show ?thesis
  proof (cases "hd (tl s) = CHR ''}'' \<or> hd (tl s) = CHR ''{''")
    case True
    then have "s' = tl (tl s)" using assms tl
      by (auto simp: parse_replacement_field_def Let_def bind_res_eq_Inr split: if_splits)
    then show ?thesis using tl by (cases s; cases "tl s") auto
  next
    case False
    then obtain rest id st1 where
      r: "parse_arg_id (\<lambda>a (_, st). on_arg_id h a st) (tl s) (0, st) = Inr (rest, id, st1)" "rest \<noteq> []"
        "s' = tl rest \<or> (\<exists>r. on_format_specs h id (tl rest) st1 = Inr (r, st') \<and> s' = tl r)"
      using assms tl
      by (auto simp: parse_replacement_field_def Let_def bind_res_eq_Inr throw_format_error_def split: if_splits)
    have "length rest \<le> length (tl s)" using parse_arg_id_le [OF r(1)] .
    moreover have "length s' < length rest" using r(2,3) by (cases rest) (auto dest: specs_forward)
    ultimately show ?thesis using assms(2) by (cases s) auto
  qed
qed

lemma small_loop_ends: "\<exists>r. small_loop h t s st = Some r"
proof (induction "length s" arbitrary: t s st rule: less_induct)
  case less
  show ?case
  proof (cases s)
    case Nil
    then show ?thesis by (subst small_loop.simps) simp
  next
    case (Cons c p)
    have ih: "length s' < length s \<Longrightarrow> \<exists>r. small_loop h t' s' st' = Some r" for t' s' st' by (rule less)
    consider "c = CHR ''{''" | "c = CHR ''}''" | "c \<noteq> CHR ''{''" "c \<noteq> CHR ''}''" by blast
    then show ?thesis
    proof cases
      case 1
      have "\<exists>r. small_loop h [] (fst q) (snd q) = Some r"
        if "bind_res (on_text h t st) (parse_replacement_field h s) = Inr q" for q
        using that Cons by (cases q) (auto simp: bind_res_eq_Inr dest!: field_forward intro!: ih)
      then show ?thesis using 1 Cons by (subst small_loop.simps) (auto split: sum.split)
    next
      case 2
      have "\<exists>r. small_loop h [] (tl p) st' = Some r" for st' using Cons by (intro ih) simp
      then show ?thesis using 2 Cons by (subst small_loop.simps) (auto split: sum.split)
    next
      case 3
      have "\<exists>r. small_loop h (t @ [c]) p st = Some r" using Cons by (intro ih) simp
      then show ?thesis using 3 Cons by (subst small_loop.simps) simp
    qed
  qed
qed

lemma large_loop_ends: "\<exists>r. large_loop h s st = Some r"
proof (induction "length s" arbitrary: s st rule: less_induct)
  case less
  show ?case
  proof (cases "s = []")
    case True
    then show ?thesis by (subst large_loop.simps) simp
  next
    case False
    define found where "found = (if hd s \<noteq> CHR ''{'' then dropWhile (\<lambda>c. c \<noteq> CHR ''{'') (tl s) else s)"
    have le: "length found \<le> length s"
      using length_dropWhile_le [of "\<lambda>c. c \<noteq> CHR ''{''" "tl s"] by (auto simp: found_def)
    have "\<exists>r. large_loop h s' st' = Some r" if "parse_replacement_field h found st1 = Inr (s', st')" "found \<noteq> []"
      for s' st' st1
      using field_forward [OF that] le by (auto intro!: less)
    then show ?thesis
      using False
      by (subst large_loop.simps) (auto simp: Let_def found_def [symmetric] bind_res_eq_Inr split: sum.splits)
  qed
qed

lemma parse_format_string_ends: "\<exists>r. parse_format_string h s st = Some r"
  using small_loop_ends large_loop_ends by (simp add: parse_format_string_def)

end

section \<open>The two scanning loops agree\<close>

text \<open>What \<open>small_loop\<close> does once it has reached the end or an opening brace, \<open>m\<close> being the text written.\<close>

definition after_text :: "'s fmt_handler \<Rightarrow> string \<Rightarrow> 's res \<Rightarrow> 's res option" where
  "after_text h rest m =
     (if rest = [] then Some m
      else case bind_res m (parse_replacement_field h rest) of
             Inl e \<Rightarrow> Some (Inl e)
           | Inr q \<Rightarrow> small_loop h [] (fst q) (snd q))"

lemma after_text_Inl [simp]: "after_text h rest (Inl e) = Some (Inl e)"
  by (simp add: after_text_def)

lemma writer_loop_plain: "CHR ''}'' \<notin> set t \<Longrightarrow> writer_loop h t st = on_text h t st"
proof -
  assume "CHR ''}'' \<notin> set t"
  then have "dropWhile (\<lambda>c. c \<noteq> CHR ''}'') t = []" by (auto simp: dropWhile_eq_Nil_conv)
  then show ?thesis by (subst writer_loop.simps) (simp del: dropWhile_eq_Nil_conv)
qed

lemma writer_loop_brace:
  assumes "CHR ''}'' \<notin> set t"
  shows "writer_loop h (t @ CHR ''}'' # p) st =
    (if p = [] \<or> hd p \<noteq> CHR ''}'' then unmatched_brace
     else bind_res (on_text h (t @ [CHR ''}'']) st) (writer_loop h (tl p)))"
proof -
  have ne: "\<forall>c\<in>set t. c \<noteq> CHR ''}''" using assms by auto
  have "dropWhile (\<lambda>c. c \<noteq> CHR ''}'') (t @ CHR ''}'' # p) = CHR ''}'' # p"
    and "takeWhile (\<lambda>c. c \<noteq> CHR ''}'') (t @ CHR ''}'' # p) = t"
    using ne by (simp_all add: dropWhile_append2 takeWhile_append2)
  then show ?thesis by (subst writer_loop.simps) simp
qed

lemma small_loop_text:
  assumes "CHR ''{'' \<notin> set u" "CHR ''}'' \<notin> set t" "rest = [] \<or> hd rest = CHR ''{''"
  shows "small_loop h t (u @ rest) st = after_text h rest (writer_loop h (t @ u) st)"
  using assms
proof (induction "length u" arbitrary: t u st rule: less_induct)
  case less
  show ?case
  proof (cases u)
    case Nil
    then have "writer_loop h (t @ u) st = on_text h t st" using less.prems(2) by (simp add: writer_loop_plain)
    then show ?thesis using Nil less.prems(3)
      by (subst small_loop.simps) (cases rest; simp add: after_text_def)
  next
    case (Cons c v)
    show ?thesis
    proof (cases "c = CHR ''}''")
      case False
      then have "small_loop h (t @ [c]) (v @ rest) st = after_text h rest (writer_loop h ((t @ [c]) @ v) st)"
        using less.prems Cons by (intro less.hyps) auto
      moreover have "small_loop h t (u @ rest) st = small_loop h (t @ [c]) (v @ rest) st"
        using False less.prems(1) Cons by (subst small_loop.simps) auto
      ultimately show ?thesis using Cons by simp
    next
      case True
      show ?thesis
      proof (cases "v = [] \<or> hd v \<noteq> CHR ''}''")
        case T: True
        then have "v @ rest = [] \<or> hd (v @ rest) \<noteq> CHR ''}''" using less.prems(3) by (cases v) auto
        then have "small_loop h t (u @ rest) st = Some unmatched_brace"
          using Cons True by (subst small_loop.simps) simp
        then show ?thesis using T Cons True less.prems(2)
          by (simp add: writer_loop_brace unmatched_brace_def throw_format_error_def)
      next
        case F: False
        then obtain w where v: "v = CHR ''}'' # w" by (cases v) auto
        have ih: "small_loop h [] (w @ rest) st' = after_text h rest (writer_loop h w st')" for st'
          using less.hyps [of w "[]" st'] less.prems Cons v by simp
        have "small_loop h t (u @ rest) st =
              (case on_text h (t @ [c]) st of Inl e \<Rightarrow> Some (Inl e) | Inr st' \<Rightarrow> small_loop h [] (w @ rest) st')"
          using Cons True v by (subst small_loop.simps) (simp cong: sum.case_cong)
        then show ?thesis using Cons True v ih less.prems(2)
          by (cases "on_text h (t @ [c]) st") (simp_all add: writer_loop_brace)
      qed
    qed
  qed
qed

lemma take_before: "take (length s - length (dropWhile P s)) s = takeWhile P s"
  by (metis append_eq_conv_conj length_takeWhile_le takeWhile_dropWhile_id length_append add_diff_cancel_right')

context scan_handler
begin

lemma write_text_loop: "write_text h s st = writer_loop h s st"
  using writer_loop_plain [of "[]" h st] by (simp add: write_text_def no_text)

lemma large_loop_text:
  assumes "s \<noteq> []" "found = dropWhile (\<lambda>c. c \<noteq> CHR ''{'') s"
  shows "large_loop h s st =
    (if found = [] then Some (write_text h s st)
     else case bind_res (write_text h (takeWhile (\<lambda>c. c \<noteq> CHR ''{'') s) st) (parse_replacement_field h found) of
            Inl e \<Rightarrow> Some (Inl e)
          | Inr q \<Rightarrow> large_loop h (fst q) (snd q))"
proof -
  have "found = (if hd s \<noteq> CHR ''{'' then dropWhile (\<lambda>c. c \<noteq> CHR ''{'') (tl s) else s)"
    using assms by (cases s) auto
  moreover have "take (length s - length found) s = takeWhile (\<lambda>c. c \<noteq> CHR ''{'') s"
    unfolding assms(2) by (rule take_before)
  ultimately show ?thesis using assms(1) by (subst large_loop.simps) (simp add: Let_def)
qed

lemma loops_agree: "small_loop h [] s st = large_loop h s st"
proof (induction "length s" arbitrary: s st rule: less_induct)
  case less
  let ?u = "takeWhile (\<lambda>c. c \<noteq> CHR ''{'') s" and ?r = "dropWhile (\<lambda>c. c \<noteq> CHR ''{'') s"
  have split: "small_loop h [] s st = after_text h ?r (writer_loop h ?u st)"
  proof -
    have "?r = [] \<or> hd ?r = CHR ''{''" using hd_dropWhile [of "\<lambda>c. c \<noteq> CHR ''{''" s] by auto
    moreover have "CHR ''{'' \<notin> set ?u" using set_takeWhileD by fastforce
    ultimately show ?thesis using small_loop_text [of ?u "[]" ?r h st] by simp
  qed
  show ?case
  proof (cases "s = []")
    case True
    then show ?thesis using split writer_loop_plain [of "[]" h st]
      by (subst large_loop.simps) (simp add: after_text_def no_text)
  next
    case False
    show ?thesis
    proof (cases "?r = []")
      case True
      then have "?u = s" by (metis append_Nil2 takeWhile_dropWhile_id)
      then show ?thesis using split True large_loop_text [OF False refl] \<open>?r = []\<close>
        by (simp only: after_text_def write_text_loop if_True refl)
    next
      case r: False
      have "small_loop h [] (fst q) (snd q) = large_loop h (fst q) (snd q)"
        if q: "bind_res (writer_loop h ?u st) (parse_replacement_field h ?r) = Inr q" for q
      proof -
        obtain st1 where "parse_replacement_field h ?r st1 = Inr (fst q, snd q)"
          using q by (auto simp: bind_res_eq_Inr)
        then have "length (fst q) < length ?r" using field_forward r by blast
        then show ?thesis using length_dropWhile_le [of "\<lambda>c. c \<noteq> CHR ''{''" s] by (intro less) linarith
      qed
      then show ?thesis using split r large_loop_text [OF False refl]
        by (auto simp: after_text_def write_text_loop split: sum.split)
    qed
  qed
qed

lemma parse_format_string_small: "parse_format_string h s st = small_loop h [] s st"
  by (simp add: parse_format_string_def loops_agree)

end

section \<open>Numbers are read back\<close>

definition num_of :: "nat \<Rightarrow> string \<Rightarrow> nat" where
  "num_of v ds = foldl (\<lambda>v c. v * 10 + dig_val c) v ds"

lemma num_of_simps [simp]:
  "num_of v [] = v"
  "num_of v (c # ds) = num_of (v * 10 + dig_val c) ds"
  "num_of v (ds @ es) = num_of (num_of v ds) es"
  by (simp_all add: num_of_def)

lemma dig_val_less: "is_dig c \<Longrightarrow> dig_val c < 10"
  unfolding is_dig_def dig_val_def by linarith

lemma num_of_less: "\<forall>c\<in>set ds. is_dig c \<Longrightarrow> num_of v ds < (v + 1) * 10 ^ length ds"
proof (induction ds arbitrary: v)
  case (Cons c ds)
  then have "num_of v (c # ds) < (v * 10 + dig_val c + 1) * 10 ^ length ds" by simp
  also have "\<dots> \<le> ((v + 1) * 10) * 10 ^ length ds"
    using dig_val_less [of c] Cons.prems by (intro mult_right_mono) auto
  finally show ?case by (simp add: algebra_simps)
qed simp

text \<open>The words of the loop are the numbers modulo \<open>2 ^ 32\<close>.\<close>

lemma pni_loop_digits:
  assumes "\<forall>c\<in>set ds. is_dig c" "rest = [] \<or> \<not> is_dig (hd rest)" "ds \<noteq> []"
  shows "pni_loop p (of_nat v) l n (ds @ rest) =
    (of_nat (num_of v (butlast ds)), of_nat (num_of v ds), last ds, n + length ds, rest)"
  using assms(1,3)
proof (induction ds arbitrary: p v l n)
  case (Cons c ds)
  show ?case
  proof (cases "ds = []")
    case True
    then show ?thesis using Cons.prems assms(2) by (cases rest) (simp_all add: ac_simps)
  next
    case False
    have "pni_loop p (of_nat v) l n ((c # ds) @ rest) = pni_loop (of_nat v) (of_nat (v * 10 + dig_val c)) c (n + 1) (ds @ rest)"
      using Cons.prems by simp
    then show ?thesis using Cons.IH [of "of_nat v" "v * 10 + dig_val c" c "n + 1"] Cons.prems False by simp
  qed
qed simp

lemma sint_of_nat_u32: "int n \<le> int_max \<Longrightarrow> sint (of_nat n :: u32) = int n"
  by (simp add: int_max_def signed_of_nat signed_take_bit_int_eq_self)

lemma parse_nonnegative_int_digits:
  assumes "\<forall>c\<in>set ds. is_dig c" "rest = [] \<or> \<not> is_dig (hd rest)" "ds \<noteq> []"
  shows "parse_nonnegative_int (ds @ rest) e =
    (if length ds \<le> 10 \<and> int (num_of 0 ds) \<le> int_max then int (num_of 0 ds) else e, rest)"
proof -
  have l: "pni_loop 0 0 CHR 0x00 0 (ds @ rest) =
      (of_nat (num_of 0 (butlast ds)), of_nat (num_of 0 ds), last ds, length ds, rest)"
    using pni_loop_digits [OF assms, of 0 0 "CHR 0x00" 0] by simp
  have b: "num_of 0 ds < 10 ^ length ds" using num_of_less [OF assms(1), of 0] by simp
  consider "length ds \<le> 9" | "length ds = 10" | "10 < length ds" by linarith
  then show ?thesis
  proof cases
    case 1
    then have "(10 :: nat) ^ length ds \<le> 10 ^ 9" by (intro power_increasing) auto
    then have "int (num_of 0 ds) \<le> int_max" using b by (simp add: int_max_def)
    then show ?thesis using 1 l by (simp add: parse_nonnegative_int_def sint_of_nat_u32)
  next
    case 2
    have "num_of 0 (butlast ds) < 10 ^ length (butlast ds)"
      using num_of_less [of "butlast ds" 0] assms(1) by (auto dest: in_set_butlastD)
    then have "unat (of_nat (num_of 0 (butlast ds)) :: u32) = num_of 0 (butlast ds)"
      using 2 by (intro unat_u32) simp
    moreover have "num_of 0 ds = num_of 0 (butlast ds) * 10 + dig_val (last ds)"
      using assms(3) by (metis append_butlast_last_id num_of_simps)
    ultimately show ?thesis using 2 l sint_of_nat_u32 [of "num_of 0 ds"]
      by (simp add: parse_nonnegative_int_def del: of_nat_add of_nat_mult)
  next
    case 3
    then show ?thesis using l by (simp add: parse_nonnegative_int_def)
  qed
qed

lemma is_dig_digit: "d < 10 \<Longrightarrow> is_dig (digit d)" and dig_val_digit: "d < 10 \<Longrightarrow> dig_val (digit d) = d"
  by (simp_all add: is_dig_def dig_val_def digit_def)

lemma dec_digits: "\<forall>c\<in>set (dec n). is_dig c"
  by (induction n rule: dec.induct) (subst dec.simps, auto simp: is_dig_digit)

lemma num_of_dec: "num_of 0 (dec n) = n"
  by (induction n rule: dec.induct) (subst dec.simps, auto simp: dig_val_digit)

lemma parse_nonnegative_int_dec:
  assumes "rest = [] \<or> \<not> is_dig (hd rest)"
  shows "parse_nonnegative_int (dec n @ rest) e = (if int n \<le> int_max then int n else e, rest)"
proof -
  have "length (dec n) \<le> 10" if "int n \<le> int_max"
  proof (rule ccontr)
    assume "\<not> length (dec n) \<le> 10"
    then have "(10 :: nat) ^ 10 \<le> 10 ^ (length (dec n) - 1)" by (intro power_increasing) auto
    then show False using length_dec_bounds [of n] that by (auto simp: int_max_def dec_small)
  qed
  then show ?thesis using parse_nonnegative_int_digits [OF dec_digits assms] by (auto simp: num_of_dec)
qed

section \<open>Parsing comes back when the handler does\<close>

definition returns :: "'a res \<Rightarrow> bool" where
  "returns m \<longleftrightarrow> m \<noteq> Inl NotReturned"

named_theorems returning \<open>operations that come back\<close>

lemma returns_basic [simp, returning]:
  "returns (Inr x)" "returns (throw_format_error msg)" "returns (Inl OutOfBounds)" "returns (Inl (Exn e))"
  by (simp_all add: returns_def throw_format_error_def)

lemma returns_bind [returning]:
  "returns m \<Longrightarrow> (\<And>x. m = Inr x \<Longrightarrow> returns (f x)) \<Longrightarrow> returns (bind_res m f)"
  by (cases m) (auto simp: returns_def)

lemma returns_then [returning]: "returns m \<Longrightarrow> returns (bind_res m (\<lambda>x. Inr (f x)))"
  by (rule returns_bind) auto

definition spec_returns :: "'s spec_handler \<Rightarrow> bool" where
  "spec_returns h \<longleftrightarrow>
     (\<forall>st. (\<forall>a. returns (on_align h a st)) \<and> (\<forall>s. returns (on_fill h s st)) \<and> (\<forall>s. returns (on_sign h s st)) \<and>
        returns (on_hash h st) \<and> returns (on_zero h st) \<and> (\<forall>w. returns (on_width h w st)) \<and>
        (\<forall>a. returns (on_dynamic_width h a st)) \<and> (\<forall>p. returns (on_precision h p st)) \<and>
        (\<forall>a. returns (on_dynamic_precision h a st)) \<and> returns (end_precision h st) \<and>
        returns (on_localized h st) \<and> (\<forall>t. returns (on_type h t st)))"

lemma parse_align_at_returns: "spec_returns h \<Longrightarrow> returns (parse_align_at h n s st)"
proof (induction h n s st rule: parse_align_at.induct)
  case (1 h n s st)
  then show ?case
    by (subst parse_align_at.simps) (auto simp: Let_def spec_returns_def intro!: returns_bind)
qed

lemma parse_arg_id_returns:
  assumes "\<And>a st. returns (f a st)"
  shows "returns (parse_arg_id f s st)"
proof (cases s)
  case (Cons c s')
  obtain i rest where i: "parse_nonnegative_int s int_max = (i, rest)" by fastforce
  have t: "returns (bind_res (f a st) (\<lambda>st. Inr (r, st)))" for a st and r :: string by (rule returns_then [OF assms])
  have "returns (do_parse_arg_id f s st)"
  proof (cases "is_dig c \<and> c \<noteq> CHR ''0''")
    case True
    then show ?thesis using i t Cons by (simp add: do_parse_arg_id_def)
  next
    case False
    then show ?thesis using t Cons by (auto simp: do_parse_arg_id_def Let_def)
  qed
  then show ?thesis using t Cons by (simp add: parse_arg_id_def)
qed (simp add: parse_arg_id_def)

lemma parse_align_returns: "spec_returns h \<Longrightarrow> returns (parse_align h s st)"
  by (simp add: parse_align_def Let_def parse_align_at_returns split: list.split)

lemma parse_flags_return:
  assumes "spec_returns h"
  shows "returns (parse_sign h s st)" "returns (parse_hash h s st)" "returns (parse_zero h s st)"
    "returns (parse_localized h s st)" "returns (parse_type h s st)"
  using assms unfolding spec_returns_def
  by (simp_all add: parse_sign_def parse_hash_def parse_zero_def parse_localized_def parse_type_def Let_def returns_then)

lemma parse_width_returns:
  assumes "spec_returns h"
  shows "returns (parse_width h s st)"
proof (cases s)
  case (Cons c s')
  obtain w rest where w: "parse_nonnegative_int s (-1) = (w, rest)" by fastforce
  have "returns (bind_res (if s' \<noteq> [] then parse_arg_id (on_dynamic_width h) s' st else Inr (s', st)) (\<lambda>(rest, st).
       if rest = [] \<or> hd rest \<noteq> CHR ''}'' then throw_format_error ''invalid format string'' else Inr (tl rest, st)))"
    using assms by (intro returns_bind) (auto simp: spec_returns_def intro: parse_arg_id_returns)
  then show ?thesis using assms w Cons
    by (simp add: parse_width_def spec_returns_def returns_then Let_def)
qed (simp add: parse_width_def)

lemma parse_dot_returns:
  assumes "spec_returns h"
  shows "returns (parse_dot h s st)"
proof -
  let ?s = "tl s"
  obtain w rest where w: "parse_nonnegative_int ?s (-1) = (w, rest)" by fastforce
  have e: "returns (bind_res (end_precision h st) (\<lambda>st. Inr (r, st)))" for r :: string and st
    using assms by (simp add: returns_then spec_returns_def)
  have "returns (bind_res (if tl ?s \<noteq> [] then parse_arg_id (on_dynamic_precision h) (tl ?s) st else Inr (tl ?s, st))
       (\<lambda>(rest, st). if rest = [] \<or> hd rest \<noteq> CHR ''}'' then throw_format_error ''invalid format string''
        else bind_res (end_precision h st) (\<lambda>st. Inr (tl rest, st))))"
    using assms e by (intro returns_bind) (auto simp: spec_returns_def intro: parse_arg_id_returns)
  then show ?thesis using assms w e
    by (simp add: parse_dot_def parse_precision_def spec_returns_def returns_bind Let_def)
qed

lemma unless_end_returns: "(\<And>s st. returns (f s st)) \<Longrightarrow> returns (unless_end f p)"
  by (simp add: unless_end_def)

lemma parse_format_specs_returns:
  assumes "spec_returns h"
  shows "returns (parse_format_specs h s st)"
proof (cases "1 < length s \<and> s ! 1 = CHR ''}'' \<and> is_ascii_letter (hd s) \<and> hd s \<noteq> CHR ''L''")
  case True
  then show ?thesis using assms
    by (simp add: parse_format_specs_def Let_def returns_then spec_returns_def)
next
  case False
  show ?thesis
    unfolding parse_format_specs_def if_not_P [OF False]
    by (intro returns_bind unless_end_returns parse_align_returns [OF assms] parse_flags_return [OF assms] parse_width_returns [OF assms]
        parse_dot_returns [OF assms])
qed

locale returning_handler = scan_handler +
  assumes text_returns: "returns (on_text h s st)"
    and arg_id_returns: "returns (on_arg_id h a st)"
    and field_returns: "returns (on_replacement_field h i st)"
    and specs_returns: "returns (on_format_specs h i s st)"
begin

lemma parse_replacement_field_returns: "returns (parse_replacement_field h s st)"
  unfolding parse_replacement_field_def Let_def
  by (auto intro!: returns_bind parse_arg_id_returns text_returns arg_id_returns field_returns specs_returns)

lemma small_loop_returns: "small_loop h t s st = Some r \<Longrightarrow> returns r"
proof (induction "length s" arbitrary: t s st rule: less_induct)
  case less
  show ?case
  proof (cases s)
    case Nil
    then show ?thesis using less.prems text_returns by (subst (asm) small_loop.simps) auto
  next
    case (Cons c p)
    consider "c = CHR ''{''" | "c = CHR ''}''" | "c \<noteq> CHR ''{''" "c \<noteq> CHR ''}''" by blast
    then show ?thesis
    proof cases
      case 1
      have m: "returns (bind_res (on_text h t st) (parse_replacement_field h s))"
        by (intro returns_bind text_returns parse_replacement_field_returns)
      show ?thesis
      proof (cases "bind_res (on_text h t st) (parse_replacement_field h s)")
        case (Inl e)
        then have "r = Inl e" using less.prems 1 Cons by (subst (asm) small_loop.simps) simp
        then show ?thesis using m Inl by (simp add: returns_def)
      next
        case (Inr q)
        then obtain st1 where "parse_replacement_field h s st1 = Inr (fst q, snd q)" by (auto simp: bind_res_eq_Inr)
        then have "length (fst q) < length s" using field_forward [of s st1 "fst q" "snd q"] Cons by simp
        moreover have "small_loop h [] (fst q) (snd q) = Some r"
          using less.prems 1 Cons Inr by (subst (asm) small_loop.simps) simp
        ultimately show ?thesis by (rule less.hyps)
      qed
    next
      case 2
      have t: "returns (on_text h (t @ [c]) st)" by (rule text_returns)
      have u: "returns (unmatched_brace :: 's res)" by (simp add: unmatched_brace_def)
      show ?thesis
      proof (cases "p = [] \<or> hd p \<noteq> CHR ''}''")
        case True
        then have "r = unmatched_brace" using less.prems 2 Cons by (subst (asm) small_loop.simps) simp
        then show ?thesis using u by simp
      next
        case False
        show ?thesis
        proof (cases "on_text h (t @ [c]) st")
          case (Inl e)
          then have "r = Inl e" using less.prems 2 Cons False by (subst (asm) small_loop.simps) simp
          then show ?thesis using t Inl by (simp add: returns_def)
        next
          case (Inr st')
          then have "small_loop h [] (tl p) st' = Some r"
            using less.prems 2 Cons False by (subst (asm) small_loop.simps) simp
          moreover have "length (tl p) < length s" using Cons by simp
          ultimately show ?thesis using less.hyps by blast
        qed
      qed
    next
      case 3
      then have "small_loop h (t @ [c]) p st = Some r" using less.prems Cons by (subst (asm) small_loop.simps) simp
      then show ?thesis using less.hyps [of p] Cons by simp
    qed
  qed
qed

lemma parse_format_string_returns: "\<exists>r. parse_format_string h s st = Some r \<and> returns r"
  using parse_format_string_ends [of s st] small_loop_returns parse_format_string_small by metis

end

end
