(* ===== verification/FmtUtf8.thy ===== *)
theory FmtUtf8
  imports FmtParse
begin

text \<open>
  UTF-8 in \<open>fmt/bundled/format.h\<close>: the branch-free decoder, the loop over the code points of a text and
  the display width that padding counts.  A byte of the text is a character, its value a natural
  below 256; the decoder's words stay below \<open>2 ^ 24\<close>, so they are naturals.  The lemmas compare the decoder with the
  encoding of code points.
\<close>

section \<open>UTF-8\<close>

definition byte_at :: "string \<Rightarrow> nat \<Rightarrow> nat" where
  "byte_at s i = of_char (s ! i)"

definition masks :: "nat list" where "masks = [0x00, 0x7f, 0x1f, 0x0f, 0x07]"
definition mins :: "nat list" where "mins = [4194304, 0, 128, 2048, 65536]"
definition shiftc :: "nat list" where "shiftc = [0, 18, 12, 6, 0]"
definition shifte :: "nat list" where "shifte = [0, 6, 4, 2, 0]"

definition of_bool_nat :: "bool \<Rightarrow> nat" where "of_bool_nat b = (if b then 1 else 0)"

text \<open>
  \<open>utf8_decode\<close> reads four bytes whatever the length; the result is the code point, the error bits and
  the number of bytes to skip.
\<close>

definition utf8_decode :: "string \<Rightarrow> nat \<times> nat \<times> nat" where
  "utf8_decode s =
     (let len = code_point_length (hd s);
          c = push_bit 18 (byte_at s 0 AND masks ! len);
          c = c OR push_bit 12 (byte_at s 1 AND 0x3f);
          c = c OR push_bit 6 (byte_at s 2 AND 0x3f);
          c = c OR (byte_at s 3 AND 0x3f);
          c = drop_bit (shiftc ! len) c;
          e = push_bit 6 (of_bool_nat (c < mins ! len));
          e = e OR push_bit 7 (of_bool_nat (drop_bit 11 c = 0x1b));
          e = e OR push_bit 8 (of_bool_nat (c > 0x10FFFF));
          e = e OR drop_bit 2 (byte_at s 1 AND 0xc0);
          e = e OR drop_bit 4 (byte_at s 2 AND 0xc0);
          e = e OR drop_bit 6 (byte_at s 3);
          e = e XOR 0x2a;
          e = drop_bit (shifte ! len) e
      in (c, e, len))"

definition invalid_code_point :: nat where "invalid_code_point = 2 ^ 32 - 1"

text \<open>The local \<open>decode\<close> of \<open>for_each_codepoint\<close>: the code point passed on and the bytes skipped.\<close>

definition decode_cp :: "string \<Rightarrow> nat \<times> nat" where
  "decode_cp s = (let (c, e, len) = utf8_decode s in (if e \<noteq> 0 then invalid_code_point else c, len))"

text \<open>
  \<open>for_each_codepoint\<close> for a visitor that always continues: blocks of four bytes in the text itself, then
  the rest in a buffer of seven bytes that ends in zeros.
\<close>

lemma code_point_length_pos: "0 < code_point_length c"
  by (simp add: code_point_length_def Let_def)

function block_loop :: "string \<Rightarrow> nat list \<times> string" where
  "block_loop p =
     (if length p < 4 then ([], p)
      else let (cp, len) = decode_cp p; (cps, rest) = block_loop (drop len p) in (cp # cps, rest))"
  by pat_completeness auto

termination
  by (relation "measure length")
     (auto simp: decode_cp_def utf8_decode_def Let_def code_point_length_pos intro!: diff_less)

declare block_loop.simps [simp del]

function tail_loop :: "string \<Rightarrow> nat \<Rightarrow> nat \<Rightarrow> nat list" where
  "tail_loop buf i num_left =
     (let (cp, len) = decode_cp (drop i buf) in
      cp # (if i + len < num_left then tail_loop buf (i + len) num_left else []))"
  by pat_completeness auto

termination
  by (relation "measure (\<lambda>(buf, i, n). n - i)")
     (auto simp: decode_cp_def utf8_decode_def Let_def code_point_length_pos intro!: diff_less_mono2)

declare tail_loop.simps [simp del]

definition for_each_codepoint :: "string \<Rightarrow> nat list" where
  "for_each_codepoint s =
     (let (cps, p) = block_loop s; num_chars_left = length p in
      cps @ (if num_chars_left \<noteq> 0 then tail_loop (p @ replicate (7 - num_chars_left) CHR 0x00) 0 num_chars_left else []))"

text \<open>The columns a code point takes on a terminal.\<close>

definition cp_width :: "nat \<Rightarrow> nat" where
  "cp_width cp = 1 + of_bool_nat
     (cp \<ge> 0x1100 \<and>
      (cp \<le> 0x115f \<or> cp = 0x2329 \<or> cp = 0x232a \<or>
       (cp \<ge> 0x2e80 \<and> cp \<le> 0xa4cf \<and> cp \<noteq> 0x303f) \<or>
       (cp \<ge> 0xac00 \<and> cp \<le> 0xd7a3) \<or> (cp \<ge> 0xf900 \<and> cp \<le> 0xfaff) \<or>
       (cp \<ge> 0xfe10 \<and> cp \<le> 0xfe19) \<or> (cp \<ge> 0xfe30 \<and> cp \<le> 0xfe6f) \<or>
       (cp \<ge> 0xff00 \<and> cp \<le> 0xff60) \<or> (cp \<ge> 0xffe0 \<and> cp \<le> 0xffe6) \<or>
       (cp \<ge> 0x20000 \<and> cp \<le> 0x2fffd) \<or> (cp \<ge> 0x30000 \<and> cp \<le> 0x3fffd) \<or>
       (cp \<ge> 0x1f300 \<and> cp \<le> 0x1f64f) \<or> (cp \<ge> 0x1f900 \<and> cp \<le> 0x1f9ff)))"

definition compute_width :: "string \<Rightarrow> nat" where
  "compute_width s = sum_list (map cp_width (for_each_codepoint s))"

text \<open>For \<open>char\<close> the index of the \<open>n\<close>-th code point is taken to be \<open>n\<close>.\<close>

definition code_point_index :: "string \<Rightarrow> nat \<Rightarrow> nat" where
  "code_point_index s n = (if n < length s then n else length s)"

section \<open>Bits and arithmetic\<close>

lemma and_low:
  assumes "x < 2 ^ n"
  shows "push_bit n y AND x = (0 :: nat)"
proof -
  have "push_bit n y AND take_bit n x = 0" by (rule bit_eqI) (auto simp: bit_simps)
  then show ?thesis using assms by (simp add: take_bit_nat_eq_self)
qed

lemma or_add: "x < 2 ^ n \<Longrightarrow> push_bit n y OR x = 2 ^ n * y + (x :: nat)"
  using disjunctive_add_eq_or [OF and_low] by (simp add: push_bit_eq_mult ac_simps)

lemma xor_add: "x < 2 ^ n \<Longrightarrow> push_bit n y XOR x = 2 ^ n * y + (x :: nat)"
  using or_add disjunctive_xor_eq_or [OF and_low] by metis

lemma and_3f: "b AND 0x3f = b mod (64 :: nat)"
  and and_7f: "b AND 0x7f = b mod (128 :: nat)"
  and and_1f: "b AND 0x1f = b mod (32 :: nat)"
  and and_0f: "b AND 0x0f = b mod (16 :: nat)"
  and and_07: "b AND 0x07 = b mod (8 :: nat)"
  using take_bit_eq_mask [of 6 b] take_bit_eq_mask [of 7 b] take_bit_eq_mask [of 5 b] take_bit_eq_mask [of 4 b]
    take_bit_eq_mask [of 3 b]
  by (simp_all add: mask_eq_exp_minus_1 take_bit_eq_mod)

text \<open>The four bytes put together.\<close>

lemma four_bytes:
  assumes "b < 64" "c < 64" "d < 64"
  shows "((push_bit 18 a OR push_bit 12 b) OR push_bit 6 c) OR d = 262144 * a + 4096 * b + 64 * c + (d :: nat)"
proof -
  have "push_bit 18 a OR push_bit 12 b = push_bit 12 (push_bit 6 a OR b)" by (simp add: push_bit_or)
  also have "push_bit 6 a OR b = 64 * a + b" using or_add [of b 6 a] assms(1) by simp
  finally have 1: "push_bit 18 a OR push_bit 12 b = push_bit 12 (64 * a + b)" .
  have "push_bit 12 (64 * a + b) OR push_bit 6 c = push_bit 6 (push_bit 6 (64 * a + b) OR c)"
    by (simp add: push_bit_or)
  also have "push_bit 6 (64 * a + b) OR c = 4096 * a + 64 * b + c"
    using or_add [of c 6 "64 * a + b"] assms(2) by simp
  finally have 2: "push_bit 12 (64 * a + b) OR push_bit 6 c = push_bit 6 (4096 * a + 64 * b + c)" .
  have "push_bit 6 (4096 * a + 64 * b + c) OR d = 262144 * a + 4096 * b + 64 * c + d"
    using or_add [of d 6 "4096 * a + 64 * b + c"] assms(3) by simp
  then show ?thesis by (simp only: 1 2)
qed

lemma top_two_bits:
  assumes "b < 256"
  shows "b AND 0xc0 = push_bit 6 (b div 64 :: nat)"
proof -
  have "b = push_bit 6 (b div 64) OR b mod 64"
    using or_add [of "b mod 64" 6 "b div 64"] by simp
  then have "b AND push_bit 6 3 = (push_bit 6 (b div 64) OR b mod 64) AND push_bit 6 3" by simp
  also have "\<dots> = (push_bit 6 (b div 64) AND push_bit 6 3) OR (push_bit 6 3 AND b mod 64)"
    by (rule bit_eqI) (auto simp: bit_or_iff bit_and_iff)
  also have "push_bit 6 3 AND b mod 64 = 0" by (rule and_low) simp
  also have "push_bit 6 (b div 64) AND push_bit 6 3 = push_bit 6 (b div 64 AND 3)" by (simp only: push_bit_and)
  also have "b div 64 AND 3 = b div 64"
  proof -
    have "b div 64 < 4" using assms by (simp add: div_less_iff_less_mult)
    then have "b div 64 \<in> {0, 1, 2, 3}" by auto
    then show ?thesis by (elim insertE emptyE) simp_all
  qed
  finally show ?thesis by simp
qed

lemma top_two_shifted:
  assumes "b < 256"
  shows "drop_bit 2 (b AND 0xc0) = 16 * (b div 64 :: nat)" "drop_bit 4 (b AND 0xc0) = 4 * (b div 64 :: nat)"
  unfolding top_two_bits [OF assms] drop_bit_eq_div push_bit_eq_mult by simp_all

text \<open>The error bits of the tail bytes, for each length and each pair of top bits.\<close>

lemma tail_errors_table:
  "list_all (\<lambda>len. list_all (\<lambda>x. list_all (\<lambda>y. list_all (\<lambda>z.
     (drop_bit (shifte ! len) ((16 * x OR 4 * y OR z) XOR (0x2a :: nat)) = 0) =
     ((2 \<le> len \<longrightarrow> x = 2) \<and> (3 \<le> len \<longrightarrow> y = 2) \<and> (4 \<le> len \<longrightarrow> z = 2)))
     [0, 1, 2, 3]) [0, 1, 2, 3]) [0, 1, 2, 3]) [1, 2, 3, 4]"
  by (simp add: shifte_def)

lemma tail_bounds_table:
  "list_all (\<lambda>x. list_all (\<lambda>y. list_all (\<lambda>z.
     ((16 * x OR 4 * y OR z) XOR 0x2a < (64 :: nat)) \<and> 16 * x OR 4 * y OR z < (64 :: nat))
     [0, 1, 2, 3]) [0, 1, 2, 3]) [0, 1, 2, 3]"
  by simp

lemma tail_errors:
  assumes "x < 4" "y < 4" "z < 4" "len \<in> {1, 2, 3, 4}"
  shows "(16 * x OR 4 * y OR z) XOR 0x2a < (64 :: nat)" "16 * x OR 4 * y OR z < (64 :: nat)"
    "drop_bit (shifte ! len) ((16 * x OR 4 * y OR z) XOR (0x2a :: nat)) = 0 \<longleftrightarrow>
     (2 \<le> len \<longrightarrow> x = 2) \<and> (3 \<le> len \<longrightarrow> y = 2) \<and> (4 \<le> len \<longrightarrow> z = 2)"
proof -
  have m: "x \<in> set [0, 1, 2, 3]" "y \<in> set [0, 1, 2, 3]" "z \<in> set [0, 1, 2, 3]" "len \<in> set [1, 2, 3, 4]"
    using assms by auto
  note b = tail_bounds_table [unfolded list_all_iff, THEN bspec, OF m(1), THEN bspec, OF m(2), THEN bspec, OF m(3)]
  note e = tail_errors_table [unfolded list_all_iff, THEN bspec, OF m(4), THEN bspec, OF m(1), THEN bspec, OF m(2),
    THEN bspec, OF m(3)]
  show "(16 * x OR 4 * y OR z) XOR 0x2a < (64 :: nat)" by (rule conjunct1 [OF b])
  show "16 * x OR 4 * y OR z < (64 :: nat)" by (rule conjunct2 [OF b])
  show "drop_bit (shifte ! len) ((16 * x OR 4 * y OR z) XOR (0x2a :: nat)) = 0 \<longleftrightarrow>
     (2 \<le> len \<longrightarrow> x = 2) \<and> (3 \<le> len \<longrightarrow> y = 2) \<and> (4 \<le> len \<longrightarrow> z = 2)" by (rule e)
qed

lemma error_bits:
  assumes "x < 4" "y < 4" "z < 4" "len \<in> {1, 2, 3, 4}"
  shows "drop_bit (shifte ! len)
     ((((((push_bit 6 (of_bool_nat nc) OR push_bit 7 (of_bool_nat sur)) OR push_bit 8 (of_bool_nat big)) OR 16 * x) OR 4 * y) OR z)
      XOR 0x2a) = 0 \<longleftrightarrow>
   \<not> nc \<and> \<not> sur \<and> \<not> big \<and> (2 \<le> len \<longrightarrow> x = 2) \<and> (3 \<le> len \<longrightarrow> y = 2) \<and> (4 \<le> len \<longrightarrow> z = 2)"
proof -
  let ?h = "of_bool_nat nc OR push_bit 1 (of_bool_nat sur) OR push_bit 2 (of_bool_nat big)"
  let ?l = "16 * x OR 4 * y OR z" and ?k = "shifte ! len"
  note t = tail_errors [OF assms]
  have h0: "?h = 0 \<longleftrightarrow> \<not> nc \<and> \<not> sur \<and> \<not> big" by (simp add: of_bool_nat_def)
  have k: "?k \<le> 6" using assms(4) by (auto simp: shifte_def)
  have "((((push_bit 6 (of_bool_nat nc) OR push_bit 7 (of_bool_nat sur)) OR push_bit 8 (of_bool_nat big)) OR 16 * x) OR 4 * y) OR z
     = push_bit 6 ?h OR ?l"
  proof -
    have "push_bit 6 ?h = push_bit 6 (of_bool_nat nc) OR push_bit 7 (of_bool_nat sur) OR push_bit 8 (of_bool_nat big)"
      unfolding push_bit_or push_bit_push_bit by simp
    then show ?thesis by (simp only: or.assoc)
  qed
  also have "\<dots> = push_bit 6 ?h XOR ?l"
    using or_add [of ?l 6 ?h] xor_add [of ?l 6 ?h] t(2) by simp
  also have "\<dots> XOR 0x2a = push_bit 6 ?h XOR (?l XOR 0x2a)" by (simp only: xor.assoc)
  also have "\<dots> = 64 * ?h + (?l XOR 0x2a)" using xor_add [of "?l XOR 0x2a" 6 ?h] t(1) by simp
  finally have e: "(((((push_bit 6 (of_bool_nat nc) OR push_bit 7 (of_bool_nat sur)) OR push_bit 8 (of_bool_nat big)) OR 16 * x)
     OR 4 * y) OR z) XOR 0x2a = 64 * ?h + (?l XOR 0x2a)" .
  have "drop_bit ?k (64 * ?h + (?l XOR 0x2a)) = 0 \<longleftrightarrow> ?h = 0 \<and> drop_bit ?k (?l XOR 0x2a) = 0"
  proof -
    have "(2 :: nat) ^ ?k \<le> 2 ^ 6" using k by (intro power_increasing) auto
    then have "64 * ?h + (?l XOR 0x2a) < 2 ^ ?k \<longleftrightarrow> ?h = 0 \<and> (?l XOR 0x2a) < 2 ^ ?k"
      by (cases "?h = 0") auto
    then show ?thesis by (simp only: drop_bit_eq_div div_eq_0_iff) simp
  qed
  then show ?thesis unfolding e using h0 t(3) by simp
qed

section \<open>The decoder inverts the encoding\<close>

text \<open>The reference: a scalar value and its UTF-8 encoding.\<close>

definition scalar :: "nat \<Rightarrow> bool" where
  "scalar cp \<longleftrightarrow> cp \<le> 0x10FFFF \<and> \<not> (0xD800 \<le> cp \<and> cp \<le> 0xDFFF)"

definition utf8_bytes :: "nat \<Rightarrow> nat list" where
  "utf8_bytes cp =
     (if cp < 0x80 then [cp]
      else if cp < 0x800 then [0xC0 + cp div 64, 0x80 + cp mod 64]
      else if cp < 0x10000 then [0xE0 + cp div 4096, 0x80 + cp div 64 mod 64, 0x80 + cp mod 64]
      else [0xF0 + cp div 262144, 0x80 + cp div 4096 mod 64, 0x80 + cp div 64 mod 64, 0x80 + cp mod 64])"

definition utf8_encode :: "nat \<Rightarrow> string" where
  "utf8_encode cp = map char_of (utf8_bytes cp)"

text \<open>The bytes that may begin a character; for the others the table gives length 0 and the code uses 1.\<close>

definition lead_byte :: "char \<Rightarrow> bool" where
  "lead_byte c \<longleftrightarrow> of_char c < (128 :: nat) \<or> 192 \<le> (of_char c :: nat) \<and> of_char c < (248 :: nat)"

lemma code_point_lengths_table:
  "list_all (\<lambda>(q, n). n = (if q < 16 then 1 else if q < 24 then 0 else if q < 28 then 2 else if q < 30 then 3
     else if q < 31 then 4 else 0)) (zip [0..<32] code_point_lengths)"
  by (simp add: upt_rec code_point_lengths_def)

lemma of_char_less [simp]: "of_char c < (256 :: nat)"
  using of_char_mod_256 [of c, where 'a = nat] mod_less_divisor [of 256 "of_char c :: nat"] by simp

lemma code_point_length_cases:
  "code_point_length c =
    (if of_char c < (192 :: nat) then 1 else if of_char c < (224 :: nat) then 2
     else if of_char c < (240 :: nat) then 3 else if of_char c < (248 :: nat) then 4 else 1)"
proof -
  let ?A = "of_char c :: nat" let ?q = "?A div 8"
  have q: "?q < 32" using of_char_less [of c] by linarith
  have "code_point_lengths ! ?q = (if ?q < 16 then 1 else if ?q < 24 then 0 else if ?q < 28 then 2 else if ?q < 30 then 3
     else if ?q < 31 then 4 else 0)"
    using code_point_lengths_table q by (auto simp: list_all_length code_point_lengths_def)
  moreover have "?q < 16 \<longleftrightarrow> ?A < 128" "?q < 24 \<longleftrightarrow> ?A < 192" "?q < 28 \<longleftrightarrow> ?A < 224" "?q < 30 \<longleftrightarrow> ?A < 240" "?q < 31 \<longleftrightarrow> ?A < 248"
    by (simp_all add: div_less_iff_less_mult)
  ultimately show ?thesis by (simp add: code_point_length_def Let_def)
qed

text \<open>The decoder in plain arithmetic.\<close>

lemma utf8_decode_arith:
  fixes a b c d :: char
  defines "len \<equiv> code_point_length a"
    and "B \<equiv> of_char b :: nat" and "C \<equiv> of_char c :: nat" and "D \<equiv> of_char d :: nat"
  defines "cp \<equiv> (262144 * (of_char a AND masks ! len) + 4096 * (B mod 64) + 64 * (C mod 64) + D mod 64) div 2 ^ (shiftc ! len)"
  shows "\<exists>e. utf8_decode (a # b # c # d # rest) = (cp, e, len) \<and>
    (e = 0 \<longleftrightarrow> mins ! len \<le> cp \<and> cp div 2048 \<noteq> 27 \<and> cp \<le> 0x10FFFF \<and>
       (2 \<le> len \<longrightarrow> B div 64 = 2) \<and> (3 \<le> len \<longrightarrow> C div 64 = 2) \<and> (4 \<le> len \<longrightarrow> D div 64 = 2))"
proof -
  have bytes: "byte_at (a # b # c # d # rest) 0 = of_char a" "byte_at (a # b # c # d # rest) 1 = B"
    "byte_at (a # b # c # d # rest) 2 = C" "byte_at (a # b # c # d # rest) 3 = D"
    by (simp_all add: byte_at_def B_def C_def D_def numeral_2_eq_2 numeral_3_eq_3)
  have lt: "B < 256" "C < 256" "D < 256" by (simp_all add: B_def C_def D_def)
  then have q: "B div 64 < 4" "C div 64 < 4" "D div 64 < 4" by (simp_all add: div_less_iff_less_mult)
  have len: "len \<in> {1, 2, 3, 4}" by (auto simp: len_def code_point_length_cases)
  have cp: "drop_bit (shiftc ! len) (((push_bit 18 (of_char a AND masks ! len) OR push_bit 12 (B AND 0x3f)) OR
      push_bit 6 (C AND 0x3f)) OR (D AND 0x3f)) = cp"
    unfolding cp_def and_3f by (subst four_bytes) (simp_all add: drop_bit_eq_div)
  note eb = error_bits [OF q len, of "cp < mins ! len" "drop_bit 11 cp = 0x1b" "cp > 0x10FFFF"]
  show ?thesis
    unfolding utf8_decode_def Let_def bytes list.sel len_def [symmetric] cp top_two_shifted [OF lt(1)] top_two_shifted [OF lt(2)]
    using eb by (simp add: drop_bit_eq_div not_less)
qed

lemma div_of_mult_add: "x < n \<Longrightarrow> (n * y + x) div n = (y :: nat)"
  by (simp add: div_mult_self4 add.commute)

lemma char_of_eq:
  "char_of n = c \<longleftrightarrow> of_char c = n" "c = char_of n \<longleftrightarrow> of_char c = n" if "n < 256" for n :: nat
  using that by (metis char_of_char of_char_of mod_less)+

lemma surrogate_iff: "cp div 2048 = 27 \<longleftrightarrow> 0xD800 \<le> cp \<and> cp \<le> (0xDFFF :: nat)"
proof -
  have "cp div 2048 = 27 \<longleftrightarrow> 27 \<le> cp div 2048 \<and> cp div 2048 < 28" by auto
  also have "\<dots> \<longleftrightarrow> 27 * 2048 \<le> cp \<and> cp < 28 * 2048"
    by (simp only: less_eq_div_iff_mult_less_eq div_less_iff_less_mult zero_less_numeral)
  finally show ?thesis by auto
qed

lemma mod_of_mult_add: "x < n \<Longrightarrow> (n * y + x) mod n = (x :: nat)"
  by simp

lemma bytes_two: "b < 64 \<Longrightarrow> a < 32 \<Longrightarrow> 128 \<le> 64 * a + b \<Longrightarrow> utf8_bytes (64 * a + b) = [192 + a, 128 + b]"
  using div_of_mult_add [of b 64 a] by (simp add: utf8_bytes_def)

lemma bytes_three:
  assumes "b < 64" "c < 64" "a < 16" "2048 \<le> 4096 * a + 64 * b + c"
  shows "utf8_bytes (4096 * a + 64 * b + c) = [224 + a, 128 + b, 128 + c]"
proof -
  have "(4096 * a + 64 * b + c) div 64 = 64 * a + b" using div_of_mult_add [of c 64 "64 * a + b"] assms(2) by simp
  moreover have "(4096 * a + 64 * b + c) div 4096 = a" using div_of_mult_add [of "64 * b + c" 4096 a] assms(1,2) by simp
  moreover have "(4096 * a + 64 * b + c) mod 64 = c" using mod_of_mult_add [of c 64 "64 * a + b"] assms(2) by simp
  moreover have "(64 * a + b) mod 64 = b" using mod_of_mult_add [of b 64 a] assms(1) by simp
  ultimately show ?thesis using assms by (simp add: utf8_bytes_def)
qed

lemma bytes_four:
  assumes "b < 64" "c < 64" "d < 64" "65536 \<le> 262144 * a + 4096 * b + 64 * c + d"
  shows "utf8_bytes (262144 * a + 4096 * b + 64 * c + d) = [240 + a, 128 + b, 128 + c, 128 + d]"
proof -
  let ?v = "262144 * a + 4096 * b + 64 * c + d"
  have "?v div 64 = 4096 * a + 64 * b + c" using div_of_mult_add [of d 64 "4096 * a + 64 * b + c"] assms(3) by simp
  moreover have "(4096 * a + 64 * b + c) mod 64 = c" using mod_of_mult_add [of c 64 "64 * a + b"] assms(2) by simp
  moreover have "(64 * a + b) mod 64 = b" using mod_of_mult_add [of b 64 a] assms(1) by simp
  moreover have "?v div 4096 = 64 * a + b" using div_of_mult_add [of "64 * c + d" 4096 "64 * a + b"] assms(2,3) by simp
  moreover have "?v div 262144 = a" using div_of_mult_add [of "4096 * b + 64 * c + d" 262144 a] assms(1-3) by simp
  moreover have "?v mod 64 = d" using mod_of_mult_add [of d 64 "4096 * a + 64 * b + c"] assms(3) by simp
  ultimately show ?thesis using assms by (simp add: utf8_bytes_def)
qed

lemma length_utf8_bytes:
  "length (utf8_bytes cp) = (if cp < 0x80 then 1 else if cp < 0x800 then 2 else if cp < 0x10000 then 3 else 4)"
  by (simp add: utf8_bytes_def)

lemma length_utf8_encode:
  "length (utf8_encode cp) = (if cp < 0x80 then 1 else if cp < 0x800 then 2 else if cp < 0x10000 then 3 else 4)"
  by (simp add: utf8_encode_def length_utf8_bytes)

lemma split64: "\<exists>q r. n = 64 * q + r \<and> r < 64 \<and> n div 64 = q \<and> n mod (64 :: nat) = r"
  by (intro exI [of _ "n div 64"] exI [of _ "n mod 64"]) simp

text \<open>The code point of each length.\<close>

lemma utf8_decode_value:
  assumes "utf8_decode (a # b # c # d # rest) = (cp, e, len)"
  defines "A \<equiv> of_char a :: nat" and "B \<equiv> of_char b mod 64 :: nat" and "C \<equiv> of_char c mod 64 :: nat"
    and "D \<equiv> of_char d mod 64 :: nat"
  shows "A < 128 \<Longrightarrow> len = 1 \<and> cp = A"
    and "192 \<le> A \<Longrightarrow> A < 224 \<Longrightarrow> len = 2 \<and> cp = 64 * (A - 192) + B"
    and "224 \<le> A \<Longrightarrow> A < 240 \<Longrightarrow> len = 3 \<and> cp = 4096 * (A - 224) + 64 * B + C"
    and "240 \<le> A \<Longrightarrow> A < 248 \<Longrightarrow> len = 4 \<and> cp = 262144 * (A - 240) + 4096 * B + 64 * C + D"
proof -
  have len: "len = code_point_length a"
    and cp: "cp = (262144 * (A AND masks ! len) + 4096 * B + 64 * C + D) div 2 ^ (shiftc ! len)"
    using utf8_decode_arith [of a b c d rest] assms(1) by (auto simp: A_def B_def C_def D_def)
  have lt: "B < 64" "C < 64" "D < 64" by (simp_all add: B_def C_def D_def)
  show "len = 1 \<and> cp = A" if "A < 128"
  proof -
    have l: "len = 1" using that by (simp add: len code_point_length_cases A_def)
    have "(262144 * A + (4096 * B + 64 * C + D)) div 262144 = A" using lt by (intro div_of_mult_add) linarith
    then show ?thesis using that cp by (simp add: l masks_def shiftc_def and_7f add.assoc)
  qed
  show "len = 2 \<and> cp = 64 * (A - 192) + B" if "192 \<le> A" "A < 224"
  proof -
    define x where "x = A - 192"
    have x: "A = 192 + x" "x < 32" using that by (simp_all add: x_def)
    have l: "len = 2" using that by (simp add: len code_point_length_cases A_def)
    have "(4096 * (64 * x + B) + (64 * C + D)) div 4096 = 64 * x + B" using lt by (intro div_of_mult_add) linarith
    moreover have "A AND 31 = x" using mod_of_mult_add [of x 32 6] x by (simp add: and_1f)
    ultimately show ?thesis using cp by (simp add: l masks_def shiftc_def algebra_simps x)
  qed
  show "len = 3 \<and> cp = 4096 * (A - 224) + 64 * B + C" if "224 \<le> A" "A < 240"
  proof -
    define x where "x = A - 224"
    have x: "A = 224 + x" "x < 16" using that by (simp_all add: x_def)
    have l: "len = 3" using that by (simp add: len code_point_length_cases A_def)
    have "(64 * (4096 * x + 64 * B + C) + D) div 64 = 4096 * x + 64 * B + C" using lt by (intro div_of_mult_add) linarith
    moreover have "A AND 15 = x" using mod_of_mult_add [of x 16 14] x by (simp add: and_0f)
    ultimately show ?thesis using cp by (simp add: l masks_def shiftc_def algebra_simps x)
  qed
  show "len = 4 \<and> cp = 262144 * (A - 240) + 4096 * B + 64 * C + D" if "240 \<le> A" "A < 248"
  proof -
    define x where "x = A - 240"
    have x: "A = 240 + x" "x < 8" using that by (simp_all add: x_def)
    have l: "len = 4" using that by (simp add: len code_point_length_cases A_def)
    have "A AND 7 = x" using mod_of_mult_add [of x 8 30] x by (simp add: and_07)
    then show ?thesis using cp by (simp add: l masks_def shiftc_def x)
  qed
qed

text \<open>After a valid first byte there is no error exactly if the bytes are the encoding of a scalar value.\<close>

lemma utf8_decode_iff:
  assumes "lead_byte a" "utf8_decode (a # b # c # d # rest) = (cp, e, len)"
  shows "e = 0 \<longleftrightarrow> scalar cp \<and> take len [a, b, c, d] = utf8_encode cp"
proof -
  let ?A = "of_char a :: nat"
  obtain qb rb where b: "of_char b = 64 * qb + rb" "rb < 64" "(of_char b :: nat) div 64 = qb" "(of_char b :: nat) mod 64 = rb"
    using split64 by metis
  obtain qc rc where c: "of_char c = 64 * qc + rc" "rc < 64" "(of_char c :: nat) div 64 = qc" "(of_char c :: nat) mod 64 = rc"
    using split64 by metis
  obtain qd rd where d: "of_char d = 64 * qd + rd" "rd < 64" "(of_char d :: nat) div 64 = qd" "(of_char d :: nat) mod 64 = rd"
    using split64 by metis
  note val = utf8_decode_value [OF assms(2), unfolded b(4) c(4) d(4)]
  have e: "e = 0 \<longleftrightarrow> mins ! len \<le> cp \<and> cp div 2048 \<noteq> 27 \<and> cp \<le> 0x10FFFF \<and>
       (2 \<le> len \<longrightarrow> qb = 2) \<and> (3 \<le> len \<longrightarrow> qc = 2) \<and> (4 \<le> len \<longrightarrow> qd = 2)"
    using utf8_decode_arith [of a b c d rest] assms(2) by (auto simp: b c d)
  have short: "\<not> mins ! len \<le> cp \<Longrightarrow> len \<in> {2, 3, 4} \<Longrightarrow> take len [a, b, c, d] \<noteq> utf8_encode cp"
    using length_utf8_encode [of cp] by (auto simp: mins_def dest!: arg_cong [of _ _ length] split: if_splits)
  consider (one) "?A < 128" | (two) "192 \<le> ?A" "?A < 224" | (three) "224 \<le> ?A" "?A < 240" | (four) "240 \<le> ?A" "?A < 248"
    using assms(1) by (auto simp: lead_byte_def) linarith
  then show ?thesis
  proof cases
    case one
    then show ?thesis using e val(1) by (simp add: mins_def scalar_def utf8_encode_def utf8_bytes_def surrogate_iff)
  next
    case two
    define x where "x = ?A - 192"
    have x: "?A = 192 + x" "x < 32" using two by (simp_all add: x_def)
    have v: "len = 2" "cp = 64 * x + rb" using val(2) two by (simp_all add: x_def)
    have small: "cp < 2048" using v x(2) b(2) by linarith
    show ?thesis
    proof (cases "128 \<le> cp")
      case True
      then show ?thesis using e small x b bytes_two [of rb x] v
        by (auto simp: mins_def scalar_def utf8_encode_def char_of_eq surrogate_iff numeral_2_eq_2)
    qed (use e short v in \<open>simp add: mins_def\<close>)
  next
    case three
    define x where "x = ?A - 224"
    have x: "?A = 224 + x" "x < 16" using three by (simp_all add: x_def)
    have v: "len = 3" "cp = 4096 * x + 64 * rb + rc" using val(3) three by (simp_all add: x_def)
    have small: "cp < 65536" using v x(2) b(2) c(2) by linarith
    show ?thesis
    proof (cases "2048 \<le> cp")
      case True
      then show ?thesis using e small x b c bytes_three [of rb rc x] v
        by (auto simp: mins_def scalar_def utf8_encode_def char_of_eq surrogate_iff numeral_3_eq_3)
    qed (use e short v in \<open>simp add: mins_def\<close>)
  next
    case four
    define x where "x = ?A - 240"
    have x: "?A = 240 + x" "x < 8" using four by (simp_all add: x_def)
    have v: "len = 4" "cp = 262144 * x + 4096 * rb + 64 * rc + rd" using val(4) four by (simp_all add: x_def)
    show ?thesis
    proof (cases "65536 \<le> cp")
      case True
      then show ?thesis using e x b c d bytes_four [of rb rc rd x] v
        by (auto simp: mins_def scalar_def utf8_encode_def char_of_eq surrogate_iff)
    qed (use e short v in \<open>simp add: mins_def\<close>)
  qed
qed

text \<open>An invalid first byte: the decoder reports no error, and a code point below 128.\<close>

lemma utf8_decode_bad_lead:
  assumes "\<not> lead_byte a"
  shows "utf8_decode (a # b # c # d # rest) = (of_char a mod 128, 0, 1)"
proof -
  have A: "128 \<le> (of_char a :: nat) \<and> of_char a < (192 :: nat) \<or> 248 \<le> (of_char a :: nat)"
    using assms by (auto simp: lead_byte_def)
  then have l: "code_point_length a = 1" by (auto simp: code_point_length_cases)
  let ?m = "4096 * (of_char b mod 64) + 64 * (of_char c mod 64) + of_char d mod (64 :: nat)"
  have "?m < 262144"
    using mod_less_divisor [of 64 "of_char b :: nat"] mod_less_divisor [of 64 "of_char c :: nat"]
      mod_less_divisor [of 64 "of_char d :: nat"] by linarith
  from div_of_mult_add [OF this, of "of_char a mod 128"]
  have "(262144 * (of_char a AND masks ! 1) + 4096 * (of_char b mod 64) + 64 * (of_char c mod 64) + of_char d mod 64) div 2 ^ (shiftc ! 1)
      = of_char a mod (128 :: nat)"
    by (simp add: masks_def shiftc_def and_7f add.assoc)
  moreover have "of_char a mod 128 < (2048 :: nat)" using mod_less_divisor [of 128 "of_char a :: nat"] by linarith
  ultimately show ?thesis
    using utf8_decode_arith [of a b c d rest] by (auto simp: l mins_def)
qed

lemma utf8_bytes_less: "cp \<le> 0x10FFFF \<Longrightarrow> x \<in> set (utf8_bytes cp) \<Longrightarrow> x < 256"
  by (auto simp: utf8_bytes_def split: if_splits)

lemma base64_split:
  "64 * (n div 64) + n mod 64 = (n :: nat)"
  "4096 * (n div 4096) + 64 * (n div 64 mod 64) + n mod 64 = n"
  "262144 * (n div 262144) + 4096 * (n div 4096 mod 64) + 64 * (n div 64 mod 64) + n mod 64 = n"
proof -
  show a: "64 * (n div 64) + n mod 64 = n" for n :: nat by simp
  have d: "n div 4096 = n div 64 div 64" "n div 262144 = n div 64 div 64 div 64"
    using div_mult2_eq [of n 64 64] div_mult2_eq [of n 4096 64] div_mult2_eq [of n 64 64] by simp_all
  show b: "4096 * (n div 4096) + 64 * (n div 64 mod 64) + n mod 64 = n"
    using a [of "n div 64"] a [of n] unfolding d by linarith
  show "262144 * (n div 262144) + 4096 * (n div 4096 mod 64) + 64 * (n div 64 mod 64) + n mod 64 = n"
    using a [of "n div 64 div 64"] a [of "n div 64"] a [of n] unfolding d by linarith
qed

text \<open>Decoding what was encoded, whatever follows.\<close>

lemma decode_encode:
  assumes "scalar cp" "utf8_encode cp @ rest = a # b # c # d # rest'"
  shows "utf8_decode (a # b # c # d # rest') = (cp, 0, length (utf8_encode cp))"
proof -
  obtain cp' e len where dec: "utf8_decode (a # b # c # d # rest') = (cp', e, len)" by (metis surj_pair)
  note val = utf8_decode_value [OF dec] and s = base64_split [of cp]
  have big: "cp \<le> 0x10FFFF" using assms(1) by (simp add: scalar_def)
  have tail_mod: "(128 + n mod 64) mod 64 = n mod 64" for n :: nat
    using mod_of_mult_add [of "n mod 64" 64 2] by simp
  have "lead_byte a \<and> len = length (utf8_encode cp) \<and> cp' = cp \<and> take len [a, b, c, d] = utf8_encode cp"
  proof -
    consider "cp < 128" | "128 \<le> cp" "cp < 2048" | "2048 \<le> cp" "cp < 65536" | "65536 \<le> cp" by linarith
    then show ?thesis
    proof cases
      case 1
      then have "a = char_of cp" using assms(2) by (simp add: utf8_encode_def utf8_bytes_def)
      then show ?thesis using 1 val(1) by (simp add: lead_byte_def utf8_encode_def utf8_bytes_def)
    next
      case 2
      then have q: "cp div 64 < 32" by (simp add: div_less_iff_less_mult)
      have "a = char_of (192 + cp div 64)" "b = char_of (128 + cp mod 64)"
        using 2 assms(2) by (simp_all add: utf8_encode_def utf8_bytes_def)
      moreover have "lead_byte a" using calculation q unfolding lead_byte_def by simp
      ultimately show ?thesis using 2 q val(2) s(1) tail_mod by (simp add: utf8_encode_def utf8_bytes_def numeral_2_eq_2)
    next
      case 3
      then have q: "cp div 4096 < 16" by (simp add: div_less_iff_less_mult)
      have "a = char_of (224 + cp div 4096)" "b = char_of (128 + cp div 64 mod 64)" "c = char_of (128 + cp mod 64)"
        using 3 assms(2) by (simp_all add: utf8_encode_def utf8_bytes_def)
      moreover have "lead_byte a" using calculation q unfolding lead_byte_def by simp
      ultimately show ?thesis using 3 q val(3) s(2) tail_mod by (simp add: utf8_encode_def utf8_bytes_def numeral_3_eq_3)
    next
      case 4
      then have q: "cp div 262144 < 5" using big by (simp add: div_less_iff_less_mult)
      have "a = char_of (240 + cp div 262144)" "b = char_of (128 + cp div 4096 mod 64)"
        "c = char_of (128 + cp div 64 mod 64)" "d = char_of (128 + cp mod 64)"
        using 4 assms(2) by (simp_all add: utf8_encode_def utf8_bytes_def)
      moreover have "lead_byte a" using calculation q unfolding lead_byte_def by simp
      ultimately show ?thesis using 4 q val(4) s(3) tail_mod by (simp add: utf8_encode_def utf8_bytes_def)
    qed
  qed
  then have lead: "lead_byte a" and r: "len = length (utf8_encode cp)" "cp' = cp" "take len [a, b, c, d] = utf8_encode cp"
    by blast+
  have "e = 0" using utf8_decode_iff [OF lead dec] assms(1) r by simp
  then show ?thesis using dec r by simp
qed

text \<open>
  C19: The decoder is exact on every four bytes that begin with a byte a character can begin with: it reports no
  error if and only if they start with the encoding of a scalar value, which it then returns with its length;
  overlong forms, surrogates, values beyond the last plane and wrong tail bytes are errors.
\<close>

theorem utf8_decode_exact:
  assumes "lead_byte a"
  shows "case utf8_decode (a # b # c # d # rest) of (cp, e, len) \<Rightarrow>
    (e = 0 \<longleftrightarrow> (\<exists>cp'. scalar cp' \<and> take (length (utf8_encode cp')) [a, b, c, d] = utf8_encode cp')) \<and>
    (e = 0 \<longrightarrow> scalar cp \<and> len = length (utf8_encode cp) \<and> take len [a, b, c, d] = utf8_encode cp)"
proof -
  obtain cp e len where dec: "utf8_decode (a # b # c # d # rest) = (cp, e, len)" by (metis surj_pair)
  note exact = utf8_decode_iff [OF assms dec]
  have enc: "utf8_decode (a # b # c # d # rest) = (cp', 0, length (utf8_encode cp'))"
    if "scalar cp'" "take (length (utf8_encode cp')) [a, b, c, d] = utf8_encode cp'" for cp'
  proof -
    have "utf8_encode cp' @ drop (length (utf8_encode cp')) [a, b, c, d] @ rest = a # b # c # d # rest"
      using that(2) by (metis append.assoc append_Cons append_Nil append_take_drop_id)
    then show ?thesis by (rule decode_encode [OF that(1)])
  qed
  have len: "len = length (utf8_encode cp)" if "e = 0"
  proof -
    have "take len [a, b, c, d] = utf8_encode cp" "scalar cp" using exact that by auto
    moreover have "len \<le> 4"
    proof -
      have "code_point_length a \<le> 4" by (simp add: code_point_length_cases)
      moreover obtain cp1 e1 where "utf8_decode (a # b # c # d # rest) = (cp1, e1, code_point_length a)"
        using utf8_decode_arith [of a b c d rest] by blast
      ultimately show ?thesis using dec by simp
    qed
    moreover from this have "length (take len [a, b, c, d]) = len" by simp
    ultimately show ?thesis by metis
  qed
  have "\<exists>cp'. scalar cp' \<and> take (length (utf8_encode cp')) [a, b, c, d] = utf8_encode cp'" if "e = 0"
    using exact that len [OF that] by (intro exI [of _ cp]) simp
  moreover have "e = 0" if "scalar cp'" "take (length (utf8_encode cp')) [a, b, c, d] = utf8_encode cp'" for cp'
    using enc [OF that] dec by simp
  moreover have "scalar cp \<and> take len [a, b, c, d] = utf8_encode cp" if "e = 0" using exact that by simp
  ultimately show ?thesis unfolding dec split using len by blast
qed

theorem utf8_decode_exact_witness:
  "fst (snd (utf8_decode [CHR 0xE2, CHR 0x82, CHR 0xAC, CHR ''!''])) = 0"
proof -
  have l: "lead_byte CHR 0xE2" by (simp add: lead_byte_def)
  have "scalar 0x20AC" by (simp add: scalar_def)
  moreover have "utf8_encode 0x20AC = [CHR 0xE2, CHR 0x82, CHR 0xAC]"
    by (simp add: utf8_encode_def utf8_bytes_def char_of_eq)
  ultimately have "\<exists>cp'. scalar cp' \<and> take (length (utf8_encode cp')) [CHR 0xE2, CHR 0x82, CHR 0xAC, CHR ''!''] = utf8_encode cp'"
    by (intro exI [of _ "0x20AC"]) simp
  then show ?thesis
    using utf8_decode_exact [OF l, of "CHR 0x82" "CHR 0xAC" "CHR ''!''" "[]"] by (auto split: prod.splits)
qed

section \<open>The width of a text\<close>

text \<open>A text that is the encoding of scalar values has the width of these.\<close>

lemma utf8_encode_nonempty: "0 < length (utf8_encode cp)" "length (utf8_encode cp) \<le> 4"
  by (simp_all add: length_utf8_encode)

lemma four_chars: "4 \<le> length t \<Longrightarrow> \<exists>a b c d r. t = a # b # c # d # r"
  by (auto simp: Suc_le_length_iff numeral_eq_Suc)

lemma decode_cp_encode:
  assumes "scalar cp" "4 \<le> length (utf8_encode cp @ rest)"
  shows "decode_cp (utf8_encode cp @ rest) = (cp, length (utf8_encode cp))"
proof -
  obtain a b c d r where r: "utf8_encode cp @ rest = a # b # c # d # r"
    using four_chars [OF assms(2)] by blast
  show ?thesis using decode_encode [OF assms(1) r] unfolding r by (simp add: decode_cp_def)
qed

definition encode_all :: "nat list \<Rightarrow> string" where
  "encode_all cps = concat (map utf8_encode cps)"

lemma block_loop_encode:
  assumes "\<forall>cp\<in>set cps. scalar cp"
  shows "\<exists>ds es. block_loop (encode_all cps) = (ds, encode_all es) \<and> cps = ds @ es \<and> length (encode_all es) < 4"
  using assms
proof (induction cps)
  case Nil
  then show ?case by (subst block_loop.simps) (simp add: encode_all_def)
next
  case (Cons cp cps)
  have enc: "encode_all (cp # cps) = utf8_encode cp @ encode_all cps" by (simp add: encode_all_def)
  show ?case
  proof (cases "length (encode_all (cp # cps)) < 4")
    case True
    then show ?thesis by (intro exI [of _ "[]"] exI [of _ "cp # cps"]) (subst block_loop.simps, simp)
  next
    case False
    then have "decode_cp (encode_all (cp # cps)) = (cp, length (utf8_encode cp))"
      using decode_cp_encode [of cp "encode_all cps"] Cons.prems enc by simp
    moreover obtain ds es where "block_loop (encode_all cps) = (ds, encode_all es)" "cps = ds @ es" "length (encode_all es) < 4"
      using Cons by auto
    moreover have "drop (length (utf8_encode cp)) (encode_all (cp # cps)) = encode_all cps" by (simp add: enc)
    ultimately have "block_loop (encode_all (cp # cps)) = (cp # ds, encode_all es)" "cp # cps = (cp # ds) @ es"
        "length (encode_all es) < 4"
      using False by (subst block_loop.simps, simp_all)
    then show ?thesis by blast
  qed
qed

lemma tail_loop_encode:
  assumes "\<forall>cp\<in>set cps. scalar cp" "cps \<noteq> []" "length (pre @ encode_all cps) \<le> 3" "length zs = 7 - length (pre @ encode_all cps)"
  shows "tail_loop (pre @ encode_all cps @ zs) (length pre) (length (pre @ encode_all cps)) = cps"
  using assms
proof (induction cps arbitrary: pre)
  case (Cons cp cps)
  have enc: "encode_all (cp # cps) = utf8_encode cp @ encode_all cps" by (simp add: encode_all_def)
  have "decode_cp (utf8_encode cp @ encode_all cps @ zs) = (cp, length (utf8_encode cp))"
    using Cons.prems enc by (intro decode_cp_encode) auto
  moreover have "tail_loop ((pre @ utf8_encode cp) @ encode_all cps @ zs) (length (pre @ utf8_encode cp))
      (length ((pre @ utf8_encode cp) @ encode_all cps)) = cps" if "cps \<noteq> []"
    using Cons.prems that enc by (intro Cons.IH) auto
  moreover have "0 < length (encode_all cps)" if "cps \<noteq> []"
    using that utf8_encode_nonempty by (cases cps) (auto simp: encode_all_def)
  ultimately show ?case using enc
    by (subst tail_loop.simps) (cases "cps = []"; simp add: encode_all_def Let_def)
qed simp

lemma for_each_codepoint_encode:
  assumes "\<forall>cp\<in>set cps. scalar cp"
  shows "for_each_codepoint (encode_all cps) = cps"
proof -
  obtain ds es where b: "block_loop (encode_all cps) = (ds, encode_all es)" "cps = ds @ es" "length (encode_all es) < 4"
    using block_loop_encode [OF assms] by blast
  show ?thesis
  proof (cases "es = []")
    case True
    then show ?thesis using b by (simp add: for_each_codepoint_def encode_all_def)
  next
    case False
    then have "0 < length (encode_all es)" using utf8_encode_nonempty by (cases es) (auto simp: encode_all_def)
    moreover have "tail_loop (encode_all es @ replicate (7 - length (encode_all es)) CHR 0x00) 0 (length (encode_all es)) = es"
      using tail_loop_encode [of es "[]" "replicate (7 - length (encode_all es)) CHR 0x00"] assms b False by simp
    ultimately show ?thesis using b by (simp add: for_each_codepoint_def Let_def)
  qed
qed

end
