(* ===== verification/FmtWrite.thy ===== *)
theory FmtWrite
  imports FmtUtf8
begin

text \<open>
  The writers of \<open>fmt/bundled/format.h\<close>: padding with a fill, integers in every base with sign, prefix, precision and digit grouping, characters, strings,
  booleans and pointers.  A writer appends to an output iterator; its model is the text it
  appends.  No locale is passed to the formatting functions, so that the locale of a call and the default one a boolean is
  written with are the same.  A number is a natural below \<open>2 ^ 32\<close> or \<open>2 ^ 64\<close>, \<open>w\<close> being the width of its type; the
  prefix of a number is packed into a 32-bit word as in the code.  Floating point is not
  modelled.  The lemmas compare the writers with a plain notation of numbers.
\<close>

section \<open>Padding\<close>

definition fill_n :: "nat \<Rightarrow> fill_t \<Rightarrow> string" where
  "fill_n n f =
     (if fill_size f = 1 then replicate n (fill_data f ! 0)
      else concat (replicate n (take (fill_size f) (fill_data f))))"

text \<open>The shifts by alignment, \<open>right\<close> being the default of the call; the fifth is the terminating zero.\<close>

definition shifts :: "bool \<Rightarrow> nat list" where
  "shifts right = (if right then [0x00, 0x1f, 0x00, 0x01, 0x00] else [0x1f, 0x1f, 0x00, 0x01, 0x00])"

definition align_index :: "align_t \<Rightarrow> nat" where
  "align_index a = (case a of Align_none \<Rightarrow> 0 | Align_left \<Rightarrow> 1 | Align_right \<Rightarrow> 2 | Align_center \<Rightarrow> 3 | Align_numeric \<Rightarrow> 4)"

definition write_padded :: "bool \<Rightarrow> format_specs \<Rightarrow> nat \<Rightarrow> string \<Rightarrow> string" where
  "write_padded right specs width content =
     (let spec_width = nat (fs_width specs);
          padding = (if spec_width > width then spec_width - width else 0);
          left_padding = drop_bit (shifts right ! align_index (fs_align specs)) padding;
          right_padding = padding - left_padding
      in (if left_padding \<noteq> 0 then fill_n left_padding (fs_fill specs) else []) @ content @
         (if right_padding \<noteq> 0 then fill_n right_padding (fs_fill specs) else []))"

definition write_bytes :: "string \<Rightarrow> format_specs \<Rightarrow> string" where
  "write_bytes bytes specs = write_padded False specs (length bytes) bytes"

definition write_char :: "char \<Rightarrow> format_specs \<Rightarrow> string" where
  "write_char c specs = write_padded False specs 1 [c]"

section \<open>Digits in a power of two\<close>

datatype radix = Binary | Octal | Hex

definition base_bits :: "radix \<Rightarrow> nat" where
  "base_bits b = (case b of Binary \<Rightarrow> 1 | Octal \<Rightarrow> 3 | Hex \<Rightarrow> 4)"

definition digit_char :: "radix \<Rightarrow> bool \<Rightarrow> nat \<Rightarrow> char" where
  "digit_char b upper d =
     (if base_bits b < 4 then char_of (48 + d)
      else (if upper then ''0123456789ABCDEF'' else ''0123456789abcdef'') ! d)"

text \<open>The loop of \<open>format_uint\<close> writes from the end of the buffer; \<open>written\<close> is what is there already.\<close>

function uint_loop :: "radix \<Rightarrow> bool \<Rightarrow> nat \<Rightarrow> string \<Rightarrow> string" where
  "uint_loop b upper v written =
     (let digit = v AND (2 ^ base_bits b - 1);
          written = digit_char b upper digit # written;
          v = drop_bit (base_bits b) v
      in if v \<noteq> 0 then uint_loop b upper v written else written)"
  by pat_completeness auto

termination
  by (relation "measure (\<lambda>(b, u, v, w). v)") (auto simp: base_bits_def drop_bit_eq_div split: radix.splits)

declare uint_loop.simps [simp del]

text \<open>
  The buffer has \<open>num_digits\<close> characters: more digits would be written before its beginning, and
  with fewer its beginning would not be written.
\<close>

definition format_uint :: "radix \<Rightarrow> bool \<Rightarrow> nat \<Rightarrow> nat \<Rightarrow> string res" where
  "format_uint b upper v num_digits =
     (let digits = uint_loop b upper v [] in
      if num_digits < length digits then Inl OutOfBounds
      else if length digits < num_digits then Inl Uninitialised
      else Inr digits)"

function count_bits_loop :: "radix \<Rightarrow> nat \<Rightarrow> nat \<Rightarrow> nat" where
  "count_bits_loop b m num_digits =
     (let num_digits = num_digits + 1; m = drop_bit (base_bits b) m in
      if m \<noteq> 0 then count_bits_loop b m num_digits else num_digits)"
  by pat_completeness auto

termination
  by (relation "measure (\<lambda>(b, m, n). m)") (auto simp: base_bits_def drop_bit_eq_div split: radix.splits)

declare count_bits_loop.simps [simp del]

text \<open>\<open>count_digits<BITS>\<close>: from the highest bit for 32-bit types, by a loop for wider ones.\<close>

definition count_digits_radix :: "radix \<Rightarrow> nat \<Rightarrow> nat \<Rightarrow> nat" where
  "count_digits_radix b w n =
     (if w = 32 then bsr (or_one n) div base_bits b + 1 else count_bits_loop b n 0)"

definition count_digits :: "nat \<Rightarrow> nat \<Rightarrow> nat" where
  "count_digits w n = (if w = 32 then do_count_digits32 n else do_count_digits64 n)"

text \<open>\<open>write_ptr\<close>: the address in hexadecimal.\<close>

definition write_ptr :: "nat \<Rightarrow> format_specs option \<Rightarrow> string res" where
  "write_ptr value specs =
     (let num_digits = count_digits_radix Hex 64 value; size' = num_digits + 2 in
      bind_res (format_uint Hex False value num_digits) (\<lambda>ds.
        let content = ''0x'' @ ds in
        Inr (case specs of Some sp \<Rightarrow> write_padded True sp size' content | None \<Rightarrow> content)))"

section \<open>Integers\<close>

text \<open>The prefix word: up to three characters in the low bytes, their number in the high one.\<close>

definition prefix_append :: "u32 \<Rightarrow> u32 \<Rightarrow> u32" where
  "prefix_append prefix v =
     (let prefix = prefix OR (if prefix \<noteq> 0 then push_bit 8 v else v)
      in prefix + push_bit 24 (1 + (if v > 0xff then 1 else 0)))"

definition char_word :: "char \<Rightarrow> u32" where "char_word c = of_nat (of_char c)"

text \<open>\<open>make_write_int_arg\<close> for an integer type of \<open>w\<close> bits: the magnitude and the sign as a prefix.\<close>

definition make_write_int_arg :: "nat \<Rightarrow> int \<Rightarrow> sign_t \<Rightarrow> nat \<times> u32" where
  "make_write_int_arg w v sgn' =
     (let abs_value = v mod 2 ^ w in
      if v < 0 then (nat ((0 - abs_value) mod 2 ^ w), 0x01000000 OR char_word CHR ''-'')
      else (nat abs_value,
            (case sgn' of Sign_none \<Rightarrow> 0 | Sign_minus \<Rightarrow> 0
             | Sign_plus \<Rightarrow> 0x1000000 OR char_word CHR ''+'' | Sign_space \<Rightarrow> 0x1000000 OR char_word CHR '' '')))"

function prefix_chars :: "nat \<Rightarrow> string" where
  "prefix_chars p = (if p \<noteq> 0 then char_of (p AND 0xff) # prefix_chars (drop_bit 8 p) else [])"
  by pat_completeness auto

termination by (relation "measure id") (auto simp: drop_bit_eq_div)

declare prefix_chars.simps [simp del]

definition write_prefix :: "u32 \<Rightarrow> string" where
  "write_prefix prefix = prefix_chars (unat (prefix AND 0xffffff))"

definition write_int_data :: "nat \<Rightarrow> u32 \<Rightarrow> format_specs \<Rightarrow> nat \<times> nat" where
  "write_int_data num_digits prefix specs =
     (let sz = unat (drop_bit 24 prefix) + num_digits in
      if fs_align specs = Align_numeric then
        let width = nat (fs_width specs) in
        if width > sz then (width, width - sz) else (sz, 0)
      else if fs_precision specs > int num_digits then
        (unat (drop_bit 24 prefix) + nat (fs_precision specs), nat (fs_precision specs - int num_digits))
      else (sz, 0))"

text \<open>\<open>write_int\<close> with the digits given; the first case is the faster one for plain specifications.\<close>

definition write_int_digits :: "nat \<Rightarrow> u32 \<Rightarrow> format_specs \<Rightarrow> string res \<Rightarrow> string res" where
  "write_int_digits num_digits prefix specs write_digits =
     (if fs_width specs = 0 \<and> fs_precision specs = -1 then
        bind_res write_digits (\<lambda>ds. Inr ((if prefix \<noteq> 0 then write_prefix prefix else []) @ ds))
      else
        let (sz, padding) = write_int_data num_digits prefix specs in
        bind_res write_digits (\<lambda>ds.
          Inr (write_padded True specs sz (write_prefix prefix @ replicate padding CHR ''0'' @ ds))))"

section \<open>Digit grouping\<close>

text \<open>What the locale gives: the sizes of the groups, and the separator, zero when there are no groups.\<close>

record thousands_sep_result =
  ts_grouping :: "int list"
  ts_sep :: char

definition thousands_sep_impl :: "int list \<Rightarrow> char \<Rightarrow> thousands_sep_result" where
  "thousands_sep_impl grouping sep =
     \<lparr>ts_grouping = grouping, ts_sep = (if grouping = [] then CHR 0x00 else sep)\<rparr>"

definition char_max :: int where "char_max = 127"

text \<open>The state is the rest of the groups and the position; \<open>back\<close> of an empty grouping is undefined.\<close>

definition grouping_next :: "thousands_sep_result \<Rightarrow> int list \<times> int \<Rightarrow> (int \<times> int list \<times> int) res" where
  "grouping_next t st =
     (case st of (grp, pos) \<Rightarrow>
        if ts_sep t = CHR 0x00 then Inr (int_max, grp, pos)
        else case grp of
          [] \<Rightarrow>
            if ts_grouping t = [] then Inl EmptyContainer
            else let pos = pos + last (ts_grouping t) in Inr (pos, [], pos)
        | g # rest \<Rightarrow>
            if g \<le> 0 \<or> g = char_max then Inr (int_max, grp, pos)
            else Inr (pos + g, rest, pos + g))"

partial_function (option) count_loop :: "thousands_sep_result \<Rightarrow> int \<Rightarrow> nat \<Rightarrow> int list \<times> int \<Rightarrow> nat res option" where
  "count_loop t num_digits n st =
     (case grouping_next t st of
        Inl e \<Rightarrow> Some (Inl e)
      | Inr (i, st') \<Rightarrow>
          if num_digits > i then count_loop t num_digits (n + 1) st' else Some (Inr n))"

definition count_separators :: "thousands_sep_result \<Rightarrow> int \<Rightarrow> nat res option" where
  "count_separators t num_digits = count_loop t num_digits 0 (ts_grouping t, 0)"

partial_function (option) separators_loop ::
  "thousands_sep_result \<Rightarrow> int \<Rightarrow> int list \<Rightarrow> int list \<times> int \<Rightarrow> int list res option" where
  "separators_loop t num_digits separators st =
     (case grouping_next t st of
        Inl e \<Rightarrow> Some (Inl e)
      | Inr (i, st') \<Rightarrow>
          if i = 0 \<or> i \<ge> num_digits then Some (Inr separators)
          else separators_loop t num_digits (separators @ [i]) st')"

declare count_loop.simps [code] separators_loop.simps [code]

text \<open>The second loop of \<open>apply\<close>; \<open>sep_index\<close> stays in range because the first separator is 0.\<close>

fun apply_loop :: "thousands_sep_result \<Rightarrow> int list \<Rightarrow> int \<Rightarrow> string \<Rightarrow> string res" where
  "apply_loop t separators sep_index [] = Inr []"
| "apply_loop t separators sep_index (d # ds) =
     (if sep_index < 0 \<or> int (length separators) \<le> sep_index then Inl OutOfBounds
      else if int (length (d # ds)) = separators ! nat sep_index
      then bind_res (apply_loop t separators (sep_index - 1) ds) (\<lambda>r. Inr (ts_sep t # d # r))
      else bind_res (apply_loop t separators sep_index ds) (\<lambda>r. Inr (d # r)))"

definition grouping_apply :: "thousands_sep_result \<Rightarrow> string \<Rightarrow> string res option" where
  "grouping_apply t digits =
     (case separators_loop t (int (length digits)) [0] (ts_grouping t, 0) of
        None \<Rightarrow> None
      | Some (Inl e) \<Rightarrow> Some (Inl e)
      | Some (Inr separators) \<Rightarrow> Some (apply_loop t separators (int (length separators) - 1) digits))"

text \<open>\<open>write_int_localized\<close>: the prefix is a single character, the sign.\<close>

definition write_int_localized :: "nat \<Rightarrow> u32 \<Rightarrow> format_specs \<Rightarrow> thousands_sep_result \<Rightarrow> string res option" where
  "write_int_localized v prefix specs t =
     (let num_digits = do_count_digits64 v in
      case (format_decimal v num_digits, count_separators t (int num_digits)) of
        (Inl e, _) \<Rightarrow> Some (Inl e)
      | (Inr digits, None) \<Rightarrow> None
      | (Inr digits, Some (Inl e)) \<Rightarrow> Some (Inl e)
      | (Inr digits, Some (Inr n)) \<Rightarrow>
          (let sz = (if prefix \<noteq> 0 then 1 else 0) + num_digits + n in
           case grouping_apply t digits of
             None \<Rightarrow> None
           | Some r \<Rightarrow> Some (bind_res r (\<lambda>ds.
               Inr (write_padded True specs sz ((if prefix \<noteq> 0 then [char_of (unat (prefix AND 0xff))] else []) @ ds))))))"

section \<open>Integers by presentation type\<close>

text \<open>The cases of \<open>write_int\<close> for hexadecimal and binary; \<open>c\<close> is the letter of the prefix.\<close>

definition write_radix :: "radix \<Rightarrow> bool \<Rightarrow> char \<Rightarrow> nat \<Rightarrow> nat \<Rightarrow> u32 \<Rightarrow> format_specs \<Rightarrow> string res" where
  "write_radix b upper c w abs_value prefix specs =
     (let prefix = (if fs_alt specs then prefix_append prefix (push_bit 8 (char_word c) OR char_word CHR ''0'') else prefix);
          num_digits = count_digits_radix b w abs_value
      in write_int_digits num_digits prefix specs (format_uint b upper abs_value num_digits))"

text \<open>\<open>write_int\<close>; \<open>None\<close> would be a locale whose groups never come to an end.\<close>

definition write_int :: "nat \<Rightarrow> nat \<times> u32 \<Rightarrow> format_specs \<Rightarrow> thousands_sep_result \<Rightarrow> string res option" where
  "write_int w a specs t =
     (case a of (abs_value, prefix) \<Rightarrow>
      (case fs_type specs of
         Type_none \<Rightarrow>
           if fs_localized specs then write_int_localized abs_value prefix specs t
           else let num_digits = count_digits w abs_value in
             Some (write_int_digits num_digits prefix specs (format_decimal abs_value num_digits))
       | Type_dec \<Rightarrow>
           if fs_localized specs then write_int_localized abs_value prefix specs t
           else let num_digits = count_digits w abs_value in
             Some (write_int_digits num_digits prefix specs (format_decimal abs_value num_digits))
       | Type_hex_lower \<Rightarrow> Some (write_radix Hex False CHR ''x'' w abs_value prefix specs)
       | Type_hex_upper \<Rightarrow> Some (write_radix Hex True CHR ''X'' w abs_value prefix specs)
       | Type_bin_lower \<Rightarrow> Some (write_radix Binary False CHR ''b'' w abs_value prefix specs)
       | Type_bin_upper \<Rightarrow> Some (write_radix Binary False CHR ''B'' w abs_value prefix specs)
       | Type_oct \<Rightarrow>
           let num_digits = count_digits_radix Octal w abs_value;
               prefix = (if fs_alt specs \<and> fs_precision specs \<le> int num_digits \<and> abs_value \<noteq> 0
                         then prefix_append prefix (char_word CHR ''0'') else prefix)
           in Some (write_int_digits num_digits prefix specs (format_uint Octal False abs_value num_digits))
       | Type_chr \<Rightarrow> Some (Inr (write_char (char_of (abs_value mod 256)) specs))
       | _ \<Rightarrow> Some (throw_format_error ''invalid type specifier'')))"

section \<open>Writing a value under a specification\<close>

definition write_integer :: "nat \<Rightarrow> int \<Rightarrow> format_specs \<Rightarrow> thousands_sep_result \<Rightarrow> string res option" where
  "write_integer w v specs t = write_int w (make_write_int_arg w v (fs_sign specs)) specs t"

definition integer_type :: "presentation_type \<Rightarrow> bool" where
  "integer_type t \<longleftrightarrow> t \<in> {Type_none, Type_dec, Type_oct, Type_hex_lower, Type_hex_upper, Type_bin_lower, Type_bin_upper}"

definition check_int_type_spec :: "presentation_type \<Rightarrow> unit res" where
  "check_int_type_spec t =
     (if \<not> integer_type t \<and> t \<noteq> Type_chr then throw_format_error ''invalid type specifier'' else Inr ())"

definition check_char_specs :: "format_specs \<Rightarrow> bool res" where
  "check_char_specs specs =
     (if fs_type specs \<noteq> Type_none \<and> fs_type specs \<noteq> Type_chr
      then bind_res (check_int_type_spec (fs_type specs)) (\<lambda>_. Inr False)
      else if fs_align specs = Align_numeric \<or> fs_sign specs \<noteq> Sign_none \<or> fs_alt specs
      then throw_format_error ''invalid format specifier for char''
      else Inr True)"

definition check_cstring_type_spec :: "presentation_type \<Rightarrow> bool res" where
  "check_cstring_type_spec t =
     (if t = Type_none \<or> t = Type_string then Inr True
      else if t \<noteq> Type_pointer then throw_format_error ''invalid type specifier''
      else Inr False)"

definition check_string_type_spec :: "presentation_type \<Rightarrow> unit res" where
  "check_string_type_spec t =
     (if t \<noteq> Type_none \<and> t \<noteq> Type_string then throw_format_error ''invalid type specifier'' else Inr ())"

definition check_pointer_type_spec :: "presentation_type \<Rightarrow> unit res" where
  "check_pointer_type_spec t =
     (if t \<noteq> Type_none \<and> t \<noteq> Type_pointer then throw_format_error ''invalid type specifier'' else Inr ())"

text \<open>A \<open>char\<close> is signed; as an integer it is converted to \<open>int\<close>.\<close>

definition char_value :: "char \<Rightarrow> int" where
  "char_value c = (let n = of_char c in if n < 128 then n else n - 256)"

definition write_char_arg :: "char \<Rightarrow> format_specs \<Rightarrow> thousands_sep_result \<Rightarrow> string res option" where
  "write_char_arg c specs t =
     (case check_char_specs specs of
        Inl e \<Rightarrow> Some (Inl e)
      | Inr True \<Rightarrow> Some (Inr (write_char c specs))
      | Inr False \<Rightarrow> write_integer 32 (char_value c) specs t)"

definition write_bool :: "bool \<Rightarrow> format_specs \<Rightarrow> thousands_sep_result \<Rightarrow> string res option" where
  "write_bool b specs t =
     (if fs_type specs \<noteq> Type_none \<and> fs_type specs \<noteq> Type_string then write_integer 32 (if b then 1 else 0) specs t
      else Some (Inr (write_bytes (if b then ''true'' else ''false'') specs)))"

definition write_string :: "string \<Rightarrow> format_specs \<Rightarrow> string" where
  "write_string s specs =
     (let sz = (if 0 \<le> fs_precision specs \<and> nat (fs_precision specs) < length s
                then code_point_index s (nat (fs_precision specs)) else length s);
          width = (if fs_width specs \<noteq> 0 then compute_width (take sz s) else 0)
      in write_padded False specs width (take sz s))"

definition write_string_arg :: "string \<Rightarrow> format_specs \<Rightarrow> string res" where
  "write_string_arg s specs =
     bind_res (check_string_type_spec (fs_type specs)) (\<lambda>_. Inr (write_string s specs))"

text \<open>A C string is its address and its text; constructing a view of a null pointer reads through it.\<close>

definition write_cstring :: "nat \<Rightarrow> string \<Rightarrow> format_specs \<Rightarrow> string res" where
  "write_cstring p s specs =
     bind_res (check_cstring_type_spec (fs_type specs)) (\<lambda>str.
       if str then (if p = 0 then Inl NullDeref else Inr (write_string s specs))
       else write_ptr p (Some specs))"

definition write_pointer :: "nat \<Rightarrow> format_specs \<Rightarrow> string res" where
  "write_pointer p specs =
     bind_res (check_pointer_type_spec (fs_type specs)) (\<lambda>_. write_ptr p (Some specs))"

section \<open>Writing a value without a specification\<close>

definition write_plain_int :: "nat \<Rightarrow> int \<Rightarrow> string res" where
  "write_plain_int w v =
     (let abs_value = nat (v mod 2 ^ w);
          negative = v < 0;
          abs_value = (if negative then (2 ^ w - 1 - abs_value + 1) mod 2 ^ w else abs_value);
          num_digits = count_digits w abs_value
      in bind_res (format_decimal abs_value num_digits) (\<lambda>ds. Inr ((if negative then ''-'' else []) @ ds)))"

definition write_plain_cstring :: "nat \<Rightarrow> string \<Rightarrow> string res" where
  "write_plain_cstring p s =
     (if p = 0 then throw_format_error ''string pointer is null'' else Inr s)"

section \<open>Notation in a power of two\<close>

lemma base_bits_pos [simp]: "0 < base_bits b"
  by (simp add: base_bits_def split: radix.split)

lemma base_gt_one: "1 < (2 :: nat) ^ base_bits b"
  by (rule one_less_power) simp_all

text \<open>The reference: the digits of a number, most significant first.\<close>

function radix_digits :: "radix \<Rightarrow> bool \<Rightarrow> nat \<Rightarrow> string" where
  "radix_digits b upper n =
     (if n < 2 ^ base_bits b then [digit_char b upper n]
      else radix_digits b upper (n div 2 ^ base_bits b) @ [digit_char b upper (n mod 2 ^ base_bits b)])"
  by pat_completeness auto

termination
proof (relation "measure (\<lambda>(b, u, n). n)", simp)
  fix b :: radix and upper n assume "\<not> n < (2 :: nat) ^ base_bits b"
  then have "0 < n" by (cases n) auto
  then show "((b, upper, n div 2 ^ base_bits b), b, upper, n) \<in> measure (\<lambda>(b, u, n). n)"
    using base_gt_one [of b] by (simp add: div_less_dividend)
qed

declare radix_digits.simps [simp del]

lemma radix_digits_nonempty [simp]: "radix_digits b u n \<noteq> []"
  by (subst radix_digits.simps) simp

lemma uint_loop_radix_digits: "uint_loop b u v written = radix_digits b u v @ written"
proof (induction b u v written rule: uint_loop.induct)
  case (1 b u v written)
  have m: "v AND (2 ^ base_bits b - 1) = v mod 2 ^ base_bits b"
    using take_bit_eq_mask [of "base_bits b" v] by (simp add: mask_eq_exp_minus_1 take_bit_eq_mod)
  show ?case
  proof (cases "v < 2 ^ base_bits b")
    case True
    then show ?thesis using m by (subst uint_loop.simps, subst radix_digits.simps) (simp add: Let_def drop_bit_eq_div)
  next
    case False
    then have "v div 2 ^ base_bits b \<noteq> 0" by (simp add: div_eq_0_iff)
    then show ?thesis using 1 m False
      by (subst uint_loop.simps, subst radix_digits.simps) (simp add: Let_def drop_bit_eq_div)
  qed
qed

lemma count_bits_loop_radix_digits: "count_bits_loop b m n = n + length (radix_digits b u m)"
proof (induction b m n rule: count_bits_loop.induct)
  case (1 b m n)
  show ?case
  proof (cases "m < 2 ^ base_bits b")
    case True
    then show ?thesis by (subst count_bits_loop.simps, subst radix_digits.simps) (simp add: Let_def drop_bit_eq_div)
  next
    case False
    then have "m div 2 ^ base_bits b \<noteq> 0" by (simp add: div_eq_0_iff)
    then show ?thesis using 1 False
      by (subst count_bits_loop.simps, subst radix_digits.simps) (simp add: Let_def drop_bit_eq_div)
  qed
qed

lemma radix_digits_length_bounds:
  "n < 2 ^ (base_bits b * length (radix_digits b u n)) \<and>
   (length (radix_digits b u n) = 1 \<or> 2 ^ (base_bits b * (length (radix_digits b u n) - 1)) \<le> n)"
proof (induction b u n rule: radix_digits.induct)
  case (1 b u n)
  let ?B = "(2 :: nat) ^ base_bits b"
  show ?case
  proof (cases "n < ?B")
    case True
    then show ?thesis by (simp add: radix_digits.simps)
  next
    case False
    let ?l = "length (radix_digits b u (n div ?B))"
    have len: "length (radix_digits b u n) = Suc ?l" using False by (subst radix_digits.simps) simp
    have l: "0 < ?l" by simp
    have ih: "n div ?B < 2 ^ (base_bits b * ?l)" "?l = 1 \<or> 2 ^ (base_bits b * (?l - 1)) \<le> n div ?B"
      using 1 [OF False] by auto
    have "n < ?B * 2 ^ (base_bits b * ?l)"
      using ih(1) by (simp add: div_less_iff_less_mult mult.commute)
    then have up: "n < 2 ^ (base_bits b * Suc ?l)" by (simp add: power_add)
    have "2 ^ (base_bits b * ?l) \<le> n"
    proof (cases "?l = 1")
      case True
      then show ?thesis using False by simp
    next
      case False
      then have "?B * 2 ^ (base_bits b * (?l - 1)) \<le> n"
        using ih(2) by (metis mult.commute less_eq_div_iff_mult_less_eq zero_less_power zero_less_numeral)
      moreover have "?B * 2 ^ (base_bits b * (?l - 1)) = 2 ^ (base_bits b * ?l)"
        using l by (metis Suc_diff_1 mult_Suc_right power_add)
      ultimately show ?thesis by simp
    qed
    then show ?thesis using up len by simp
  qed
qed

lemma radix_digits_length_unique:
  assumes "n < 2 ^ (base_bits b * d)" "0 < d" "d = 1 \<or> 2 ^ (base_bits b * (d - 1)) \<le> n"
  shows "length (radix_digits b u n) = d"
proof -
  let ?l = "length (radix_digits b u n)"
  have b: "n < 2 ^ (base_bits b * ?l)" "?l = 1 \<or> 2 ^ (base_bits b * (?l - 1)) \<le> n" "0 < ?l"
    using radix_digits_length_bounds [of n b u] by auto
  have "d - 1 < ?l"
  proof (cases "d = 1")
    case False
    then have "(2 :: nat) ^ (base_bits b * (d - 1)) < 2 ^ (base_bits b * ?l)" using assms(3) b(1) by linarith
    then show ?thesis by simp
  qed (use b(3) in simp)
  moreover have "?l - 1 < d"
  proof (cases "?l = 1")
    case False
    then have "(2 :: nat) ^ (base_bits b * (?l - 1)) < 2 ^ (base_bits b * d)" using assms(1) b(2) by linarith
    then show ?thesis by simp
  qed (use assms(2) in simp)
  ultimately show ?thesis by linarith
qed

lemma count_digits_radix_radix_digits:
  assumes "w = 32 \<and> n < 2 ^ 32 \<or> w = 64"
  shows "count_digits_radix b w n = length (radix_digits b u n)"
proof (cases "w = 32")
  case False
  then show ?thesis using assms count_bits_loop_radix_digits [of b n 0 u] by (simp add: count_digits_radix_def)
next
  case True
  let ?k = "bsr (or_one n)"
  have n: "n < 2 ^ Suc 31" using True assms by simp
  note b = or_one_bsr [OF n]
  have "length (radix_digits b u n) = ?k div base_bits b + 1"
  proof (rule radix_digits_length_unique)
    have "Suc ?k \<le> base_bits b * (?k div base_bits b + 1)"
      using dividend_less_times_div [of "base_bits b" ?k] by (simp add: ac_simps)
    then have "(2 :: nat) ^ Suc ?k \<le> 2 ^ (base_bits b * (?k div base_bits b + 1))" by (intro power_increasing) auto
    then show "n < 2 ^ (base_bits b * (?k div base_bits b + 1))" using b(2) by linarith
  next
    show "?k div base_bits b + 1 = 1 \<or> 2 ^ (base_bits b * (?k div base_bits b + 1 - 1)) \<le> n"
    proof (cases "n = 0")
      case True
      then show ?thesis by (simp add: or_one_def bsr.simps)
    next
      case False
      have "(2 :: nat) ^ (base_bits b * (?k div base_bits b)) \<le> 2 ^ ?k" by (intro power_increasing) auto
      then have "(2 :: nat) ^ (base_bits b * (?k div base_bits b)) \<le> n" using b(3) False by linarith
      then show ?thesis by simp
    qed
  qed simp
  then show ?thesis using True by (simp add: count_digits_radix_def)
qed

lemma format_uint_radix_digits:
  "w = 32 \<and> n < 2 ^ 32 \<or> w = 64 \<Longrightarrow> format_uint b u n (count_digits_radix b w n) = Inr (radix_digits b u n)"
  by (simp add: format_uint_def uint_loop_radix_digits count_digits_radix_radix_digits [of w n b u])

lemma count_digits_dec: "n < 2 ^ w \<Longrightarrow> w = 32 \<or> w = 64 \<Longrightarrow> count_digits w n = length (dec n)"
  by (auto simp: count_digits_def count_digits32 count_digits64)

section \<open>Integers: the reference\<close>

definition sign_text :: "int \<Rightarrow> sign_t \<Rightarrow> string" where
  "sign_text v s =
     (if v < 0 then ''-'' else case s of Sign_plus \<Rightarrow> ''+'' | Sign_space \<Rightarrow> '' '' | _ \<Rightarrow> '''')"

definition int_digits :: "presentation_type \<Rightarrow> nat \<Rightarrow> string" where
  "int_digits t n =
     (case t of
        Type_oct \<Rightarrow> radix_digits Octal False n
      | Type_hex_lower \<Rightarrow> radix_digits Hex False n
      | Type_hex_upper \<Rightarrow> radix_digits Hex True n
      | Type_bin_lower \<Rightarrow> radix_digits Binary False n
      | Type_bin_upper \<Rightarrow> radix_digits Binary False n
      | _ \<Rightarrow> dec n)"

text \<open>The prefix of the alternate form; in octal the zero is a digit and depends on the precision.\<close>

definition base_prefix :: "format_specs \<Rightarrow> nat \<Rightarrow> string" where
  "base_prefix specs n =
     (if \<not> fs_alt specs then ''''
      else case fs_type specs of
        Type_hex_lower \<Rightarrow> ''0x'' | Type_hex_upper \<Rightarrow> ''0X'' | Type_bin_lower \<Rightarrow> ''0b'' | Type_bin_upper \<Rightarrow> ''0B''
      | Type_oct \<Rightarrow>
          if fs_precision specs \<le> int (length (int_digits Type_oct n)) \<and> n \<noteq> 0 then ''0'' else ''''
      | _ \<Rightarrow> '''')"

text \<open>Sign, prefix, zeros up to the width (numeric alignment) or the precision, digits.\<close>

definition zeros_before :: "format_specs \<Rightarrow> string \<Rightarrow> string \<Rightarrow> nat" where
  "zeros_before specs lead ds =
     (if fs_align specs = Align_numeric then nat (fs_width specs) - length (lead @ ds)
      else nat (fs_precision specs) - length ds)"

definition int_text :: "int \<Rightarrow> format_specs \<Rightarrow> string" where
  "int_text v specs =
     (let n = nat \<bar>v\<bar>; ds = int_digits (fs_type specs) n;
          lead = sign_text v (fs_sign specs) @ base_prefix specs n
      in lead @ replicate (zeros_before specs lead ds) CHR ''0'' @ ds)"

definition specs_ok :: "format_specs \<Rightarrow> bool" where
  "specs_ok specs \<longleftrightarrow> 0 \<le> fs_width specs \<and> fs_width specs \<le> int_max \<and> -1 \<le> fs_precision specs"

text \<open>The value of a signed or unsigned type of 32 or 64 bits.\<close>

definition int_fits :: "nat \<Rightarrow> int \<Rightarrow> bool" where
  "int_fits w v \<longleftrightarrow> (w = 32 \<or> w = 64) \<and> - (2 ^ (w - 1)) \<le> v \<and> v < 2 ^ w"

text \<open>A prefix word stands for a text.\<close>

definition prefix_text :: "u32 \<Rightarrow> string \<Rightarrow> bool" where
  "prefix_text p s \<longleftrightarrow> write_prefix p = s \<and> unat (drop_bit 24 p) = length s"

lemma char_codes:
  "char_of (32 :: nat) = CHR '' ''" "char_of (43 :: nat) = CHR ''+''" "char_of (45 :: nat) = CHR ''-''"
  "char_of (48 :: nat) = CHR ''0''" "char_of (66 :: nat) = CHR ''B''" "char_of (88 :: nat) = CHR ''X''"
  "char_of (98 :: nat) = CHR ''b''" "char_of (120 :: nat) = CHR ''x''"
  by code_simp+

lemmas prefix_defs = prefix_text_def write_prefix_def prefix_chars.simps char_codes

lemma prefix_text_words:
  "prefix_text 0 ''''"
  "prefix_text 0x0100002D ''-''" "prefix_text 0x0100002B ''+''" "prefix_text 0x01000020 '' ''"
  "prefix_text 0x01000030 ''0''"
  "prefix_text 0x0200302D ''-0''" "prefix_text 0x0200302B ''+0''" "prefix_text 0x02003020 '' 0''"
  by (simp_all add: prefix_defs)

lemma prefix_text_letters:
  "prefix_text 0x02007830 ''0x''" "prefix_text 0x02005830 ''0X''" "prefix_text 0x02006230 ''0b''" "prefix_text 0x02004230 ''0B''"
  "prefix_text 0x0378302D ''-0x''" "prefix_text 0x0358302D ''-0X''" "prefix_text 0x0362302D ''-0b''" "prefix_text 0x0342302D ''-0B''"
  "prefix_text 0x0378302B ''+0x''" "prefix_text 0x0358302B ''+0X''" "prefix_text 0x0362302B ''+0b''" "prefix_text 0x0342302B ''+0B''"
  "prefix_text 0x03783020 '' 0x''" "prefix_text 0x03583020 '' 0X''" "prefix_text 0x03623020 '' 0b''" "prefix_text 0x03423020 '' 0B''"
  by (simp_all add: prefix_defs)

lemma prefix_append_words:
  "prefix_append 0 (push_bit 8 (char_word CHR ''x'') OR char_word CHR ''0'') = 0x02007830"
  "prefix_append 0 (push_bit 8 (char_word CHR ''X'') OR char_word CHR ''0'') = 0x02005830"
  "prefix_append 0 (push_bit 8 (char_word CHR ''b'') OR char_word CHR ''0'') = 0x02006230"
  "prefix_append 0 (push_bit 8 (char_word CHR ''B'') OR char_word CHR ''0'') = 0x02004230"
  "prefix_append 0 (char_word CHR ''0'') = 0x01000030"
  "prefix_append 0x0100002D (push_bit 8 (char_word CHR ''x'') OR char_word CHR ''0'') = 0x0378302D"
  "prefix_append 0x0100002D (push_bit 8 (char_word CHR ''X'') OR char_word CHR ''0'') = 0x0358302D"
  "prefix_append 0x0100002D (push_bit 8 (char_word CHR ''b'') OR char_word CHR ''0'') = 0x0362302D"
  "prefix_append 0x0100002D (push_bit 8 (char_word CHR ''B'') OR char_word CHR ''0'') = 0x0342302D"
  "prefix_append 0x0100002D (char_word CHR ''0'') = 0x0200302D"
  "prefix_append 0x0100002B (push_bit 8 (char_word CHR ''x'') OR char_word CHR ''0'') = 0x0378302B"
  "prefix_append 0x0100002B (push_bit 8 (char_word CHR ''X'') OR char_word CHR ''0'') = 0x0358302B"
  "prefix_append 0x0100002B (push_bit 8 (char_word CHR ''b'') OR char_word CHR ''0'') = 0x0362302B"
  "prefix_append 0x0100002B (push_bit 8 (char_word CHR ''B'') OR char_word CHR ''0'') = 0x0342302B"
  "prefix_append 0x0100002B (char_word CHR ''0'') = 0x0200302B"
  "prefix_append 0x01000020 (push_bit 8 (char_word CHR ''x'') OR char_word CHR ''0'') = 0x03783020"
  "prefix_append 0x01000020 (push_bit 8 (char_word CHR ''X'') OR char_word CHR ''0'') = 0x03583020"
  "prefix_append 0x01000020 (push_bit 8 (char_word CHR ''b'') OR char_word CHR ''0'') = 0x03623020"
  "prefix_append 0x01000020 (push_bit 8 (char_word CHR ''B'') OR char_word CHR ''0'') = 0x03423020"
  "prefix_append 0x01000020 (char_word CHR ''0'') = 0x02003020"
  by (simp_all add: prefix_append_def char_word_def)

lemma make_write_int_arg_text:
  assumes "int_fits w v"
  shows "\<exists>p \<in> {0, 0x0100002D, 0x0100002B, 0x01000020}.
    make_write_int_arg w v s = (nat \<bar>v\<bar>, p) \<and> prefix_text p (sign_text v s)"
proof (cases "v < 0")
  case True
  have "(v + 2 ^ w) mod 2 ^ w = v + 2 ^ w"
    using assms True by (intro mod_pos_pos_trivial) (auto simp: int_fits_def)
  then have "v mod 2 ^ w = v + 2 ^ w" by simp
  then have "nat ((0 - v mod 2 ^ w) mod 2 ^ w) = nat \<bar>v\<bar>"
    using True assms by (auto simp: int_fits_def)
  then show ?thesis using True prefix_text_words(2)
    by (simp add: make_write_int_arg_def sign_text_def char_word_def)
next
  case False
  then have "v mod 2 ^ w = v" using assms by (simp add: int_fits_def)
  then show ?thesis using False prefix_text_words
    by (cases s) (simp_all add: make_write_int_arg_def sign_text_def char_word_def)
qed

lemma sign_prefixes:
  assumes "p \<in> {0, 0x0100002D, 0x0100002B, 0x01000020}" "prefix_text p s"
  shows "prefix_text (prefix_append p (char_word CHR ''0'')) (s @ ''0'')"
    and "c \<in> {CHR ''x'', CHR ''X'', CHR ''b'', CHR ''B''} \<Longrightarrow>
      prefix_text (prefix_append p (push_bit 8 (char_word c) OR char_word CHR ''0'')) (s @ [CHR ''0'', c])"
proof -
  have s: "s = write_prefix p" using assms(2) by (simp add: prefix_text_def)
  have w: "write_prefix 0 = []" "write_prefix 0x0100002D = ''-''" "write_prefix 0x0100002B = ''+''"
    "write_prefix 0x01000020 = '' ''"
    using prefix_text_words by (simp_all add: prefix_text_def)
  show "prefix_text (prefix_append p (char_word CHR ''0'')) (s @ ''0'')"
    using assms(1) unfolding s by (elim insertE emptyE) (simp_all add: w prefix_append_words prefix_text_words)
  show "prefix_text (prefix_append p (push_bit 8 (char_word c) OR char_word CHR ''0'')) (s @ [CHR ''0'', c])"
    if "c \<in> {CHR ''x'', CHR ''X'', CHR ''b'', CHR ''B''}"
    using assms(1) that unfolding s
    by (elim insertE emptyE) (simp_all only: w prefix_append_words append.simps prefix_text_letters)
qed

text \<open>What \<open>write_int\<close> makes of digits and a prefix, on both of its paths.\<close>

lemma write_int_digits_text:
  assumes "prefix_text p lead" "specs_ok specs"
  shows "write_int_digits (length ds) p specs (Inr ds) =
    (let content = lead @ replicate (zeros_before specs lead ds) CHR ''0'' @ ds
     in Inr (write_padded True specs (length content) content))"
proof -
  have p: "write_prefix p = lead" "unat (drop_bit 24 p) = length lead" using assms(1) by (auto simp: prefix_text_def)
  have nil: "lead = []" if "p = 0" using p(2) that by simp
  show ?thesis
  proof (cases "fs_width specs = 0 \<and> fs_precision specs = -1")
    case True
    then have "zeros_before specs lead ds = 0" by (simp add: zeros_before_def)
    moreover have "write_padded True specs n c = c" for n c using True by (simp add: write_padded_def)
    ultimately show ?thesis using True p nil by (auto simp: write_int_digits_def Let_def)
  next
    case False
    obtain sz padding where d: "write_int_data (length ds) p specs = (sz, padding)" by fastforce
    have "padding = zeros_before specs lead ds"
      using d p(2) assms(2)
      by (auto simp: write_int_data_def zeros_before_def specs_ok_def Let_def nat_diff_distrib split: if_splits)
    moreover have "sz = length (lead @ replicate padding CHR ''0'' @ ds)"
      using d p(2) assms(2)
      by (auto simp: write_int_data_def specs_ok_def Let_def nat_diff_distrib split: if_splits)
    ultimately show ?thesis using d p(1) unfolding write_int_digits_def if_not_P [OF False] by (simp add: Let_def)
  qed
qed

abbreviation int_out :: "int \<Rightarrow> format_specs \<Rightarrow> string" where
  "int_out v specs \<equiv> write_padded True specs (length (int_text v specs)) (int_text v specs)"

text \<open>A number whose prefix word stands for its sign and base prefix is written as its reference.\<close>

lemma write_int_digits_int_text:
  assumes "specs_ok specs" "prefix_text q (sign_text v (fs_sign specs) @ base_prefix specs (nat \<bar>v\<bar>))"
    "ds = int_digits (fs_type specs) (nat \<bar>v\<bar>)"
  shows "write_int_digits (length ds) q specs (Inr ds) = Inr (int_out v specs)"
  using write_int_digits_text [OF assms(2,1), of ds] assms(3) by (simp add: int_text_def Let_def)

lemma int_fits_bounds:
  assumes "int_fits w v"
  shows "nat \<bar>v\<bar> < 2 ^ w" "w = 32 \<or> w = 64" "nat \<bar>v\<bar> < 2 ^ 64" "w = 32 \<and> nat \<bar>v\<bar> < 2 ^ 32 \<or> w = 64"
  using assms by (auto simp: int_fits_def)

lemma write_int_decimal:
  assumes "int_fits w v" "specs_ok specs" "prefix_text p (sign_text v (fs_sign specs))"
    "fs_type specs \<in> {Type_none, Type_dec}" "\<not> fs_localized specs"
  shows "write_int w (nat \<bar>v\<bar>, p) specs t = Some (Inr (int_out v specs))"
proof -
  let ?n = "nat \<bar>v\<bar>"
  note b = int_fits_bounds [OF assms(1)]
  have "prefix_text p (sign_text v (fs_sign specs) @ base_prefix specs ?n)"
    using assms(3,4) by (auto simp: base_prefix_def)
  then have "write_int_digits (length (dec ?n)) p specs (Inr (dec ?n)) = Inr (int_out v specs)"
    using assms(4) by (intro write_int_digits_int_text [OF assms(2)]) (auto simp: int_digits_def)
  moreover have "format_decimal ?n (length (dec ?n)) = Inr (dec ?n)"
    using count_digits64 [OF b(3)] by (simp add: format_decimal_def write_decimal_dec)
  ultimately show ?thesis using assms(4,5) count_digits_dec [OF b(1,2)]
    by (auto simp: write_int_def Let_def)
qed

lemma write_radix_text:
  assumes "int_fits w v" "specs_ok specs" "p \<in> {0, 0x0100002D, 0x0100002B, 0x01000020}" "prefix_text p (sign_text v (fs_sign specs))"
    "int_digits (fs_type specs) (nat \<bar>v\<bar>) = radix_digits b u (nat \<bar>v\<bar>)" "c \<in> {CHR ''x'', CHR ''X'', CHR ''b'', CHR ''B''}"
    "base_prefix specs (nat \<bar>v\<bar>) = (if fs_alt specs then [CHR ''0'', c] else [])"
  shows "write_radix b u c w (nat \<bar>v\<bar>) p specs = Inr (int_out v specs)"
proof -
  note wn = int_fits_bounds(4) [OF assms(1)]
  let ?q = "if fs_alt specs then prefix_append p (push_bit 8 (char_word c) OR char_word CHR ''0'') else p"
  have "prefix_text ?q (sign_text v (fs_sign specs) @ base_prefix specs (nat \<bar>v\<bar>))"
    using sign_prefixes(2) [OF assms(3,4,6)] assms(4,7) by simp
  from write_int_digits_int_text [OF assms(2) this assms(5) [symmetric]] show ?thesis
    using format_uint_radix_digits [OF wn, of b u] count_digits_radix_radix_digits [OF wn, of b u]
    by (simp add: write_radix_def Let_def)
qed

lemma write_int_octal:
  assumes "int_fits w v" "specs_ok specs" "p \<in> {0, 0x0100002D, 0x0100002B, 0x01000020}" "prefix_text p (sign_text v (fs_sign specs))"
    "fs_type specs = Type_oct"
  shows "write_int w (nat \<bar>v\<bar>, p) specs t = Some (Inr (int_out v specs))"
proof -
  let ?n = "nat \<bar>v\<bar>"
  note wn = int_fits_bounds(4) [OF assms(1)]
  let ?d = "radix_digits Octal False ?n"
  let ?q = "if fs_alt specs \<and> fs_precision specs \<le> int (length ?d) \<and> ?n \<noteq> 0 then prefix_append p (char_word CHR ''0'') else p"
  have "prefix_text ?q (sign_text v (fs_sign specs) @ base_prefix specs ?n)"
    using sign_prefixes(1) [OF assms(3,4)] assms(4,5) by (auto simp: base_prefix_def int_digits_def)
  from write_int_digits_int_text [OF assms(2) this]
  have "write_int_digits (length ?d) ?q specs (Inr ?d) = Inr (int_out v specs)"
    using assms(5) by (simp add: int_digits_def)
  then show ?thesis
    using assms(5) format_uint_radix_digits [OF wn, of Octal False] count_digits_radix_radix_digits [OF wn, of Octal False]
    by (simp add: write_int_def Let_def)
qed

lemma write_integer_text:
  assumes "int_fits w v" "specs_ok specs" "integer_type (fs_type specs)"
    "fs_localized specs \<Longrightarrow> fs_type specs \<notin> {Type_none, Type_dec}"
  shows "write_integer w v specs t = Some (Inr (int_out v specs))"
proof -
  obtain p where p: "p \<in> {0, 0x0100002D, 0x0100002B, 0x01000020}"
    "make_write_int_arg w v (fs_sign specs) = (nat \<bar>v\<bar>, p)" "prefix_text p (sign_text v (fs_sign specs))"
    using make_write_int_arg_text [OF assms(1)] by blast
  note radix = write_radix_text [OF assms(1,2) p(1,3)]
  consider "fs_type specs \<in> {Type_none, Type_dec}" | "fs_type specs = Type_oct"
    | "fs_type specs = Type_hex_lower" | "fs_type specs = Type_hex_upper"
    | "fs_type specs = Type_bin_lower" | "fs_type specs = Type_bin_upper"
    using assms(3) by (auto simp: integer_type_def)
  then have "write_int w (nat \<bar>v\<bar>, p) specs t = Some (Inr (int_out v specs))"
  proof cases
    case 1
    then show ?thesis using assms(4) by (intro write_int_decimal [OF assms(1,2) p(3)]) auto
  next
    case 2
    then show ?thesis by (rule write_int_octal [OF assms(1,2) p(1,3)])
  next
    case 3
    then show ?thesis using radix [of Hex False "CHR ''x''"]
      by (simp add: write_int_def int_digits_def base_prefix_def)
  next
    case 4
    then show ?thesis using radix [of Hex True "CHR ''X''"]
      by (simp add: write_int_def int_digits_def base_prefix_def)
  next
    case 5
    then show ?thesis using radix [of Binary False "CHR ''b''"]
      by (simp add: write_int_def int_digits_def base_prefix_def)
  next
    case 6
    then show ?thesis using radix [of Binary False "CHR ''B''"]
      by (simp add: write_int_def int_digits_def base_prefix_def)
  qed
  then show ?thesis by (simp add: write_integer_def p(2))
qed

text \<open>Without a specification.\<close>

lemma write_plain_int_text:
  assumes "int_fits w v"
  shows "write_plain_int w v = Inr ((if v < 0 then ''-'' else '''') @ dec (nat \<bar>v\<bar>))"
proof -
  note b = int_fits_bounds [OF assms]
  have "format_decimal (nat \<bar>v\<bar>) (length (dec (nat \<bar>v\<bar>))) = Inr (dec (nat \<bar>v\<bar>))"
    using count_digits64 [OF b(3)] by (simp add: format_decimal_def write_decimal_dec)
  moreover have "(if v < 0 then (2 ^ w - 1 - nat (v mod 2 ^ w) + 1) mod 2 ^ w else nat (v mod 2 ^ w)) = nat \<bar>v\<bar>"
  proof (cases "v < 0")
    case True
    have "(v + 2 ^ w) mod 2 ^ w = v + 2 ^ w"
      using assms True by (intro mod_pos_pos_trivial) (auto simp: int_fits_def)
    then have m: "v mod 2 ^ w = v + 2 ^ w" by simp
    have "2 ^ w - 1 - nat (v + 2 ^ w) + 1 = nat \<bar>v\<bar>"
      using assms True by (auto simp: int_fits_def)
    then show ?thesis using True m b(1) by simp
  next
    case False
    then show ?thesis using assms by (simp add: int_fits_def)
  qed
  ultimately show ?thesis
    using count_digits_dec [OF b(1,2)] by (simp add: write_plain_int_def Let_def)
qed

text \<open>
  C18: An integer of 32 or 64 bits, signed or not, is written as its sign, its prefix, the zeros of the width or of the
  precision, and its digits in the base of its type, and this text is padded to the width.
\<close>

theorem integers_written:
  assumes "int_fits w v" "specs_ok specs" "integer_type (fs_type specs)"
    "fs_localized specs \<Longrightarrow> fs_type specs \<notin> {Type_none, Type_dec}"
  shows "write_integer w v specs t =
    Some (Inr (write_padded True specs (length (int_text v specs)) (int_text v specs)))"
  by (rule write_integer_text [OF assms])

definition hex_specs :: format_specs where
  "hex_specs = default_specs\<lparr>fs_type := Type_hex_lower, fs_alt := True, fs_width := 8, fs_precision := 4\<rparr>"

definition left_zero_specs :: format_specs where
  "left_zero_specs = default_specs\<lparr>fs_align := Align_left, fs_width := 5,
     fs_fill := \<lparr>fill_data = CHR ''0'' # replicate 3 CHR 0x00, fill_size = 1\<rparr>\<rparr>"

lemma digit_chars: "digit 4 = CHR ''4''" "digit 2 = CHR ''2''"
  by code_simp+

lemma replicate_few: "replicate 2 c = [c, c]" "replicate 3 c = [c, c, c]"
  by (simp_all add: numeral_2_eq_2 numeral_3_eq_3)

text \<open>The second text is what the flags \<open><05\<close> make of 42.\<close>

theorem integers_written_witness:
  "write_integer 32 (-42) hex_specs (thousands_sep_impl [] CHR 0x00) = Some (Inr '' -0x002a'') \<and>
   write_integer 32 42 left_zero_specs (thousands_sep_impl [] CHR 0x00) = Some (Inr ''42000'')"
proof
  have h: "int_text (-42) hex_specs = ''-0x002a''"
    by (simp add: int_text_def hex_specs_def default_specs_def int_digits_def radix_digits.simps base_bits_def
        digit_char_def sign_text_def base_prefix_def zeros_before_def replicate_few)
  show "write_integer 32 (-42) hex_specs (thousands_sep_impl [] CHR 0x00) = Some (Inr '' -0x002a'')"
    using integers_written [of 32 "-42" hex_specs "thousands_sep_impl [] CHR 0x00"]
    by (simp add: h int_fits_def specs_ok_def int_max_def integer_type_def)
       (simp add: hex_specs_def default_specs_def write_padded_def shifts_def align_index_def fill_n_def fill_default_def)
  have d: "int_text 42 left_zero_specs = ''42''"
    by (simp add: int_text_def left_zero_specs_def default_specs_def int_digits_def dec.simps digit_chars sign_text_def
        base_prefix_def zeros_before_def)
  show "write_integer 32 42 left_zero_specs (thousands_sep_impl [] CHR 0x00) = Some (Inr ''42000'')"
    using integers_written [of 32 42 left_zero_specs "thousands_sep_impl [] CHR 0x00"]
    by (simp add: d int_fits_def specs_ok_def int_max_def integer_type_def)
       (simp add: left_zero_specs_def default_specs_def write_padded_def shifts_def align_index_def fill_n_def replicate_few)
qed

end
