(* ===== verification/FmtGroup.thy ===== *)
theory FmtGroup
  imports FmtWrite
begin

text \<open>
  Digit grouping (\<open>digit_grouping\<close> of \<open>fmt/bundled/format.h\<close>): its loops end for whatever the locale
  says, and for a locale with proper group sizes the separators stand where the sizes put them,
  as many of them as were counted for the padding.
\<close>

section \<open>The loops end\<close>

text \<open>A state the walk over the groups can be in: the groups passed were proper ones.\<close>

definition proper_size :: "int \<Rightarrow> bool" where
  "proper_size g \<longleftrightarrow> 0 < g \<and> g \<noteq> char_max"

definition walk_state :: "thousands_sep_result \<Rightarrow> int list \<times> int \<Rightarrow> bool" where
  "walk_state t st \<longleftrightarrow>
     (\<exists>pre. ts_grouping t = pre @ fst st \<and> (\<forall>g\<in>set pre. proper_size g)) \<and> 0 \<le> snd st"

definition locale_sep :: "thousands_sep_result \<Rightarrow> bool" where
  "locale_sep t \<longleftrightarrow> (ts_grouping t = [] \<longrightarrow> ts_sep t = CHR 0x00)"

lemma thousands_sep_impl_ok: "locale_sep (thousands_sep_impl g c)"
  by (simp add: locale_sep_def thousands_sep_impl_def)

lemma walk_start: "walk_state t (ts_grouping t, 0)"
  by (simp add: walk_state_def)

lemma grouping_next_walk:
  assumes "locale_sep t" "walk_state t st"
  shows "\<exists>i st'. grouping_next t st = Inr (i, st') \<and>
    (i = int_max \<or> snd st < i \<and> snd st' = i \<and> walk_state t st')"
proof -
  obtain grp pos where st: "st = (grp, pos)" by fastforce
  then obtain pre where pre: "ts_grouping t = pre @ grp" "\<forall>g\<in>set pre. proper_size g" "0 \<le> pos"
    using assms(2) by (auto simp: walk_state_def)
  show ?thesis
  proof (cases "ts_sep t = CHR 0x00")
    case True
    then show ?thesis by (simp add: grouping_next_def st)
  next
    case False
    then have ne: "ts_grouping t \<noteq> []" using assms(1) by (auto simp: locale_sep_def)
    show ?thesis
    proof (cases grp)
      case Nil
      then have "0 \<le> last (ts_grouping t)" using pre last_in_set [OF ne] by (simp add: proper_size_def less_imp_le)
      then show ?thesis using False ne Nil pre
        by (auto simp: grouping_next_def st proper_size_def walk_state_def Let_def)
    next
      case (Cons g rest)
      show ?thesis
      proof (cases "proper_size g")
        case True
        then have "\<exists>pre'. ts_grouping t = pre' @ rest \<and> (\<forall>g\<in>set pre'. proper_size g)"
          using pre Cons by (intro exI [of _ "pre @ [g]"]) auto
        then show ?thesis using True False Cons pre
          by (auto simp: grouping_next_def st proper_size_def walk_state_def)
      next
        case bad: False
        then show ?thesis using False Cons by (auto simp: grouping_next_def st proper_size_def)
      qed
    qed
  qed
qed

lemma count_loop_ends:
  assumes "locale_sep t" "walk_state t st" "num_digits \<le> int_max"
  shows "\<exists>m. count_loop t num_digits n st = Some (Inr m)"
  using assms(2)
proof (induction "nat (num_digits - snd st)" arbitrary: n st rule: less_induct)
  case less
  obtain i st' where i: "grouping_next t st = Inr (i, st')"
    "i = int_max \<or> snd st < i \<and> snd st' = i \<and> walk_state t st'"
    using grouping_next_walk [OF assms(1) less.prems] by blast
  have "\<exists>m. count_loop t num_digits (n + 1) st' = Some (Inr m)" if "i < num_digits"
    using that i(2) assms(3) by (intro less.hyps) auto
  then show ?case using i(1) by (subst count_loop.simps) auto
qed

lemma separators_loop_ends:
  assumes "locale_sep t" "walk_state t st" "num_digits \<le> int_max"
  shows "\<exists>ps. separators_loop t num_digits seps st = Some (Inr ps)"
  using assms(2)
proof (induction "nat (num_digits - snd st)" arbitrary: seps st rule: less_induct)
  case less
  obtain i st' where i: "grouping_next t st = Inr (i, st')"
    "i = int_max \<or> snd st < i \<and> snd st' = i \<and> walk_state t st'"
    using grouping_next_walk [OF assms(1) less.prems] by blast
  have "\<exists>ps. separators_loop t num_digits (seps @ [i]) st' = Some (Inr ps)" if "i < num_digits"
    using that i(2) assms(3) by (intro less.hyps) auto
  then show ?case using i(1) by (subst separators_loop.simps) auto
qed

lemma apply_loop_returns: "returns (apply_loop t seps i ds)"
  by (induction t seps i ds rule: apply_loop.induct) (simp_all add: returns_then)

lemma write_int_localized_ends:
  assumes "locale_sep t" "v < 2 ^ 64"
  shows "\<exists>r. write_int_localized v prefix specs t = Some r \<and> returns r"
proof -
  have l: "int (length (dec v)) \<le> int_max"
  proof -
    have "length (dec v) \<le> 20"
    proof (rule ccontr)
      assume "\<not> length (dec v) \<le> 20"
      then have "(10 :: nat) ^ 20 \<le> 10 ^ (length (dec v) - 1)" by (intro power_increasing) auto
      then show False using length_dec_bounds [of v] assms(2) \<open>\<not> length (dec v) \<le> 20\<close> by (auto simp: dec_small)
    qed
    then show ?thesis by (simp add: int_max_def)
  qed
  obtain m where "count_separators t (int (length (dec v))) = Some (Inr m)"
    using count_loop_ends [OF assms(1) walk_start l] unfolding count_separators_def by blast
  moreover obtain ps where "separators_loop t (int (length (dec v))) [0] (ts_grouping t, 0) = Some (Inr ps)"
    using separators_loop_ends [OF assms(1) walk_start l] by blast
  ultimately show ?thesis
    using count_digits64 [OF assms(2)]
    by (simp add: write_int_localized_def format_decimal_def write_decimal_dec grouping_apply_def Let_def
        returns_then apply_loop_returns)
qed

section \<open>Where the separators stand\<close>

text \<open>The reference: the size of the \<open>k\<close>-th group from the right, and where the \<open>k\<close>-th separator stands.\<close>

definition group_size :: "int list \<Rightarrow> nat \<Rightarrow> nat" where
  "group_size g k = nat (if k < length g then g ! k else last g)"

definition sep_pos :: "int list \<Rightarrow> nat \<Rightarrow> nat" where
  "sep_pos g k = sum_list (map (group_size g) [0..<k])"

text \<open>A separator before a digit exactly if the number of digits from it on is a position.\<close>

fun separated :: "char \<Rightarrow> (nat \<Rightarrow> bool) \<Rightarrow> string \<Rightarrow> string" where
  "separated c at [] = []"
| "separated c at (d # ds) = (if at (length (d # ds)) then [c, d] else [d]) @ separated c at ds"

definition sep_at :: "int list \<Rightarrow> nat \<Rightarrow> bool" where
  "sep_at g n \<longleftrightarrow> n \<in> sep_pos g ` {1..n}"

definition proper_grouping :: "int list \<Rightarrow> bool" where
  "proper_grouping g \<longleftrightarrow> g \<noteq> [] \<and> (\<forall>s\<in>set g. proper_size s)"

lemma sep_pos_Suc [simp]: "sep_pos g 0 = 0" "sep_pos g (Suc k) = sep_pos g k + group_size g k"
  by (simp_all add: sep_pos_def)

lemma group_size_pos: "proper_grouping g \<Longrightarrow> 0 < group_size g k"
  by (auto simp: proper_grouping_def group_size_def proper_size_def)

lemma sep_pos_mono: "proper_grouping g \<Longrightarrow> strict_mono (sep_pos g)"
  by (auto simp: strict_mono_Suc_iff group_size_pos)

text \<open>Walking \<open>k\<close> groups.\<close>

lemma grouping_next_pos:
  assumes "proper_grouping (ts_grouping t)" "ts_sep t \<noteq> CHR 0x00"
  defines "state \<equiv> \<lambda>k. (drop k (ts_grouping t), int (sep_pos (ts_grouping t) k))"
  shows "grouping_next t (state k) = Inr (int (sep_pos (ts_grouping t) (Suc k)), state (Suc k))"
proof (cases "k < length (ts_grouping t)")
  case True
  then have "proper_size (ts_grouping t ! k)" using assms(1) by (simp add: proper_grouping_def)
  moreover have "drop k (ts_grouping t) = ts_grouping t ! k # drop (Suc k) (ts_grouping t)"
    using True by (simp add: Cons_nth_drop_Suc)
  ultimately show ?thesis using assms(2) True
    by (simp add: grouping_next_def state_def group_size_def proper_size_def)
next
  case False
  have "0 \<le> last (ts_grouping t)"
    using assms(1) last_in_set [of "ts_grouping t"] by (auto simp: proper_grouping_def proper_size_def less_imp_le)
  then show ?thesis using assms(1,2) False
    by (simp add: grouping_next_def state_def group_size_def proper_size_def proper_grouping_def Let_def)
qed

text \<open>\<open>m\<close> is the number of separators: the last position below the number of digits.\<close>

lemma count_loop_pos:
  assumes "proper_grouping (ts_grouping t)" "ts_sep t \<noteq> CHR 0x00"
    "sep_pos (ts_grouping t) m < num" "num \<le> sep_pos (ts_grouping t) (Suc m)" "k \<le> m"
  shows "count_loop t (int num) c (drop k (ts_grouping t), int (sep_pos (ts_grouping t) k)) = Some (Inr (c + (m - k)))"
  using assms(5)
proof (induction "m - k" arbitrary: k c)
  case 0
  then show ?case using grouping_next_pos [OF assms(1,2), of k] assms(4) by (subst count_loop.simps) simp
next
  case (Suc j)
  then have "k < m" by simp
  then have "sep_pos (ts_grouping t) (Suc k) \<le> sep_pos (ts_grouping t) m"
    using sep_pos_mono [OF assms(1)] by (simp add: strict_mono_less_eq del: sep_pos_Suc)
  then have "int num > int (sep_pos (ts_grouping t) (Suc k))" using assms(3) by simp
  then show ?case using Suc.hyps(1) [of "Suc k" "c + 1"] Suc.hyps(2) \<open>k < m\<close> grouping_next_pos [OF assms(1,2), of k]
    by (subst count_loop.simps) (simp del: sep_pos_Suc)
qed

lemma separators_loop_pos:
  assumes "proper_grouping (ts_grouping t)" "ts_sep t \<noteq> CHR 0x00"
    "sep_pos (ts_grouping t) m < num" "num \<le> sep_pos (ts_grouping t) (Suc m)" "k \<le> m"
  shows "separators_loop t (int num) (map (int \<circ> sep_pos (ts_grouping t)) [0..<Suc k])
      (drop k (ts_grouping t), int (sep_pos (ts_grouping t) k)) =
    Some (Inr (map (int \<circ> sep_pos (ts_grouping t)) [0..<Suc m]))"
  using assms(5)
proof (induction "m - k" arbitrary: k)
  case 0
  then show ?case using grouping_next_pos [OF assms(1,2), of k] assms(4) by (subst separators_loop.simps) simp
next
  case (Suc j)
  then have "k < m" by simp
  then have "sep_pos (ts_grouping t) (Suc k) \<le> sep_pos (ts_grouping t) m"
    using sep_pos_mono [OF assms(1)] by (simp add: strict_mono_less_eq del: sep_pos_Suc)
  then have "int (sep_pos (ts_grouping t) (Suc k)) < int num" using assms(3) by simp
  moreover have "0 < sep_pos (ts_grouping t) (Suc k)" using group_size_pos [OF assms(1)] by simp
  ultimately show ?case using Suc.hyps(1) [of "Suc k"] Suc.hyps(2) \<open>k < m\<close> grouping_next_pos [OF assms(1,2), of k]
    by (subst separators_loop.simps) (simp del: sep_pos_Suc)
qed

lemma last_separator:
  assumes "proper_grouping g" "0 < num"
  shows "\<exists>m. sep_pos g m < num \<and> num \<le> sep_pos g (Suc m)"
proof -
  have "num \<le> sep_pos g num" using sep_pos_mono [OF assms(1)] by (rule strict_mono_imp_increasing)
  then obtain k where k: "num \<le> sep_pos g k" "\<forall>j<k. \<not> num \<le> sep_pos g j" using exists_least_iff [of "\<lambda>k. num \<le> sep_pos g k"] by blast
  then have "k \<noteq> 0" using assms(2) by (cases k) auto
  then obtain m where "k = Suc m" by (cases k) auto
  then show ?thesis using k by (intro exI [of _ m]) auto
qed

text \<open>The second loop of \<open>apply\<close> puts them there.\<close>

lemma apply_loop_separated:
  assumes "strict_mono p" "p 0 = 0" "k \<le> m" "ps = map (int \<circ> p) [0..<Suc m]"
    "\<forall>j. k < j \<longrightarrow> length ds < p j" "p k \<le> length ds"
  shows "apply_loop t ps (int k) ds = Inr (separated (ts_sep t) (\<lambda>n. n \<in> range p) ds)
    \<and> length (separated (ts_sep t) (\<lambda>n. n \<in> range p) ds) = length ds + k"
  using assms(3,5,6)
proof (induction ds arbitrary: k)
  case Nil
  then have "k = 0" using assms(1,2) by (metis le_zero_eq list.size(3) strict_mono_eq)
  then show ?case by simp
next
  case (Cons d ds)
  have nth: "ps ! k = int (p k)" "length ps = Suc m" using Cons.prems(1) assms(4) by (simp_all add: nth_map del: upt_Suc)
  show ?case
  proof (cases "p k = length (d # ds)")
    case True
    then have "k \<noteq> 0" using assms(2) by (cases k) auto
    then obtain j where j: "k = Suc j" by (cases k) auto
    have "p j < p k" using assms(1) j by (simp add: strict_mono_less)
    moreover have "length ds < p i" if "j < i" for i
    proof -
      have "p k \<le> p i" using that j assms(1) by (simp add: strict_mono_less_eq)
      then show ?thesis using True by simp
    qed
    ultimately have ih: "apply_loop t ps (int j) ds = Inr (separated (ts_sep t) (\<lambda>n. n \<in> range p) ds)"
      "length (separated (ts_sep t) (\<lambda>n. n \<in> range p) ds) = length ds + j"
      using Cons.IH [of j] Cons.prems(1) True j by auto
    have "length (d # ds) \<in> range p" using True by (metis rangeI)
    moreover have "int (Suc j) - 1 = int j" by simp
    ultimately show ?thesis using ih True j nth Cons.prems(1) by (simp add: \<open>int (Suc j) - 1 = int j\<close> del: of_nat_Suc)
  next
    case False
    then have "p k \<le> length ds" using Cons.prems(3) by simp
    moreover have "length (d # ds) \<notin> range p"
    proof
      assume "length (d # ds) \<in> range p"
      then obtain i where i: "length (d # ds) = p i" by auto
      show False
      proof (cases "k < i")
        case True
        then show ?thesis using Cons.prems(2) i by (metis nat_less_le)
      next
        case False
        then have "p i \<le> p k" using assms(1) by (simp add: strict_mono_less_eq)
        then show ?thesis using i \<open>p k \<noteq> length (d # ds)\<close> Cons.prems(3) by simp
      qed
    qed
    moreover have "\<forall>j. k < j \<longrightarrow> length ds < p j" using Cons.prems(2) by auto
    ultimately show ?thesis using Cons.IH [of k] Cons.prems(1) False nth by (simp del: upt_Suc)
  qed
qed

text \<open>Grouped digits: the separators, their number, and nothing else but the digits.\<close>

lemma sep_at_range:
  assumes "proper_grouping g" "0 < n"
  shows "sep_at g n \<longleftrightarrow> n \<in> range (sep_pos g)"
proof
  assume "n \<in> range (sep_pos g)"
  then obtain k where k: "n = sep_pos g k" by auto
  have "k \<le> sep_pos g k" using sep_pos_mono [OF assms(1)] by (rule strict_mono_imp_increasing)
  then have "k \<in> {1..n}" using k assms(2) by (cases k) auto
  then show "sep_at g n" using k by (auto simp: sep_at_def)
qed (auto simp: sep_at_def)

lemma separated_cong: "(\<And>n. 0 < n \<Longrightarrow> at n = at' n) \<Longrightarrow> separated c at ds = separated c at' ds"
  by (induction ds) auto

text \<open>The reference for a number: no separator before the first digit.\<close>

definition grouped :: "thousands_sep_result \<Rightarrow> string \<Rightarrow> string" where
  "grouped t ds =
     (case ds of [] \<Rightarrow> [] | d # rest \<Rightarrow> d # separated (ts_sep t) (sep_at (ts_grouping t)) rest)"

lemma grouping_apply_grouped:
  assumes "proper_grouping (ts_grouping t)" "ts_sep t \<noteq> CHR 0x00" "ds \<noteq> []"
  shows "grouping_apply t ds = Some (Inr (grouped t ds)) \<and>
    count_separators t (int (length ds)) = Some (Inr (length (grouped t ds) - length ds))"
proof -
  let ?g = "ts_grouping t"
  obtain d rest where ds: "ds = d # rest" using assms(3) by (cases ds) auto
  obtain m where m: "sep_pos ?g m < length ds" "length ds \<le> sep_pos ?g (Suc m)"
    using last_separator [OF assms(1)] assms(3) by (metis length_greater_0_conv)
  define ps where "ps = map (int \<circ> sep_pos ?g) [0..<Suc m]"
  have mono: "strict_mono (sep_pos ?g)" by (rule sep_pos_mono [OF assms(1)])
  have above: "\<forall>j. m < j \<longrightarrow> length rest < sep_pos ?g j"
  proof (intro allI impI)
    fix j assume "m < j"
    then have "sep_pos ?g (Suc m) \<le> sep_pos ?g j" using mono by (simp add: strict_mono_less_eq del: sep_pos_Suc)
    then show "length rest < sep_pos ?g j" using m(2) ds by simp
  qed
  have r: "separated (ts_sep t) (\<lambda>n. n \<in> range (sep_pos ?g)) rest = separated (ts_sep t) (sep_at ?g) rest"
    by (rule separated_cong) (simp add: sep_at_range [OF assms(1)])
  have rest: "apply_loop t ps (int m) rest = Inr (separated (ts_sep t) (sep_at ?g) rest)"
    "length (separated (ts_sep t) (sep_at ?g) rest) = length rest + m"
    using apply_loop_separated [OF mono _ le_refl ps_def above, of t] m(1) ds unfolding r by simp_all
  have nth: "ps ! m = int (sep_pos ?g m)" "length ps = Suc m" by (simp_all add: ps_def nth_map del: upt_Suc)
  have "apply_loop t ps (int m) ds = Inr (grouped t ds)"
    using m(1) rest(1) nth by (simp add: ds grouped_def)
  moreover have "separators_loop t (int (length ds)) [0] (?g, 0) = Some (Inr ps)"
    using separators_loop_pos [OF assms(1,2) m, of 0] by (simp add: ps_def)
  ultimately have "grouping_apply t ds = Some (Inr (grouped t ds))" using nth(2) by (simp add: grouping_apply_def)
  moreover have "count_separators t (int (length ds)) = Some (Inr m)"
    using count_loop_pos [OF assms(1,2) m, of 0 0] by (simp add: count_separators_def)
  ultimately show ?thesis using rest(2) by (simp add: ds grouped_def)
qed

lemma separated_filter: "c \<notin> set ds \<Longrightarrow> filter (\<lambda>x. x \<noteq> c) (separated c at ds) = ds"
  by (induction ds) auto

lemma grouped_filter: "ts_sep t \<notin> set ds \<Longrightarrow> filter (\<lambda>x. x \<noteq> ts_sep t) (grouped t ds) = ds"
  by (cases ds) (auto simp: grouped_def separated_filter)

lemma length_separated: "length ds \<le> length (separated c at ds)"
  by (induction ds) auto

lemma length_grouped: "length ds \<le> length (grouped t ds)"
  using length_separated by (cases ds) (simp_all add: grouped_def)

text \<open>
  C20: With the locale flag an integer is written as its sign and its decimal digits with a separator wherever the
  locale's group sizes, the last repeating, put one, and the padding accounts for exactly the separators written.
\<close>

theorem digits_grouped:
  assumes "proper_grouping (ts_grouping t)" "ts_sep t \<noteq> CHR 0x00" "int_fits w v" "prefix_word = snd (make_write_int_arg w v s)"
  shows "write_int_localized (nat \<bar>v\<bar>) prefix_word specs t =
    (let content = sign_text v s @ grouped t (dec (nat \<bar>v\<bar>))
     in Some (Inr (write_padded True specs (length content) content)))"
proof -
  let ?n = "nat \<bar>v\<bar>"
  have "?n < 2 ^ w" "w = 32 \<or> w = 64" using assms(3) by (auto simp: int_fits_def)
  then have n: "?n < 2 ^ 64" by auto
  obtain p where p: "p \<in> {0, 0x0100002D, 0x0100002B, 0x01000020}" "make_write_int_arg w v s = (?n, p)"
    "prefix_text p (sign_text v s)"
    using make_write_int_arg_text [OF assms(3)] by blast
  then have "prefix_word = p" using assms(4) by simp
  moreover have "(if p \<noteq> 0 then [char_of (unat (p AND 0xff))] else []) = write_prefix p"
    and "(if p \<noteq> 0 then 1 else 0 :: nat) = unat (drop_bit 24 p)"
    using p(1) by (elim insertE emptyE; simp add: write_prefix_def prefix_chars.simps char_codes)+
  moreover have "write_prefix p = sign_text v s" "unat (drop_bit 24 p) = length (sign_text v s)"
    using p(3) by (simp_all add: prefix_text_def)
  moreover note g = grouping_apply_grouped [OF assms(1,2), of "dec ?n"]
  moreover have "length (dec ?n) \<le> length (grouped t (dec ?n))" by (rule length_grouped)
  ultimately show ?thesis
    using count_digits64 [OF n]
    by (simp add: write_int_localized_def format_decimal_def write_decimal_dec Let_def)
qed

definition group_specs :: format_specs where
  "group_specs = default_specs\<lparr>fs_width := 10, fs_localized := True\<rparr>"

lemma group_digit_chars:
  "digit 1 = CHR ''1''" "digit (Suc 0) = CHR ''1''" "digit 2 = CHR ''2''" "digit 3 = CHR ''3''" "digit 4 = CHR ''4''"
  "digit 5 = CHR ''5''" "digit 6 = CHR ''6''" "digit 7 = CHR ''7''"
  by code_simp+

theorem digits_grouped_witness:
  "write_int_localized 1234567 0x0100002D group_specs (thousands_sep_impl [3] CHR '','') = Some (Inr ''-1,234,567'')"
proof -
  let ?t = "thousands_sep_impl [3] CHR '',''"
  have t: "ts_grouping ?t = [3]" "ts_sep ?t = CHR '',''" by (simp_all add: thousands_sep_impl_def)
  have p: "snd (make_write_int_arg 32 (-1234567) Sign_none) = 0x0100002D"
    by (simp add: make_write_int_arg_def char_word_def)
  have pos: "sep_pos [3] k = 3 * k" for k by (induction k) (simp_all add: group_size_def)
  have at: "sep_at [3] n \<longleftrightarrow> n \<in> (\<lambda>k. 3 * k) ` {1..n}" for n by (simp add: sep_at_def pos [abs_def])
  have "sep_at [3] 3" "sep_at [3] 6" unfolding at by (auto simp: image_iff intro!: bexI [of _ 1] bexI [of _ 2])
  moreover have "\<not> sep_at [3] n" if "n \<in> {1, 2, 4, 5}" for n
  proof -
    have "\<not> 3 dvd n" using that by (elim insertE emptyE) simp_all
    then show ?thesis unfolding at by auto
  qed
  moreover have "\<not> sep_at [3] (Suc 0)" using calculation(3) [of 1] by simp
  moreover have "sep_at [3] (Suc (Suc (Suc 0)))" "sep_at [3] (Suc (Suc (Suc (Suc (Suc (Suc 0))))))"
    using calculation(1,2) by (simp_all add: eval_nat_numeral)
  moreover have "\<not> sep_at [3] (Suc (Suc 0))" "\<not> sep_at [3] (Suc (Suc (Suc (Suc 0))))"
    "\<not> sep_at [3] (Suc (Suc (Suc (Suc (Suc 0)))))"
    using calculation(3) [of 2] calculation(3) [of 4] calculation(3) [of 5] by (simp_all add: eval_nat_numeral)
  ultimately have "separated CHR '','' (sep_at [3]) ''234567'' = '',234,567''" by simp
  moreover have "dec 1234567 = ''1234567''" by (simp add: dec.simps group_digit_chars)
  ultimately have g: "grouped ?t (dec 1234567) = ''1,234,567''" by (simp add: grouped_def t)
  show ?thesis
    using digits_grouped [of ?t 32 "-1234567" "0x0100002D" Sign_none group_specs] g
    by (simp add: t proper_grouping_def proper_size_def char_max_def int_fits_def p sign_text_def)
       (simp add: group_specs_def default_specs_def write_padded_def shifts_def align_index_def)
qed

end
