(* ===== verification/FmtSpecs.thy ===== *)
theory FmtSpecs
  imports FmtUtf8
begin

text \<open>
  The grammar of format specifications as syntax trees, their printing, and the proof that the parser of
  \<open>core.h\<close> reads every printed specification back: it makes exactly the calls of the tree, in order, and
  stops at the closing brace.  The trees cover fill, alignment, sign, \<open>#\<close>, zero flag, fixed and dynamic
  width and precision, \<open>L\<close> and the type.
\<close>

section \<open>Syntax\<close>

datatype spec_count = Fixed nat | Dynamic arg_id

record spec_syntax =
  sy_fill :: "string option"
  sy_align :: align_t
  sy_sign :: sign_t
  sy_hash :: bool
  sy_zero :: bool
  sy_width :: "spec_count option"
  sy_precision :: "spec_count option"
  sy_localized :: bool
  sy_type :: presentation_type

definition print_arg_id :: "arg_id \<Rightarrow> string" where
  "print_arg_id a = (case a of Auto_id \<Rightarrow> [] | Index_id i \<Rightarrow> dec (nat i) | Name_id n \<Rightarrow> n)"

definition print_align :: "align_t \<Rightarrow> string" where
  "print_align a = (case a of Align_left \<Rightarrow> ''<'' | Align_right \<Rightarrow> ''>'' | Align_center \<Rightarrow> ''^'' | _ \<Rightarrow> '''')"

definition print_sign :: "sign_t \<Rightarrow> string" where
  "print_sign s = (case s of Sign_plus \<Rightarrow> ''+'' | Sign_minus \<Rightarrow> ''-'' | Sign_space \<Rightarrow> '' '' | Sign_none \<Rightarrow> '''')"

definition print_count :: "spec_count \<Rightarrow> string" where
  "print_count c = (case c of Fixed n \<Rightarrow> dec n | Dynamic a \<Rightarrow> ''{'' @ print_arg_id a @ ''}'')"

definition print_type :: "presentation_type \<Rightarrow> string" where
  "print_type t =
     (case t of Type_none \<Rightarrow> '''' | Type_dec \<Rightarrow> ''d'' | Type_oct \<Rightarrow> ''o'' | Type_hex_lower \<Rightarrow> ''x''
      | Type_hex_upper \<Rightarrow> ''X'' | Type_bin_lower \<Rightarrow> ''b'' | Type_bin_upper \<Rightarrow> ''B'' | Type_hexfloat_lower \<Rightarrow> ''a''
      | Type_hexfloat_upper \<Rightarrow> ''A'' | Type_exp_lower \<Rightarrow> ''e'' | Type_exp_upper \<Rightarrow> ''E'' | Type_fixed_lower \<Rightarrow> ''f''
      | Type_fixed_upper \<Rightarrow> ''F'' | Type_general_lower \<Rightarrow> ''g'' | Type_general_upper \<Rightarrow> ''G'' | Type_chr \<Rightarrow> ''c''
      | Type_string \<Rightarrow> ''s'' | Type_pointer \<Rightarrow> ''p'')"

definition print_fill_align :: "string option \<Rightarrow> align_t \<Rightarrow> string" where
  "print_fill_align f a = (case f of None \<Rightarrow> [] | Some f \<Rightarrow> f) @ print_align a"

definition print_tail :: "spec_syntax \<Rightarrow> string" where
  "print_tail sy =
     print_sign (sy_sign sy) @ (if sy_hash sy then ''#'' else '''') @ (if sy_zero sy then ''0'' else '''') @
     (case sy_width sy of None \<Rightarrow> '''' | Some c \<Rightarrow> print_count c) @
     (case sy_precision sy of None \<Rightarrow> '''' | Some c \<Rightarrow> ''.'' @ print_count c) @
     (if sy_localized sy then ''L'' else '''') @ print_type (sy_type sy)"

definition print_spec :: "spec_syntax \<Rightarrow> string" where
  "print_spec sy = print_fill_align (sy_fill sy) (sy_align sy) @ print_tail sy"

section \<open>Well-formed trees\<close>

definition arg_id_ok :: "arg_id \<Rightarrow> bool" where
  "arg_id_ok a =
     (case a of Auto_id \<Rightarrow> True
      | Index_id i \<Rightarrow> 0 \<le> i \<and> i \<le> int_max
      | Name_id n \<Rightarrow> n \<noteq> [] \<and> is_name_start (hd n) \<and> (\<forall>c\<in>set (tl n). is_name_start c \<or> is_dig c))"

definition count_ok :: "spec_count \<Rightarrow> bool" where
  "count_ok c = (case c of Fixed n \<Rightarrow> int n \<le> int_max | Dynamic a \<Rightarrow> arg_id_ok a)"

text \<open>A fill is a code point as the decoder cuts it, other than the opening brace, and needs an alignment.\<close>

definition fill_ok :: "string option \<Rightarrow> align_t \<Rightarrow> bool" where
  "fill_ok f a \<longleftrightarrow> a \<noteq> Align_numeric \<and>
     (case f of None \<Rightarrow> True
      | Some f \<Rightarrow> a \<noteq> Align_none \<and> f \<noteq> [] \<and> length f = code_point_length (hd f) \<and> hd f \<noteq> CHR ''{'')"

definition spec_ok :: "spec_syntax \<Rightarrow> bool" where
  "spec_ok sy \<longleftrightarrow>
     fill_ok (sy_fill sy) (sy_align sy) \<and>
     (case sy_width sy of None \<Rightarrow> True | Some c \<Rightarrow> count_ok c \<and> c \<noteq> Fixed 0) \<and>
     (case sy_precision sy of None \<Rightarrow> True | Some c \<Rightarrow> count_ok c)"

section \<open>The calls of a tree\<close>

definition run_fill_align :: "'s spec_handler \<Rightarrow> string option \<Rightarrow> align_t \<Rightarrow> 's \<Rightarrow> 's res" where
  "run_fill_align h f a st =
     (if a = Align_none then Inr st
      else bind_res (case f of None \<Rightarrow> Inr st | Some f \<Rightarrow> on_fill h f st) (on_align h a))"

definition run_sign :: "'s spec_handler \<Rightarrow> sign_t \<Rightarrow> 's \<Rightarrow> 's res" where
  "run_sign h s st = (if s = Sign_none then Inr st else on_sign h s st)"

definition run_width :: "'s spec_handler \<Rightarrow> spec_count option \<Rightarrow> 's \<Rightarrow> 's res" where
  "run_width h w st =
     (case w of None \<Rightarrow> Inr st | Some (Fixed n) \<Rightarrow> on_width h (int n) st | Some (Dynamic a) \<Rightarrow> on_dynamic_width h a st)"

definition run_precision :: "'s spec_handler \<Rightarrow> spec_count option \<Rightarrow> 's \<Rightarrow> 's res" where
  "run_precision h p st =
     (case p of None \<Rightarrow> Inr st
      | Some (Fixed n) \<Rightarrow> bind_res (on_precision h (int n) st) (end_precision h)
      | Some (Dynamic a) \<Rightarrow> bind_res (on_dynamic_precision h a st) (end_precision h))"

definition run_flag :: "('s \<Rightarrow> 's res) \<Rightarrow> bool \<Rightarrow> 's \<Rightarrow> 's res" where
  "run_flag f b st = (if b then f st else Inr st)"

definition run_type :: "'s spec_handler \<Rightarrow> presentation_type \<Rightarrow> 's \<Rightarrow> 's res" where
  "run_type h t st = (if t = Type_none then Inr st else on_type h t st)"

definition run_spec :: "'s spec_handler \<Rightarrow> spec_syntax \<Rightarrow> 's \<Rightarrow> 's res" where
  "run_spec h sy st =
     bind_res (run_fill_align h (sy_fill sy) (sy_align sy) st) (\<lambda>st.
     bind_res (run_sign h (sy_sign sy) st) (\<lambda>st.
     bind_res (run_flag (on_hash h) (sy_hash sy) st) (\<lambda>st.
     bind_res (run_flag (on_zero h) (sy_zero sy) st) (\<lambda>st.
     bind_res (run_width h (sy_width sy) st) (\<lambda>st.
     bind_res (run_precision h (sy_precision sy) st) (\<lambda>st.
     bind_res (run_flag (on_localized h) (sy_localized sy) st) (\<lambda>st.
     run_type h (sy_type sy) st)))))))"

section \<open>Argument references\<close>

lemma digit_zero: "digit 0 = CHR ''0''"
  by code_simp

lemma digit_not_zero: "0 < d \<Longrightarrow> d < 10 \<Longrightarrow> digit d \<noteq> CHR ''0''"
  using dig_val_digit [of d] by (auto simp: dig_val_def)

lemma dec_head: "0 < n \<Longrightarrow> hd (dec n) \<noteq> CHR ''0''"
proof (induction n rule: dec.induct)
  case (1 n)
  show ?case
  proof (cases "n < 10")
    case True
    then show ?thesis using 1 digit_not_zero by (simp add: dec_small)
  next
    case False
    then have "0 < n div 10" by (simp add: div_greater_zero_iff)
    then show ?thesis using 1 False by (simp add: dec_step)
  qed
qed

lemma dec_hd_digit: "is_dig (hd (dec n))"
  using dec_digits [of n] by (cases "dec n") auto

text \<open>What may follow a reference, and what may stand at the beginning of one.\<close>

definition closes :: "string \<Rightarrow> bool" where
  "closes s \<longleftrightarrow> s \<noteq> [] \<and> (hd s = CHR ''}'' \<or> hd s = CHR '':'')"

lemma closes_cases: "closes s \<Longrightarrow> \<exists>r. s = CHR ''}'' # r \<or> s = CHR '':'' # r"
  by (cases s) (auto simp: closes_def)

lemma plain_chars [simp]:
  "\<not> is_dig CHR ''}''" "\<not> is_dig CHR '':''" "\<not> is_dig CHR ''{''" "\<not> is_dig CHR ''.''" "\<not> is_dig CHR ''L''"
  "\<not> is_name_start CHR ''}''" "\<not> is_name_start CHR '':''" "\<not> is_name_start CHR ''{''" "is_dig CHR ''0''"
  by (simp_all add: is_dig_def is_name_start_def is_ascii_letter_def)

lemma name_start_not_dig: "is_name_start c \<Longrightarrow> \<not> is_dig c"
  by (auto simp: is_dig_def is_name_start_def is_ascii_letter_def)

lemma parse_arg_id_print:
  assumes "arg_id_ok a" "closes T"
  shows "parse_arg_id f (print_arg_id a @ T) st = bind_res (f a st) (\<lambda>st. Inr (T, st))"
proof -
  have T: "T \<noteq> []" "hd T = CHR ''}'' \<or> hd T = CHR '':''" using assms(2) by (auto simp: closes_def)
  show ?thesis
  proof (cases a)
    case Auto_id
    then show ?thesis using T by (cases T) (auto simp: print_arg_id_def parse_arg_id_def)
  next
    case (Index_id i)
    have i: "0 \<le> i" "i \<le> int_max" using assms(1) Index_id by (auto simp: arg_id_ok_def)
    obtain c cs where d: "dec (nat i) = c # cs" by (cases "dec (nat i)") auto
    have c: "is_dig c" using dec_hd_digit [of "nat i"] d by simp
    have nt: "T = [] \<or> \<not> is_dig (hd T)" using T by auto
    have p: "(if c \<noteq> CHR ''0'' then parse_nonnegative_int (c # cs @ T) int_max else (0, cs @ T)) = (i, T)"
    proof (cases "i = 0")
      case True
      then have "c = CHR ''0'' \<and> cs = []" using d by (simp add: dec_small digit_zero)
      then show ?thesis using True by simp
    next
      case False
      then have "c \<noteq> CHR ''0''" using dec_head [of "nat i"] d i by auto
      then show ?thesis using parse_nonnegative_int_dec [OF nt, of "nat i" int_max] d i by simp
    qed
    have "c \<noteq> CHR ''}''" "c \<noteq> CHR '':''" using c by auto
    then show ?thesis using T c p Index_id d
      by (auto simp: parse_arg_id_def do_parse_arg_id_def print_arg_id_def Let_def)
  next
    case (Name_id n)
    then obtain c cs where n: "n = c # cs" "is_name_start c" "\<forall>x\<in>set cs. is_name_start x \<or> is_dig x"
      using assms(1) by (cases n) (auto simp: arg_id_ok_def)
    have stop: "\<not> (is_name_start (hd T) \<or> is_dig (hd T))" using T by auto
    then have "takeWhile (\<lambda>c. is_name_start c \<or> is_dig c) (cs @ T) = cs"
      and "dropWhile (\<lambda>c. is_name_start c \<or> is_dig c) (cs @ T) = T"
      using n(3) T(1) by (cases T; simp add: takeWhile_append2 dropWhile_append2)+
    moreover have "c \<noteq> CHR ''}''" "c \<noteq> CHR '':''" using n(2) by auto
    ultimately show ?thesis using n name_start_not_dig [OF n(2)] Name_id
      by (simp add: parse_arg_id_def do_parse_arg_id_def print_arg_id_def Let_def)
  qed
qed

section \<open>The parts of a specification\<close>

text \<open>Each part leaves alone a string that does not begin with one of its characters.\<close>

lemma unless_end_Cons [simp]: "s \<noteq> [] \<Longrightarrow> unless_end f (s, st) = f s st"
  by (simp add: unless_end_def)

lemma parse_sign_print:
  assumes "T \<noteq> []" "hd T \<notin> {CHR ''+'', CHR ''-'', CHR '' ''}"
  shows "parse_sign h (print_sign x @ T) st = bind_res (run_sign h x st) (\<lambda>st. Inr (T, st))"
  using assms by (cases x) (auto simp: parse_sign_def print_sign_def run_sign_def)

lemma parse_hash_print:
  assumes "hd T \<noteq> CHR ''#''"
  shows "parse_hash h ((if b then ''#'' else '''') @ T) st = bind_res (run_flag (on_hash h) b st) (\<lambda>st. Inr (T, st))"
  using assms by (simp add: parse_hash_def run_flag_def)

lemma parse_zero_print:
  assumes "hd T \<noteq> CHR ''0''"
  shows "parse_zero h ((if b then ''0'' else '''') @ T) st = bind_res (run_flag (on_zero h) b st) (\<lambda>st. Inr (T, st))"
  using assms by (simp add: parse_zero_def run_flag_def)

lemma parse_localized_print:
  assumes "hd T \<noteq> CHR ''L''"
  shows "parse_localized h ((if b then ''L'' else '''') @ T) st =
    bind_res (run_flag (on_localized h) b st) (\<lambda>st. Inr (T, st))"
  using assms by (simp add: parse_localized_def run_flag_def)

lemma parse_count_fixed:
  assumes "int n \<le> int_max" "T = [] \<or> \<not> is_dig (hd T)"
  shows "parse_nonnegative_int (dec n @ T) (-1) = (int n, T)"
  using parse_nonnegative_int_dec [OF assms(2), of n "-1"] assms(1) by simp

lemma closes_brace [simp]: "closes (CHR ''}'' # T)"
  by (simp add: closes_def)

lemma parse_width_print:
  assumes "case w of None \<Rightarrow> True | Some c \<Rightarrow> count_ok c" "T \<noteq> []" "\<not> is_dig (hd T)" "hd T \<noteq> CHR ''{''"
  shows "parse_width h ((case w of None \<Rightarrow> '''' | Some c \<Rightarrow> print_count c) @ T) st =
    bind_res (run_width h w st) (\<lambda>st. Inr (T, st))"
proof (cases w)
  case None
  then show ?thesis using assms by (cases T) (simp_all add: parse_width_def run_width_def)
next
  case (Some c)
  show ?thesis
  proof (cases c)
    case (Fixed n)
    obtain d ds where d: "dec n = d # ds" by (cases "dec n") auto
    have "is_dig d" using dec_hd_digit [of n] d by simp
    moreover have "parse_nonnegative_int (d # ds @ T) (-1) = (int n, T)"
      using parse_count_fixed [of n T] assms Some Fixed d by (simp add: count_ok_def)
    ultimately show ?thesis using Some Fixed d
      by (simp add: parse_width_def print_count_def run_width_def)
  next
    case (Dynamic a)
    then have "arg_id_ok a" using assms(1) Some by (simp add: count_ok_def)
    from parse_arg_id_print [OF this, of "CHR ''}'' # T" "on_dynamic_width h" st] show ?thesis using Some Dynamic
      by (cases "on_dynamic_width h a st") (simp_all add: parse_width_def print_count_def run_width_def)
  qed
qed

lemma parse_dot_print:
  assumes "case p of None \<Rightarrow> True | Some c \<Rightarrow> count_ok c" "T \<noteq> []" "\<not> is_dig (hd T)" "hd T \<noteq> CHR ''.''"
  shows "parse_dot h ((case p of None \<Rightarrow> '''' | Some c \<Rightarrow> ''.'' @ print_count c) @ T) st =
    bind_res (run_precision h p st) (\<lambda>st. Inr (T, st))"
proof (cases p)
  case None
  then show ?thesis using assms by (simp add: parse_dot_def run_precision_def)
next
  case (Some c)
  show ?thesis
  proof (cases c)
    case (Fixed n)
    obtain d ds where d: "dec n = d # ds" by (cases "dec n") auto
    have "is_dig d" using dec_hd_digit [of n] d by simp
    moreover have "parse_nonnegative_int (d # ds @ T) (-1) = (int n, T)"
      using parse_count_fixed [of n T] assms Some Fixed d by (simp add: count_ok_def)
    ultimately show ?thesis using Some Fixed d
      by (cases "on_precision h (int n) st")
         (simp_all add: parse_dot_def parse_precision_def print_count_def run_precision_def Let_def)
  next
    case (Dynamic a)
    then have "arg_id_ok a" using assms(1) Some by (simp add: count_ok_def)
    from parse_arg_id_print [OF this, of "CHR ''}'' # T" "on_dynamic_precision h" st] show ?thesis using Some Dynamic
      by (cases "on_dynamic_precision h a st")
         (simp_all add: parse_dot_def parse_precision_def print_count_def run_precision_def Let_def)
  qed
qed

lemma parse_type_print:
  "parse_type h (print_type t @ CHR ''}'' # T) st = bind_res (run_type h t st) (\<lambda>st. Inr (CHR ''}'' # T, st))"
  by (cases t) (simp_all add: parse_type_def print_type_def parse_presentation_type_def run_type_def)

lemma print_type_letter:
  "t \<noteq> Type_none \<Longrightarrow> \<exists>c. print_type t = [c] \<and> is_ascii_letter c \<and> c \<noteq> CHR ''L'' \<and> parse_presentation_type c = t"
  by (cases t) (simp_all add: print_type_def is_ascii_letter_def parse_presentation_type_def)

section \<open>The fast path for a lone type\<close>

definition spec_chain :: "'s spec_handler \<Rightarrow> string \<Rightarrow> 's \<Rightarrow> (string \<times> 's) res" where
  "spec_chain h s st =
     bind_res (bind_res (bind_res (bind_res (bind_res (bind_res (bind_res
       (unless_end (parse_align h) (s, st))
       (unless_end (parse_sign h))) (unless_end (parse_hash h))) (unless_end (parse_zero h)))
       (unless_end (parse_width h))) (unless_end (parse_dot h))) (unless_end (parse_localized h)))
       (unless_end (parse_type h))"

lemma bind_res_assoc: "bind_res (bind_res m f) g = bind_res m (\<lambda>x. bind_res (f x) g)"
  by (cases m) simp_all

definition plain :: "char \<Rightarrow> bool" where
  "plain c \<longleftrightarrow> of_char c < (128 :: nat) \<and> align_of c = Align_none"

lemma code_point_length_ascii: "of_char c < (128 :: nat) \<Longrightarrow> code_point_length c = 1"
proof -
  assume c: "of_char c < (128 :: nat)"
  then have "of_char c div 8 < (16 :: nat)" by (simp add: div_less_iff_less_mult)
  moreover have "\<forall>q<16. code_point_lengths ! q = 1"
    by (simp add: code_point_lengths_def All_less_Suc numeral_eq_Suc)
  ultimately show ?thesis by (simp add: code_point_length_def Let_def)
qed

lemma plain_letter: "is_ascii_letter c \<Longrightarrow> plain c"
  and plain_dig: "is_dig c \<Longrightarrow> plain c"
  and plain_name: "is_name_start c \<Longrightarrow> plain c"
  by (auto simp: plain_def is_ascii_letter_def is_dig_def is_name_start_def align_of_def)

lemma plain_syntax [simp]:
  "plain CHR ''}''" "plain CHR ''{''" "plain CHR ''+''" "plain CHR ''-''" "plain CHR '' ''" "plain CHR ''#''"
  "plain CHR ''0''" "plain CHR ''.''" "plain CHR ''L''" "plain CHR '':''"
  by (simp_all add: plain_def align_of_def)

text \<open>Without an alignment in the first two characters, \<open>parse_align\<close> does nothing.\<close>

lemma parse_align_none:
  assumes "T \<noteq> []" "plain (hd T)" "tl T = [] \<or> align_of (hd (tl T)) = Align_none"
  shows "parse_align h T st = Inr (T, st)"
proof -
  obtain c r where T: "T = c # r" using assms(1) by (cases T) auto
  have z: "parse_align_at h 0 T st = Inr (T, st)"
    using assms(2) T by (subst parse_align_at.simps) (simp add: plain_def)
  have l: "code_point_length c = 1" using assms(2) T by (simp add: plain_def code_point_length_ascii)
  show ?thesis
  proof (cases r)
    case Nil
    then show ?thesis using z T l by (simp add: parse_align_def)
  next
    case (Cons d r')
    then have "parse_align_at h 1 T st = Inr (T, st)"
      using assms(3) T z by (subst parse_align_at.simps) simp
    then show ?thesis using T l Cons by (simp add: parse_align_def)
  qed
qed

lemma parse_format_specs_chain: "parse_format_specs h s st = spec_chain h s st"
proof (cases "1 < length s \<and> s ! 1 = CHR ''}'' \<and> is_ascii_letter (hd s) \<and> hd s \<noteq> CHR ''L''")
  case False
  then show ?thesis unfolding parse_format_specs_def if_not_P [OF False] spec_chain_def bind_res_assoc by simp
next
  case True
  then obtain c r where s: "s = c # CHR ''}'' # r" "is_ascii_letter c" "c \<noteq> CHR ''L''"
    by (cases s; cases "tl s") auto
  have c: "c \<noteq> CHR ''+''" "c \<noteq> CHR ''-''" "c \<noteq> CHR '' ''" "c \<noteq> CHR ''#''" "c \<noteq> CHR ''0''" "c \<noteq> CHR ''.''"
    "c \<noteq> CHR ''{''" "c \<noteq> CHR ''}''" "\<not> is_dig c"
    using s(2) by (auto simp: is_ascii_letter_def is_dig_def)
  have "parse_align h s st = Inr (s, st)"
    using s plain_letter by (intro parse_align_none) (auto simp: align_of_def)
  then have "spec_chain h s st = parse_type h s st"
    using s c by (simp add: spec_chain_def parse_sign_def parse_hash_def parse_zero_def parse_width_def parse_dot_def
        parse_localized_def)
  then show ?thesis using True s c by (simp add: parse_format_specs_def parse_type_def)
qed

section \<open>Printed specifications are read back\<close>

lemma plain_print_arg_id: "arg_id_ok a \<Longrightarrow> c \<in> set (print_arg_id a) \<Longrightarrow> plain c"
  using dec_digits plain_dig plain_name
  by (cases a) (fastforce simp: print_arg_id_def arg_id_ok_def neq_Nil_conv)+

lemma plain_print_count: "count_ok x \<Longrightarrow> c \<in> set (print_count x) \<Longrightarrow> plain c"
  using dec_digits plain_dig plain_print_arg_id
  by (cases x) (auto simp: print_count_def count_ok_def)

lemma plain_print_type: "c \<in> set (print_type t) \<Longrightarrow> plain c"
  using print_type_letter [of t] plain_letter by (cases "t = Type_none") (auto simp: print_type_def)

lemma plain_print_tail:
  assumes "spec_ok sy" "c \<in> set (print_tail sy)"
  shows "plain c"
proof -
  have "c \<in> set (print_sign (sy_sign sy)) \<Longrightarrow> plain c" by (cases "sy_sign sy") (auto simp: print_sign_def)
  then show ?thesis
    using assms plain_print_count plain_print_type
    by (auto simp: print_tail_def spec_ok_def split: if_splits option.splits)
qed

lemma parse_align_print:
  assumes "fill_ok f a" "T \<noteq> []" "plain (hd T)"
    "a = Align_none \<Longrightarrow> tl T = [] \<or> align_of (hd (tl T)) = Align_none"
  shows "parse_align h (print_fill_align f a @ T) st = bind_res (run_fill_align h f a st) (\<lambda>st. Inr (T, st))"
proof (cases "a = Align_none")
  case True
  then have "f = None" using assms(1) by (auto simp: fill_ok_def split: option.splits)
  then show ?thesis using True assms parse_align_none [of T]
    by (simp add: print_fill_align_def print_align_def run_fill_align_def)
next
  case False
  then obtain c where c: "print_align a = [c]" "align_of c = a" "of_char c < (128 :: nat)"
    using assms(1) by (cases a) (auto simp: print_align_def align_of_def fill_ok_def)
  obtain d r where T: "T = d # r" "plain d" using assms(2,3) by (cases T) auto
  show ?thesis
  proof (cases f)
    case None
    have "parse_align_at h 0 (c # T) st = bind_res (on_align h a st) (\<lambda>st. Inr (T, st))"
      using c False by (subst parse_align_at.simps) simp
    then have "parse_align_at h 1 (c # T) st = bind_res (on_align h a st) (\<lambda>st. Inr (T, st))"
      using T by (subst parse_align_at.simps) (simp add: plain_def)
    then show ?thesis using None False c T code_point_length_ascii [OF c(3)]
      by (simp add: print_fill_align_def run_fill_align_def parse_align_def)
  next
    case (Some f')
    then have f: "f' \<noteq> []" "length f' = code_point_length (hd f')" "hd f' \<noteq> CHR ''{''"
      using assms(1) by (auto simp: fill_ok_def)
    obtain x xs where x: "f' = x # xs" using f(1) by (cases f') auto
    have "parse_align_at h (length f') (f' @ c # T) st =
        bind_res (on_fill h f' st) (\<lambda>st. bind_res (on_align h a st) (\<lambda>st. Inr (T, st)))"
      using c False f code_point_length_pos [of "hd f'"] by (subst parse_align_at.simps) (simp add: nth_append)
    then show ?thesis using Some False c f x
      by (simp add: print_fill_align_def run_fill_align_def parse_align_def bind_res_assoc)
  qed
qed

lemma parse_spec_chain_print:
  assumes "spec_ok sy" "print_spec sy = [] \<Longrightarrow> rest = [] \<or> align_of (hd rest) = Align_none"
  shows "spec_chain h (print_spec sy @ CHR ''}'' # rest) st =
    bind_res (run_spec h sy st) (\<lambda>st. Inr (CHR ''}'' # rest, st))"
proof -
  define T8 where "T8 = print_type (sy_type sy) @ CHR ''}'' # rest"
  define T7 where "T7 = (if sy_localized sy then ''L'' else '''') @ T8"
  define T6 where "T6 = (case sy_precision sy of None \<Rightarrow> '''' | Some c \<Rightarrow> ''.'' @ print_count c) @ T7"
  define T5 where "T5 = (case sy_width sy of None \<Rightarrow> '''' | Some c \<Rightarrow> print_count c) @ T6"
  define T4 where "T4 = (if sy_zero sy then ''0'' else '''') @ T5"
  define T3 where "T3 = (if sy_hash sy then ''#'' else '''') @ T4"
  define T2 where "T2 = print_sign (sy_sign sy) @ T3"
  have s: "print_spec sy @ CHR ''}'' # rest = print_fill_align (sy_fill sy) (sy_align sy) @ T2"
    by (simp add: print_spec_def print_tail_def T2_def T3_def T4_def T5_def T6_def T7_def T8_def)
  have T2: "T2 = print_tail sy @ CHR ''}'' # rest"
    by (simp add: print_tail_def T2_def T3_def T4_def T5_def T6_def T7_def T8_def)
  have ne: "T8 \<noteq> []" "T7 \<noteq> []" "T6 \<noteq> []" "T5 \<noteq> []" "T4 \<noteq> []" "T3 \<noteq> []" "T2 \<noteq> []"
    by (simp_all add: T2_def T3_def T4_def T5_def T6_def T7_def T8_def)
  have h8: "hd T8 = CHR ''}'' \<or> is_ascii_letter (hd T8) \<and> hd T8 \<noteq> CHR ''L''"
    using print_type_letter [of "sy_type sy"] by (cases "sy_type sy = Type_none") (auto simp: T8_def print_type_def)
  then have h8': "hd T8 \<notin> {CHR ''+'', CHR ''-'', CHR '' '', CHR ''#'', CHR ''0'', CHR ''.'', CHR ''{'', CHR ''L''}" "\<not> is_dig (hd T8)"
    by (auto simp: is_ascii_letter_def is_dig_def)
  have h7: "hd T7 \<notin> {CHR ''+'', CHR ''-'', CHR '' '', CHR ''#'', CHR ''0'', CHR ''.'', CHR ''{''}" "\<not> is_dig (hd T7)"
    using h8' by (auto simp: T7_def)
  have h6: "hd T6 \<notin> {CHR ''+'', CHR ''-'', CHR '' '', CHR ''#'', CHR ''0'', CHR ''{''}" "\<not> is_dig (hd T6)"
    using h7 by (auto simp: T6_def split: option.splits)
  have h5: "hd T5 \<notin> {CHR ''+'', CHR ''-'', CHR '' '', CHR ''#'', CHR ''0''}"
  proof (cases "sy_width sy")
    case None
    then show ?thesis using h6 by (auto simp: T5_def)
  next
    case (Some c)
    show ?thesis
    proof (cases c)
      case (Fixed n)
      then have "0 < n" using assms(1) Some by (auto simp: spec_ok_def)
      then have "hd (dec n) \<noteq> CHR ''0''" "is_dig (hd (dec n))" using dec_head dec_hd_digit by auto
      then show ?thesis using Some Fixed by (auto simp: T5_def print_count_def is_dig_def)
    qed (auto simp: T5_def print_count_def Some)
  qed
  have h4: "hd T4 \<notin> {CHR ''+'', CHR ''-'', CHR '' '', CHR ''#''}" using h5 by (auto simp: T4_def)
  have h3: "hd T3 \<notin> {CHR ''+'', CHR ''-'', CHR '' ''}" using h4 by (auto simp: T3_def)
  have p: "plain c" if "c \<in> set (print_tail sy @ ''}'')" for c
    using that plain_print_tail [OF assms(1)] by auto
  have h2: "plain (hd T2)" unfolding T2 using p by (cases "print_tail sy") auto
  have h2': "tl T2 = [] \<or> align_of (hd (tl T2)) = Align_none" if "sy_align sy = Align_none"
  proof (cases "print_tail sy")
    case Nil
    have "sy_fill sy = None" using assms(1) that by (auto simp: spec_ok_def fill_ok_def split: option.splits)
    then have "print_spec sy = []" using Nil that by (simp add: print_spec_def print_fill_align_def print_align_def)
    then show ?thesis using assms(2) Nil by (simp add: T2)
  next
    case (Cons c cs)
    then have "plain (hd (cs @ CHR ''}'' # rest))" using p by (cases cs) auto
    then show ?thesis using Cons by (simp add: T2 plain_def)
  qed
  note ok = assms(1) [unfolded spec_ok_def]
  have s1: "parse_align h (print_fill_align (sy_fill sy) (sy_align sy) @ T2) st =
      bind_res (run_fill_align h (sy_fill sy) (sy_align sy) st) (\<lambda>st. Inr (T2, st))"
    using ok h2 h2' ne by (intro parse_align_print) auto
  have s2: "parse_sign h T2 st = bind_res (run_sign h (sy_sign sy) st) (\<lambda>st. Inr (T3, st))" for st
    unfolding T2_def using ne h3 by (intro parse_sign_print) auto
  have s3: "parse_hash h T3 st = bind_res (run_flag (on_hash h) (sy_hash sy) st) (\<lambda>st. Inr (T4, st))" for st
    unfolding T3_def using h4 by (intro parse_hash_print) auto
  have s4: "parse_zero h T4 st = bind_res (run_flag (on_zero h) (sy_zero sy) st) (\<lambda>st. Inr (T5, st))" for st
    unfolding T4_def using h5 by (intro parse_zero_print) auto
  have s5: "parse_width h T5 st = bind_res (run_width h (sy_width sy) st) (\<lambda>st. Inr (T6, st))" for st
    unfolding T5_def using ok ne h6 by (intro parse_width_print) (auto split: option.splits)
  have s6: "parse_dot h T6 st = bind_res (run_precision h (sy_precision sy) st) (\<lambda>st. Inr (T7, st))" for st
    unfolding T6_def using ok ne h7 by (intro parse_dot_print) auto
  have s7: "parse_localized h T7 st = bind_res (run_flag (on_localized h) (sy_localized sy) st) (\<lambda>st. Inr (T8, st))" for st
    unfolding T7_def using h8' by (intro parse_localized_print) auto
  have s8: "parse_type h T8 st = bind_res (run_type h (sy_type sy) st) (\<lambda>st. Inr (CHR ''}'' # rest, st))" for st
    unfolding T8_def by (rule parse_type_print)
  have s0: "unless_end (parse_align h) (print_fill_align (sy_fill sy) (sy_align sy) @ T2, st) =
      bind_res (run_fill_align h (sy_fill sy) (sy_align sy) st) (\<lambda>st. Inr (T2, st))"
    using s1 ne by simp
  show ?thesis
    unfolding spec_chain_def s s0 run_spec_def
    by (simp add: bind_res_assoc ne s2 s3 s4 s5 s6 s7 s8)
qed

lemma parse_format_specs_print:
  assumes "spec_ok sy" "print_spec sy = [] \<Longrightarrow> rest = [] \<or> align_of (hd rest) = Align_none"
  shows "parse_format_specs h (print_spec sy @ CHR ''}'' # rest) st =
    bind_res (run_spec h sy st) (\<lambda>st. Inr (CHR ''}'' # rest, st))"
  using parse_spec_chain_print [OF assms] by (simp add: parse_format_specs_chain)

text \<open>
  C17: The parser of format specifications reads every printed specification back: on the print of a
  specification followed by its closing brace it makes the calls of the tree in order, whatever the handler, and
  stops at the brace.
\<close>

theorem specs_read_back:
  assumes "spec_ok sy" "print_spec sy \<noteq> []"
  shows "parse_format_specs h (print_spec sy @ CHR ''}'' # rest) st =
    bind_res (run_spec h sy st) (\<lambda>st. Inr (CHR ''}'' # rest, st))"
  by (rule parse_format_specs_print [OF assms(1)]) (use assms(2) in simp)

definition sample_syntax :: spec_syntax where
  "sample_syntax = \<lparr>sy_fill = Some ''*'', sy_align = Align_center, sy_sign = Sign_plus, sy_hash = True, sy_zero = False,
     sy_width = Some (Fixed 7), sy_precision = Some (Dynamic (Name_id ''p'')), sy_localized = True, sy_type = Type_hex_lower\<rparr>"

text \<open>A handler that writes down the calls.\<close>

definition recorder :: "string spec_handler" where
  "recorder =
     \<lparr>on_align = (\<lambda>_ s. Inr (s @ ''a'')), on_fill = (\<lambda>f s. Inr (s @ f)), on_sign = (\<lambda>_ s. Inr (s @ ''s'')),
      on_hash = (\<lambda>s. Inr (s @ ''h'')), on_zero = (\<lambda>s. Inr (s @ ''z'')), on_width = (\<lambda>_ s. Inr (s @ ''w'')),
      on_dynamic_width = (\<lambda>_ s. Inr (s @ ''W'')), on_precision = (\<lambda>_ s. Inr (s @ ''p'')),
      on_dynamic_precision = (\<lambda>_ s. Inr (s @ ''P'')), end_precision = (\<lambda>s. Inr (s @ ''e'')),
      on_localized = (\<lambda>s. Inr (s @ ''l'')), on_type = (\<lambda>_ s. Inr (s @ ''t''))\<rparr>"

theorem specs_read_back_witness:
  "parse_format_specs recorder ''*^+#7.{p}Lx}tail'' [] = Inr (''}tail'', ''*ashwPelt'')"
proof -
  have p: "print_spec sample_syntax = ''*^+#7.{p}Lx''" by code_simp
  have ok: "spec_ok sample_syntax"
    by (simp add: spec_ok_def sample_syntax_def fill_ok_def count_ok_def int_max_def arg_id_ok_def is_name_start_def
        is_ascii_letter_def code_point_length_ascii)
  have r: "run_spec recorder sample_syntax [] = Inr ''*ashwPelt''" by code_simp
  show ?thesis using specs_read_back [OF ok, of recorder "''tail''" "[]"] p r by simp
qed

end
