(* ===== verification/FmtFormat.thy ===== *)
theory FmtFormat
  imports FmtGroup FmtSpecs
begin

text \<open>
  Formatting: \<open>vformat_to\<close> of \<open>fmt/bundled/format.h\<close> with its handler, the checks of a specification
  against the type of its argument (\<open>specs_checker\<close>), the dynamic width and precision (\<open>specs_handler\<close>)
  and the argument lists of \<open>core.h\<close>.  The handler's state is the text written and the index of
  the next argument; the arguments and what the locale says of digit groups are in an environment.  Arguments of
  floating-point, 128-bit and user-defined types are not modelled.
\<close>

section \<open>Arguments\<close>

datatype arg_type =
    None_type | Int_type | UInt_type | LongLong_type | ULongLong_type | Int128_type | UInt128_type
  | Bool_type | Char_type | Float_type | Double_type | LongDouble_type
  | Cstring_type | String_type | Pointer_type | Custom_type

definition is_integral_type :: "arg_type \<Rightarrow> bool" where
  "is_integral_type t \<longleftrightarrow>
     t \<in> {Int_type, UInt_type, LongLong_type, ULongLong_type, Int128_type, UInt128_type, Bool_type, Char_type}"

definition is_arithmetic_type :: "arg_type \<Rightarrow> bool" where
  "is_arithmetic_type t \<longleftrightarrow> is_integral_type t \<or> t \<in> {Float_type, Double_type, LongDouble_type}"

text \<open>A C string is its address and its text.\<close>

datatype fmt_arg =
    Int_arg "32 word" | UInt_arg "32 word" | LongLong_arg "64 word" | ULongLong_arg "64 word"
  | Bool_arg bool | Char_arg char | Cstring_arg "64 word" string | String_arg string | Pointer_arg "64 word"

definition type_of_arg :: "fmt_arg \<Rightarrow> arg_type" where
  "type_of_arg a =
     (case a of Int_arg _ \<Rightarrow> Int_type | UInt_arg _ \<Rightarrow> UInt_type | LongLong_arg _ \<Rightarrow> LongLong_type
      | ULongLong_arg _ \<Rightarrow> ULongLong_type | Bool_arg _ \<Rightarrow> Bool_type | Char_arg _ \<Rightarrow> Char_type
      | Cstring_arg _ _ \<Rightarrow> Cstring_type | String_arg _ \<Rightarrow> String_type | Pointer_arg _ \<Rightarrow> Pointer_type)"

record fmt_env =
  fe_args :: "fmt_arg list"
  fe_named :: "(string \<times> int) list"
  fe_sep :: thousands_sep_result

text \<open>\<open>basic_format_args::get\<close>: past the end there is an argument of no type.\<close>

definition max_packed_args :: int where "max_packed_args = 15"

definition args_get :: "fmt_env \<Rightarrow> int \<Rightarrow> fmt_arg option" where
  "args_get env i =
     (let n = int (length (fe_args env)); is_packed = n \<le> max_packed_args in
      if \<not> is_packed then (if i < n then Some (fe_args env ! nat i) else None)
      else if i \<ge> max_packed_args then None
      else if i < n then Some (fe_args env ! nat i) else None)"

definition args_get_id :: "fmt_env \<Rightarrow> string \<Rightarrow> int" where
  "args_get_id env name = (case map_of (fe_named env) name of Some i \<Rightarrow> i | None \<Rightarrow> -1)"

definition args_get_named :: "fmt_env \<Rightarrow> string \<Rightarrow> fmt_arg option" where
  "args_get_named env name = (let i = args_get_id env name in if i \<ge> 0 then args_get env i else None)"

definition get_arg :: "fmt_arg option \<Rightarrow> fmt_arg res" where
  "get_arg a = (case a of None \<Rightarrow> throw_format_error ''argument not found'' | Some a \<Rightarrow> Inr a)"

section \<open>Dynamic width and precision\<close>

text \<open>\<open>width_checker\<close> and \<open>precision_checker\<close>; \<open>what\<close> is the name in their messages.\<close>

definition spec_checker :: "string \<Rightarrow> fmt_arg \<Rightarrow> nat res" where
  "spec_checker what a =
     (let signed = (\<lambda>v. if v < 0 then throw_format_error (''negative '' @ what) else Inr (nat v)) in
      case a of
        Int_arg v \<Rightarrow> signed (sint v)
      | UInt_arg v \<Rightarrow> Inr (unat v)
      | LongLong_arg v \<Rightarrow> signed (sint v)
      | ULongLong_arg v \<Rightarrow> Inr (unat v)
      | _ \<Rightarrow> throw_format_error (what @ '' is not integer''))"

definition get_dynamic_spec :: "string \<Rightarrow> fmt_arg \<Rightarrow> int res" where
  "get_dynamic_spec what a =
     bind_res (spec_checker what a) (\<lambda>v.
       if int v > int_max then throw_format_error ''number is too big'' else Inr (int v))"

record spec_state =
  ss_specs :: format_specs
  ss_next_id :: int

text \<open>\<open>specs_handler::get_arg\<close> for the three kinds of reference.\<close>

definition specs_get_arg :: "fmt_env \<Rightarrow> arg_id \<Rightarrow> spec_state \<Rightarrow> (fmt_arg \<times> spec_state) res" where
  "specs_get_arg env a st =
     (case a of
        Auto_id \<Rightarrow> bind_res (next_arg_id (ss_next_id st)) (\<lambda>(i, n).
          bind_res (get_arg (args_get env i)) (\<lambda>arg. Inr (arg, st\<lparr>ss_next_id := n\<rparr>)))
      | Index_id i \<Rightarrow> bind_res (check_arg_id (ss_next_id st)) (\<lambda>n.
          bind_res (get_arg (args_get env i)) (\<lambda>arg. Inr (arg, st\<lparr>ss_next_id := n\<rparr>)))
      | Name_id name \<Rightarrow> bind_res (get_arg (args_get_named env name)) (\<lambda>arg. Inr (arg, st)))"

definition set_specs :: "(format_specs \<Rightarrow> format_specs) \<Rightarrow> spec_state \<Rightarrow> spec_state res" where
  "set_specs f st = Inr (st\<lparr>ss_specs := f (ss_specs st)\<rparr>)"

definition specs_on_fill :: "string \<Rightarrow> spec_state \<Rightarrow> spec_state res" where
  "specs_on_fill s st =
     bind_res (fill_assign s (fs_fill (ss_specs st))) (\<lambda>f. set_specs (fs_fill_update (\<lambda>_. f)) st)"

text \<open>The zero flag: numeric alignment unless one was given, and a zero as the first character of the fill.\<close>

definition zero_fill :: "format_specs \<Rightarrow> format_specs" where
  "zero_fill sp =
     (let sp = (if fs_align sp = Align_none then sp\<lparr>fs_align := Align_numeric\<rparr> else sp)
      in sp\<lparr>fs_fill := (fs_fill sp)\<lparr>fill_data := (fill_data (fs_fill sp))[0 := CHR ''0'']\<rparr>\<rparr>)"

definition on_dynamic :: "fmt_env \<Rightarrow> string \<Rightarrow> (int \<Rightarrow> format_specs \<Rightarrow> format_specs) \<Rightarrow> arg_id \<Rightarrow> spec_state \<Rightarrow> spec_state res" where
  "on_dynamic env what upd a st =
     bind_res (specs_get_arg env a st) (\<lambda>(arg, st).
     bind_res (get_dynamic_spec what arg) (\<lambda>v. set_specs (upd v) st))"

text \<open>\<open>specs_handler\<close>, with what it inherits from \<open>specs_setter\<close>.\<close>

definition specs_handler :: "fmt_env \<Rightarrow> spec_state spec_handler" where
  "specs_handler env =
     \<lparr>on_align = (\<lambda>a. set_specs (fs_align_update (\<lambda>_. a))),
      on_fill = specs_on_fill,
      on_sign = (\<lambda>s. set_specs (fs_sign_update (\<lambda>_. s))),
      on_hash = set_specs (fs_alt_update (\<lambda>_. True)),
      on_zero = set_specs zero_fill,
      on_width = (\<lambda>w. set_specs (fs_width_update (\<lambda>_. w))),
      on_dynamic_width = on_dynamic env ''width'' (\<lambda>v. fs_width_update (\<lambda>_. v)),
      on_precision = (\<lambda>p. set_specs (fs_precision_update (\<lambda>_. p))),
      on_dynamic_precision = on_dynamic env ''precision'' (\<lambda>v. fs_precision_update (\<lambda>_. v)),
      end_precision = Inr,
      on_localized = set_specs (fs_localized_update (\<lambda>_. True)),
      on_type = (\<lambda>t. set_specs (fs_type_update (\<lambda>_. t)))\<rparr>"

section \<open>Checks against the type of the argument\<close>

definition require_numeric_argument :: "arg_type \<Rightarrow> unit res" where
  "require_numeric_argument t =
     (if \<not> is_arithmetic_type t then throw_format_error ''format specifier requires numeric argument'' else Inr ())"

definition checked_sign :: "arg_type \<Rightarrow> unit res" where
  "checked_sign t =
     bind_res (require_numeric_argument t) (\<lambda>_.
       if is_integral_type t \<and> t \<noteq> Int_type \<and> t \<noteq> LongLong_type \<and> t \<noteq> Char_type
       then throw_format_error ''format specifier requires signed argument'' else Inr ())"

definition checked_precision :: "arg_type \<Rightarrow> unit res" where
  "checked_precision t =
     (if is_integral_type t \<or> t = Pointer_type
      then throw_format_error ''precision not allowed for this argument type'' else Inr ())"

definition specs_checker :: "arg_type \<Rightarrow> 's spec_handler \<Rightarrow> 's spec_handler" where
  "specs_checker t h =
     h\<lparr>on_align := (\<lambda>a st.
         bind_res (if a = Align_numeric then require_numeric_argument t else Inr ()) (\<lambda>_. on_align h a st)),
       on_sign := (\<lambda>s st. bind_res (checked_sign t) (\<lambda>_. on_sign h s st)),
       on_hash := (\<lambda>st. bind_res (require_numeric_argument t) (\<lambda>_. on_hash h st)),
       on_localized := (\<lambda>st. bind_res (require_numeric_argument t) (\<lambda>_. on_localized h st)),
       on_zero := (\<lambda>st. bind_res (require_numeric_argument t) (\<lambda>_. on_zero h st)),
       end_precision := (\<lambda>st. bind_res (checked_precision t) (\<lambda>_. Inr st))\<rparr>"

section \<open>Writing an argument\<close>

text \<open>A writer that does not come back is the outcome \<open>NotReturned\<close>.\<close>

definition returned :: "'a res option \<Rightarrow> 'a res" where
  "returned r = (case r of None \<Rightarrow> Inl NotReturned | Some r \<Rightarrow> r)"

text \<open>\<open>default_arg_formatter\<close>: no specification.\<close>

definition default_arg_formatter :: "fmt_arg \<Rightarrow> string res" where
  "default_arg_formatter a =
     (case a of
        Int_arg v \<Rightarrow> write_plain_int 32 (sint v)
      | UInt_arg v \<Rightarrow> write_plain_int 32 (uint v)
      | LongLong_arg v \<Rightarrow> write_plain_int 64 (sint v)
      | ULongLong_arg v \<Rightarrow> write_plain_int 64 (uint v)
      | Bool_arg b \<Rightarrow> Inr (write_bytes (if b then ''true'' else ''false'') default_specs)
      | Char_arg c \<Rightarrow> Inr [c]
      | Cstring_arg p s \<Rightarrow> write_plain_cstring (unat p) s
      | String_arg s \<Rightarrow> Inr s
      | Pointer_arg p \<Rightarrow> write_pointer (unat p) default_specs)"

text \<open>\<open>arg_formatter\<close>: under a specification.\<close>

definition arg_formatter :: "thousands_sep_result \<Rightarrow> format_specs \<Rightarrow> fmt_arg \<Rightarrow> string res" where
  "arg_formatter t specs a =
     (case a of
        Int_arg v \<Rightarrow> returned (write_integer 32 (sint v) specs t)
      | UInt_arg v \<Rightarrow> returned (write_integer 32 (uint v) specs t)
      | LongLong_arg v \<Rightarrow> returned (write_integer 64 (sint v) specs t)
      | ULongLong_arg v \<Rightarrow> returned (write_integer 64 (uint v) specs t)
      | Bool_arg b \<Rightarrow> returned (write_bool b specs t)
      | Char_arg c \<Rightarrow> returned (write_char_arg c specs t)
      | Cstring_arg p s \<Rightarrow> write_cstring (unat p) s specs
      | String_arg s \<Rightarrow> write_string_arg s specs
      | Pointer_arg p \<Rightarrow> write_pointer (unat p) specs)"

section \<open>The format handler\<close>

record fmt_state =
  st_out :: string
  st_next_id :: int

definition emit :: "string res \<Rightarrow> fmt_state \<Rightarrow> fmt_state res" where
  "emit r st = bind_res r (\<lambda>s. Inr (st\<lparr>st_out := st_out st @ s\<rparr>))"

definition handler_on_arg_id :: "fmt_env \<Rightarrow> arg_id \<Rightarrow> fmt_state \<Rightarrow> (int \<times> fmt_state) res" where
  "handler_on_arg_id env a st =
     (case a of
        Auto_id \<Rightarrow> bind_res (next_arg_id (st_next_id st)) (\<lambda>(i, n). Inr (i, st\<lparr>st_next_id := n\<rparr>))
      | Index_id i \<Rightarrow> bind_res (check_arg_id (st_next_id st)) (\<lambda>n. Inr (i, st\<lparr>st_next_id := n\<rparr>))
      | Name_id name \<Rightarrow>
          let i = args_get_id env name in
          if i < 0 then throw_format_error ''argument not found'' else Inr (i, st))"

definition handler_on_replacement_field :: "fmt_env \<Rightarrow> int \<Rightarrow> fmt_state \<Rightarrow> fmt_state res" where
  "handler_on_replacement_field env i st =
     bind_res (get_arg (args_get env i)) (\<lambda>a. emit (default_arg_formatter a) st)"

definition handler_on_format_specs :: "fmt_env \<Rightarrow> int \<Rightarrow> string \<Rightarrow> fmt_state \<Rightarrow> (string \<times> fmt_state) res" where
  "handler_on_format_specs env i s st =
     bind_res (get_arg (args_get env i)) (\<lambda>a.
     bind_res (parse_format_specs (specs_checker (type_of_arg a) (specs_handler env)) s
                \<lparr>ss_specs = default_specs, ss_next_id = st_next_id st\<rparr>) (\<lambda>(rest, ss).
       if rest = [] \<or> hd rest \<noteq> CHR ''}''
       then throw_format_error (''missing '' @ [CHR 0x27, CHR ''}'', CHR 0x27] @ '' in format string'')
       else bind_res (emit (arg_formatter (fe_sep env) (ss_specs ss) a) (st\<lparr>st_next_id := ss_next_id ss\<rparr>))
              (\<lambda>st. Inr (rest, st))))"

definition format_handler :: "fmt_env \<Rightarrow> fmt_state fmt_handler" where
  "format_handler env =
     \<lparr>on_text = (\<lambda>s. emit (Inr s)),
      on_arg_id = handler_on_arg_id env,
      on_replacement_field = handler_on_replacement_field env,
      on_format_specs = handler_on_format_specs env\<rparr>"

text \<open>\<open>vformat_to\<close>: what it appends to the buffer; \<open>None\<close> would be a parser that does not come back.\<close>

definition vformat_to :: "fmt_env \<Rightarrow> string \<Rightarrow> string res option" where
  "vformat_to env fmt =
     (if fmt = ''{}'' then
        Some (bind_res (get_arg (args_get env 0)) default_arg_formatter)
      else
        (case parse_format_string (format_handler env) fmt \<lparr>st_out = [], st_next_id = 0\<rparr> of
           None \<Rightarrow> None
         | Some r \<Rightarrow> Some (bind_res r (\<lambda>st. Inr (st_out st)))))"

section \<open>Every writer comes back\<close>

lemma format_returns [returning]:
  "returns (format_decimal v n)" "returns (format_uint b u v n)"
  by (simp_all add: format_decimal_def format_uint_def returns_def Let_def)

lemma write_ptr_returns [returning]: "returns (write_ptr p specs)"
  by (simp add: write_ptr_def Let_def returns_then returning)

lemma write_int_digits_returns [returning]: "returns m \<Longrightarrow> returns (write_int_digits n p specs m)"
  by (simp add: write_int_digits_def returns_then split: prod.split)

lemma write_integer_ends:
  assumes "locale_sep t" "w = 32 \<or> w = 64"
  shows "\<exists>r. write_integer w v specs t = Some r \<and> returns r"
proof -
  obtain n p where a: "make_write_int_arg w v (fs_sign specs) = (n, p)" by fastforce
  have "v mod 2 ^ w < 2 ^ w" "(0 - v mod 2 ^ w) mod 2 ^ w < (2 :: int) ^ w" by simp_all
  then have "n < 2 ^ w" using a by (auto simp: make_write_int_arg_def Let_def nat_less_iff split: if_splits)
  then have n: "n < 2 ^ 64" using assms(2) by auto
  show ?thesis
    using write_int_localized_ends [OF assms(1) n, of p specs]
    by (auto simp: write_integer_def a write_int_def write_radix_def Let_def write_int_digits_returns format_returns
        split: presentation_type.split)
qed

lemma arg_formatter_returns:
  assumes "locale_sep t"
  shows "returns (arg_formatter t specs a)"
proof -
  have i: "returns (returned (write_integer w v specs t))" if "w = 32 \<or> w = 64" for w v
    using write_integer_ends [OF assms that, of v specs] by (auto simp: returned_def)
  have c: "returns (returned (write_char_arg ch specs t))" for ch
    using i [of 32] by (auto simp: write_char_arg_def returned_def check_char_specs_def check_int_type_spec_def
        throw_format_error_def split: sum.splits bool.splits)
  have s: "returns (write_string_arg str specs)" for str
    by (simp add: write_string_arg_def check_string_type_spec_def returns_then)
  have n: "returns (Inl NullDeref :: string res)" by (simp add: returns_def)
  have p: "returns (write_cstring q str specs)" "returns (write_pointer q specs)" for q str
    using n by (auto simp: write_cstring_def write_pointer_def check_cstring_type_spec_def check_pointer_type_spec_def
        intro!: returns_bind write_ptr_returns)
  show ?thesis using i c s p
    by (simp add: arg_formatter_def write_bool_def returned_def split: fmt_arg.split)
qed

lemma default_arg_formatter_returns [returning]: "returns (default_arg_formatter a)"
  by (auto simp: default_arg_formatter_def write_plain_int_def write_plain_cstring_def write_pointer_def
      check_pointer_type_spec_def Let_def returns_then format_returns write_ptr_returns
      split: fmt_arg.split intro!: returns_bind)

lemma get_arg_returns [returning]: "returns (get_arg a)"
  by (simp add: get_arg_def split: option.split)

lemma arg_id_counters_return [returning]: "returns (next_arg_id n)" "returns (check_arg_id n)"
  by (simp_all add: next_arg_id_def check_arg_id_def)

lemma emit_returns [returning]: "returns r \<Longrightarrow> returns (emit r st)"
  by (simp add: emit_def returns_then)

lemma on_dynamic_returns: "returns (on_dynamic env what upd a st)"
proof -
  have "returns (specs_get_arg env a st)"
    by (auto simp: specs_get_arg_def split: arg_id.split intro!: returns_bind returning)
  moreover have "returns (get_dynamic_spec what arg)" for arg
    by (auto simp: get_dynamic_spec_def spec_checker_def Let_def split: fmt_arg.split intro!: returns_bind)
  ultimately show ?thesis by (auto simp: on_dynamic_def set_specs_def intro!: returns_bind)
qed

lemma specs_handler_returns: "spec_returns (specs_checker t (specs_handler env))"
proof -
  have f: "returns (specs_on_fill s st)" for s st
    by (auto simp: specs_on_fill_def fill_assign_def set_specs_def intro!: returns_bind)
  have r: "returns (require_numeric_argument t)" "returns (checked_sign t)" "returns (checked_precision t)"
    by (auto simp: require_numeric_argument_def checked_sign_def checked_precision_def intro!: returns_bind)
  show ?thesis
    using f r on_dynamic_returns
    by (simp add: spec_returns_def specs_checker_def specs_handler_def set_specs_def returns_then)
qed

lemma format_handler_simps [simp]:
  "on_text (format_handler env) s st = Inr (st\<lparr>st_out := st_out st @ s\<rparr>)"
  "on_arg_id (format_handler env) = handler_on_arg_id env"
  "on_replacement_field (format_handler env) = handler_on_replacement_field env"
  "on_format_specs (format_handler env) = handler_on_format_specs env"
  by (simp_all add: format_handler_def emit_def)

text \<open>The parser may run on this handler: it moves forward and, in a locale, comes back.\<close>

interpretation vf: scan_handler "format_handler env"
proof
  fix i s st s' st'
  assume "on_format_specs (format_handler env) i s st = Inr (s', st')"
  then show "length s' \<le> length s"
    by (auto simp: handler_on_format_specs_def bind_res_eq_Inr throw_format_error_def
        split: if_splits dest: parse_format_specs_le)
qed simp

lemma handler_on_format_specs_returns:
  assumes "locale_sep (fe_sep env)"
  shows "returns (handler_on_format_specs env i s st)"
  unfolding handler_on_format_specs_def
  by (intro returns_bind returning)
     (auto intro!: returns_bind returning parse_format_specs_returns specs_handler_returns arg_formatter_returns assms
      split: prod.split)

lemma format_handler_returning:
  assumes "locale_sep (fe_sep env)"
  shows "returning_handler (format_handler env)"
proof
  show "returns (on_arg_id (format_handler env) a st)" for a st
    by (auto simp: handler_on_arg_id_def Let_def split: arg_id.split intro!: returns_bind returning)
  show "returns (on_replacement_field (format_handler env) i st)" for i st
    by (auto simp: handler_on_replacement_field_def intro!: returns_bind returning)
  show "returns (on_format_specs (format_handler env) i s st)" for i s st
    using handler_on_format_specs_returns [OF assms] by simp
qed simp_all

end
