(* ===== verification/FmtStrings.thy ===== *)
theory FmtStrings
  imports FmtFormat
begin

text \<open>
  Whole format strings.  A format string is printed from its segments: literal text with doubled braces,
  plain replacement fields and fields with a specification.  \<open>vformat_to\<close> on the printed string does what
  the segments say one after the other, which gives the properties of formatting as a whole.
\<close>

section \<open>Segments\<close>

datatype segment = Text string | Field arg_id | Spec_field arg_id spec_syntax

definition double_braces :: "string \<Rightarrow> string" where
  "double_braces t = concat (map (\<lambda>c. if c = CHR ''{'' \<or> c = CHR ''}'' then [c, c] else [c]) t)"

definition print_segment :: "segment \<Rightarrow> string" where
  "print_segment s =
     (case s of
        Text t \<Rightarrow> double_braces t
      | Field a \<Rightarrow> ''{'' @ print_arg_id a @ ''}''
      | Spec_field a sy \<Rightarrow> ''{'' @ print_arg_id a @ '':'' @ print_spec sy @ ''}'')"

definition print_segments :: "segment list \<Rightarrow> string" where
  "print_segments ss = concat (map print_segment ss)"

text \<open>A specification after a colon is not empty: see \<open>empty_spec_eats_text\<close> below.\<close>

definition segment_ok :: "segment \<Rightarrow> bool" where
  "segment_ok s =
     (case s of Text _ \<Rightarrow> True | Field a \<Rightarrow> arg_id_ok a
      | Spec_field a sy \<Rightarrow> arg_id_ok a \<and> spec_ok sy \<and> print_spec sy \<noteq> [])"

definition run_segment :: "fmt_env \<Rightarrow> segment \<Rightarrow> fmt_state \<Rightarrow> fmt_state res" where
  "run_segment env s st =
     (case s of
        Text t \<Rightarrow> Inr (st\<lparr>st_out := st_out st @ t\<rparr>)
      | Field a \<Rightarrow> bind_res (handler_on_arg_id env a st) (\<lambda>(i, st). handler_on_replacement_field env i st)
      | Spec_field a sy \<Rightarrow>
          bind_res (handler_on_arg_id env a st) (\<lambda>(i, st).
          bind_res (get_arg (args_get env i)) (\<lambda>arg.
          bind_res (run_spec (specs_checker (type_of_arg arg) (specs_handler env)) sy
                      \<lparr>ss_specs = default_specs, ss_next_id = st_next_id st\<rparr>) (\<lambda>ss.
            emit (arg_formatter (fe_sep env) (ss_specs ss) arg) (st\<lparr>st_next_id := ss_next_id ss\<rparr>)))))"

fun run_segments :: "fmt_env \<Rightarrow> segment list \<Rightarrow> fmt_state \<Rightarrow> fmt_state res" where
  "run_segments env [] st = Inr st"
| "run_segments env (s # ss) st = bind_res (run_segment env s st) (run_segments env ss)"

lemma print_segments_simps [simp]:
  "print_segments [] = []" "print_segments (s # ss) = print_segment s @ print_segments ss"
  by (simp_all add: print_segments_def)

lemma bind_res_Inr [simp]: "bind_res m Inr = m"
  by (cases m) simp_all

section \<open>Fields are read back\<close>

lemma print_arg_id_head:
  assumes "arg_id_ok a" "closes T"
  shows "hd (print_arg_id a @ T) \<noteq> CHR ''{''" and "a \<noteq> Auto_id \<Longrightarrow> hd (print_arg_id a @ T) \<noteq> CHR ''}''"
proof -
  have "hd (print_arg_id a @ T) \<noteq> CHR ''{'' \<and> (a \<noteq> Auto_id \<longrightarrow> hd (print_arg_id a @ T) \<noteq> CHR ''}'')"
  proof (cases a)
    case Auto_id
    then show ?thesis using assms(2) by (auto simp: print_arg_id_def closes_def)
  next
    case (Index_id i)
    have "is_dig (hd (dec (nat i)))" by (rule dec_hd_digit)
    then show ?thesis using Index_id by (auto simp: print_arg_id_def)
  next
    case (Name_id n)
    then have "n \<noteq> []" "is_name_start (hd n)" using assms(1) by (auto simp: arg_id_ok_def)
    then show ?thesis using Name_id by (auto simp: print_arg_id_def)
  qed
  then show "hd (print_arg_id a @ T) \<noteq> CHR ''{''" and "a \<noteq> Auto_id \<Longrightarrow> hd (print_arg_id a @ T) \<noteq> CHR ''}''"
    by blast+
qed

lemma field_read_back:
  assumes "arg_id_ok a"
  shows "parse_replacement_field (format_handler env) (print_segment (Field a) @ R) st =
    bind_res (run_segment env (Field a) st) (\<lambda>st. Inr (R, st))"
proof (cases "a = Auto_id")
  case True
  then show ?thesis
    by (simp add: parse_replacement_field_def print_segment_def print_arg_id_def run_segment_def bind_res_assoc
        split_def Let_def)
next
  case False
  let ?s = "print_arg_id a @ CHR ''}'' # R"
  have h: "hd ?s \<noteq> CHR ''{''" "hd ?s \<noteq> CHR ''}''" "?s \<noteq> []"
    using print_arg_id_head [OF assms, of "CHR ''}'' # R"] False by auto
  have p: "parse_arg_id (\<lambda>a (_, st). handler_on_arg_id env a st) ?s (0, st) =
      bind_res (handler_on_arg_id env a st) (\<lambda>st. Inr (CHR ''}'' # R, st))"
    by (subst parse_arg_id_print [OF assms]) simp_all
  show ?thesis
    using h p by (simp add: parse_replacement_field_def print_segment_def run_segment_def bind_res_assoc split_def Let_def)
qed

lemma spec_field_read_back:
  assumes "segment_ok (Spec_field a sy)"
  shows "parse_replacement_field (format_handler env) (print_segment (Spec_field a sy) @ R) st =
    bind_res (run_segment env (Spec_field a sy) st) (\<lambda>st. Inr (R, st))"
proof -
  have ok: "arg_id_ok a" "spec_ok sy" "print_spec sy \<noteq> []" using assms by (auto simp: segment_ok_def)
  let ?t = "print_spec sy @ CHR ''}'' # R"
  let ?s = "print_arg_id a @ CHR '':'' # ?t"
  have c: "closes (CHR '':'' # ?t)" by (simp add: closes_def)
  have h: "hd ?s \<noteq> CHR ''{''" "hd ?s \<noteq> CHR ''}''" "?s \<noteq> []"
    using print_arg_id_head [OF ok(1) c] by (cases "a = Auto_id"; simp add: print_arg_id_def)+
  have p: "parse_arg_id (\<lambda>a (_, st). handler_on_arg_id env a st) ?s (0, st) =
      bind_res (handler_on_arg_id env a st) (\<lambda>st. Inr (CHR '':'' # ?t, st))"
    by (subst parse_arg_id_print [OF ok(1) c]) simp
  have pf: "parse_format_specs h ?t ss = bind_res (run_spec h sy ss) (\<lambda>ss. Inr (CHR ''}'' # R, ss))"
    for h :: "spec_state spec_handler" and ss
    by (rule parse_format_specs_print [OF ok(2)]) (use ok(3) in simp)
  have f: "handler_on_format_specs env i ?t st =
      bind_res (get_arg (args_get env i)) (\<lambda>arg.
      bind_res (run_spec (specs_checker (type_of_arg arg) (specs_handler env)) sy
                  \<lparr>ss_specs = default_specs, ss_next_id = st_next_id st\<rparr>) (\<lambda>ss.
      bind_res (emit (arg_formatter (fe_sep env) (ss_specs ss) arg) (st\<lparr>st_next_id := ss_next_id ss\<rparr>)) (\<lambda>st.
      Inr (CHR ''}'' # R, st))))" for i st
    by (simp add: handler_on_format_specs_def pf bind_res_assoc)
  show ?thesis
    using h p f by (simp add: parse_replacement_field_def print_segment_def run_segment_def bind_res_assoc split_def Let_def)
qed

section \<open>Format strings are read back\<close>

lemma small_loop_field:
  assumes "parse_replacement_field (format_handler env) s (st\<lparr>st_out := st_out st @ t\<rparr>) = bind_res m (\<lambda>st. Inr (R, st))"
    "hd s = CHR ''{''" "s \<noteq> []"
  shows "small_loop (format_handler env) t s st =
    (case m of Inl e \<Rightarrow> Some (Inl e) | Inr st' \<Rightarrow> small_loop (format_handler env) [] R st')"
  using assms by (cases s; cases m) (subst small_loop.simps, simp)+

lemma small_loop_literal:
  assumes "\<And>t st. small_loop (format_handler env) t R st = Some (F (st\<lparr>st_out := st_out st @ t\<rparr>))"
  shows "small_loop (format_handler env) t (double_braces u @ R) st = Some (F (st\<lparr>st_out := st_out st @ t @ u\<rparr>))"
proof (induction u arbitrary: t st)
  case Nil
  then show ?case using assms by (simp add: double_braces_def)
next
  case (Cons c u)
  consider "c = CHR ''{''" | "c = CHR ''}''" | "c \<noteq> CHR ''{''" "c \<noteq> CHR ''}''" by blast
  then show ?case
  proof cases
    case 1
    have "double_braces (c # u) @ R = CHR ''{'' # CHR ''{'' # double_braces u @ R" using 1 by (simp add: double_braces_def)
    moreover have "parse_replacement_field (format_handler env) (CHR ''{'' # CHR ''{'' # double_braces u @ R)
        (st\<lparr>st_out := st_out st @ t\<rparr>) =
        bind_res (Inr (st\<lparr>st_out := st_out st @ t @ ''{''\<rparr>)) (\<lambda>st. Inr (double_braces u @ R, st))"
      by (simp add: parse_replacement_field_def Let_def)
    from small_loop_field [OF this] have "small_loop (format_handler env) t (CHR ''{'' # CHR ''{'' # double_braces u @ R) st =
        small_loop (format_handler env) [] (double_braces u @ R) (st\<lparr>st_out := st_out st @ t @ ''{''\<rparr>)" by simp
    ultimately show ?thesis using Cons.IH [of "[]"] 1 by simp
  next
    case 2
    have "double_braces (c # u) @ R = CHR ''}'' # CHR ''}'' # double_braces u @ R" using 2 by (simp add: double_braces_def)
    moreover have "small_loop (format_handler env) t (CHR ''}'' # CHR ''}'' # double_braces u @ R) st =
        small_loop (format_handler env) [] (double_braces u @ R) (st\<lparr>st_out := st_out st @ t @ ''}''\<rparr>)"
      by (subst small_loop.simps) simp
    ultimately show ?thesis using Cons.IH [of "[]"] 2 by simp
  next
    case 3
    then have "double_braces (c # u) @ R = c # double_braces u @ R" by (simp add: double_braces_def)
    moreover have "small_loop (format_handler env) t (c # double_braces u @ R) st =
        small_loop (format_handler env) (t @ [c]) (double_braces u @ R) st"
      using 3 by (subst small_loop.simps) simp
    ultimately show ?thesis using Cons.IH [of "t @ [c]"] by simp
  qed
qed

lemma small_loop_segments:
  assumes "\<forall>s\<in>set ss. segment_ok s"
  shows "small_loop (format_handler env) t (print_segments ss) st = Some (run_segments env ss (st\<lparr>st_out := st_out st @ t\<rparr>))"
  using assms
proof (induction ss arbitrary: t st)
  case Nil
  then show ?case by (subst small_loop.simps) simp
next
  case (Cons s ss)
  have ih: "small_loop (format_handler env) t (print_segments ss) st = Some (run_segments env ss (st\<lparr>st_out := st_out st @ t\<rparr>))"
    for t st using Cons by simp
  show ?case
  proof (cases s)
    case (Text u)
    then show ?thesis using small_loop_literal [OF ih, of t u st]
      by (simp add: print_segment_def run_segment_def)
  next
    case (Field a)
    then have "parse_replacement_field (format_handler env) (print_segment s @ print_segments ss) (st\<lparr>st_out := st_out st @ t\<rparr>) =
        bind_res (run_segment env s (st\<lparr>st_out := st_out st @ t\<rparr>)) (\<lambda>st. Inr (print_segments ss, st))"
      using Cons.prems field_read_back by (simp add: segment_ok_def)
    from small_loop_field [OF this] show ?thesis
      using ih [of "[]"] Field by (simp add: print_segment_def split: sum.split)
  next
    case (Spec_field a sy)
    then have "parse_replacement_field (format_handler env) (print_segment s @ print_segments ss) (st\<lparr>st_out := st_out st @ t\<rparr>) =
        bind_res (run_segment env s (st\<lparr>st_out := st_out st @ t\<rparr>)) (\<lambda>st. Inr (print_segments ss, st))"
      using Cons.prems spec_field_read_back by simp
    from small_loop_field [OF this] show ?thesis
      using ih [of "[]"] Spec_field by (simp add: print_segment_def split: sum.split)
  qed
qed

text \<open>The fast path of \<open>vformat_to\<close> for \<open>{}\<close> is what the parser would do.\<close>

definition start :: fmt_state where
  "start = \<lparr>st_out = [], st_next_id = 0\<rparr>"

lemma vformat_to_parse:
  "vformat_to env fmt = map_option (\<lambda>r. bind_res r (\<lambda>st. Inr (st_out st))) (parse_format_string (format_handler env) fmt start)"
proof (cases "fmt = ''{}''")
  case False
  then show ?thesis by (simp add: vformat_to_def start_def split: option.split)
next
  case True
  have "small_loop (format_handler env) [] (print_segments [Field Auto_id]) start = Some (run_segments env [Field Auto_id] start)"
    using small_loop_segments [of "[Field Auto_id]" env "[]" start] by (simp add: segment_ok_def arg_id_ok_def)
  moreover have "print_segments [Field Auto_id] = ''{}''" by (simp add: print_segment_def print_arg_id_def)
  ultimately have "parse_format_string (format_handler env) ''{}'' start = Some (run_segments env [Field Auto_id] start)"
    by (simp add: parse_format_string_def)
  then show ?thesis using True
    by (simp add: vformat_to_def run_segment_def handler_on_arg_id_def next_arg_id_def start_def handler_on_replacement_field_def
        emit_def bind_res_assoc)
qed

lemma vformat_to_segments:
  assumes "\<forall>s\<in>set ss. segment_ok s"
  shows "vformat_to env (print_segments ss) = Some (bind_res (run_segments env ss start) (\<lambda>st. Inr (st_out st)))"
  using small_loop_segments [OF assms, of env "[]" start]
  by (simp add: vformat_to_parse vf.parse_format_string_small)

section \<open>Columns\<close>

lemma encode_all_append: "encode_all (xs @ ys) = encode_all xs @ encode_all ys"
  by (simp add: encode_all_def)

lemma encode_all_replicate: "encode_all (replicate n f) = concat (replicate n (utf8_encode f))"
  by (simp add: encode_all_def map_replicate)

text \<open>The fill of a specification is one code point.\<close>

definition fill_is :: "format_specs \<Rightarrow> nat \<Rightarrow> bool" where
  "fill_is specs f \<longleftrightarrow>
     scalar f \<and> fill_size (fs_fill specs) = length (utf8_encode f) \<and>
     take (fill_size (fs_fill specs)) (fill_data (fs_fill specs)) = utf8_encode f"

lemma fill_n_encode:
  assumes "fill_is specs f"
  shows "fill_n n (fs_fill specs) = encode_all (replicate n f)"
proof (cases "fill_size (fs_fill specs) = 1")
  case True
  have "fill_size (fs_fill specs) = length (utf8_encode f)"
    "take (fill_size (fs_fill specs)) (fill_data (fs_fill specs)) = utf8_encode f"
    using assms unfolding fill_is_def by blast+
  then have one: "length (utf8_encode f) = 1" "take 1 (fill_data (fs_fill specs)) = utf8_encode f"
    unfolding True by auto
  then have "utf8_encode f = [fill_data (fs_fill specs) ! 0]"
    by (cases "fill_data (fs_fill specs)") auto
  then have "concat (replicate n (utf8_encode f)) = replicate n (fill_data (fs_fill specs) ! 0)"
    by (induction n) simp_all
  then show ?thesis using True by (simp add: fill_n_def encode_all_replicate)
next
  case False
  have t: "take (fill_size (fs_fill specs)) (fill_data (fs_fill specs)) = utf8_encode f"
    using assms unfolding fill_is_def by blast
  show ?thesis unfolding fill_n_def if_not_P [OF False] t encode_all_replicate by (rule refl)
qed

text \<open>The share of a padding that goes to the left of a text.\<close>

definition left_share :: "align_t \<Rightarrow> nat \<Rightarrow> nat" where
  "left_share a p = (case a of Align_center \<Rightarrow> p div 2 | Align_right \<Rightarrow> p | Align_numeric \<Rightarrow> p | _ \<Rightarrow> 0)"

lemma left_share_shift: "p < 2 ^ 31 \<Longrightarrow> drop_bit (shifts False ! align_index a) p = left_share a p"
  by (cases a) (simp_all add: shifts_def align_index_def left_share_def drop_bit_eq_div)

lemma write_padded_encode:
  assumes "fill_is specs f" "fs_width specs < 2 ^ 31"
  shows "write_padded False specs w (encode_all cps) =
    (let p = nat (fs_width specs) - w; l = left_share (fs_align specs) p
     in encode_all (replicate l f @ cps @ replicate (p - l) f))"
proof -
  let ?p = "nat (fs_width specs) - w"
  have "nat (fs_width specs) < 2 ^ 31" using assms(2) by simp
  then have l: "drop_bit (shifts False ! align_index (fs_align specs)) ?p = left_share (fs_align specs) ?p"
    by (intro left_share_shift) linarith
  have fill: "(if k \<noteq> 0 then fill_n k (fs_fill specs) else []) = encode_all (replicate k f)" for k
    using fill_n_encode [OF assms(1)] by (simp add: encode_all_replicate)
  have "(if nat (fs_width specs) > w then nat (fs_width specs) - w else 0) = ?p" by simp
  then show ?thesis
    unfolding write_padded_def Let_def by (simp only: l fill encode_all_append)
qed

text \<open>
  The ranges of code points that take two columns, apart from the table in the code: the East Asian wide and
  fullwidth blocks and the two blocks of pictographs, ascending.
\<close>

definition wide_ranges :: "(nat \<times> nat) list" where
  "wide_ranges =
     [(0x1100, 0x115f), (0x2329, 0x232a), (0x2e80, 0x303e), (0x3040, 0xa4cf), (0xac00, 0xd7a3), (0xf900, 0xfaff),
      (0xfe10, 0xfe19), (0xfe30, 0xfe6f), (0xff00, 0xff60), (0xffe0, 0xffe6), (0x1f300, 0x1f64f),
      (0x1f900, 0x1f9ff), (0x20000, 0x2fffd), (0x30000, 0x3fffd)]"

definition is_wide :: "nat \<Rightarrow> bool" where
  "is_wide cp \<longleftrightarrow> list_ex (\<lambda>(first, last). first \<le> cp \<and> cp \<le> last) wide_ranges"

definition columns :: "nat list \<Rightarrow> nat" where
  "columns cps = length cps + length (filter is_wide cps)"

lemma columns_simps [simp]:
  "columns [] = 0" "columns (c # cs) = (if is_wide c then 2 else 1) + columns cs"
  "columns (xs @ ys) = columns xs + columns ys"
  by (simp_all add: columns_def)

lemma columns_replicate: "\<not> is_wide f \<Longrightarrow> columns (replicate n f) = n"
  by (induction n) simp_all

lemma cp_width_wide: "cp_width cp = (if is_wide cp then 2 else 1)"
proof -
  have "cp \<ge> 0x2e80 \<and> cp \<le> 0xa4cf \<and> cp \<noteq> 0x303f \<longleftrightarrow> 0x2e80 \<le> cp \<and> cp \<le> 0x303e \<or> 0x3040 \<le> cp \<and> cp \<le> 0xa4cf"
    and "cp = 0x2329 \<or> cp = 0x232a \<longleftrightarrow> 0x2329 \<le> cp \<and> cp \<le> 0x232a" by auto
  then show ?thesis by (auto simp: cp_width_def of_bool_nat_def is_wide_def wide_ranges_def)
qed

lemma compute_width_columns:
  assumes "\<forall>c\<in>set cs. scalar c"
  shows "compute_width (encode_all cs) = columns cs"
proof -
  have "sum_list (map cp_width cs) = columns cs" by (induction cs) (simp_all add: cp_width_wide)
  then show ?thesis using for_each_codepoint_encode [OF assms] by (simp add: compute_width_def)
qed

text \<open>
  C21: Padding a text of valid UTF-8 to a width: the output is the text with code points of the fill before and
  after it, shared as the alignment says (half and half, rounded down on the left, when centred), and takes the
  wider of the width and the columns of the text.  Columns are counted in code points by a table of the wide
  ranges, which stand for two columns each: neither bytes nor continuation bytes count.
\<close>

theorem columns_exact:
  assumes "\<forall>cp\<in>set cps. scalar cp" "fill_is specs f" "\<not> is_wide f" "fs_precision specs = -1"
    "0 \<le> fs_width specs" "fs_width specs < 2 ^ 31"
  shows "\<exists>l r. write_string (encode_all cps) specs = encode_all (replicate l f @ cps @ replicate r f) \<and>
     columns (replicate l f @ cps @ replicate r f) = max (nat (fs_width specs)) (columns cps) \<and>
     l = left_share (fs_align specs) (l + r)"
proof -
  define p where "p = nat (fs_width specs) - columns cps"
  define l where "l = left_share (fs_align specs) p"
  have "l \<le> p" by (auto simp: l_def left_share_def split: align_t.splits)
  define w where "w = (if fs_width specs \<noteq> 0 then columns cps else 0)"
  have "write_string (encode_all cps) specs = write_padded False specs w (encode_all cps)"
    using assms(4) compute_width_columns [OF assms(1)] by (simp add: write_string_def w_def Let_def)
  moreover have "nat (fs_width specs) - w = p" by (auto simp: w_def p_def)
  ultimately have "write_string (encode_all cps) specs = encode_all (replicate l f @ cps @ replicate (p - l) f)"
    using write_padded_encode [OF assms(2,6), of w cps] by (simp add: l_def Let_def)
  moreover have "columns (replicate l f @ cps @ replicate (p - l) f) = max (nat (fs_width specs)) (columns cps)"
    using \<open>l \<le> p\<close> by (simp add: columns_replicate [OF assms(3)] p_def)
  moreover have "l = left_share (fs_align specs) (l + (p - l))" using \<open>l \<le> p\<close> by (simp add: l_def)
  ultimately show ?thesis by blast
qed

definition padded_specs :: format_specs where
  "padded_specs = default_specs\<lparr>fs_width := 7, fs_align := Align_center,
     fs_fill := \<lparr>fill_data = CHR ''*'' # replicate 3 CHR 0x00, fill_size = 1\<rparr>\<rparr>"

text \<open>Two wide characters and a narrow one in seven columns, between one star on each side.\<close>

theorem columns_exact_witness:
  "write_string (encode_all [0x4F60, 0x597D, 0x21]) padded_specs = encode_all [42, 0x4F60, 0x597D, 0x21, 42]"
proof -
  let ?cps = "[0x4F60, 0x597D, 0x21]"
  have "\<forall>cp\<in>set ?cps. scalar cp" by (simp add: scalar_def)
  moreover have "fill_is padded_specs 42"
    by (simp add: fill_is_def padded_specs_def scalar_def utf8_encode_def utf8_bytes_def char_of_eq)
  moreover have star: "\<not> is_wide 42" by (simp add: is_wide_def wide_ranges_def)
  moreover have s: "fs_precision padded_specs = -1" "fs_width padded_specs = 7" "fs_align padded_specs = Align_center"
    by (simp_all add: padded_specs_def default_specs_def)
  ultimately obtain l r where lr:
    "write_string (encode_all ?cps) padded_specs = encode_all (replicate l 42 @ ?cps @ replicate r 42)"
    "columns (replicate l 42 @ ?cps @ replicate r 42) = max 7 (columns ?cps)" "l = (l + r) div 2"
    using columns_exact [of ?cps padded_specs 42] by (auto simp: left_share_def)
  have "columns ?cps = 5" by (simp add: is_wide_def wide_ranges_def)
  with lr(2) have "l + r = 2" by (simp add: columns_replicate [OF star])
  with lr(3) have "l = Suc 0" "r = Suc 0" by auto
  with lr(1) show ?thesis by simp
qed

section \<open>Formatting as a whole\<close>

text \<open>
  C14: \<open>vformat_to\<close> reads every printed format string back: text with doubled braces comes out as it was, each
  field takes its argument (the next one, the one with the index or the one with the name), a specification makes
  exactly its calls, and the outputs are appended in order; the first error ends the call.
\<close>

theorem format_strings_read_back:
  assumes "\<forall>s\<in>set ss. segment_ok s"
  shows "vformat_to env (print_segments ss) = Some (bind_res (run_segments env ss start) (\<lambda>st. Inr (st_out st)))"
  by (rule vformat_to_segments [OF assms])

definition sample_env :: fmt_env where
  "sample_env = \<lparr>fe_args = [String_arg ''upper'', String_arg ''down''], fe_named = [(''d'', 1)],
     fe_sep = thousands_sep_impl [] CHR 0x00\<rparr>"

definition sample_spec :: spec_syntax where
  "sample_spec = \<lparr>sy_fill = None, sy_align = Align_none, sy_sign = Sign_none, sy_hash = False, sy_zero = False,
     sy_width = None, sy_precision = Some (Fixed 3), sy_localized = False, sy_type = Type_string\<rparr>"

definition sample_segments :: "segment list" where
  "sample_segments = [Text ''{x} '', Field (Name_id ''d''), Spec_field Auto_id sample_spec]"

text \<open>What a run of segments on strings unfolds to.\<close>

lemmas format_run_defs =
  run_segment_def handler_on_arg_id_def next_arg_id_def check_arg_id_def args_get_id_def args_get_def max_packed_args_def
  get_arg_def handler_on_replacement_field_def emit_def default_arg_formatter_def run_spec_def run_fill_align_def
  run_sign_def run_flag_def run_width_def run_precision_def run_type_def specs_checker_def specs_handler_def set_specs_def
  type_of_arg_def checked_precision_def is_integral_type_def arg_formatter_def write_string_arg_def
  check_string_type_spec_def write_string_def default_specs_def code_point_index_def write_padded_def Let_def

lemma sample_ok: "\<forall>s\<in>set sample_segments. segment_ok s"
  by (simp add: sample_segments_def segment_ok_def arg_id_ok_def is_name_start_def is_ascii_letter_def spec_ok_def
      sample_spec_def fill_ok_def count_ok_def int_max_def print_spec_def print_tail_def)

theorem format_strings_read_back_witness:
  "print_segments sample_segments = ''{{x}} {d}{:.3s}'' \<and>
   vformat_to sample_env ''{{x}} {d}{:.3s}'' = Some (Inr ''{x} downupp'')"
proof -
  have p: "print_segments sample_segments = ''{{x}} {d}{:.3s}''" by code_simp
  moreover have "bind_res (run_segments sample_env sample_segments start) (\<lambda>st. Inr (st_out st)) = Inr ''{x} downupp''"
    by (simp add: sample_segments_def sample_env_def start_def sample_spec_def format_run_defs)
  ultimately show ?thesis using format_strings_read_back [OF sample_ok, of sample_env] by simp
qed

interpretation vfr: returning_handler "format_handler (env\<lparr>fe_sep := thousands_sep_impl g c\<rparr>)"
  by (rule format_handler_returning) (simp add: thousands_sep_impl_ok)

text \<open>
  C15: Formatting always comes back: for every format string, however malformed, every argument list and whatever
  the groups of the locale, the scanning loops end and so do the writers.
\<close>

theorem formatting_terminates:
  "\<exists>r. vformat_to (env\<lparr>fe_sep := thousands_sep_impl g c\<rparr>) fmt = Some r \<and> r \<noteq> Inl NotReturned"
proof -
  obtain r where r: "parse_format_string (format_handler (env\<lparr>fe_sep := thousands_sep_impl g c\<rparr>)) fmt start = Some r" "returns r"
    using vfr.parse_format_string_returns by blast
  then show ?thesis by (cases r) (auto simp: vformat_to_parse returns_def)
qed

text \<open>
  C16: The loop for format strings below 32 characters and the two-pass loop for longer ones agree: on every
  string they give the same text, the same argument counter or the same error.
\<close>

theorem scan_loops_agree:
  "small_loop (format_handler env) [] s st = large_loop (format_handler env) s st"
  by (rule vf.loops_agree)

section \<open>Automatic and manual indices exclude each other\<close>

text \<open>
  The counter of the parse context: positive once an argument was numbered automatically, -1 once one was
  by hand.  \<open>marks ids n n'\<close>: what becomes of the counter when the references \<open>ids\<close> are resolved.
\<close>

definition marks :: "arg_id list \<Rightarrow> int \<Rightarrow> int \<Rightarrow> bool" where
  "marks ids n n' \<longleftrightarrow>
     (0 < n \<longrightarrow> 0 < n') \<and> (n = -1 \<longrightarrow> n' = -1) \<and>
     (Auto_id \<in> set ids \<longrightarrow> n \<noteq> -1 \<and> 0 < n') \<and>
     (\<forall>i. Index_id i \<in> set ids \<longrightarrow> \<not> 0 < n \<and> n' = -1)"

lemma marks_Nil [simp]: "marks [] n n"
  by (simp add: marks_def)

lemma marks_append: "marks xs n m \<Longrightarrow> marks ys m k \<Longrightarrow> marks (xs @ ys) n k"
  by (auto simp: marks_def)

lemma marks_exclusive: "marks ids n n' \<Longrightarrow> Auto_id \<in> set ids \<Longrightarrow> Index_id i \<notin> set ids"
  by (auto simp: marks_def)

lemma next_arg_id_marks: "next_arg_id n = Inr (i, n') \<Longrightarrow> marks [Auto_id] n n'"
  by (auto simp: next_arg_id_def marks_def throw_format_error_def split: if_splits)

lemma check_arg_id_marks: "check_arg_id n = Inr n' \<Longrightarrow> marks [Index_id i] n n'"
  by (auto simp: check_arg_id_def marks_def throw_format_error_def split: if_splits)

lemma name_marks [simp]: "marks [Name_id name] n n"
  by (simp add: marks_def)

lemma handler_on_arg_id_marks: "handler_on_arg_id env a st = Inr (i, st') \<Longrightarrow> marks [a] (st_next_id st) (st_next_id st')"
  by (auto simp: handler_on_arg_id_def bind_res_eq_Inr throw_format_error_def Let_def
      split: arg_id.splits if_splits dest: next_arg_id_marks check_arg_id_marks)

lemma specs_get_arg_marks: "specs_get_arg env a st = Inr (arg, st') \<Longrightarrow> marks [a] (ss_next_id st) (ss_next_id st')"
  by (auto simp: specs_get_arg_def bind_res_eq_Inr split: arg_id.splits dest: next_arg_id_marks check_arg_id_marks)

text \<open>A step of a specification that resolves the references \<open>ids\<close>.\<close>

definition resolves :: "arg_id list \<Rightarrow> (spec_state \<Rightarrow> spec_state res) \<Rightarrow> bool" where
  "resolves ids f \<longleftrightarrow> (\<forall>st st'. f st = Inr st' \<longrightarrow> marks ids (ss_next_id st) (ss_next_id st'))"

lemma resolves_basic:
  "resolves [] Inr" "resolves [] (set_specs u)"
  "resolves ids f \<Longrightarrow> resolves ids (\<lambda>st. bind_res m (\<lambda>_. f st))"
  by (auto simp: resolves_def set_specs_def bind_res_eq_Inr)

lemma resolves_bind: "resolves xs f \<Longrightarrow> resolves ys g \<Longrightarrow> resolves (xs @ ys) (\<lambda>st. bind_res (f st) g)"
  unfolding resolves_def bind_res_eq_Inr by (blast intro: marks_append)

lemma on_dynamic_resolves: "resolves [a] (on_dynamic env what upd a)"
  by (auto simp: resolves_def on_dynamic_def bind_res_eq_Inr set_specs_def dest: specs_get_arg_marks)

lemma specs_on_fill_resolves: "resolves [] (specs_on_fill s)"
  by (auto simp: resolves_def specs_on_fill_def bind_res_eq_Inr set_specs_def)

definition handler_resolves :: "spec_state spec_handler \<Rightarrow> bool" where
  "handler_resolves h \<longleftrightarrow>
     (\<forall>a. resolves [] (on_align h a)) \<and> (\<forall>f. resolves [] (on_fill h f)) \<and> (\<forall>s. resolves [] (on_sign h s)) \<and>
     resolves [] (on_hash h) \<and> resolves [] (on_zero h) \<and> (\<forall>w. resolves [] (on_width h w)) \<and>
     (\<forall>a. resolves [a] (on_dynamic_width h a)) \<and> (\<forall>p. resolves [] (on_precision h p)) \<and>
     (\<forall>a. resolves [a] (on_dynamic_precision h a)) \<and> resolves [] (end_precision h) \<and>
     resolves [] (on_localized h) \<and> (\<forall>t. resolves [] (on_type h t))"

lemma specs_checker_resolves: "handler_resolves (specs_checker t (specs_handler env))"
  by (simp add: handler_resolves_def specs_checker_def specs_handler_def resolves_basic specs_on_fill_resolves
      on_dynamic_resolves)

text \<open>The references of a specification and of a segment, in the order they are resolved.\<close>

definition count_ids :: "spec_count option \<Rightarrow> arg_id list" where
  "count_ids c = (case c of Some (Dynamic a) \<Rightarrow> [a] | _ \<Rightarrow> [])"

definition segment_ids :: "segment \<Rightarrow> arg_id list" where
  "segment_ids s =
     (case s of Text _ \<Rightarrow> [] | Field a \<Rightarrow> [a]
      | Spec_field a sy \<Rightarrow> a # count_ids (sy_width sy) @ count_ids (sy_precision sy))"

lemma run_spec_resolves:
  assumes "handler_resolves h"
  shows "resolves (count_ids (sy_width sy) @ count_ids (sy_precision sy)) (run_spec h sy)"
proof -
  note h = assms [unfolded handler_resolves_def]
  have none: "resolves [] (\<lambda>st. bind_res (f st) g)" if "resolves [] f" "resolves [] g" for f g
    using resolves_bind [OF that] by simp
  have fa: "resolves [] (run_fill_align h f a)" for f a
    using h by (cases "a = Align_none"; cases f) (simp_all add: run_fill_align_def [abs_def] resolves_basic none)
  have sign: "resolves [] (run_sign h s)" for s
    using h by (cases "s = Sign_none") (simp_all add: run_sign_def [abs_def] resolves_basic)
  have flag: "resolves [] (run_flag f b)" if "resolves [] f" for f b
    using that by (cases b) (simp_all add: run_flag_def [abs_def] resolves_basic)
  have width: "resolves (count_ids w) (run_width h w)" for w
  proof (cases w)
    case (Some c)
    then show ?thesis using h by (cases c) (simp_all add: run_width_def [abs_def] count_ids_def)
  qed (simp add: run_width_def [abs_def] count_ids_def resolves_basic)
  have precision: "resolves (count_ids p) (run_precision h p)" for p
  proof (cases p)
    case (Some c)
    then show ?thesis using h none resolves_bind [of "[a]" "on_dynamic_precision h a" "[]" "end_precision h" for a]
      by (cases c) (simp_all add: run_precision_def [abs_def] count_ids_def)
  qed (simp add: run_precision_def [abs_def] count_ids_def resolves_basic)
  have type: "resolves [] (run_type h t)" for t
    using h by (cases "t = Type_none") (simp_all add: run_type_def [abs_def] resolves_basic)
  have after: "resolves ids (\<lambda>st. bind_res (f st) g)" if "resolves [] f" "resolves ids g" for ids f g
    using resolves_bind [OF that] by simp
  have tail: "resolves [] (\<lambda>st. bind_res (run_flag (on_localized h) (sy_localized sy) st) (run_type h (sy_type sy)))"
    by (rule none [OF flag type]) (use h in blast)
  have "resolves (count_ids (sy_precision sy)) (\<lambda>st. bind_res (run_precision h (sy_precision sy) st)
      (\<lambda>st. bind_res (run_flag (on_localized h) (sy_localized sy) st) (run_type h (sy_type sy))))"
    using resolves_bind [OF precision tail] by simp
  note counts = resolves_bind [OF width this]
  have hash: "resolves [] (run_flag (on_hash h) b)" and zero: "resolves [] (run_flag (on_zero h) b)" for b
    using flag h by blast+
  show ?thesis
    unfolding run_spec_def [abs_def] by (rule after [OF fa after [OF sign after [OF hash after [OF zero counts]]]])
qed

lemma run_spec_marks:
  "run_spec (specs_checker t (specs_handler env)) sy ss = Inr ss' \<Longrightarrow>
   marks (count_ids (sy_width sy) @ count_ids (sy_precision sy)) (ss_next_id ss) (ss_next_id ss')"
  using run_spec_resolves [OF specs_checker_resolves] unfolding resolves_def by blast

lemma run_segment_marks:
  "run_segment env s st = Inr st' \<Longrightarrow> marks (segment_ids s) (st_next_id st) (st_next_id st')"
proof (cases s)
  case (Spec_field a sy)
  assume "run_segment env s st = Inr st'"
  then obtain i st1 arg ss where st1: "handler_on_arg_id env a st = Inr (i, st1)"
    "run_spec (specs_checker (type_of_arg arg) (specs_handler env)) sy
       \<lparr>ss_specs = default_specs, ss_next_id = st_next_id st1\<rparr> = Inr ss" "st_next_id st' = ss_next_id ss"
    using Spec_field by (auto simp: run_segment_def bind_res_eq_Inr emit_def)
  have "marks (count_ids (sy_width sy) @ count_ids (sy_precision sy)) (st_next_id st1) (st_next_id st')"
    using run_spec_marks [OF st1(2)] st1(3) by simp
  from marks_append [OF handler_on_arg_id_marks [OF st1(1)] this] show ?thesis
    by (simp add: Spec_field segment_ids_def)
qed (auto simp: run_segment_def segment_ids_def handler_on_replacement_field_def emit_def bind_res_eq_Inr
       dest: handler_on_arg_id_marks)

lemma run_segments_marks:
  "run_segments env ss st = Inr st' \<Longrightarrow> marks (concat (map segment_ids ss)) (st_next_id st) (st_next_id st')"
  by (induction ss arbitrary: st) (auto simp: bind_res_eq_Inr dest: run_segment_marks intro: marks_append)

text \<open>
  C22: A printed format string in which one argument is numbered automatically and another one is referred to
  by index is never formatted: the call ends with an error.  The two may stand in any order, in the same field
  or in different ones, as the argument of a field or as a width or precision nested in its specification.
\<close>

theorem indexing_exclusive:
  assumes "\<forall>s\<in>set ss. segment_ok s"
    "Auto_id \<in> set (concat (map segment_ids ss))" "Index_id i \<in> set (concat (map segment_ids ss))"
  shows "\<exists>e. vformat_to env (print_segments ss) = Some (Inl e)"
proof (cases "run_segments env ss start")
  case (Inl e)
  then show ?thesis using vformat_to_segments [OF assms(1), of env] by simp
next
  case (Inr st)
  then show ?thesis using marks_exclusive [OF run_segments_marks assms(2)] assms(3) by blast
qed

definition nested_index :: segment where
  "nested_index = Spec_field Auto_id (sample_spec\<lparr>sy_width := Some (Dynamic (Index_id 0)), sy_precision := None\<rparr>)"

theorem indexing_exclusive_witness:
  "print_segments [nested_index] = ''{:{0}s}'' \<and> (\<exists>e. vformat_to sample_env ''{:{0}s}'' = Some (Inl e))"
proof -
  have p: "print_segments [nested_index] = ''{:{0}s}''" by code_simp
  have "segment_ok nested_index"
    by (simp add: nested_index_def segment_ok_def arg_id_ok_def int_max_def spec_ok_def sample_spec_def fill_ok_def
        count_ok_def print_spec_def print_tail_def print_count_def)
  then show ?thesis
    using indexing_exclusive [of "[nested_index]" 0 sample_env] p
    by (simp add: nested_index_def segment_ids_def count_ids_def)
qed

section \<open>Corners of the grammar\<close>

text \<open>
  After an empty specification the text that follows can be taken for an alignment with the closing brace as
  its fill: \<open>{:}>\<close> is an error although \<open>{}>\<close> is not.
\<close>

lemma empty_spec_eats_text:
  "vformat_to sample_env ''{:}>'' = Some (throw_format_error (''missing '' @ [CHR 0x27, CHR ''}'', CHR 0x27] @ '' in format string''))"
  "vformat_to sample_env ''{}>'' = Some (Inr ''upper>'')"
  by code_simp+

text \<open>A null C string is an error without a specification, and is read through with one.\<close>

lemma null_string_with_spec:
  "default_arg_formatter (Cstring_arg 0 s) = throw_format_error ''string pointer is null''"
  "arg_formatter t default_specs (Cstring_arg 0 s) = Inl NullDeref"
  by (simp_all add: default_arg_formatter_def write_plain_cstring_def arg_formatter_def write_cstring_def
      check_cstring_type_spec_def default_specs_def)

text \<open>The precision of a text counts bytes: it can cut a code point in two.\<close>

lemma precision_cuts_code_point:
  "write_string (utf8_encode 0xE9) (default_specs\<lparr>fs_precision := 1\<rparr>) = [CHR 0xC3]"
  by (simp add: write_string_def default_specs_def utf8_encode_def utf8_bytes_def code_point_index_def write_padded_def
      char_of_eq)

text \<open>The zero flag replaces the first byte of a fill of two, which leaves no valid UTF-8.\<close>

lemma zero_flag_breaks_fill:
  "bind_res (specs_on_fill (utf8_encode 0xE9) \<lparr>ss_specs = default_specs, ss_next_id = 0\<rparr>) (set_specs zero_fill) =
     Inr \<lparr>ss_specs = default_specs\<lparr>fs_align := Align_numeric,
            fs_fill := \<lparr>fill_data = [CHR ''0'', CHR 0xA9, CHR 0x00, CHR 0x00], fill_size = 2\<rparr>\<rparr>, ss_next_id = 0\<rparr>"
  by (simp add: specs_on_fill_def fill_assign_def set_specs_def zero_fill_def default_specs_def utf8_encode_def
      utf8_bytes_def fill_default_def numeral_2_eq_2 char_of_eq numeral_3_eq_3)

end
