(* ===== verification/LogFiles.thy ===== *)
theory LogFiles
  imports LogSinks FmtStrings
begin

text \<open>
  Files of logs: the functions on paths of \<open>details/os-inl.h\<close> and \<open>details/file_helper-inl.h\<close>, the class
  \<open>file_helper\<close> and the plain file sink (\<open>sinks/basic_file_sink-inl.h\<close>).  The file system is a state: a map from
  paths to nodes, the contents of the files by inode, so that an open file survives its name, and the answers of the
  system, in order, to the calls that may fail for reasons of its own (\<open>False\<close> is a failure; when there are
  no more answers, nothing fails but what must).  What is written to a stream counts as in its file at once: the
  code asks for the size of a file only after opening and after flushing it.  Symbolic links and the directories
  \<open>.\<close> and \<open>..\<close> are names like others; the size of an open file can always be read.  This is the build for Unix
  without \<open>SPDLOG_PREVENT_CHILD_FD\<close>.  The handlers of file events are not modelled.
\<close>

section \<open>Calls that may throw\<close>

text \<open>A call leaves a state even when it ends with an exception, here its message.\<close>

type_synonym ('s, 'a) act = "'s \<Rightarrow> ('s \<times> (string + 'a)) res"

definition act_return :: "'a \<Rightarrow> ('s, 'a) act" where
  "act_return a s = Inr (s, Inr a)"

definition act_throw :: "string \<Rightarrow> ('s, 'a) act" where
  "act_throw e s = Inr (s, Inl e)"

definition act_bind :: "('s, 'a) act \<Rightarrow> ('a \<Rightarrow> ('s, 'b) act) \<Rightarrow> ('s, 'b) act" where
  "act_bind m f s =
     bind_res (m s) (\<lambda>(s', r). case r of Inl e \<Rightarrow> Inr (s', Inl e) | Inr a \<Rightarrow> f a s')"

definition act_res :: "'a res \<Rightarrow> ('s, 'a) act" where
  "act_res r s = bind_res r (\<lambda>a. Inr (s, Inr a))"

definition act_state :: "('s \<Rightarrow> 's) \<Rightarrow> ('s, unit) act" where
  "act_state f s = Inr (f s, Inr ())"

named_theorems act_simps \<open>calls run on a state\<close>

lemma act_run [act_simps]:
  "act_return a s = Inr (s, Inr a)" "act_throw e s = Inr (s, Inl e)" "act_state f s = Inr (f s, Inr ())"
  "act_res (Inr b) s = Inr (s, Inr b)" "act_res (Inl x) s = Inl x"
  by (simp_all add: act_return_def act_throw_def act_state_def act_res_def)

lemma act_bind_run [act_simps]:
  "m s = Inr (s', Inr a) \<Longrightarrow> act_bind m f s = f a s'"
  "m s = Inr (s', Inl e) \<Longrightarrow> act_bind m f s = Inr (s', Inl e)"
  "m s = Inl x \<Longrightarrow> act_bind m f s = Inl x"
  by (simp_all add: act_bind_def)

section \<open>Paths\<close>

definition is_sep :: "char \<Rightarrow> bool" where "is_sep c \<longleftrightarrow> c = CHR ''/''"

text \<open>The position of the last character with a property (\<open>rfind\<close>, \<open>find_last_of\<close>).\<close>

definition rindex :: "(char \<Rightarrow> bool) \<Rightarrow> string \<Rightarrow> nat option" where
  "rindex P s =
     (let n = length (takeWhile (\<lambda>c. \<not> P c) (rev s)) in if n < length s then Some (length s - 1 - n) else None)"

definition dir_name :: "string \<Rightarrow> string" where
  "dir_name path = (case rindex is_sep path of Some pos \<Rightarrow> take pos path | None \<Rightarrow> [])"

definition split_by_extension :: "string \<Rightarrow> string \<times> string" where
  "split_by_extension fname =
     (case rindex (\<lambda>c. c = CHR ''.'') fname of
        None \<Rightarrow> (fname, [])
      | Some ext_index \<Rightarrow>
          if ext_index = 0 \<or> ext_index = length fname - 1 then (fname, [])
          else case rindex is_sep fname of
            Some folder_index \<Rightarrow>
              if folder_index \<ge> ext_index - 1 then (fname, []) else (take ext_index fname, drop ext_index fname)
          | None \<Rightarrow> (take ext_index fname, drop ext_index fname))"

text \<open>The examples of the comment.\<close>

lemma split_by_extension_examples:
  "split_by_extension ''mylog.txt'' = (''mylog'', ''.txt'')"
  "split_by_extension ''mylog'' = (''mylog'', '''')"
  "split_by_extension ''mylog.'' = (''mylog.'', '''')"
  "split_by_extension ''/dir1/dir2/mylog.txt'' = (''/dir1/dir2/mylog'', ''.txt'')"
  "split_by_extension ''.mylog'' = (''.mylog'', '''')"
  "split_by_extension ''my_folder/.mylog'' = (''my_folder/.mylog'', '''')"
  "split_by_extension ''my_folder/.mylog.txt'' = (''my_folder/.mylog'', ''.txt'')"
  by code_simp+

section \<open>The file system\<close>

datatype node = Dir | File nat

record file_sys =
  fs_nodes :: "string \<Rightarrow> node option"
  fs_data :: "nat \<Rightarrow> string"
  fs_next :: nat
  fs_answers :: "bool list"

text \<open>The system reads \<open>a//b/\<close> as \<open>a/b\<close>.\<close>

fun collapse :: "string \<Rightarrow> string" where
  "collapse (a # b # r) = (if is_sep a \<and> is_sep b then collapse (b # r) else a # collapse (b # r))"
| "collapse s = s"

definition norm_path :: "string \<Rightarrow> string" where
  "norm_path p = (let q = collapse p in if 1 < length q \<and> is_sep (last q) then butlast q else q)"

definition node_at :: "file_sys \<Rightarrow> string \<Rightarrow> node option" where
  "node_at fs p =
     (if p = [] then None else if norm_path p = ''/'' then Some Dir else fs_nodes fs (norm_path p))"

definition path_exists :: "string \<Rightarrow> file_sys \<Rightarrow> bool" where
  "path_exists p fs \<longleftrightarrow> node_at fs p \<noteq> None"

text \<open>The directory a path is in exists; paths without a separator are in the current one.\<close>

definition folder_ok :: "string \<Rightarrow> file_sys \<Rightarrow> bool" where
  "folder_ok p fs \<longleftrightarrow> dir_name (norm_path p) = [] \<or> node_at fs (dir_name (norm_path p)) = Some Dir"

definition sys_answer :: "file_sys \<Rightarrow> bool \<times> file_sys" where
  "sys_answer fs = (case fs_answers fs of [] \<Rightarrow> (True, fs) | a # r \<Rightarrow> (a, fs\<lparr>fs_answers := r\<rparr>))"

definition sys_mkdir :: "string \<Rightarrow> file_sys \<Rightarrow> bool \<times> file_sys" where
  "sys_mkdir p fs =
     (let (ok, fs) = sys_answer fs in
      if ok \<and> p \<noteq> [] \<and> node_at fs p = None \<and> folder_ok p fs
      then (True, fs\<lparr>fs_nodes := (fs_nodes fs)(norm_path p \<mapsto> Dir)\<rparr>) else (False, fs))"

text \<open>\<open>fopen\<close> for appending, and with \<open>trunc\<close> for writing from the start.\<close>

definition sys_fopen :: "string \<Rightarrow> bool \<Rightarrow> file_sys \<Rightarrow> nat option \<times> file_sys" where
  "sys_fopen p trunc fs =
     (let (ok, fs) = sys_answer fs in
      if \<not> ok \<or> p = [] \<or> is_sep (last p) then (None, fs)
      else case node_at fs p of
        Some Dir \<Rightarrow> (None, fs)
      | Some (File i) \<Rightarrow> (Some i, if trunc then fs\<lparr>fs_data := (fs_data fs)(i := [])\<rparr> else fs)
      | None \<Rightarrow>
          if folder_ok p fs then
            (Some (fs_next fs), fs\<lparr>fs_nodes := (fs_nodes fs)(norm_path p \<mapsto> File (fs_next fs)),
                                    fs_data := (fs_data fs)(fs_next fs := []), fs_next := fs_next fs + 1\<rparr>)
          else (None, fs))"

text \<open>A failing write is taken to write nothing.\<close>

definition sys_fwrite :: "nat \<Rightarrow> string \<Rightarrow> file_sys \<Rightarrow> bool \<times> file_sys" where
  "sys_fwrite i d fs =
     (let (ok, fs) = sys_answer fs in
      if ok then (True, fs\<lparr>fs_data := (fs_data fs)(i := fs_data fs i @ d)\<rparr>) else (False, fs))"

text \<open>A directory that is in the way of a file is taken not to be empty, so that it is not removed.\<close>

definition sys_remove :: "string \<Rightarrow> file_sys \<Rightarrow> bool \<times> file_sys" where
  "sys_remove p fs =
     (let (ok, fs) = sys_answer fs in
      case node_at fs p of
        Some (File _) \<Rightarrow> if ok then (True, fs\<lparr>fs_nodes := (fs_nodes fs)(norm_path p := None)\<rparr>) else (False, fs)
      | _ \<Rightarrow> (False, fs))"

definition sys_rename :: "string \<Rightarrow> string \<Rightarrow> file_sys \<Rightarrow> bool \<times> file_sys" where
  "sys_rename src target fs =
     (let (ok, fs) = sys_answer fs in
      if ok \<and> node_at fs src \<noteq> None \<and> node_at fs target \<noteq> Some Dir \<and> target \<noteq> [] \<and> folder_ok target fs
      then (True, if norm_path src = norm_path target then fs
                  else fs\<lparr>fs_nodes := (fs_nodes fs)(norm_path target := node_at fs src, norm_path src := None)\<rparr>)
      else (False, fs))"

text \<open>\<open>os::create_dir\<close>: all directories leading to the path; the loop is at \<open>search_offset\<close>.\<close>

function create_dir_loop :: "string \<Rightarrow> nat \<Rightarrow> file_sys \<Rightarrow> bool \<times> file_sys" where
  "create_dir_loop path search_offset fs =
     (let token_pos = search_offset + length (takeWhile (\<lambda>c. \<not> is_sep c) (drop search_offset path));
          subdir = take token_pos path;
          (ok, fs) = (if subdir \<noteq> [] \<and> \<not> path_exists subdir fs then sys_mkdir subdir fs else (True, fs))
      in if \<not> ok then (False, fs)
         else if token_pos + 1 < length path then create_dir_loop path (token_pos + 1) fs else (True, fs))"
  by pat_completeness auto

termination by (relation "measure (\<lambda>(path, off, fs). length path - off)") auto

declare create_dir_loop.simps [simp del]

definition create_dir :: "string \<Rightarrow> file_sys \<Rightarrow> bool \<times> file_sys" where
  "create_dir path fs =
     (if path_exists path fs then (True, fs) else if path = [] then (False, fs) else create_dir_loop path 0 fs)"

definition remove_if_exists :: "string \<Rightarrow> file_sys \<Rightarrow> bool \<times> file_sys" where
  "remove_if_exists p fs = (if path_exists p fs then sys_remove p fs else (True, fs))"

section \<open>The file helper\<close>

text \<open>The open stream is the inode of its file.\<close>

record file_helper =
  fh_fd :: "nat option"
  fh_filename :: string
  fh_fs :: file_sys

definition new_file_helper :: "file_sys \<Rightarrow> file_helper" where
  "new_file_helper fs = \<lparr>fh_fd = None, fh_filename = [], fh_fs = fs\<rparr>"

definition fh_close :: "file_helper \<Rightarrow> file_helper" where
  "fh_close h = h\<lparr>fh_fd := None\<rparr>"

text \<open>The attempts of \<open>open\<close>; exceptions here and below carry their text without the system's part.\<close>

fun open_loop :: "nat \<Rightarrow> string \<Rightarrow> bool \<Rightarrow> (file_helper, unit) act" where
  "open_loop 0 fname trunc h = act_throw (''Failed opening file '' @ fh_filename h @ '' for writing'') h"
| "open_loop (Suc tries) fname trunc h =
     (let fs = snd (create_dir (dir_name fname) (fh_fs h));
          (tmp, fs) = (if trunc then sys_fopen fname True fs else (None, fs))
      in if trunc \<and> tmp = None then open_loop tries fname trunc (h\<lparr>fh_fs := fs\<rparr>)
         else let (fd, fs) = sys_fopen fname False fs; h = h\<lparr>fh_fd := fd, fh_fs := fs\<rparr>
              in if fd \<noteq> None then act_return () h else open_loop tries fname trunc h)"

definition open_tries :: nat where "open_tries = 5"

definition fh_open :: "string \<Rightarrow> bool \<Rightarrow> (file_helper, unit) act" where
  "fh_open fname trunc h = open_loop open_tries fname trunc ((fh_close h)\<lparr>fh_filename := fname\<rparr>)"

definition fh_reopen :: "bool \<Rightarrow> (file_helper, unit) act" where
  "fh_reopen trunc h =
     (if fh_filename h = [] then act_throw ''Failed re opening file - was not opened before'' h
      else fh_open (fh_filename h) trunc h)"

definition fh_flush :: "(file_helper, unit) act" where
  "fh_flush h =
     (let (ok, fs) = sys_answer (fh_fs h); h = h\<lparr>fh_fs := fs\<rparr>
      in if ok then act_return () h else act_throw (''Failed flush to file '' @ fh_filename h) h)"

text \<open>Writing without an open file writes through a null pointer.\<close>

definition fh_write :: "string \<Rightarrow> (file_helper, unit) act" where
  "fh_write buf h =
     (case fh_fd h of
        None \<Rightarrow> Inl NullDeref
      | Some i \<Rightarrow>
          let (ok, fs) = sys_fwrite i buf (fh_fs h); h = h\<lparr>fh_fs := fs\<rparr>
          in if ok then act_return () h else act_throw (''Failed writing to file '' @ fh_filename h) h)"

definition fh_size :: "(file_helper, nat) act" where
  "fh_size h =
     (case fh_fd h of
        None \<Rightarrow> act_throw (''Cannot use size() on closed file '' @ fh_filename h) h
      | Some i \<Rightarrow> act_return (length (fs_data (fh_fs h) i)) h)"

section \<open>The plain file sink\<close>

text \<open>
  What every file sink does first with a message: format it.  \<open>get\<close> and \<open>put\<close> are the
  formatter of the sink.
\<close>

definition formatted :: "os_env \<Rightarrow> ('s \<Rightarrow> pattern_formatter) \<Rightarrow> (pattern_formatter \<Rightarrow> 's \<Rightarrow> 's) \<Rightarrow> lmsg \<Rightarrow> ('s, string) act" where
  "formatted env get put msg s =
     bind_res (pf_format env (get s) msg []) (\<lambda>(pf, m, text). Inr (put pf s, Inr text))"

record basic_sink =
  bk_file :: file_helper
  bk_formatter :: pattern_formatter

definition bk_on_file :: "(file_helper, 'a) act \<Rightarrow> (basic_sink, 'a) act" where
  "bk_on_file m s = bind_res (m (bk_file s)) (\<lambda>(f, r). Inr (s\<lparr>bk_file := f\<rparr>, r))"

definition new_basic_sink :: "string \<Rightarrow> bool \<Rightarrow> pattern_formatter \<Rightarrow> file_sys \<Rightarrow> (basic_sink \<times> (string + unit)) res" where
  "new_basic_sink filename trunc pf fs =
     bk_on_file (fh_open filename trunc) \<lparr>bk_file = new_file_helper fs, bk_formatter = pf\<rparr>"

definition bk_sink_it :: "os_env \<Rightarrow> lmsg \<Rightarrow> (basic_sink, unit) act" where
  "bk_sink_it env msg =
     act_bind (formatted env bk_formatter (\<lambda>pf. bk_formatter_update (\<lambda>_. pf)) msg) (\<lambda>text. bk_on_file (fh_write text))"

definition bk_flush :: "(basic_sink, unit) act" where
  "bk_flush = bk_on_file fh_flush"

section \<open>Lemmas on paths\<close>

lemma rindex_append_free:
  assumes "\<forall>c\<in>set s. \<not> P c"
  shows "rindex P (x @ s) = rindex P x"
proof -
  have "takeWhile (\<lambda>c. \<not> P c) (rev s @ rev x) = rev s @ takeWhile (\<lambda>c. \<not> P c) (rev x)"
    using assms by (intro takeWhile_append2) simp
  then show ?thesis by (simp add: rindex_def Let_def)
qed

lemma rindex_snoc: "P c \<Longrightarrow> rindex P (x @ [c]) = Some (length x)"
  by (simp add: rindex_def)

lemma rindex_last:
  assumes "P c" "\<forall>d\<in>set y. \<not> P d"
  shows "rindex P (x @ c # y) = Some (length x)"
  using rindex_append_free [of y P "x @ [c]"] rindex_snoc [of P c x] assms by simp

lemma rindex_None: "rindex P s = None \<longleftrightarrow> (\<forall>c\<in>set s. \<not> P c)"
proof (cases "\<exists>c\<in>set s. P c")
  case True
  then obtain x c y where "s = x @ c # y" "P c" "\<forall>d\<in>set y. \<not> P d"
    using split_list_last_prop [OF True] by auto
  then show ?thesis using rindex_last [of P c y x] by auto
next
  case False
  then show ?thesis using rindex_append_free [of s P "[]"] by (auto simp: rindex_def)
qed

lemma rindex_Some:
  assumes "rindex P s = Some n"
  shows "\<exists>x c y. s = x @ c # y \<and> length x = n \<and> P c \<and> (\<forall>d\<in>set y. \<not> P d)"
proof -
  have "\<exists>c\<in>set s. P c" using assms rindex_None [of P s] by auto
  then obtain x c y where "s = x @ c # y" "P c" "\<forall>d\<in>set y. \<not> P d"
    using split_list_last_prop by metis
  then show ?thesis using rindex_last [of P c y x] assms by auto
qed

text \<open>What the code takes for a name with an extension.\<close>

definition names_extension :: "string \<Rightarrow> string \<Rightarrow> bool" where
  "names_extension b x \<longleftrightarrow>
     b \<noteq> [] \<and> \<not> is_sep (last b) \<and> x \<noteq> [] \<and> (\<forall>c\<in>set x. c \<noteq> CHR ''.'' \<and> \<not> is_sep c)"

lemma rindex_before_dot:
  assumes "b \<noteq> []" "\<forall>c\<in>set x. c \<noteq> CHR ''.''" "rindex is_sep (b @ CHR ''.'' # x) = Some f"
  shows "f < length b - 1 \<longleftrightarrow> \<not> is_sep (last b) \<and> (\<forall>c\<in>set x. \<not> is_sep c)"
proof -
  obtain u c v where u: "b @ CHR ''.'' # x = u @ c # v" "length u = f" "is_sep c" "\<forall>d\<in>set v. \<not> is_sep d"
    using rindex_Some [OF assms(3)] by blast
  obtain b' l where b: "b = b' @ [l]" using assms(1) by (cases b rule: rev_cases) auto
  have dot: "\<not> is_sep CHR ''.''" by (simp add: is_sep_def)
  show ?thesis
  proof
    assume "f < length b - 1"
    then have "f < length b'" by (simp add: b)
    then obtain w where w: "b' = u @ c # w" "v = w @ l # CHR ''.'' # x"
      using u(1,2) unfolding b by (auto simp: append_eq_append_conv2 append_eq_Cons_conv)
    then show "\<not> is_sep (last b) \<and> (\<forall>c\<in>set x. \<not> is_sep c)" using u(4) by (simp add: b)
  next
    assume "\<not> is_sep (last b) \<and> (\<forall>c\<in>set x. \<not> is_sep c)"
    then have "rindex is_sep (b @ CHR ''.'' # x) = rindex is_sep b'"
      using rindex_append_free [of "l # CHR ''.'' # x" is_sep b'] dot by (simp add: b)
    then have "rindex is_sep b' = Some f" using assms(3) by simp
    from rindex_Some [OF this] show "f < length b - 1" by (auto simp: b)
  qed
qed

lemma split_by_extension_dot:
  assumes "\<forall>c\<in>set x. c \<noteq> CHR ''.''"
  shows "split_by_extension (b @ CHR ''.'' # x) =
    (if names_extension b x then (b, CHR ''.'' # x) else (b @ CHR ''.'' # x, []))"
proof -
  have dot: "rindex (\<lambda>c. c = CHR ''.'') (b @ CHR ''.'' # x) = Some (length b)"
    using rindex_last [of "\<lambda>c. c = CHR ''.''" "CHR ''.''" x b] assms by simp
  show ?thesis
  proof (cases "b = [] \<or> x = []")
    case True
    then show ?thesis using dot by (auto simp: split_by_extension_def names_extension_def)
  next
    case False
    show ?thesis
    proof (cases "rindex is_sep (b @ CHR ''.'' # x)")
      case None
      then have "\<forall>c\<in>set b \<union> set x. \<not> is_sep c" by (auto simp: rindex_None)
      then have "names_extension b x" using False assms by (auto simp: names_extension_def)
      then show ?thesis using False None dot by (simp add: split_by_extension_def)
    next
      case (Some f)
      then have "f < length b - 1 \<longleftrightarrow> names_extension b x"
        using rindex_before_dot [of b x f] False assms by (auto simp: names_extension_def)
      then show ?thesis using False Some dot by (auto simp: split_by_extension_def)
    qed
  qed
qed

lemma split_by_extension_iff:
  "split_by_extension f = (b, e) \<longleftrightarrow>
     (if e = [] then b = f \<and> (\<nexists>b' x. f = b' @ CHR ''.'' # x \<and> names_extension b' x)
      else f = b @ e \<and> hd e = CHR ''.'' \<and> names_extension b (tl e))"
proof (cases "CHR ''.'' \<in> set f")
  case False
  then have "rindex (\<lambda>c. c = CHR ''.'') f = None" by (auto simp: rindex_None)
  then have "split_by_extension f = (f, [])" by (simp add: split_by_extension_def)
  moreover have "f \<noteq> b @ e" if "hd e = CHR ''.''" "e \<noteq> []"
    using that False by (cases e) auto
  ultimately show ?thesis using False by auto
next
  case True
  then obtain u v where f: "f = u @ CHR ''.'' # v" "CHR ''.'' \<notin> set v" by (metis split_list_last)
  then have s: "split_by_extension f = (if names_extension u v then (u, CHR ''.'' # v) else (f, []))"
  proof -
    have "\<forall>c\<in>set v. c \<noteq> CHR ''.''" using f(2) by blast
    from split_by_extension_dot [OF this, of u] show ?thesis by (simp add: f(1))
  qed
  have same: "b' = u \<and> x = v" if "f = b' @ CHR ''.'' # x" "names_extension b' x" for b' x
  proof -
    have "rindex (\<lambda>c. c = CHR ''.'') f = Some (length b')"
      using rindex_last [of "\<lambda>c. c = CHR ''.''" "CHR ''.''" x b'] that by (simp add: names_extension_def)
    moreover have "rindex (\<lambda>c. c = CHR ''.'') f = Some (length u)"
      using rindex_last [of "\<lambda>c. c = CHR ''.''" "CHR ''.''" v u] f by auto
    ultimately have "length b' = length u" by simp
    then show ?thesis using that(1) unfolding f(1) by simp
  qed
  show ?thesis
  proof (cases "names_extension u v")
    case True
    then have "split_by_extension f = (b, e) \<longleftrightarrow> b = u \<and> e = CHR ''.'' # v" using s by auto
    moreover have "f = b @ e \<and> hd e = CHR ''.'' \<and> names_extension b (tl e) \<longleftrightarrow> b = u \<and> e = CHR ''.'' # v" if ne: "e \<noteq> []"
    proof -
      obtain c t where e: "e = c # t" using ne by (cases e) auto
      have "b = u \<and> t = v" if "f = b @ e" "c = CHR ''.''" "names_extension b t" using same [of b t] that e by blast
      then show ?thesis using f(1) True e by fastforce
    qed
    moreover have "\<exists>b' x. f = b' @ CHR ''.'' # x \<and> names_extension b' x" using f(1) True by blast
    ultimately show ?thesis by (cases "e = []") auto
  next
    case False
    then have "split_by_extension f = (b, e) \<longleftrightarrow> b = f \<and> e = []" using s by auto
    moreover have "\<not> (f = b' @ CHR ''.'' # x \<and> names_extension b' x)" for b' x
      using False same [of b' x] by blast
    moreover have "\<not> (f = b @ e \<and> hd e = CHR ''.'' \<and> names_extension b (tl e))" if "e \<noteq> []"
      using that calculation(2) [of b "tl e"] by (cases e) auto
    ultimately show ?thesis by (cases "e = []") auto
  qed
qed

text \<open>
  A file name is split in front of its last dot exactly when that dot is in its last component, has a character
  other than a separator before it and a character after it; otherwise the extension is empty.
\<close>

theorem extension_split_exact:
  "split_by_extension f = (b, e) \<longleftrightarrow>
     (if e = [] then b = f \<and> (\<nexists>b' x. f = b' @ CHR ''.'' # x \<and> names_extension b' x)
      else f = b @ e \<and> hd e = CHR ''.'' \<and> names_extension b (tl e))"
  by (rule split_by_extension_iff)

lemma split_by_extension_parts:
  assumes "split_by_extension f = (b, e)"
  shows "f = b @ e" "\<forall>c\<in>set e. \<not> is_sep c"
proof -
  have "f = b @ e \<and> (\<forall>c\<in>set e. \<not> is_sep c)"
    using assms unfolding split_by_extension_iff
    by (cases e) (auto simp: names_extension_def is_sep_def)
  then show "f = b @ e" "\<forall>c\<in>set e. \<not> is_sep c" by auto
qed

lemma dir_name_append_free: "\<forall>c\<in>set s. \<not> is_sep c \<Longrightarrow> dir_name (x @ s) = dir_name x"
  by (auto simp: dir_name_def rindex_append_free split: option.split dest!: rindex_Some)

lemma collapse_free: "\<forall>c\<in>set s. \<not> is_sep c \<Longrightarrow> collapse s = s"
  by (induction s rule: collapse.induct) auto

lemma collapse_Cons_free:
  assumes "\<forall>c\<in>set s. \<not> is_sep c"
  shows "collapse (v # s) = v # s"
  using assms collapse_free [OF assms] by (cases s) auto

lemma collapse_append_free: "\<forall>c\<in>set s. \<not> is_sep c \<Longrightarrow> collapse (x @ s) = collapse x @ s"
  by (induction x rule: collapse.induct) (auto simp: collapse_free collapse_Cons_free)

text \<open>A name behind a separator-free part: the key of a file whose name is made from another.\<close>

lemma norm_path_append_free:
  assumes "\<forall>c\<in>set s. \<not> is_sep c" "s \<noteq> []"
  shows "norm_path (x @ s) = collapse x @ s"
  using assms by (simp add: norm_path_def collapse_append_free Let_def)

lemma collapse_last: "x \<noteq> [] \<Longrightarrow> collapse x \<noteq> [] \<and> last (collapse x) = last x"
  by (induction x rule: collapse.induct) auto

lemma norm_path_plain:
  assumes "x \<noteq> []" "\<not> is_sep (last x)"
  shows "norm_path x = collapse x"
  using assms collapse_last [of x] by (simp add: norm_path_def Let_def)

end
