(* ===== verification/LogRotate.thy ===== *)
theory LogRotate
  imports LogFiles
begin

text \<open>
  The file sink that rotates by size (\<open>sinks/rotating_file_sink-inl.h\<close>).  The lemmas show that it implements a
  list of files, newest first, each a list of whole messages: what is on the disk is always the end of the log.
  File names are made by the formatting library.  Sizes are numbers without a bound: no file reaches the end of
  the 64-bit type.
\<close>

section \<open>The sink\<close>

definition fmt_format :: "string \<Rightarrow> fmt_arg list \<Rightarrow> string res" where
  "fmt_format fmt args =
     returned (vformat_to \<lparr>fe_args = args, fe_named = [], fe_sep = thousands_sep_impl [] CHR 0x00\<rparr> fmt)"

definition calc_filename :: "string \<Rightarrow> nat \<Rightarrow> string res" where
  "calc_filename filename index =
     (if index = 0 then Inr filename
      else let (basename, ext) = split_by_extension filename
           in fmt_format ''{}.{}{}'' [String_arg basename, ULongLong_arg (of_nat index), String_arg ext])"

record rotating_sink =
  rs_base_filename :: string
  rs_max_size :: nat
  rs_max_files :: nat
  rs_current_size :: nat
  rs_file :: file_helper
  rs_formatter :: pattern_formatter

definition rs_on_file :: "(file_helper, 'a) act \<Rightarrow> (rotating_sink, 'a) act" where
  "rs_on_file m s = bind_res (m (rs_file s)) (\<lambda>(f, r). Inr (s\<lparr>rs_file := f\<rparr>, r))"

definition rs_fs :: "rotating_sink \<Rightarrow> file_sys" where "rs_fs s = fh_fs (rs_file s)"

definition rename_file :: "string \<Rightarrow> string \<Rightarrow> (rotating_sink, bool) act" where
  "rename_file src_filename target_filename s =
     (let fs = snd (sys_remove target_filename (rs_fs s));
          (ok, fs) = sys_rename src_filename target_filename fs
      in act_return ok (s\<lparr>rs_file := (rs_file s)\<lparr>fh_fs := fs\<rparr>\<rparr>))"

text \<open>A failed rename is tried again; then the log file is truncated and the call throws.\<close>

fun rotate_loop :: "nat \<Rightarrow> (rotating_sink, unit) act" where
  "rotate_loop 0 s = act_return () s"
| "rotate_loop (Suc i) s =
     act_bind (act_res (calc_filename (rs_base_filename s) i)) (\<lambda>src s.
       if \<not> path_exists src (rs_fs s) then rotate_loop i s
       else act_bind (act_res (calc_filename (rs_base_filename s) (Suc i))) (\<lambda>target.
         act_bind (rename_file src target) (\<lambda>ok s.
           if ok then rotate_loop i s
           else act_bind (rename_file src target) (\<lambda>ok s.
             if ok then rotate_loop i s
             else act_bind (rs_on_file (fh_reopen True)) (\<lambda>_ s.
               act_throw (''rotating_file_sink: failed renaming '' @ src @ '' to '' @ target) (s\<lparr>rs_current_size := 0\<rparr>)) s) s)) s) s"

definition rs_rotate :: "(rotating_sink, unit) act" where
  "rs_rotate s =
     act_bind (rotate_loop (rs_max_files s)) (\<lambda>_. rs_on_file (fh_reopen True)) (s\<lparr>rs_file := fh_close (rs_file s)\<rparr>)"

definition new_rotating_sink ::
  "string \<Rightarrow> nat \<Rightarrow> nat \<Rightarrow> bool \<Rightarrow> pattern_formatter \<Rightarrow> file_sys \<Rightarrow> (rotating_sink \<times> (string + unit)) res" where
  "new_rotating_sink base_filename max_size max_files rotate_on_open pf fs =
     (let s = \<lparr>rs_base_filename = base_filename, rs_max_size = max_size, rs_max_files = max_files, rs_current_size = 0,
               rs_file = new_file_helper fs, rs_formatter = pf\<rparr>
      in if max_size = 0 then act_throw ''rotating sink constructor: max_size arg cannot be zero'' s
         else if max_files > 200000 then act_throw ''rotating sink constructor: max_files arg cannot exceed 200000'' s
         else act_bind (act_res (calc_filename base_filename 0)) (\<lambda>name.
              act_bind (rs_on_file (fh_open name False)) (\<lambda>_.
              act_bind (rs_on_file fh_size) (\<lambda>sz s.
              let s = s\<lparr>rs_current_size := sz\<rparr> in
              if rotate_on_open \<and> sz > 0 then act_bind rs_rotate (\<lambda>_. act_state (rs_current_size_update (\<lambda>_. 0))) s
              else act_return () s))) s)"

text \<open>The part of \<open>sink_it_\<close> behind the formatting.\<close>

definition rs_put :: "string \<Rightarrow> (rotating_sink, unit) act" where
  "rs_put text s =
     (let new_size = rs_current_size s + length text in
      act_bind
        (\<lambda>s. if new_size > rs_max_size s then
               act_bind (rs_on_file fh_flush) (\<lambda>_.
               act_bind (rs_on_file fh_size) (\<lambda>sz.
                 if sz > 0 then act_bind rs_rotate (\<lambda>_. act_return (length text)) else act_return new_size)) s
             else act_return new_size s)
        (\<lambda>new_size. act_bind (rs_on_file (fh_write text)) (\<lambda>_. act_state (rs_current_size_update (\<lambda>_. new_size)))) s)"

definition rs_sink_it :: "os_env \<Rightarrow> lmsg \<Rightarrow> (rotating_sink, unit) act" where
  "rs_sink_it env msg = act_bind (formatted env rs_formatter (\<lambda>pf. rs_formatter_update (\<lambda>_. pf)) msg) rs_put"

definition rs_flush :: "(rotating_sink, unit) act" where
  "rs_flush = rs_on_file fh_flush"


section \<open>Names of rotated files\<close>

definition rot_suffix :: "string \<Rightarrow> nat \<Rightarrow> string" where
  "rot_suffix base i = (let e = snd (split_by_extension base) in if i = 0 then e else CHR ''.'' # dec i @ e)"

definition rot_name :: "string \<Rightarrow> nat \<Rightarrow> string" where
  "rot_name base i = fst (split_by_extension base) @ rot_suffix base i"

text \<open>A name a file can have.\<close>

definition file_name :: "string \<Rightarrow> bool" where
  "file_name base \<longleftrightarrow> base \<noteq> [] \<and> \<not> is_sep (last base)"

lemma rot_name_0 [simp]: "rot_name base 0 = base"
proof -
  obtain b e where s: "split_by_extension base = (b, e)" by (metis surj_pair)
  show ?thesis using split_by_extension_parts(1) [OF s, symmetric] unfolding rot_name_def rot_suffix_def s by simp
qed

lemma digit_no_sep: "is_dig c \<Longrightarrow> \<not> is_sep c"
  by (auto simp: is_dig_def is_sep_def)

lemma rot_suffix_free: "\<forall>c\<in>set (rot_suffix base i). \<not> is_sep c"
proof -
  have "\<forall>c\<in>set (snd (split_by_extension base)). \<not> is_sep c"
    using split_by_extension_parts(2) [of base] by (metis prod.collapse)
  moreover have "\<forall>c\<in>set (dec i). \<not> is_sep c" using dec_digits [of i] digit_no_sep by blast
  ultimately show ?thesis by (auto simp: rot_suffix_def Let_def is_sep_def)
qed

lemma dec_inj: "dec i = dec j \<Longrightarrow> i = j"
  by (metis num_of_dec)

lemma rot_suffix_inj: "rot_suffix base i = rot_suffix base j \<Longrightarrow> i = j"
  by (auto simp: rot_suffix_def Let_def dec_inj split: if_splits dest: arg_cong [of _ _ length])

lemma norm_rot_name:
  assumes "file_name base"
  shows "norm_path (rot_name base i) = collapse (fst (split_by_extension base)) @ rot_suffix base i"
proof (cases "rot_suffix base i = []")
  case True
  then have "i = 0" by (auto simp: rot_suffix_def Let_def split: if_splits)
  then have "fst (split_by_extension base) = base" using True rot_name_0 [of base] by (simp add: rot_name_def)
  then show ?thesis using True assms norm_path_plain [of base] by (simp add: rot_name_def file_name_def)
next
  case False
  then show ?thesis using norm_path_append_free [OF rot_suffix_free False] by (simp add: rot_name_def)
qed

lemma rot_name_inj:
  "file_name base \<Longrightarrow> norm_path (rot_name base i) = norm_path (rot_name base j) \<longleftrightarrow> i = j"
  using rot_suffix_inj by (auto simp: norm_rot_name)

lemma rot_name_plain:
  assumes "file_name base"
  shows "rot_name base i \<noteq> []" "\<not> is_sep (last (rot_name base i))"
proof -
  have "rot_name base i \<noteq> [] \<and> \<not> is_sep (last (rot_name base i))"
  proof (cases "rot_suffix base i = []")
    case True
    then have "i = 0" by (auto simp: rot_suffix_def Let_def split: if_splits)
    then show ?thesis using assms by (simp add: file_name_def)
  next
    case False
    then show ?thesis using rot_suffix_free [of base i] by (simp add: rot_name_def)
  qed
  then show "rot_name base i \<noteq> []" "\<not> is_sep (last (rot_name base i))" by auto
qed

lemma node_at_rot_name:
  assumes "file_name base"
  shows "node_at fs (rot_name base i) = fs_nodes fs (norm_path (rot_name base i))"
proof -
  note p = rot_name_plain [OF assms, of i]
  have "norm_path (rot_name base i) \<noteq> ''/''"
    using p norm_path_plain [OF p] collapse_last [OF p(1)] by (auto simp: is_sep_def)
  then show ?thesis using p by (simp add: node_at_def)
qed

lemma dir_rot_name:
  assumes "file_name base"
  shows "dir_name (norm_path (rot_name base i)) = dir_name (norm_path base)"
  using norm_rot_name [OF assms, of i] norm_rot_name [OF assms, of 0]
  by (simp add: dir_name_append_free rot_suffix_free)

text \<open>The formatting library writes the name.\<close>

lemma fmt_format_segments:
  assumes "\<forall>s\<in>set ss. segment_ok s"
  shows "fmt_format (print_segments ss) args =
    bind_res (run_segments \<lparr>fe_args = args, fe_named = [], fe_sep = thousands_sep_impl [] CHR 0x00\<rparr> ss start) (\<lambda>st. Inr (st_out st))"
  by (simp add: fmt_format_def vformat_to_segments [OF assms] returned_def)

lemmas field_run_defs = run_segment_def handler_on_arg_id_def handler_on_replacement_field_def next_arg_id_def
  args_get_def max_packed_args_def get_arg_def default_arg_formatter_def emit_def start_def

lemma calc_filename_rot_name:
  assumes "i < 2 ^ 64"
  shows "calc_filename base i = Inr (rot_name base i)"
proof (cases "i = 0")
  case False
  obtain b e where s: "split_by_extension base = (b, e)" by (metis surj_pair)
  have p: "print_segments [Field Auto_id, Text ''.'', Field Auto_id, Field Auto_id] = ''{}.{}{}''" by code_simp
  have "uint (word_of_nat i :: 64 word) = int i" using assms by (simp add: uint_nat unat_of_nat)
  moreover have "write_plain_int 64 (int i) = Inr (dec i)"
    using write_plain_int_text [of 64 "int i"] assms by (simp add: int_fits_def)
  ultimately have "fmt_format ''{}.{}{}'' [String_arg b, ULongLong_arg (of_nat i), String_arg e] = Inr (b @ ''.'' @ dec i @ e)"
    unfolding p [symmetric]
    by (subst fmt_format_segments) (simp_all add: segment_ok_def arg_id_ok_def field_run_defs)
  then show ?thesis using False s by (simp add: calc_filename_def rot_name_def rot_suffix_def)
qed (simp add: calc_filename_def)


section \<open>Rotation moves every file one place on\<close>

definition rot_key :: "string \<Rightarrow> nat \<Rightarrow> string" where
  "rot_key base i = norm_path (rot_name base i)"

text \<open>The directories a name mentions exist.\<close>

definition folders :: "string \<Rightarrow> file_sys \<Rightarrow> bool" where
  "folders base fs \<longleftrightarrow>
     (\<forall>d\<in>{dir_name base, dir_name (norm_path base)}. d = [] \<or> node_at fs d = Some Dir)"

lemma rot_key_inj: "file_name base \<Longrightarrow> rot_key base i = rot_key base j \<longleftrightarrow> i = j"
  by (simp add: rot_key_def rot_name_inj)

lemma node_at_key: "file_name base \<Longrightarrow> node_at fs (rot_name base i) = fs_nodes fs (rot_key base i)"
  by (simp add: rot_key_def node_at_rot_name)

lemma node_at_base: "file_name base \<Longrightarrow> node_at fs base = fs_nodes fs (rot_key base 0)"
  using node_at_key [of base fs 0] by simp

lemma folders_mono:
  assumes "folders base fs" "\<forall>p. fs_nodes fs p = Some Dir \<longrightarrow> fs_nodes fs' p = Some Dir"
  shows "folders base fs'"
  using assms by (auto simp: folders_def node_at_def split: if_splits)

lemma folder_ok_rot_name: "file_name base \<Longrightarrow> folders base fs \<Longrightarrow> folder_ok (rot_name base i) fs"
  by (auto simp: folder_ok_def dir_rot_name folders_def)

lemma create_dir_there: "folders base fs \<Longrightarrow> snd (create_dir (dir_name base) fs) = fs"
  by (auto simp: folders_def create_dir_def path_exists_def)

lemma sys_answer_ok: "fs_answers fs = [] \<Longrightarrow> sys_answer fs = (True, fs)"
  by (simp add: sys_answer_def)

definition with_fs :: "file_sys \<Rightarrow> rotating_sink \<Rightarrow> rotating_sink" where
  "with_fs fs s = s\<lparr>rs_file := (rs_file s)\<lparr>fh_fs := fs\<rparr>\<rparr>"

lemma with_fs_simps [simp]:
  "rs_fs (with_fs fs s) = fs" "with_fs fs (with_fs fs' s) = with_fs fs s" "with_fs (rs_fs s) s = s"
  "rs_base_filename (with_fs fs s) = rs_base_filename s" "rs_max_files (with_fs fs s) = rs_max_files s"
  "rs_max_size (with_fs fs s) = rs_max_size s" "rs_current_size (with_fs fs s) = rs_current_size s"
  "rs_formatter (with_fs fs s) = rs_formatter s"
  "rs_file (with_fs fs s) = (rs_file s)\<lparr>fh_fs := fs\<rparr>"
  by (simp_all add: with_fs_def rs_fs_def)

lemma rename_file_ok:
  assumes "file_name base" "fs_answers (rs_fs s) = []" "folders base (rs_fs s)"
    "fs_nodes (rs_fs s) (rot_key base i) = Some (File n)" "fs_nodes (rs_fs s) (rot_key base (Suc i)) \<noteq> Some Dir"
  shows "rename_file (rot_name base i) (rot_name base (Suc i)) s =
    Inr (with_fs ((rs_fs s)\<lparr>fs_nodes := (fs_nodes (rs_fs s))(rot_key base (Suc i) := Some (File n), rot_key base i := None)\<rparr>) s, Inr True)"
proof -
  let ?fs = "rs_fs s" and ?t = "rot_name base (Suc i)" and ?k = "rot_key base (Suc i)"
  have k: "rot_key base i \<noteq> ?k" "norm_path (rot_name base i) = rot_key base i" "norm_path ?t = ?k"
    using rot_key_inj [OF assms(1)] by (simp_all add: rot_key_def)
  define fs1 where "fs1 = ?fs\<lparr>fs_nodes := (fs_nodes ?fs)(?k := None)\<rparr>"
  have rem: "snd (sys_remove ?t ?fs) = fs1"
  proof (cases "fs_nodes ?fs ?k")
    case None
    then have "(fs_nodes ?fs)(?k := None) = fs_nodes ?fs" by auto
    then show ?thesis using None by (simp add: sys_remove_def sys_answer_ok assms node_at_key fs1_def)
  next
    case (Some x)
    then show ?thesis using assms(5)
      by (cases x) (simp_all add: sys_remove_def sys_answer_ok assms(1,2) node_at_key fs1_def k(3))
  qed
  have "folders base fs1"
    using assms(3,5) by (rule_tac folders_mono [OF assms(3)]) (auto simp: fs1_def)
  then have f: "folder_ok ?t fs1" by (rule folder_ok_rot_name [OF assms(1)])
  have "sys_rename (rot_name base i) ?t fs1 =
    (True, fs1\<lparr>fs_nodes := (fs_nodes fs1)(?k := Some (File n), rot_key base i := None)\<rparr>)"
    using f assms(2,4) k rot_name_plain(1) [OF assms(1)]
    by (simp add: sys_rename_def sys_answer_ok fs1_def node_at_key [OF assms(1)])
  moreover have "fs1\<lparr>fs_nodes := (fs_nodes fs1)(?k := Some (File n), rot_key base i := None)\<rparr> =
    ?fs\<lparr>fs_nodes := (fs_nodes ?fs)(?k := Some (File n), rot_key base i := None)\<rparr>"
    by (simp add: fs1_def)
  ultimately show ?thesis by (simp add: rename_file_def rem act_return_def with_fs_def Let_def)
qed

text \<open>After the loop each file has the name behind its own.\<close>

lemma rotate_loop_shifts:
  assumes "file_name base" "rs_base_filename s = base" "fs_answers (rs_fs s) = []" "folders base (rs_fs s)" "i < 2 ^ 64"
    "\<forall>j\<le>i. fs_nodes (rs_fs s) (rot_key base j) \<noteq> Some Dir"
    "\<forall>j<i. fs_nodes (rs_fs s) (rot_key base j) = None \<longrightarrow> fs_nodes (rs_fs s) (rot_key base (Suc j)) = None"
  shows "\<exists>N. rotate_loop i s = Inr (with_fs ((rs_fs s)\<lparr>fs_nodes := N\<rparr>) s, Inr ()) \<and>
    (\<forall>j<i. N (rot_key base (Suc j)) = fs_nodes (rs_fs s) (rot_key base j)) \<and>
    (i > 0 \<longrightarrow> N (rot_key base 0) = None) \<and>
    (\<forall>p. p \<notin> rot_key base ` {..i} \<or> i = 0 \<longrightarrow> N p = fs_nodes (rs_fs s) p)"
  using assms(2-)
proof (induction i arbitrary: s)
  case 0
  have "(rs_fs s)\<lparr>fs_nodes := fs_nodes (rs_fs s)\<rparr> = rs_fs s" by simp
  then show ?case by (intro exI [of _ "fs_nodes (rs_fs s)"]) (simp add: act_return_def)
next
  case (Suc i)
  let ?fs = "rs_fs s"
  have src: "calc_filename base i = Inr (rot_name base i)" "calc_filename base (Suc i) = Inr (rot_name base (Suc i))"
    using Suc.prems(4) by (auto intro: calc_filename_rot_name)
  show ?case
  proof (cases "fs_nodes ?fs (rot_key base i)")
    case None
    then have ne: "\<not> path_exists (rot_name base i) ?fs" by (simp add: path_exists_def node_at_key assms(1))
    have none: "fs_nodes ?fs (rot_key base (Suc i)) = None" using None Suc.prems(6) by blast
    obtain N where N: "rotate_loop i s = Inr (with_fs (?fs\<lparr>fs_nodes := N\<rparr>) s, Inr ())"
      "\<forall>j<i. N (rot_key base (Suc j)) = fs_nodes ?fs (rot_key base j)" "i > 0 \<longrightarrow> N (rot_key base 0) = None"
      "\<forall>p. p \<notin> rot_key base ` {..i} \<or> i = 0 \<longrightarrow> N p = fs_nodes ?fs p"
      using Suc.IH [of s] Suc.prems by fastforce
    have "rot_key base (Suc i) \<notin> rot_key base ` {..i}" by (auto simp: rot_key_inj assms(1))
    then have "N (rot_key base (Suc i)) = fs_nodes ?fs (rot_key base i)" using N(4) none None by auto
    then have "\<forall>j<Suc i. N (rot_key base (Suc j)) = fs_nodes ?fs (rot_key base j)"
      using N(2) by (auto simp: less_Suc_eq)
    moreover have "N (rot_key base 0) = None" using N(3,4) None by (cases "i = 0") auto
    moreover have "\<forall>p. p \<notin> rot_key base ` {..Suc i} \<or> Suc i = 0 \<longrightarrow> N p = fs_nodes ?fs p"
      using N(4) by (auto simp: atMost_Suc)
    moreover have "rotate_loop (Suc i) s = rotate_loop i s"
      using ne by (simp add: act_bind_def act_res_def Suc.prems(1) src)
    ultimately show ?thesis using N(1) by metis
  next
    case (Some x)
    have "x \<noteq> Dir" using Some Suc.prems(5) by auto
    then obtain n where n: "fs_nodes ?fs (rot_key base i) = Some (File n)" using Some by (cases x) auto
    have nd: "fs_nodes ?fs (rot_key base (Suc i)) \<noteq> Some Dir" using Suc.prems(5) by blast
    define fs1 where "fs1 = ?fs\<lparr>fs_nodes := (fs_nodes ?fs)(rot_key base (Suc i) := Some (File n), rot_key base i := None)\<rparr>"
    have ren: "rename_file (rot_name base i) (rot_name base (Suc i)) s = Inr (with_fs fs1 s, Inr True)"
      unfolding fs1_def by (rule rename_file_ok [OF assms(1) Suc.prems(2,3) n nd])
    have step: "rotate_loop (Suc i) s = rotate_loop i (with_fs fs1 s)"
      using n by (simp add: act_bind_def act_res_def Suc.prems(1) src path_exists_def node_at_key assms(1) ren)
    have key: "fs_nodes fs1 (rot_key base j) = (if j = Suc i then Some (File n) else if j = i then None else fs_nodes ?fs (rot_key base j))" for j
      by (auto simp: fs1_def rot_key_inj assms(1))
    have "folders base fs1"
      using n nd by (intro folders_mono [OF Suc.prems(3)]) (auto simp: fs1_def)
    moreover have "\<forall>j\<le>i. fs_nodes fs1 (rot_key base j) \<noteq> Some Dir"
      unfolding key using Suc.prems(5) by simp
    moreover have "\<forall>j<i. fs_nodes fs1 (rot_key base j) = None \<longrightarrow> fs_nodes fs1 (rot_key base (Suc j)) = None"
      unfolding key using Suc.prems(6) by simp
    moreover have "fs_answers fs1 = []" "i < 2 ^ 64" using Suc.prems(2,4) by (simp_all add: fs1_def)
    ultimately obtain N where N: "rotate_loop i (with_fs fs1 s) = Inr (with_fs (fs1\<lparr>fs_nodes := N\<rparr>) s, Inr ())"
      "\<forall>j<i. N (rot_key base (Suc j)) = fs_nodes fs1 (rot_key base j)" "i > 0 \<longrightarrow> N (rot_key base 0) = None"
      "\<forall>p. p \<notin> rot_key base ` {..i} \<or> i = 0 \<longrightarrow> N p = fs_nodes fs1 p"
      using Suc.IH [of "with_fs fs1 s"] Suc.prems(1) by (simp only: with_fs_simps) blast
    have "rot_key base (Suc i) \<notin> rot_key base ` {..i}" by (auto simp: rot_key_inj assms(1))
    then have "N (rot_key base (Suc i)) = fs_nodes ?fs (rot_key base i)" using N(4) key n by auto
    then have "\<forall>j<Suc i. N (rot_key base (Suc j)) = fs_nodes ?fs (rot_key base j)"
      using N(2) key by (auto simp: less_Suc_eq)
    moreover have "N (rot_key base 0) = None" using N(3,4) key by (cases "i = 0") auto
    moreover have "\<forall>p. p \<notin> rot_key base ` {..Suc i} \<or> Suc i = 0 \<longrightarrow> N p = fs_nodes ?fs p"
      using N(4) by (auto simp: fs1_def atMost_Suc)
    moreover have "fs1\<lparr>fs_nodes := N\<rparr> = ?fs\<lparr>fs_nodes := N\<rparr>" by (simp add: fs1_def)
    ultimately show ?thesis using N(1) step by metis
  qed
qed

section \<open>The files as lists of messages\<close>

lemma open_existing:
  assumes "file_name base" "folders base (fh_fs h)" "fs_answers (fh_fs h) = []"
    "fs_nodes (fh_fs h) (rot_key base 0) = Some (File n)"
  shows "fh_open base trunc h = Inr (h\<lparr>fh_fd := Some n, fh_filename := base,
    fh_fs := if trunc then (fh_fs h)\<lparr>fs_data := (fs_data (fh_fs h))(n := [])\<rparr> else fh_fs h\<rparr>, Inr ())"
proof -
  let ?fs = "fh_fs h" and ?cut = "\<lambda>fs. fs\<lparr>fs_data := (fs_data fs)(n := [])\<rparr>"
  have open_it: "sys_fopen base t fs = (Some n, if t then ?cut fs else fs)"
    if "fs_answers fs = []" "fs_nodes fs (rot_key base 0) = Some (File n)" for t fs
    using that assms(1) by (simp add: sys_fopen_def sys_answer_ok node_at_base file_name_def)
  show ?thesis
    using open_it [of ?fs] open_it [of "?cut ?fs" False] assms(3,4)
    by (cases trunc)
      (simp_all add: fh_open_def open_tries_def eval_nat_numeral fh_close_def create_dir_there [OF assms(2)] act_return_def)
qed

lemma open_new:
  assumes "file_name base" "folders base (fh_fs h)" "fs_answers (fh_fs h) = []" "fs_nodes (fh_fs h) (rot_key base 0) = None"
  shows "fh_open base trunc h = Inr (h\<lparr>fh_fd := Some (fs_next (fh_fs h)), fh_filename := base,
    fh_fs := (fh_fs h)\<lparr>fs_nodes := (fs_nodes (fh_fs h))(rot_key base 0 \<mapsto> File (fs_next (fh_fs h))),
                        fs_data := (fs_data (fh_fs h))(fs_next (fh_fs h) := []), fs_next := Suc (fs_next (fh_fs h))\<rparr>\<rparr>, Inr ())"
proof -
  let ?fs = "fh_fs h"
  let ?new = "?fs\<lparr>fs_nodes := (fs_nodes ?fs)(rot_key base 0 \<mapsto> File (fs_next ?fs)),
                   fs_data := (fs_data ?fs)(fs_next ?fs := []), fs_next := Suc (fs_next ?fs)\<rparr>"
  have ok: "folder_ok base ?fs" using folder_ok_rot_name [OF assms(1,2), of 0] by simp
  have k: "norm_path base = rot_key base 0" by (simp add: rot_key_def)
  have one: "sys_fopen base trunc' ?fs = (Some (fs_next ?fs), ?new)" for trunc'
    using assms(1,3,4) ok by (simp add: sys_fopen_def sys_answer_ok node_at_base file_name_def k)
  have two: "sys_fopen base False ?new = (Some (fs_next ?fs), ?new)"
    using assms(1,3) by (simp add: sys_fopen_def sys_answer_ok node_at_base file_name_def)
  show ?thesis
    by (cases trunc)
      (simp_all add: fh_open_def open_tries_def eval_nat_numeral fh_close_def create_dir_there [OF assms(2)] one two act_return_def)
qed

text \<open>
  The sink's files are \<open>fss\<close>, newest first, each the concatenation of the texts in its list; no other file has one of
  the names, and the newest is open.
\<close>

definition rot_disk :: "rotating_sink \<Rightarrow> string list list \<Rightarrow> bool" where
  "rot_disk s fss \<longleftrightarrow>
     (\<exists>ino. inj_on ino {..<length fss} \<and> fh_fd (rs_file s) = Some (ino 0) \<and>
        (\<forall>i<length fss. fs_nodes (rs_fs s) (rot_key (rs_base_filename s) i) = Some (File (ino i)) \<and>
           ino i < fs_next (rs_fs s) \<and> fs_data (rs_fs s) (ino i) = concat (fss ! i))) \<and>
     (\<forall>i. length fss \<le> i \<and> i \<le> rs_max_files s \<longrightarrow> fs_nodes (rs_fs s) (rot_key (rs_base_filename s) i) = None) \<and>
     fss \<noteq> [] \<and> length fss \<le> Suc (rs_max_files s) \<and> rs_max_files s \<le> 200000 \<and> fs_answers (rs_fs s) = [] \<and>
     fh_filename (rs_file s) = rs_base_filename s \<and> file_name (rs_base_filename s) \<and> folders (rs_base_filename s) (rs_fs s)"

definition rot_files :: "rotating_sink \<Rightarrow> string list list \<Rightarrow> bool" where
  "rot_files s fss \<longleftrightarrow> rot_disk s fss \<and> rs_current_size s = length (concat (hd fss))"

definition same_setup :: "rotating_sink \<Rightarrow> rotating_sink \<Rightarrow> bool" where
  "same_setup s s' \<longleftrightarrow> rs_base_filename s' = rs_base_filename s \<and> rs_max_size s' = rs_max_size s \<and>
     rs_max_files s' = rs_max_files s \<and> rs_formatter s' = rs_formatter s"

lemma rotate_disk:
  assumes "rot_disk s fss"
  shows "\<exists>s'. rs_rotate s = Inr (s', Inr ()) \<and> rot_disk s' ([] # take (rs_max_files s) fss) \<and>
    same_setup s s'"
proof -
  let ?base = "rs_base_filename s" and ?k = "rs_max_files s" and ?fs = "rs_fs s"
  obtain ino where ino: "inj_on ino {..<length fss}"
    "\<forall>i<length fss. fs_nodes ?fs (rot_key ?base i) = Some (File (ino i)) \<and> ino i < fs_next ?fs \<and> fs_data ?fs (ino i) = concat (fss ! i)"
    and none: "\<forall>i. length fss \<le> i \<and> i \<le> ?k \<longrightarrow> fs_nodes ?fs (rot_key ?base i) = None"
    and len: "fss \<noteq> []" "length fss \<le> Suc ?k" "?k \<le> 200000" and ans: "fs_answers ?fs = []"
    and nm: "fh_filename (rs_file s) = ?base" "file_name ?base" and fld: "folders ?base ?fs"
    using assms unfolding rot_disk_def by blast
  define c where "c = s\<lparr>rs_file := fh_close (rs_file s)\<rparr>"
  have c: "rs_base_filename c = ?base" "rs_fs c = ?fs" "rs_max_files c = ?k" "fh_filename (rs_file c) = ?base"
    by (simp_all add: c_def rs_fs_def fh_close_def nm)
  have nodes: "fs_nodes ?fs (rot_key ?base j) = (if j < length fss then Some (File (ino j)) else None)" if "j \<le> ?k" for j
    using that ino(2) none by auto
  obtain N where N: "rotate_loop ?k c = Inr (with_fs (?fs\<lparr>fs_nodes := N\<rparr>) c, Inr ())"
    "\<forall>j<?k. N (rot_key ?base (Suc j)) = fs_nodes ?fs (rot_key ?base j)" "?k > 0 \<longrightarrow> N (rot_key ?base 0) = None"
    "\<forall>p. p \<notin> rot_key ?base ` {..?k} \<or> ?k = 0 \<longrightarrow> N p = fs_nodes ?fs p"
  proof -
    have d: "\<forall>j\<le>?k. fs_nodes (rs_fs c) (rot_key ?base j) \<noteq> Some Dir" using nodes c(2) by simp
    have n: "\<forall>j<?k. fs_nodes (rs_fs c) (rot_key ?base j) = None \<longrightarrow> fs_nodes (rs_fs c) (rot_key ?base (Suc j)) = None"
      using nodes c(2) by simp
    have k: "?k < 2 ^ 64" using len(3) by simp
    have a: "fs_answers (rs_fs c) = []" "folders ?base (rs_fs c)" using ans fld c(2) by simp_all
    note rotate_loop_shifts [OF nm(2) c(1) a k d n, unfolded c(2)]
    then show thesis using that by (elim exE conjE)
  qed
  define h where "h = (rs_file c)\<lparr>fh_fs := ?fs\<lparr>fs_nodes := N\<rparr>\<rparr>"
  have h: "fh_fs h = ?fs\<lparr>fs_nodes := N\<rparr>" "fh_filename h = ?base" by (simp_all add: h_def c(4))
  have "N p = Some Dir" if "fs_nodes ?fs p = Some Dir" for p
  proof -
    have "p \<notin> rot_key ?base ` {..?k}"
    proof
      assume "p \<in> rot_key ?base ` {..?k}"
      then obtain j where "j \<le> ?k" "p = rot_key ?base j" by auto
      then show False using nodes [of j] that by (simp split: if_splits)
    qed
    then show ?thesis using N(4) that by auto
  qed
  then have fld': "folders ?base (fh_fs h)" unfolding h(1) by (intro folders_mono [OF fld]) simp
  have ans': "fs_answers (fh_fs h) = []" using ans by (simp add: h)
  have ne: "?base \<noteq> []" using nm(2) by (simp add: file_name_def)
  have rot: "rs_rotate s = bind_res (fh_open ?base True h) (\<lambda>(f, r). Inr ((with_fs (fh_fs h) c)\<lparr>rs_file := f\<rparr>, r))"
    using N(1) ne by (simp add: rs_rotate_def c_def [symmetric] act_bind_def rs_on_file_def fh_reopen_def h_def c(4) with_fs_def)
  show ?thesis
  proof (cases "?k = 0")
    case True
    then have one: "length fss = 1" using len by (cases fss) auto
    then have n0: "N (rot_key ?base 0) = Some (File (ino 0))" using N(4) True ino(2) by simp
    let ?s' = "c\<lparr>rs_file := h\<lparr>fh_fd := Some (ino 0), fh_filename := ?base, fh_fs := (fh_fs h)\<lparr>fs_data := (fs_data (fh_fs h))(ino 0 := [])\<rparr>\<rparr>\<rparr>"
    have "rs_rotate s = Inr (?s', Inr ())"
      using open_existing [OF nm(2) fld' ans', of "ino 0" True] n0 by (simp add: rot h with_fs_def)
    moreover have "rot_disk ?s' [[]]"
      unfolding rot_disk_def using n0 ino(2) one nm(2) fld' ans' True
      by (intro conjI exI [of _ ino]) (auto simp: rs_fs_def h c folders_def node_at_def lessThan_Suc)
    ultimately show ?thesis using True by (intro exI [of _ ?s']) (simp add: c_def same_setup_def)
  next
    case False
    then have n0: "fs_nodes (fh_fs h) (rot_key ?base 0) = None" using N(3) by (simp add: h)
    let ?next = "fs_next ?fs"
    let ?fs' = "(fh_fs h)\<lparr>fs_nodes := N(rot_key ?base 0 \<mapsto> File ?next), fs_data := (fs_data ?fs)(?next := []), fs_next := Suc ?next\<rparr>"
    let ?s' = "c\<lparr>rs_file := h\<lparr>fh_fd := Some ?next, fh_filename := ?base, fh_fs := ?fs'\<rparr>\<rparr>"
    let ?fss' = "[] # take ?k fss"
    let ?ino = "\<lambda>i. case i of 0 \<Rightarrow> ?next | Suc j \<Rightarrow> ino j"
    have "rs_rotate s = Inr (?s', Inr ())"
      using open_new [OF nm(2) fld' ans' n0, of True] by (simp add: rot h with_fs_def)
    moreover have "rot_disk ?s' ?fss'"
      unfolding rot_disk_def
    proof (intro conjI exI [of _ ?ino])
      have bound: "ino j < ?next" if "j < length fss" for j using ino(2) that by blast
      show "inj_on ?ino {..<length ?fss'}"
        using ino(1) bound
        by (auto simp: inj_on_def split: nat.splits; metis lessThan_iff less_irrefl nat_less_le)
      show "\<forall>i<length ?fss'. fs_nodes (rs_fs ?s') (rot_key (rs_base_filename ?s') i) = Some (File (?ino i)) \<and>
          ?ino i < fs_next (rs_fs ?s') \<and> fs_data (rs_fs ?s') (?ino i) = concat (?fss' ! i)"
      proof (intro allI impI)
        fix i assume i: "i < length ?fss'"
        show "fs_nodes (rs_fs ?s') (rot_key (rs_base_filename ?s') i) = Some (File (?ino i)) \<and>
          ?ino i < fs_next (rs_fs ?s') \<and> fs_data (rs_fs ?s') (?ino i) = concat (?fss' ! i)"
        proof (cases i)
          case 0
          then show ?thesis by (simp add: rs_fs_def c)
        next
          case (Suc j)
          then have j: "j < length fss" "j < ?k" using i by auto
          then have "N (rot_key ?base i) = Some (File (ino j))" using N(2) nodes [of j] Suc by simp
          moreover have "rot_key ?base i \<noteq> rot_key ?base 0" using Suc by (simp add: rot_key_inj nm(2))
          ultimately show ?thesis using Suc j ino(2) bound [OF j(1)] by (auto simp: rs_fs_def c h)
        qed
      qed
      show "\<forall>i. length ?fss' \<le> i \<and> i \<le> rs_max_files ?s' \<longrightarrow> fs_nodes (rs_fs ?s') (rot_key (rs_base_filename ?s') i) = None"
      proof (intro allI impI)
        fix i assume i: "length ?fss' \<le> i \<and> i \<le> rs_max_files ?s'"
        then obtain j where j: "i = Suc j" "length fss \<le> j" "j < ?k" using c(3) by (cases i) auto
        then have "N (rot_key ?base i) = None" using N(2) nodes [of j] by simp
        moreover have "rot_key ?base i \<noteq> rot_key ?base 0" using j(1) by (simp add: rot_key_inj nm(2))
        ultimately show "fs_nodes (rs_fs ?s') (rot_key (rs_base_filename ?s') i) = None" by (simp add: rs_fs_def c)
      qed
      have "folders ?base ?fs'" using n0 by (intro folders_mono [OF fld']) (auto simp: h)
      then show "folders (rs_base_filename ?s') (rs_fs ?s')" by (simp add: rs_fs_def c)
    qed (use len ans' nm(2) in \<open>simp_all add: c rs_fs_def h\<close>)
    ultimately show ?thesis by (intro exI [of _ ?s']) (simp add: c_def same_setup_def)
  qed
qed

section \<open>What the sink keeps of a log\<close>

text \<open>The abstract sink: when a text does not fit, a new file is begun and the oldest is forgotten.\<close>

definition rot_spec :: "nat \<Rightarrow> nat \<Rightarrow> string list list \<Rightarrow> string \<Rightarrow> string list list" where
  "rot_spec max_size max_files fss t =
     (let cur = hd fss in
      if length (concat cur) + length t > max_size \<and> 0 < length (concat cur) then [t] # take max_files fss
      else (cur @ [t]) # tl fss)"

lemma rot_disk_open:
  assumes "rot_disk s (cur # old)"
  shows "\<exists>i. fh_fd (rs_file s) = Some i \<and> fs_data (rs_fs s) i = concat cur" "fs_answers (rs_fs s) = []"
  using assms unfolding rot_disk_def by auto

lemma rs_flush_ok: "fs_answers (rs_fs s) = [] \<Longrightarrow> rs_on_file fh_flush s = Inr (s, Inr ())"
  by (simp add: rs_on_file_def fh_flush_def sys_answer_ok rs_fs_def act_return_def)

lemma rs_size_ok:
  assumes "rot_disk s (cur # old)"
  shows "rs_on_file fh_size s = Inr (s, Inr (length (concat cur)))"
  using rot_disk_open [OF assms] by (auto simp: rs_on_file_def fh_size_def rs_fs_def act_return_def)

lemma rs_write_disk:
  assumes "rot_disk s (cur # old)"
  shows "\<exists>s'. rs_on_file (fh_write t) s = Inr (s', Inr ()) \<and> rot_disk s' ((cur @ [t]) # old) \<and> same_setup s s'"
proof -
  let ?fs = "rs_fs s" and ?base = "rs_base_filename s" and ?fss = "cur # old"
  obtain ino where ino: "inj_on ino {..<length ?fss}" "fh_fd (rs_file s) = Some (ino 0)"
    "\<forall>i<length ?fss. fs_nodes ?fs (rot_key ?base i) = Some (File (ino i)) \<and> ino i < fs_next ?fs \<and> fs_data ?fs (ino i) = concat (?fss ! i)"
    using assms unfolding rot_disk_def by blast
  let ?fs' = "?fs\<lparr>fs_data := (fs_data ?fs)(ino 0 := fs_data ?fs (ino 0) @ t)\<rparr>"
  have "rs_on_file (fh_write t) s = Inr (with_fs ?fs' s, Inr ())"
    using ino(2) rot_disk_open(2) [OF assms]
    by (simp add: rs_on_file_def fh_write_def sys_fwrite_def sys_answer_ok rs_fs_def act_return_def with_fs_def)
  moreover have "rot_disk (with_fs ?fs' s) ((cur @ [t]) # old)"
  proof -
    have other: "ino i \<noteq> ino 0" if "i < length ?fss" "0 < i" for i
    proof
      assume "ino i = ino 0"
      then have "i = 0" by (rule inj_onD [OF ino(1)]) (use that in auto)
      then show False using that(2) by simp
    qed
    have "fs_data ?fs' (ino i) = concat (((cur @ [t]) # old) ! i)" if "i < length ?fss" for i
      using ino(3) that other [of i] by (cases i) auto
    then have data: "\<forall>i<length ((cur @ [t]) # old). fs_nodes ?fs' (rot_key ?base i) = Some (File (ino i)) \<and>
        ino i < fs_next ?fs' \<and> fs_data ?fs' (ino i) = concat (((cur @ [t]) # old) ! i)"
      using ino(3) by simp
    have rest: "\<forall>i. length ?fss \<le> i \<and> i \<le> rs_max_files s \<longrightarrow> fs_nodes ?fs (rot_key ?base i) = None"
      "length ?fss \<le> Suc (rs_max_files s)" "rs_max_files s \<le> 200000" "fs_answers ?fs = []"
      "fh_filename (rs_file s) = ?base" "file_name ?base" "folders ?base ?fs"
      using assms unfolding rot_disk_def by blast+
    have fld: "folders ?base ?fs'" by (rule folders_mono [OF rest(7)]) simp
    show ?thesis
      unfolding rot_disk_def with_fs_simps
      by (intro conjI exI [of _ ino] data fld; use rest ino(1,2) in simp)
  qed
  ultimately show ?thesis by (intro exI [of _ "with_fs ?fs' s"]) (simp add: same_setup_def)
qed

lemma rs_put_files:
  assumes "rot_files s fss"
  shows "\<exists>s'. rs_put t s = Inr (s', Inr ()) \<and> rot_files s' (rot_spec (rs_max_size s) (rs_max_files s) fss t) \<and>
    same_setup s s'"
proof -
  obtain cur old where fss: "fss = cur # old" using assms by (cases fss) (auto simp: rot_files_def rot_disk_def)
  have disk: "rot_disk s (cur # old)" and sz: "rs_current_size s = length (concat cur)"
    using assms by (simp_all add: rot_files_def fss)
  show ?thesis
  proof (cases "length (concat cur) + length t > rs_max_size s \<and> 0 < length (concat cur)")
    case True
    obtain s1 where s1: "rs_rotate s = Inr (s1, Inr ())" "rot_disk s1 ([] # take (rs_max_files s) fss)" "same_setup s s1"
      using rotate_disk [OF disk] fss by blast
    obtain s2 where s2: "rs_on_file (fh_write t) s1 = Inr (s2, Inr ())"
      "rot_disk s2 ([t] # take (rs_max_files s) fss)" "same_setup s1 s2"
      using rs_write_disk [OF s1(2), of t] by auto
    let ?s' = "s2\<lparr>rs_current_size := length t\<rparr>"
    have "rs_put t s = Inr (?s', Inr ())"
      using True s1(1) s2(1)
      by (simp add: rs_put_def Let_def sz act_bind_def rs_flush_ok [OF rot_disk_open(2) [OF disk]] rs_size_ok [OF disk] act_simps)
    moreover have "rot_disk ?s' ([t] # take (rs_max_files s) fss)" using s2(2) by (simp add: rot_disk_def rs_fs_def)
    ultimately show ?thesis using True s1(3) s2(3)
      by (intro exI [of _ ?s']) (simp add: rot_files_def rot_spec_def fss same_setup_def)
  next
    case False
    obtain s2 where s2: "rs_on_file (fh_write t) s = Inr (s2, Inr ())" "rot_disk s2 ((cur @ [t]) # old)" "same_setup s s2"
      using rs_write_disk [OF disk, of t] by auto
    let ?s' = "s2\<lparr>rs_current_size := length (concat cur) + length t\<rparr>"
    have "rs_put t s = Inr (?s', Inr ())"
      using False s2(1)
      by (simp add: rs_put_def Let_def sz act_bind_def rs_flush_ok [OF rot_disk_open(2) [OF disk]] rs_size_ok [OF disk] act_simps)
    moreover have "rot_disk ?s' ((cur @ [t]) # old)" using s2(2) by (simp add: rot_disk_def rs_fs_def)
    ultimately show ?thesis using False s2(3)
      by (intro exI [of _ ?s']) (auto simp: rot_files_def rot_spec_def fss same_setup_def)
  qed
qed

lemma new_rotating_sink_fresh:
  assumes "file_name base" "folders base fs" "fs_answers fs = []" "\<forall>i\<le>k. fs_nodes fs (rot_key base i) = None"
    "0 < max_size" "k \<le> 200000"
  shows "\<exists>s. new_rotating_sink base max_size k rotate_on_open pf fs = Inr (s, Inr ()) \<and> rot_files s [[]] \<and>
    rs_max_size s = max_size \<and> rs_max_files s = k \<and> rs_formatter s = pf \<and> rs_base_filename s = base"
proof -
  let ?h = "(new_file_helper fs)\<lparr>fh_fd := Some (fs_next fs), fh_filename := base,
    fh_fs := fs\<lparr>fs_nodes := (fs_nodes fs)(rot_key base 0 \<mapsto> File (fs_next fs)),
                fs_data := (fs_data fs)(fs_next fs := []), fs_next := Suc (fs_next fs)\<rparr>\<rparr>"
  let ?s = "\<lparr>rs_base_filename = base, rs_max_size = max_size, rs_max_files = k, rs_current_size = 0,
             rs_file = ?h, rs_formatter = pf\<rparr>"
  have h: "fh_fs (new_file_helper fs) = fs" by (simp add: new_file_helper_def)
  have "fh_open base False (new_file_helper fs) = Inr (?h, Inr ())"
    using open_new [of base "new_file_helper fs" False] assms unfolding h by simp
  then have "new_rotating_sink base max_size k rotate_on_open pf fs = Inr (?s, Inr ())"
    using assms(5,6)
    by (simp add: new_rotating_sink_def Let_def calc_filename_def act_bind_def rs_on_file_def fh_size_def act_simps)
  moreover have "rot_files ?s [[]]"
  proof -
    have "folders base (fh_fs ?h)" using assms(4) by (intro folders_mono [OF assms(2)]) auto
    then show ?thesis
      unfolding rot_files_def rot_disk_def
      using assms by (auto simp: rs_fs_def rot_key_inj lessThan_Suc intro!: exI [of _ "\<lambda>_. fs_next fs"])
  qed
  ultimately show ?thesis by auto
qed

lemma rs_sink_it_files:
  assumes "rot_files s fss" "pf_format env (rs_formatter s) m [] = Inr (pf, m', t)"
  shows "\<exists>s'. rs_sink_it env m s = Inr (s', Inr ()) \<and> rot_files s' (rot_spec (rs_max_size s) (rs_max_files s) fss t) \<and>
    rs_max_size s' = rs_max_size s \<and> rs_max_files s' = rs_max_files s \<and> rs_formatter s' = pf"
proof -
  let ?s = "s\<lparr>rs_formatter := pf\<rparr>"
  have "rot_files ?s fss" using assms(1) by (simp add: rot_files_def rot_disk_def rs_fs_def)
  from rs_put_files [OF this, of t] show ?thesis
    using assms(2) by (auto simp: rs_sink_it_def formatted_def act_bind_def same_setup_def)
qed

fun rs_log_all :: "os_env \<Rightarrow> lmsg list \<Rightarrow> (rotating_sink, unit) act" where
  "rs_log_all env [] = act_return ()"
| "rs_log_all env (m # ms) = act_bind (rs_sink_it env m) (\<lambda>_. rs_log_all env ms)"

lemma rs_log_all_files:
  assumes "rot_files s fss" "pf_lines env (rs_formatter s) ms = Inr ts"
  shows "\<exists>s'. rs_log_all env ms s = Inr (s', Inr ()) \<and>
    rot_files s' (foldl (rot_spec (rs_max_size s) (rs_max_files s)) fss ts)"
  using assms
proof (induction ms arbitrary: s fss ts)
  case Nil
  then show ?case by (auto simp: act_simps)
next
  case (Cons m ms)
  obtain pf m' t ts' where f: "pf_format env (rs_formatter s) m [] = Inr (pf, m', t)"
    "pf_lines env pf ms = Inr ts'" "ts = t # ts'"
    using Cons.prems(2) by (auto simp: bind_res_eq_Inr)
  obtain s1 where s1: "rs_sink_it env m s = Inr (s1, Inr ())"
    "rot_files s1 (rot_spec (rs_max_size s) (rs_max_files s) fss t)"
    "rs_max_size s1 = rs_max_size s" "rs_max_files s1 = rs_max_files s" "rs_formatter s1 = pf"
    using rs_sink_it_files [OF Cons.prems(1) f(1)] by blast
  show ?case
    using Cons.IH [OF s1(2), of ts'] f s1 by (simp add: act_bind_def s1(1))
qed

text \<open>
  C23: The rotating sink implements the abstract sink: as long as no call of the system fails, logging messages
  one after the other, with every rotation, renaming and truncation, leaves under the names of the files exactly the
  lists of whole messages that the abstract sink has.
\<close>

theorem rotation_refines_list:
  assumes "rot_files s fss" "pf_lines env (rs_formatter s) ms = Inr ts"
  shows "\<exists>s'. rs_log_all env ms s = Inr (s', Inr ()) \<and>
    rot_files s' (foldl (rot_spec (rs_max_size s) (rs_max_files s)) fss ts)"
  by (rule rs_log_all_files [OF assms])

text \<open>What the abstract sink keeps.\<close>

lemma rot_spec_step:
  assumes "fss \<noteq> []" "length fss \<le> Suc k" "fss' = rot_spec max_size k fss t"
  shows "fss' \<noteq> []" "length fss' \<le> Suc k" "length fss \<le> length fss'"
    "\<exists>lost. concat (rev fss) @ [t] = lost @ concat (rev fss') \<and> (lost \<noteq> [] \<longrightarrow> length fss' = Suc k)"
proof -
  obtain cur old where fss: "fss = cur # old" using assms(1) by (cases fss) auto
  show "fss' \<noteq> []" "length fss' \<le> Suc k" "length fss \<le> length fss'"
    using assms(2) by (auto simp: assms(3) rot_spec_def fss Let_def)
  show "\<exists>lost. concat (rev fss) @ [t] = lost @ concat (rev fss') \<and> (lost \<noteq> [] \<longrightarrow> length fss' = Suc k)"
  proof (cases "length (concat cur) + length t > max_size \<and> 0 < length (concat cur)")
    case True
    then have "fss' = [t] # take k fss" by (simp add: assms(3) rot_spec_def fss)
    moreover have "concat (rev fss) = concat (rev (drop k fss)) @ concat (rev (take k fss))"
      by (metis append_take_drop_id concat_append rev_append)
    moreover have "length (take k fss) = k" if "concat (rev (drop k fss)) \<noteq> []"
      using that by (cases "k < length fss") auto
    ultimately show ?thesis by (intro exI [of _ "concat (rev (drop k fss))"]) auto
  next
    case False
    then have "fss' = (cur @ [t]) # old" by (auto simp: assms(3) rot_spec_def fss)
    then show ?thesis by (intro exI [of _ "[]"]) (simp add: fss)
  qed
qed

definition fits_or_single :: "nat \<Rightarrow> string list \<Rightarrow> bool" where
  "fits_or_single max_size f \<longleftrightarrow> length (concat f) \<le> max_size \<or> concat f \<in> set f"

lemma rot_spec_sizes:
  assumes "fss \<noteq> []" "\<forall>f\<in>set fss. fits_or_single max_size f"
  shows "\<forall>f\<in>set (rot_spec max_size k fss t). fits_or_single max_size f"
proof -
  obtain cur old where fss: "fss = cur # old" using assms(1) by (cases fss) auto
  have "fits_or_single max_size (cur @ [t])"
    if "\<not> (length (concat cur) + length t > max_size \<and> 0 < length (concat cur))"
    using that by (auto simp: fits_or_single_def)
  moreover have "fits_or_single max_size [t]" by (simp add: fits_or_single_def)
  moreover have "\<forall>f\<in>set (take k fss). fits_or_single max_size f" using assms(2) by (auto dest: in_set_takeD)
  ultimately show ?thesis using assms(2) by (auto simp: rot_spec_def fss Let_def)
qed

lemma rot_spec_run:
  assumes "fss \<noteq> []" "length fss \<le> Suc k" "\<forall>f\<in>set fss. fits_or_single max_size f"
    "fss' = foldl (rot_spec max_size k) fss ts"
  shows "(\<exists>lost. concat (rev fss) @ ts = lost @ concat (rev fss') \<and> (lost \<noteq> [] \<longrightarrow> length fss' = Suc k)) \<and>
    length fss \<le> length fss' \<and> length fss' \<le> Suc k \<and> (\<forall>f\<in>set fss'. fits_or_single max_size f)"
  using assms
proof (induction ts arbitrary: fss)
  case (Cons t ts)
  let ?f = "rot_spec max_size k fss t"
  note st = rot_spec_step [where max_size = max_size and t = t, OF Cons.prems(1,2) refl]
  have "fss' = foldl (rot_spec max_size k) ?f ts" using Cons.prems(4) by simp
  from Cons.IH [OF st(1,2) rot_spec_sizes [OF Cons.prems(1,3)] this]
  obtain lost where l: "concat (rev ?f) @ ts = lost @ concat (rev fss')" "lost \<noteq> [] \<longrightarrow> length fss' = Suc k"
    "length ?f \<le> length fss'" "length fss' \<le> Suc k" "\<forall>f\<in>set fss'. fits_or_single max_size f"
    by blast
  obtain lost' where l': "concat (rev fss) @ [t] = lost' @ concat (rev ?f)" "lost' \<noteq> [] \<longrightarrow> length ?f = Suc k"
    using st(4) by blast
  have "concat (rev fss) @ t # ts = (lost' @ lost) @ concat (rev fss')"
    using l(1) l'(1) by (metis append.assoc append_Cons append_Nil)
  moreover have "lost' @ lost \<noteq> [] \<longrightarrow> length fss' = Suc k" using l(2-4) l'(2) by auto
  ultimately show ?case using l(3-5) st(3) by (metis le_trans)
qed simp

text \<open>
  C24: A rotating sink made where none of its files exist keeps the end of the log: whatever is logged, if no call of the
  system fails, its files read from the oldest to the newest are the last messages, each whole and in order; a file
  exceeds the maximal size only with a single message that does; and nothing is lost before there are as many
  files as asked for.
\<close>

theorem rotation_keeps_recent:
  assumes "file_name base" "folders base fs" "fs_answers fs = []" "\<forall>i\<le>k. fs_nodes fs (rot_key base i) = None"
    "0 < max_size" "k \<le> 200000" "pf_lines env pf ms = Inr ts"
  shows "\<exists>s s' fss lost. new_rotating_sink base max_size k rotate_on_open pf fs = Inr (s, Inr ()) \<and>
    rs_log_all env ms s = Inr (s', Inr ()) \<and> rot_disk s' fss \<and> ts = lost @ concat (rev fss) \<and>
    (\<forall>f\<in>set fss. length (concat f) \<le> max_size \<or> concat f \<in> set f) \<and> (lost \<noteq> [] \<longrightarrow> length fss = Suc k)"
proof -
  obtain s where s: "new_rotating_sink base max_size k rotate_on_open pf fs = Inr (s, Inr ())" "rot_files s [[]]"
    "rs_max_size s = max_size" "rs_max_files s = k" "rs_formatter s = pf"
    using new_rotating_sink_fresh [OF assms(1-6)] by blast
  let ?fss = "foldl (rot_spec max_size k) [[]] ts"
  obtain s' where s': "rs_log_all env ms s = Inr (s', Inr ())" "rot_files s' ?fss"
    using rs_log_all_files [OF s(2), of env ms ts] assms(7) s(3-5) by auto
  have "\<forall>f\<in>set [[]]. fits_or_single max_size f" by (simp add: fits_or_single_def)
  from rot_spec_run [where k = k and ts = ts, OF _ _ this refl] obtain lost where "ts = lost @ concat (rev ?fss)"
    "lost \<noteq> [] \<longrightarrow> length ?fss = Suc k" "\<forall>f\<in>set ?fss. fits_or_single max_size f"
    by auto
  then show ?thesis using s(1) s' unfolding rot_files_def fits_or_single_def by blast
qed

section \<open>An example\<close>

definition logs_fs :: file_sys where
  "logs_fs = \<lparr>fs_nodes = [''logs'' \<mapsto> Dir], fs_data = (\<lambda>_. []), fs_next = 0, fs_answers = []\<rparr>"

definition bare_formatter :: pattern_formatter where
  "bare_formatter = new_pattern_formatter sample_os ''%v'' Local_time [CHR 0x0A] Map.empty"

definition three_msgs :: "lmsg list" where
  "three_msgs = [sample_msg 20000000000 ''hello'', sample_msg 20500000000 ''world'', sample_msg 21000000000 ''again'']"

definition three_lines :: "string list" where
  "three_lines = [''hello'' @ [CHR 0x0A], ''world'' @ [CHR 0x0A], ''again'' @ [CHR 0x0A]]"

lemma three_lines: "pf_lines sample_os bare_formatter three_msgs = Inr three_lines"
  by code_simp

lemma logs_fs_ok:
  "file_name ''logs/app.txt''" "folders ''logs/app.txt'' logs_fs" "fs_answers logs_fs = []"
  "\<forall>i\<le>1. fs_nodes logs_fs (rot_key ''logs/app.txt'' i) = None"
proof -
  show "file_name ''logs/app.txt''" by code_simp
  show "folders ''logs/app.txt'' logs_fs" unfolding folders_def logs_fs_def by code_simp
  show "fs_answers logs_fs = []" by (simp add: logs_fs_def)
  have "rot_key ''logs/app.txt'' 0 = ''logs/app.txt''" "rot_key ''logs/app.txt'' 1 = ''logs/app.1.txt''" by code_simp+
  then show "\<forall>i\<le>1. fs_nodes logs_fs (rot_key ''logs/app.txt'' i) = None"
    by (auto simp: le_Suc_eq logs_fs_def)
qed

theorem rotation_keeps_recent_witness:
  "\<exists>s s' fss lost. new_rotating_sink ''logs/app.txt'' 10 1 False bare_formatter logs_fs = Inr (s, Inr ()) \<and>
    rs_log_all sample_os three_msgs s = Inr (s', Inr ()) \<and> rot_disk s' fss \<and> three_lines = lost @ concat (rev fss) \<and>
    (\<forall>f\<in>set fss. length (concat f) \<le> 10 \<or> concat f \<in> set f) \<and> (lost \<noteq> [] \<longrightarrow> length fss = Suc 1)"
  by (rule rotation_keeps_recent [OF logs_fs_ok _ _ three_lines]) simp_all

theorem rotation_refines_list_witness:
  "\<exists>s s'. new_rotating_sink ''logs/app.txt'' 10 1 False bare_formatter logs_fs = Inr (s, Inr ()) \<and>
    rs_log_all sample_os three_msgs s = Inr (s', Inr ()) \<and>
    rot_files s' [[''again'' @ [CHR 0x0A]], [''world'' @ [CHR 0x0A]]]"
proof -
  obtain s where s: "new_rotating_sink ''logs/app.txt'' 10 1 False bare_formatter logs_fs = Inr (s, Inr ())" "rot_files s [[]]"
    "rs_max_size s = 10" "rs_max_files s = 1" "rs_formatter s = bare_formatter"
    using new_rotating_sink_fresh [OF logs_fs_ok, of 10 False bare_formatter] by auto
  have "foldl (rot_spec 10 1) [[]] three_lines = [[''again'' @ [CHR 0x0A]], [''world'' @ [CHR 0x0A]]]" by code_simp
  then show ?thesis
    using rotation_refines_list [OF s(2), of sample_os three_msgs three_lines] s three_lines by auto
qed

section \<open>When the system fails\<close>

text \<open>The answers with which a rotation without renames fails: the flush succeeds, and no attempt to open does.\<close>

definition failing_opens :: "rotating_sink \<Rightarrow> rotating_sink" where
  "failing_opens s = with_fs ((rs_fs s)\<lparr>fs_answers := True # replicate 5 False\<rparr>) s"

text \<open>
  C27: A rotation that cannot open the file again leaves the sink without one: the message it was for is reported as
  failed, and the next message that fits is written through a null pointer.
\<close>

theorem failed_reopen_crashes:
  assumes "rot_files s fss" "rs_max_files s = 0" "0 < rs_current_size s"
    "rs_max_size s < rs_current_size s + length t1" "rs_current_size s + length t2 \<le> rs_max_size s"
  shows "\<exists>s'. rs_put t1 (failing_opens s) =
      Inr (s', Inl (''Failed opening file '' @ rs_base_filename s @ '' for writing'')) \<and> rs_put t2 s' = Inl NullDeref"
proof -
  let ?base = "rs_base_filename s" and ?fs = "rs_fs s"
  obtain cur old where fss: "fss = cur # old" using assms(1) by (cases fss) (auto simp: rot_files_def rot_disk_def)
  have disk: "rot_disk s (cur # old)" and sz: "rs_current_size s = length (concat cur)"
    using assms(1) by (simp_all add: rot_files_def fss)
  have base: "file_name ?base" "folders ?base ?fs" "fh_filename (rs_file s) = ?base" using disk by (auto simp: rot_disk_def)
  obtain i where i: "fh_fd (rs_file s) = Some i" "fs_data ?fs i = concat cur" using rot_disk_open [OF disk] by blast
  have no_open: "sys_fopen ?base True (?fs\<lparr>fs_answers := False # r\<rparr>) = (None, ?fs\<lparr>fs_answers := r\<rparr>)" for r
    by (simp add: sys_fopen_def sys_answer_def)
  have mk: "snd (create_dir (dir_name ?base) (?fs\<lparr>fs_answers := r\<rparr>)) = ?fs\<lparr>fs_answers := r\<rparr>" for r
    by (rule create_dir_there, rule folders_mono [OF base(2)]) simp
  define e where "e = ''Failed opening file '' @ ?base @ '' for writing''"
  let ?h = "\<lambda>r. (rs_file s)\<lparr>fh_fs := ?fs\<lparr>fs_answers := r\<rparr>, fh_fd := None\<rparr>"
  let ?s' = "s\<lparr>rs_file := ?h []\<rparr>"
  let ?s1 = "with_fs (?fs\<lparr>fs_answers := replicate 5 False\<rparr>) s"
  have "fh_reopen True (?h (replicate 5 False)) = Inr (?h [], Inl e)"
    using base(1,3) unfolding e_def
    by (simp add: fh_reopen_def file_name_def fh_open_def open_tries_def eval_nat_numeral fh_close_def mk no_open act_throw_def)
  then have rot: "rs_rotate ?s1 = Inr (?s', Inl e)"
    using assms(2) by (simp add: rs_rotate_def act_bind_def act_return_def rs_on_file_def fh_close_def with_fs_def)
  have flush: "rs_on_file fh_flush (failing_opens s) = Inr (?s1, Inr ())"
    by (simp add: failing_opens_def rs_on_file_def fh_flush_def sys_answer_def act_return_def with_fs_def)
  have size: "rs_on_file fh_size ?s1 = Inr (?s1, Inr (length (concat cur)))"
    using i by (simp add: rs_on_file_def fh_size_def act_return_def with_fs_def)
  have "rs_current_size (failing_opens s) = rs_current_size s" "rs_max_size (failing_opens s) = rs_max_size s"
    by (simp_all add: failing_opens_def)
  then have "rs_put t1 (failing_opens s) = Inr (?s', Inl e)"
    using assms(3,4) flush size rot by (simp add: rs_put_def Let_def sz act_bind_def)
  moreover have "rs_put t2 ?s' = Inl NullDeref"
    using assms(5) by (simp add: rs_put_def Let_def act_bind_def rs_on_file_def fh_write_def act_return_def)
  ultimately show ?thesis unfolding e_def by blast
qed

theorem failed_reopen_crashes_witness:
  "\<exists>s s'. rs_put ''far too long'' (failing_opens s) = Inr (s', Inl (''Failed opening file logs/app.txt for writing'')) \<and>
     rs_put ''ok'' s' = Inl NullDeref"
proof -
  have none: "\<forall>i\<le>0. fs_nodes logs_fs (rot_key ''logs/app.txt'' i) = None" using logs_fs_ok(4) by simp
  obtain s where s: "rot_files s [[]]" "rs_max_size s = 10" "rs_max_files s = 0" and b: "rs_base_filename s = ''logs/app.txt''"
    using new_rotating_sink_fresh [OF logs_fs_ok(1-3) none, of 10 False bare_formatter] by auto
  obtain s1 where s1: "rot_files s1 [[''hello'']]" "rs_max_size s1 = 10" "rs_max_files s1 = 0" "rs_base_filename s1 = rs_base_filename s"
    using rs_put_files [OF s(1), of "''hello''"] s by (auto simp: rot_spec_def same_setup_def)
  have "rs_current_size s1 = 5" using s1(1) by (simp add: rot_files_def)
  then show ?thesis
    using failed_reopen_crashes [OF s1(1,3), of "''far too long''" "''ok''"] s1 b by auto
qed

end
