(* ===== verification/LogDaily.thy ===== *)
theory LogDaily
  imports LogRotate
begin

text \<open>
  The file sinks that begin a new file every day or every hour (\<open>sinks/daily_file_sink.h\<close>,
  \<open>sinks/hourly_file_sink.h\<close>).  The two classes differ in their period, in the fields of the broken-down time they set
  and in the names of their files; what they have in common is written once, with these as a record.  The
  name calculator is an argument, as it is a template argument of the classes.  The clock's answers are arguments and
  \<open>mktime\<close> belongs to the system.  The lemmas show which files are on the disk.
\<close>

section \<open>Names\<close>

definition daily_calc_filename :: "string \<Rightarrow> tm \<Rightarrow> string res" where
  "daily_calc_filename filename t =
     (let (basename, ext) = split_by_extension filename
      in fmt_format ''{}_{:04d}-{:02d}-{:02d}{}''
           [String_arg basename, Int_arg (of_int (tm_year t + 1900)), Int_arg (of_int (tm_mon t + 1)),
            Int_arg (of_int (tm_mday t)), String_arg ext])"

definition hourly_calc_filename :: "string \<Rightarrow> tm \<Rightarrow> string res" where
  "hourly_calc_filename filename t =
     (let (basename, ext) = split_by_extension filename
      in fmt_format ''{}_{:04d}-{:02d}-{:02d}_{:02d}{}''
           [String_arg basename, Int_arg (of_int (tm_year t + 1900)), Int_arg (of_int (tm_mon t + 1)),
            Int_arg (of_int (tm_mday t)), Int_arg (of_int (tm_hour t)), String_arg ext])"

section \<open>The sinks\<close>

record timing =
  ti_kind :: string
  ti_period :: int
  ti_fields :: "tm \<Rightarrow> tm"
  ti_calc :: "string \<Rightarrow> tm \<Rightarrow> string res"
  ti_mktime :: "tm \<Rightarrow> int"
  ti_os :: os_env

definition daily_timing :: "int \<Rightarrow> int \<Rightarrow> (string \<Rightarrow> tm \<Rightarrow> string res) \<Rightarrow> (tm \<Rightarrow> int) \<Rightarrow> os_env \<Rightarrow> timing" where
  "daily_timing h m calc mktime env =
     \<lparr>ti_kind = ''daily'', ti_period = 24 * 3600 * ns_per_sec, ti_fields = (\<lambda>d. d\<lparr>tm_hour := h, tm_min := m, tm_sec := 0\<rparr>), ti_calc = calc,
      ti_mktime = mktime, ti_os = env\<rparr>"

definition hourly_timing :: "(string \<Rightarrow> tm \<Rightarrow> string res) \<Rightarrow> (tm \<Rightarrow> int) \<Rightarrow> os_env \<Rightarrow> timing" where
  "hourly_timing calc mktime env =
     \<lparr>ti_kind = ''hourly'', ti_period = 3600 * ns_per_sec, ti_fields = (\<lambda>d. d\<lparr>tm_min := 0, tm_sec := 0\<rparr>), ti_calc = calc,
      ti_mktime = mktime, ti_os = env\<rparr>"

record timed_sink =
  td_base_filename :: string
  td_rotation_tp :: int
  td_file :: file_helper
  td_truncate :: bool
  td_max_files :: nat
  td_names :: "string circular_q"
  td_formatter :: pattern_formatter

definition td_on_file :: "(file_helper, 'a) act \<Rightarrow> (timed_sink, 'a) act" where
  "td_on_file m s = bind_res (m (td_file s)) (\<lambda>(f, r). Inr (s\<lparr>td_file := f\<rparr>, r))"

definition td_fs :: "timed_sink \<Rightarrow> file_sys" where "td_fs s = fh_fs (td_file s)"

definition now_tm :: "timing \<Rightarrow> int \<Rightarrow> tm" where
  "now_tm T tp = os_localtime (ti_os T) (time_secs tp)"

definition next_rotation_tp :: "timing \<Rightarrow> int \<Rightarrow> int" where
  "next_rotation_tp T now =
     (let rotation_time = ti_mktime T (ti_fields T (now_tm T now)) * ns_per_sec
      in if rotation_time > now then rotation_time else rotation_time + ti_period T)"

text \<open>The existing files of the last periods, newest first; \<open>n\<close> more are wanted.\<close>

fun existing_names :: "timing \<Rightarrow> string \<Rightarrow> file_sys \<Rightarrow> nat \<Rightarrow> int \<Rightarrow> string list res" where
  "existing_names T base fs 0 now = Inr []"
| "existing_names T base fs (Suc n) now =
     bind_res (ti_calc T base (now_tm T now)) (\<lambda>filename.
       if \<not> path_exists filename fs then Inr []
       else bind_res (existing_names T base fs n (now - ti_period T)) (\<lambda>r. Inr (filename # r)))"

definition init_filenames_q :: "timing \<Rightarrow> int \<Rightarrow> (timed_sink, unit) act" where
  "init_filenames_q T now s =
     act_bind (act_res (existing_names T (td_base_filename s) (td_fs s) (td_max_files s) now)) (\<lambda>filenames.
       act_state (td_names_update (\<lambda>_. fold cq_push_back (rev filenames) (cq_new [] (td_max_files s))))) s"

text \<open>The constructor reads the clock for the name, for the rotation and for the queue of names.\<close>

definition new_timed_sink ::
  "timing \<Rightarrow> int \<Rightarrow> int \<Rightarrow> int \<Rightarrow> string \<Rightarrow> bool \<Rightarrow> nat \<Rightarrow> pattern_formatter \<Rightarrow> file_sys \<Rightarrow> (timed_sink \<times> (string + unit)) res" where
  "new_timed_sink T now now1 now2 base_filename trunc max_files pf fs =
     (let s = \<lparr>td_base_filename = base_filename, td_rotation_tp = 0, td_file = new_file_helper fs, td_truncate = trunc,
               td_max_files = max_files, td_names = cq_disabled, td_formatter = pf\<rparr>
      in act_bind (act_res (ti_calc T base_filename (now_tm T now))) (\<lambda>filename.
         act_bind (td_on_file (fh_open filename trunc)) (\<lambda>_.
         act_bind (act_state (td_rotation_tp_update (\<lambda>_. next_rotation_tp T now1))) (\<lambda>_.
         if max_files > 0 then init_filenames_q T now2 else act_return ()))) s)"

definition new_daily_sink ::
  "int \<Rightarrow> int \<Rightarrow> (string \<Rightarrow> tm \<Rightarrow> string res) \<Rightarrow> (tm \<Rightarrow> int) \<Rightarrow> os_env \<Rightarrow> int \<Rightarrow> int \<Rightarrow> int \<Rightarrow> string \<Rightarrow> bool \<Rightarrow> nat \<Rightarrow>
   pattern_formatter \<Rightarrow> file_sys \<Rightarrow> (timed_sink \<times> (string + unit)) res" where
  "new_daily_sink h m calc mktime env now now1 now2 base_filename trunc max_files pf fs =
     (if h < 0 \<or> h > 23 \<or> m < 0 \<or> m > 59 then
        act_throw ''daily_file_sink: Invalid rotation time in ctor''
          \<lparr>td_base_filename = base_filename, td_rotation_tp = 0, td_file = new_file_helper fs, td_truncate = trunc,
           td_max_files = max_files, td_names = cq_disabled, td_formatter = pf\<rparr>
      else new_timed_sink (daily_timing h m calc mktime env) now now1 now2 base_filename trunc max_files pf fs)"

definition new_hourly_sink ::
  "(string \<Rightarrow> tm \<Rightarrow> string res) \<Rightarrow> (tm \<Rightarrow> int) \<Rightarrow> os_env \<Rightarrow> int \<Rightarrow> int \<Rightarrow> int \<Rightarrow> string \<Rightarrow> bool \<Rightarrow> nat \<Rightarrow>
   pattern_formatter \<Rightarrow> file_sys \<Rightarrow> (timed_sink \<times> (string + unit)) res" where
  "new_hourly_sink calc mktime env now now1 now2 base_filename trunc max_files pf fs =
     new_timed_sink (hourly_timing calc mktime env) now now1 now2 base_filename trunc max_files pf fs"

definition td_remove :: "string \<Rightarrow> (timed_sink, bool) act" where
  "td_remove name s =
     (let (ok, fs) = remove_if_exists name (td_fs s)
      in act_return ok (s\<lparr>td_file := (td_file s)\<lparr>fh_fs := fs\<rparr>\<rparr>))"

definition td_push :: "string \<Rightarrow> (timed_sink, unit) act" where
  "td_push name = act_state (td_names_update (cq_push_back name))"

definition delete_old :: "timing \<Rightarrow> (timed_sink, unit) act" where
  "delete_old T s =
     (let current_file = fh_filename (td_file s) in
      if cq_full (td_names s) then
        act_bind (act_res (cq_front (td_names s))) (\<lambda>old_filename.
        act_bind (act_state (td_names_update cq_pop_front)) (\<lambda>_.
        act_bind (td_remove old_filename) (\<lambda>ok.
          if \<not> ok then act_bind (td_push current_file) (\<lambda>_. act_throw (''Failed removing '' @ ti_kind T @ '' file '' @ old_filename))
          else td_push current_file))) s
      else td_push current_file s)"

definition td_rotate :: "timing \<Rightarrow> int \<Rightarrow> lmsg \<Rightarrow> (timed_sink, unit) act" where
  "td_rotate T now msg s =
     act_bind (act_res (ti_calc T (td_base_filename s) (now_tm T (lm_time msg)))) (\<lambda>filename.
     act_bind (td_on_file (fh_open filename (td_truncate s))) (\<lambda>_.
     act_state (td_rotation_tp_update (\<lambda>_. next_rotation_tp T now)))) s"

text \<open>\<open>sink_it_\<close>; \<open>now\<close> is what the clock says when the next rotation is computed.\<close>

definition td_sink_it :: "timing \<Rightarrow> int \<Rightarrow> lmsg \<Rightarrow> (timed_sink, unit) act" where
  "td_sink_it T now msg s =
     (let should_rotate = lm_time msg \<ge> td_rotation_tp s in
      act_bind (if should_rotate then td_rotate T now msg else act_return ()) (\<lambda>_.
      act_bind (formatted (ti_os T) td_formatter (\<lambda>pf. td_formatter_update (\<lambda>_. pf)) msg) (\<lambda>text.
      act_bind (td_on_file (fh_write text)) (\<lambda>_.
        if should_rotate \<and> td_max_files s > 0 then delete_old T else act_return ()))) s)"

definition daily_sink_it ::
  "int \<Rightarrow> int \<Rightarrow> (string \<Rightarrow> tm \<Rightarrow> string res) \<Rightarrow> (tm \<Rightarrow> int) \<Rightarrow> os_env \<Rightarrow> int \<Rightarrow> lmsg \<Rightarrow> (timed_sink, unit) act" where
  "daily_sink_it h m calc mktime env = td_sink_it (daily_timing h m calc mktime env)"

definition hourly_sink_it ::
  "(string \<Rightarrow> tm \<Rightarrow> string res) \<Rightarrow> (tm \<Rightarrow> int) \<Rightarrow> os_env \<Rightarrow> int \<Rightarrow> lmsg \<Rightarrow> (timed_sink, unit) act" where
  "hourly_sink_it calc mktime env = td_sink_it (hourly_timing calc mktime env)"

definition td_flush :: "(timed_sink, unit) act" where
  "td_flush = td_on_file fh_flush"


section \<open>Which files are kept\<close>

text \<open>
  The sink has opened the files \<open>names\<close>, in this order; a name may come more than once.  The last \<open>max_files\<close> of
  them are in the queue, and the last one is open.  Opening number \<open>j\<close>, counted from 0, is followed by the removal of
  the name opened \<open>max_files\<close> openings earlier: a file exists if one of its openings was not followed by its removal.
\<close>

definition names_ok :: "file_sys \<Rightarrow> string list \<Rightarrow> bool" where
  "names_ok fs names \<longleftrightarrow>
     inj_on norm_path (set names) \<and> (\<forall>n\<in>set names. file_name n \<and> folders n fs \<and> fs_nodes fs (norm_path n) \<noteq> Some Dir)"

definition is_file :: "file_sys \<Rightarrow> string \<Rightarrow> bool" where
  "is_file fs n \<longleftrightarrow> (\<exists>i. fs_nodes fs (norm_path n) = Some (File i))"

definition files_left :: "nat \<Rightarrow> string list \<Rightarrow> string set" where
  "files_left k names =
     {n. \<exists>i<length names. names ! i = n \<and> (\<forall>j\<in>{max i k..<length names}. names ! (j - k) \<noteq> n)}"

definition kept :: "file_sys \<Rightarrow> nat \<Rightarrow> string list \<Rightarrow> bool" where
  "kept fs k names \<longleftrightarrow> (\<forall>n\<in>set names. is_file fs n \<longleftrightarrow> n \<in> files_left k names)"

definition td_files :: "timed_sink \<Rightarrow> string list \<Rightarrow> bool" where
  "td_files s names \<longleftrightarrow>
     names \<noteq> [] \<and> names_ok (td_fs s) names \<and> kept (td_fs s) (td_max_files s) names \<and>
     0 < td_max_files s \<and> cq_inv (td_max_files s) (td_names s) \<and> cq_items (td_names s) = last_n (td_max_files s) names \<and>
     fh_filename (td_file s) = last names \<and> fs_answers (td_fs s) = [] \<and>
     fh_fd (td_file s) \<noteq> None"

lemma key_name: "rot_key n 0 = norm_path n"
  by (simp add: rot_key_def)

lemma node_at_name: "file_name n \<Longrightarrow> node_at fs n = fs_nodes fs (norm_path n)"
  using node_at_base [of n fs] by (simp add: key_name)

lemma open_name:
  assumes "file_name n" "folders n (fh_fs h)" "fs_answers (fh_fs h) = []" "fs_nodes (fh_fs h) (norm_path n) \<noteq> Some Dir"
  shows "\<exists>i fs. fh_open n trunc h = Inr (h\<lparr>fh_fd := Some i, fh_filename := n, fh_fs := fs\<rparr>, Inr ()) \<and>
    fs_nodes fs = (fs_nodes (fh_fs h))(norm_path n \<mapsto> File i) \<and> fs_answers fs = []"
proof (cases "fs_nodes (fh_fs h) (norm_path n)")
  case None
  have "fh_open n trunc h = Inr (h\<lparr>fh_fd := Some (fs_next (fh_fs h)), fh_filename := n,
    fh_fs := (fh_fs h)\<lparr>fs_nodes := (fs_nodes (fh_fs h))(norm_path n \<mapsto> File (fs_next (fh_fs h))),
                        fs_data := (fs_data (fh_fs h))(fs_next (fh_fs h) := []), fs_next := Suc (fs_next (fh_fs h))\<rparr>\<rparr>, Inr ())"
    using open_new [of n h trunc] assms(1-3) None by (simp add: key_name)
  then show ?thesis by (intro exI conjI) (assumption, simp_all add: assms(3))
next
  case (Some x)
  then obtain i where i: "fs_nodes (fh_fs h) (norm_path n) = Some (File i)" using assms(4) by (cases x) auto
  then have "fs_nodes (fh_fs h) = (fs_nodes (fh_fs h))(norm_path n \<mapsto> File i)" by auto
  moreover have "fh_open n trunc h = Inr (h\<lparr>fh_fd := Some i, fh_filename := n,
    fh_fs := if trunc then (fh_fs h)\<lparr>fs_data := (fs_data (fh_fs h))(i := [])\<rparr> else fh_fs h\<rparr>, Inr ())"
    using open_existing [of n h i trunc] assms(1-3) i by (simp add: key_name)
  ultimately show ?thesis by (intro exI conjI) (assumption, simp_all add: assms(3))
qed

lemma td_write_ok:
  assumes "fh_fd (td_file s) = Some i" "fs_answers (td_fs s) = []"
  shows "\<exists>fs. td_on_file (fh_write t) s = Inr (s\<lparr>td_file := (td_file s)\<lparr>fh_fs := fs\<rparr>\<rparr>, Inr ()) \<and>
    fs_nodes fs = fs_nodes (td_fs s) \<and> fs_answers fs = []"
proof -
  let ?fs = "(td_fs s)\<lparr>fs_data := (fs_data (td_fs s))(i := fs_data (td_fs s) i @ t)\<rparr>"
  have "td_on_file (fh_write t) s = Inr (s\<lparr>td_file := (td_file s)\<lparr>fh_fs := ?fs\<rparr>\<rparr>, Inr ())"
    using assms by (simp add: td_on_file_def fh_write_def sys_fwrite_def sys_answer_ok td_fs_def act_return_def)
  then show ?thesis by (intro exI conjI) (assumption, simp_all add: assms(2))
qed

lemma formatted_ok:
  "pf_format env (get s) m [] = Inr (pf, m', t) \<Longrightarrow> formatted env get put m s = Inr (put pf s, Inr t)"
  by (simp add: formatted_def)

text \<open>Changing the node of one name, from or to a file.\<close>

lemma names_ok_update:
  assumes "names_ok fs names" "fs_nodes fs' = (fs_nodes fs)(p := x)" "x \<noteq> Some Dir" "fs_nodes fs p \<noteq> Some Dir"
  shows "names_ok fs' names"
proof -
  have "folders n fs'" if "folders n fs" for n
    using assms(2,4) by (intro folders_mono [OF that]) auto
  then show ?thesis using assms by (auto simp: names_ok_def)
qed

lemma names_ok_same:
  assumes "names_ok fs names" "fs_nodes fs' = fs_nodes fs"
  shows "names_ok fs' names"
proof -
  have "folders n fs'" if "folders n fs" for n using assms(2) by (intro folders_mono [OF that]) simp
  then show ?thesis using assms by (simp add: names_ok_def)
qed

lemma last_n_full_snoc:
  assumes "length (last_n k names) = k" "0 < k"
  shows "last_n k (names @ [n]) = tl (last_n k names) @ [n]"
proof -
  have "last_n k (names @ [n]) = last_n k (last_n k names @ [n])" by (simp add: last_n_last_n_snoc)
  also have "\<dots> = tl (last_n k names) @ [n]"
  proof -
    obtain a l where l: "last_n k names = a # l" "Suc (length l) = k" using assms by (cases "last_n k names") auto
    show ?thesis unfolding l(1) using l(2) by (simp add: last_n_def)
  qed
  finally show ?thesis .
qed

lemma set_last_n: "set (last_n k xs) \<subseteq> set xs"
  by (auto simp: last_n_def dest: in_set_dropD)

lemma last_n_nonempty: "0 < k \<Longrightarrow> xs \<noteq> [] \<Longrightarrow> last_n k xs \<noteq> []"
  by (simp add: last_n_def not_le)

lemma files_left_snoc:
  assumes "0 < k"
  shows "files_left k (names @ [n]) =
    insert n (files_left k names) - (if length (last_n k names) = k then {hd (last_n k names)} else {})"
proof -
  let ?L = "length names"
  have full: "length (last_n k names) = k \<longleftrightarrow> k \<le> ?L" by (auto simp: last_n_def)
  have old: "hd (last_n k names) = names ! (?L - k)" if "k \<le> ?L"
    using that assms by (simp add: last_n_def hd_drop_conv_nth)
  have nth: "(names @ [n]) ! (j - k) = names ! (j - k)" if "k \<le> j" "j \<le> ?L" for j
  proof -
    from that assms have "j - k < ?L" by linarith
    then show ?thesis by (simp add: nth_append)
  qed
  have step: "(\<forall>j\<in>{max i k..<Suc ?L}. (names @ [n]) ! (j - k) \<noteq> x) \<longleftrightarrow>
      (\<forall>j\<in>{max i k..<?L}. names ! (j - k) \<noteq> x) \<and> (k \<le> ?L \<longrightarrow> names ! (?L - k) \<noteq> x)" if "i \<le> ?L" for i x
  proof -
    have "{max i k..<Suc ?L} = {max i k..<?L} \<union> (if k \<le> ?L then {?L} else {})" using that by auto
    moreover have "(\<forall>j\<in>{max i k..<Suc ?L}. (names @ [n]) ! (j - k) \<noteq> x) \<longleftrightarrow>
        (\<forall>j\<in>{max i k..<Suc ?L}. names ! (j - k) \<noteq> x)" by (intro ball_cong) (simp_all add: nth)
    ultimately show ?thesis by auto
  qed
  have ex: "(\<exists>i<Suc ?L. Q i) \<longleftrightarrow> Q ?L \<or> (\<exists>i<?L. Q i)" for Q by (auto simp: less_Suc_eq)
  have "x \<in> files_left k (names @ [n]) \<longleftrightarrow>
      (x = n \<or> x \<in> files_left k names) \<and> (k \<le> ?L \<longrightarrow> names ! (?L - k) \<noteq> x)" for x
  proof -
    have "x \<in> files_left k (names @ [n]) \<longleftrightarrow>
        (\<exists>i<Suc ?L. (names @ [n]) ! i = x \<and> (\<forall>j\<in>{max i k..<Suc ?L}. (names @ [n]) ! (j - k) \<noteq> x))"
      by (simp add: files_left_def)
    also have "\<dots> \<longleftrightarrow> (\<exists>i<Suc ?L. (names @ [n]) ! i = x \<and> (\<forall>j\<in>{max i k..<?L}. names ! (j - k) \<noteq> x)) \<and>
        (k \<le> ?L \<longrightarrow> names ! (?L - k) \<noteq> x)"
      unfolding less_Suc_eq_le by (auto simp: step cong: conj_cong)
    also have "(\<exists>i<Suc ?L. (names @ [n]) ! i = x \<and> (\<forall>j\<in>{max i k..<?L}. names ! (j - k) \<noteq> x)) \<longleftrightarrow>
        x = n \<or> x \<in> files_left k names"
      unfolding ex by (simp add: files_left_def nth_append eq_commute [of n] cong: conj_cong)
    finally show ?thesis .
  qed
  then show ?thesis using full old by auto
qed

lemma files_left_one: "0 < k \<Longrightarrow> files_left k [n] = {n}"
  by (auto simp: files_left_def)

text \<open>Names that come once are left exactly when they are among the last ones.\<close>

lemma files_left_distinct:
  assumes "distinct names"
  shows "files_left k names = set (last_n k names)"
proof -
  let ?L = "length names"
  have "n \<in> files_left k names \<longleftrightarrow> (\<exists>i<?L. names ! i = n \<and> ?L \<le> i + k)" for n
  proof -
    have "(\<forall>j\<in>{max i k..<?L}. names ! (j - k) \<noteq> names ! i) \<longleftrightarrow> ?L \<le> i + k" if "i < ?L" for i
    proof -
      have "names ! (j - k) = names ! i \<longleftrightarrow> j - k = i" if "j < ?L" for j
        using that \<open>i < ?L\<close> assms by (intro nth_eq_iff_index_eq) auto
      then have "(\<forall>j\<in>{max i k..<?L}. names ! (j - k) \<noteq> names ! i) \<longleftrightarrow> (\<forall>j\<in>{max i k..<?L}. j \<noteq> i + k)"
        by auto
      then show ?thesis by (auto simp: not_le dest: bspec [of _ _ "i + k"])
    qed
    then show ?thesis unfolding files_left_def by auto
  qed
  moreover have "n \<in> set (last_n k names) \<longleftrightarrow> (\<exists>i<?L. names ! i = n \<and> ?L \<le> i + k)" for n
  proof -
    have "n \<in> set (last_n k names) \<longleftrightarrow> (\<exists>j<?L - (?L - k). names ! (?L - k + j) = n)"
      by (simp add: last_n_def in_set_conv_nth)
    also have "\<dots> \<longleftrightarrow> (\<exists>i<?L. names ! i = n \<and> ?L \<le> i + k)" (is "?A \<longleftrightarrow> ?B")
    proof
      assume ?A
      then obtain j where "j < ?L - (?L - k)" "names ! (?L - k + j) = n" by blast
      then show ?B by (intro exI [of _ "?L - k + j"]) auto
    next
      assume ?B
      then obtain i where "i < ?L" "names ! i = n" "?L \<le> i + k" by blast
      then show ?A by (intro exI [of _ "i - (?L - k)"]) auto
    qed
    finally show ?thesis .
  qed
  ultimately show ?thesis by auto
qed

lemma kept_snoc:
  assumes "kept fs k names" "inj_on norm_path (set (names @ [n]))" "0 < k" "names \<noteq> []"
    "full = (length (last_n k names) = k)" "old = hd (last_n k names)"
    "fs_nodes fs' = (if full then (fs_nodes fs)(norm_path n := Some (File i), norm_path old := None)
                     else (fs_nodes fs)(norm_path n := Some (File i)))"
  shows "kept fs' k (names @ [n])"
proof -
  have ne: "last_n k names \<noteq> []" using last_n_nonempty assms(3,4) by blast
  then have old: "old \<in> set names" using set_last_n [of k names] hd_in_set [OF ne] assms(6) by auto
  have "is_file fs' m \<longleftrightarrow> (m = n \<or> is_file fs m) \<and> \<not> (full \<and> m = old)" if "m \<in> set (names @ [n])" for m
  proof -
    have "norm_path m = norm_path n \<longleftrightarrow> m = n" by (rule inj_on_eq_iff [OF assms(2) that]) simp
    moreover have "norm_path m = norm_path old \<longleftrightarrow> m = old" by (rule inj_on_eq_iff [OF assms(2) that]) (simp add: old)
    ultimately show ?thesis by (auto simp: is_file_def assms(7))
  qed
  then show ?thesis
    using assms(1) by (auto simp: kept_def files_left_snoc [OF assms(3)] assms(5,6))
qed

text \<open>What a call keeps of the sink besides its files.\<close>

definition td_same :: "timed_sink \<Rightarrow> timed_sink \<Rightarrow> bool" where
  "td_same s s' \<longleftrightarrow> td_base_filename s' = td_base_filename s \<and> td_max_files s' = td_max_files s \<and>
     td_truncate s' = td_truncate s"

lemma td_sink_it_writes:
  assumes "td_files s names" "lm_time m < td_rotation_tp s" "pf_format (ti_os T) (td_formatter s) m [] = Inr (pf, m', t)"
  shows "\<exists>s'. td_sink_it T now m s = Inr (s', Inr ()) \<and> td_files s' names \<and> td_same s s' \<and>
    td_rotation_tp s' = td_rotation_tp s \<and> td_formatter s' = pf \<and> fs_nodes (td_fs s') = fs_nodes (td_fs s)"
proof -
  let ?s = "s\<lparr>td_formatter := pf\<rparr>"
  obtain i where i: "fh_fd (td_file s) = Some i" using assms(1) by (auto simp: td_files_def)
  have ans: "fs_answers (td_fs s) = []" using assms(1) by (simp add: td_files_def)
  obtain fs where fs: "td_on_file (fh_write t) ?s = Inr (?s\<lparr>td_file := (td_file s)\<lparr>fh_fs := fs\<rparr>\<rparr>, Inr ())"
    "fs_nodes fs = fs_nodes (td_fs s)" "fs_answers fs = []"
    using td_write_ok [of ?s i t] i ans by (auto simp: td_fs_def)
  let ?s' = "?s\<lparr>td_file := (td_file s)\<lparr>fh_fs := fs\<rparr>\<rparr>"
  have "formatted (ti_os T) td_formatter (\<lambda>pf. td_formatter_update (\<lambda>_. pf)) m s = Inr (?s, Inr t)"
    using formatted_ok [of "ti_os T" td_formatter s m pf m' t] assms(3) by simp
  then have "td_sink_it T now m s = Inr (?s', Inr ())"
    using assms(2) fs(1) by (simp add: td_sink_it_def act_bind_def act_return_def)
  moreover have "td_files ?s' names"
  proof -
    have "names_ok fs names" using assms(1) fs(2)
      by (auto simp: td_files_def names_ok_def intro: folders_mono)
    moreover have "kept fs (td_max_files s) names" using assms(1) fs(2) by (simp add: td_files_def kept_def is_file_def)
    ultimately show ?thesis using assms(1) fs i by (simp add: td_files_def td_fs_def)
  qed
  ultimately show ?thesis using fs(2) by (intro exI [of _ ?s']) (simp add: td_same_def td_fs_def)
qed

lemma delete_old_ok:
  assumes "cq_inv k (td_names s)" "cq_items (td_names s) = items" "fs_answers (td_fs s) = []" "0 < k"
    "\<forall>n\<in>set items. file_name n \<and> fs_nodes (td_fs s) (norm_path n) \<noteq> Some Dir"
  shows "\<exists>q fs. delete_old T s = Inr (s\<lparr>td_names := q, td_file := (td_file s)\<lparr>fh_fs := fs\<rparr>\<rparr>, Inr ()) \<and> cq_inv k q \<and>
    cq_items q = last_n k (items @ [fh_filename (td_file s)]) \<and> fs_answers fs = [] \<and>
    fs_nodes fs = (if length items = k then (fs_nodes (td_fs s))(norm_path (hd items) := None) else fs_nodes (td_fs s))"
proof (cases "length items = k")
  case True
  let ?old = "hd items" and ?q = "cq_pop_front (td_names s)" and ?n = "fh_filename (td_file s)"
  have ne: "items \<noteq> []" using True assms(4) by auto
  have i: "fs_nodes (td_fs s) (norm_path ?old) \<noteq> Some Dir" "file_name ?old"
    using bspec [OF assms(5) hd_in_set [OF ne]] by auto
  let ?fs = "(td_fs s)\<lparr>fs_nodes := (fs_nodes (td_fs s))(norm_path ?old := None)\<rparr>"
  let ?s' = "s\<lparr>td_names := cq_push_back ?n ?q, td_file := (td_file s)\<lparr>fh_fs := ?fs\<rparr>\<rparr>"
  have full: "cq_full (td_names s)" "cq_front (td_names s) = Inr ?old"
    using cq_full_items [OF assms(1)] cq_front_items [OF assms(1)] True ne assms(2) by simp_all
  have "remove_if_exists ?old (td_fs s) = (True, ?fs)"
  proof (cases "fs_nodes (td_fs s) (norm_path ?old)")
    case None
    then have "(fs_nodes (td_fs s))(norm_path ?old := None) = fs_nodes (td_fs s)" by auto
    then show ?thesis using None i(2) by (simp add: remove_if_exists_def path_exists_def node_at_name)
  next
    case (Some x)
    then show ?thesis
      using i assms(3)
      by (cases x) (simp_all add: remove_if_exists_def path_exists_def node_at_name sys_remove_def sys_answer_ok)
  qed
  then have "delete_old T s = Inr (?s', Inr ())"
    using full by (simp add: delete_old_def Let_def act_bind_def act_simps td_remove_def td_push_def td_fs_def)
  moreover have q: "cq_inv k (cq_push_back ?n ?q)" by (rule cq_push_inv [OF cq_pop_inv [OF assms(1)]])
  moreover have "cq_items (cq_push_back ?n ?q) = last_n k (items @ [?n])"
  proof -
    have "cq_items ?q = tl items" using cq_pop_items [OF assms(1)] ne assms(2) by simp
    then have "cq_items (cq_push_back ?n ?q) = last_n k (tl items @ [?n])"
      using cq_push_items(1) [OF cq_pop_inv [OF assms(1)]] by simp
    also have "\<dots> = tl items @ [?n]" using True ne assms(4) by (simp add: last_n_def)
    also have "\<dots> = last_n k (items @ [?n])" using last_n_full_snoc [of k items ?n] True assms(4) by simp
    finally show ?thesis .
  qed
  ultimately show ?thesis using True assms(3) by (intro exI [of _ "cq_push_back ?n ?q"] exI [of _ ?fs]) simp
next
  case False
  let ?n = "fh_filename (td_file s)"
  have "\<not> cq_full (td_names s)" using cq_full_items [OF assms(1)] False assms(2) by simp
  then have "delete_old T s = Inr (s\<lparr>td_names := cq_push_back ?n (td_names s), td_file := (td_file s)\<lparr>fh_fs := td_fs s\<rparr>\<rparr>, Inr ())"
    by (simp add: delete_old_def Let_def act_simps td_push_def td_fs_def)
  then show ?thesis
    using False assms(2,3) cq_push_inv [OF assms(1)] cq_push_items(1) [OF assms(1)]
    by (intro exI [of _ "cq_push_back ?n (td_names s)"] exI [of _ "td_fs s"]) simp
qed

lemma td_sink_it_rotates:
  assumes "td_files s names" "td_rotation_tp s \<le> lm_time m" "pf_format (ti_os T) (td_formatter s) m [] = Inr (pf, m', t)"
    "ti_calc T (td_base_filename s) (now_tm T (lm_time m)) = Inr n" "names_ok (td_fs s) (names @ [n])"
  shows "\<exists>s'. td_sink_it T now m s = Inr (s', Inr ()) \<and> td_files s' (names @ [n]) \<and> td_same s s' \<and>
    td_rotation_tp s' = next_rotation_tp T now \<and> td_formatter s' = pf \<and>
    (\<forall>ms. names_ok (td_fs s) ms \<longrightarrow> names_ok (td_fs s') ms)"
proof -
  let ?k = "td_max_files s" and ?items = "last_n (td_max_files s) names"
  have st: "names \<noteq> []" "kept (td_fs s) ?k names" "0 < ?k" "cq_inv ?k (td_names s)" "cq_items (td_names s) = ?items"
    "fs_answers (td_fs s) = []"
    using assms(1) by (simp_all add: td_files_def)
  have n: "file_name n" "folders n (td_fs s)" "fs_nodes (td_fs s) (norm_path n) \<noteq> Some Dir"
    "inj_on norm_path (set (names @ [n]))"
    using assms(5) by (simp_all add: names_ok_def)
  obtain i fs1 where op: "fh_open n (td_truncate s) (td_file s) = Inr ((td_file s)\<lparr>fh_fd := Some i, fh_filename := n, fh_fs := fs1\<rparr>, Inr ())"
    "fs_nodes fs1 = (fs_nodes (td_fs s))(norm_path n \<mapsto> File i)" "fs_answers fs1 = []"
    using open_name [of n "td_file s" "td_truncate s"] n st(6) by (auto simp: td_fs_def)
  define s1 where "s1 = s\<lparr>td_file := (td_file s)\<lparr>fh_fd := Some i, fh_filename := n, fh_fs := fs1\<rparr>,
    td_rotation_tp := next_rotation_tp T now, td_formatter := pf\<rparr>"
  obtain fs2 where wr: "td_on_file (fh_write t) s1 = Inr (s1\<lparr>td_file := (td_file s1)\<lparr>fh_fs := fs2\<rparr>\<rparr>, Inr ())"
    "fs_nodes fs2 = fs_nodes fs1" "fs_answers fs2 = []"
    using td_write_ok [of s1 i t] op(3) by (auto simp: s1_def td_fs_def)
  define s2 where "s2 = s1\<lparr>td_file := (td_file s1)\<lparr>fh_fs := fs2\<rparr>\<rparr>"
  have s2: "td_names s2 = td_names s" "td_fs s2 = fs2" "fh_filename (td_file s2) = n" "fh_fd (td_file s2) = Some i"
    by (simp_all add: s2_def s1_def td_fs_def)
  have files: "\<forall>m\<in>set ?items. file_name m \<and> fs_nodes fs2 (norm_path m) \<noteq> Some Dir"
  proof
    fix m assume "m \<in> set ?items"
    then have "m \<in> set names" by (rule subsetD [OF set_last_n])
    then show "file_name m \<and> fs_nodes fs2 (norm_path m) \<noteq> Some Dir"
      using assms(5) by (simp add: names_ok_def wr(2) op(2))
  qed
  note del0 = delete_old_ok [where s = s2 and T = T, unfolded s2, OF st(4,5) wr(3) st(3) files]
  obtain q fs3 where del: "delete_old T s2 = Inr (s2\<lparr>td_names := q, td_file := (td_file s2)\<lparr>fh_fs := fs3\<rparr>\<rparr>, Inr ())"
    "cq_inv ?k q" "cq_items q = last_n ?k (?items @ [n])" "fs_answers fs3 = []"
    "fs_nodes fs3 = (if length ?items = ?k then (fs_nodes fs2)(norm_path (hd ?items) := None) else fs_nodes fs2)"
    using del0 by blast
  let ?s' = "s2\<lparr>td_names := q, td_file := (td_file s2)\<lparr>fh_fs := fs3\<rparr>\<rparr>"
  have run: "td_sink_it T now m s = Inr (?s', Inr ())"
  proof -
    have "td_rotate T now m s = Inr (s1\<lparr>td_formatter := td_formatter s\<rparr>, Inr ())"
      using assms(4) op(1) by (simp add: td_rotate_def act_bind_def act_simps td_on_file_def s1_def)
    moreover have "formatted (ti_os T) td_formatter (\<lambda>pf. td_formatter_update (\<lambda>_. pf)) m (s1\<lparr>td_formatter := td_formatter s\<rparr>) =
      Inr (s1, Inr t)"
      using formatted_ok [of "ti_os T" td_formatter "s1\<lparr>td_formatter := td_formatter s\<rparr>" m pf m' t] assms(3) by (simp add: s1_def)
    ultimately show ?thesis
      using assms(2) st(3) wr(1) del(1) by (simp add: td_sink_it_def act_bind_def s2_def)
  qed
  have old: "fs_nodes fs2 (norm_path (hd ?items)) \<noteq> Some Dir"
    using bspec [OF files hd_in_set [OF last_n_nonempty [OF st(3,1)]]] by blast
  have ok: "names_ok fs3 ms" if "names_ok (td_fs s) ms" for ms
  proof -
    have "names_ok fs2 ms"
      using n(3) op(2) wr(2) by (intro names_ok_update [where p = "norm_path n" and x = "Some (File i)", OF that]) auto
    note ok2 = this
    show ?thesis
    proof (cases "length ?items = ?k")
      case True
      then have "fs_nodes fs3 = (fs_nodes fs2)(norm_path (hd ?items) := None)" using del(5) by simp
      then show ?thesis using old by (intro names_ok_update [where x = None, OF ok2]) simp_all
    next
      case False
      then have "fs_nodes fs3 = fs_nodes fs2" using del(5) by simp
      then show ?thesis by (rule names_ok_same [OF ok2])
    qed
  qed
  have nodes3: "fs_nodes fs3 = (if length ?items = ?k then (fs_nodes (td_fs s))(norm_path n := Some (File i), norm_path (hd ?items) := None)
      else (fs_nodes (td_fs s))(norm_path n := Some (File i)))"
    using del(5) wr(2) op(2) by simp
  have "kept fs3 ?k (names @ [n])"
    by (rule kept_snoc [OF st(2) n(4) st(3,1) refl refl nodes3])
  moreover have "cq_items q = last_n ?k (names @ [n])" using del(3) by (simp add: last_n_last_n_snoc)
  ultimately have "td_files ?s' (names @ [n])"
    using ok [OF assms(5)] del(2,4) st(3) s2 by (simp add: td_files_def td_fs_def s1_def s2_def)
  then show ?thesis using run ok by (intro exI [of _ ?s']) (simp add: td_same_def td_fs_def s2_def s1_def)
qed

fun td_log_all :: "timing \<Rightarrow> (int \<times> lmsg) list \<Rightarrow> (timed_sink, unit) act" where
  "td_log_all T [] = act_return ()"
| "td_log_all T (m # ms) = act_bind (td_sink_it T (fst m) (snd m)) (\<lambda>_. td_log_all T ms)"

text \<open>The files a run opens; \<open>tp\<close> is the time of the next rotation.\<close>

fun opened :: "timing \<Rightarrow> string \<Rightarrow> int \<Rightarrow> (int \<times> lmsg) list \<Rightarrow> string list res" where
  "opened T base tp [] = Inr []"
| "opened T base tp (m # ms) =
     (if tp \<le> lm_time (snd m) then
        bind_res (ti_calc T base (now_tm T (lm_time (snd m)))) (\<lambda>n.
        bind_res (opened T base (next_rotation_tp T (fst m)) ms) (\<lambda>ns. Inr (n # ns)))
      else opened T base tp ms)"

lemma names_ok_prefix: "names_ok fs (xs @ ys) \<Longrightarrow> names_ok fs xs"
  by (auto simp: names_ok_def intro: inj_on_subset)

lemma td_log_all_files:
  assumes "td_files s names" "opened T (td_base_filename s) (td_rotation_tp s) ms = Inr new"
    "names_ok (td_fs s) (names @ new)" "pf_lines (ti_os T) (td_formatter s) (map snd ms) = Inr ts"
  shows "\<exists>s'. td_log_all T ms s = Inr (s', Inr ()) \<and> td_files s' (names @ new) \<and> td_max_files s' = td_max_files s"
  using assms
proof (induction ms arbitrary: s names new ts)
  case Nil
  then show ?case by (auto simp: act_simps)
next
  case (Cons m ms)
  obtain pf m' t ts' where f: "pf_format (ti_os T) (td_formatter s) (snd m) [] = Inr (pf, m', t)"
    "pf_lines (ti_os T) pf (map snd ms) = Inr ts'"
    using Cons.prems(4) by (auto simp: bind_res_eq_Inr)
  show ?case
  proof (cases "td_rotation_tp s \<le> lm_time (snd m)")
    case True
    then obtain n ns where n: "ti_calc T (td_base_filename s) (now_tm T (lm_time (snd m))) = Inr n"
      "opened T (td_base_filename s) (next_rotation_tp T (fst m)) ms = Inr ns" "new = n # ns"
      using Cons.prems(2) by (auto simp: bind_res_eq_Inr)
    have "names_ok (td_fs s) (names @ [n])"
      using names_ok_prefix [of "td_fs s" "names @ [n]" ns] Cons.prems(3) n(3) by simp
    then obtain s1 where s1: "td_sink_it T (fst m) (snd m) s = Inr (s1, Inr ())" "td_files s1 (names @ [n])" "td_same s s1"
      "td_rotation_tp s1 = next_rotation_tp T (fst m)" "td_formatter s1 = pf"
      "\<forall>ms. names_ok (td_fs s) ms \<longrightarrow> names_ok (td_fs s1) ms"
      using td_sink_it_rotates [OF Cons.prems(1) True f(1) n(1)] by blast
    have "names_ok (td_fs s1) ((names @ [n]) @ ns)" using s1(6) Cons.prems(3) n(3) by simp
    then show ?thesis
      using Cons.IH [OF s1(2), of ns ts'] n s1 f(2) by (simp add: act_bind_def td_same_def)
  next
    case False
    then obtain s1 where s1: "td_sink_it T (fst m) (snd m) s = Inr (s1, Inr ())" "td_files s1 names" "td_same s s1"
      "td_rotation_tp s1 = td_rotation_tp s" "td_formatter s1 = pf" "fs_nodes (td_fs s1) = fs_nodes (td_fs s)"
      using td_sink_it_writes [OF Cons.prems(1) _ f(1)] by (meson not_le)
    have "names_ok (td_fs s1) (names @ new)" by (rule names_ok_same [OF Cons.prems(3) s1(6)])
    then show ?thesis
      using Cons.IH [OF s1(2), of new ts'] Cons.prems(2) False s1 f(2) by (simp add: act_bind_def td_same_def)
  qed
qed

text \<open>
  C25: A sink that begins a file per period and is to keep \<open>max_files\<close> of them: if no call of the system fails, then
  after any messages, in whatever order the clock and their times made it rotate, the files that exist are those with
  an opening that was not followed by a removal, where each opening removes the name opened \<open>max_files\<close> openings
  before it.  As long as no name comes twice these are exactly the last \<open>max_files\<close> of the files it has opened; a name
  that does come twice can lose its file even while it is open (C28).
\<close>

theorem last_files_kept:
  assumes "td_files s names" "opened T (td_base_filename s) (td_rotation_tp s) ms = Inr new"
    "names_ok (td_fs s) (names @ new)" "pf_lines (ti_os T) (td_formatter s) (map snd ms) = Inr ts"
  shows "\<exists>s'. td_log_all T ms s = Inr (s', Inr ()) \<and>
    (\<forall>n\<in>set (names @ new). is_file (td_fs s') n \<longleftrightarrow> n \<in> files_left (td_max_files s) (names @ new)) \<and>
    (distinct (names @ new) \<longrightarrow>
      files_left (td_max_files s) (names @ new) = set (last_n (td_max_files s) (names @ new)))"
proof -
  obtain s' where s': "td_log_all T ms s = Inr (s', Inr ())" "td_files s' (names @ new)" "td_max_files s' = td_max_files s"
    using td_log_all_files [OF assms] by blast
  then have "kept (td_fs s') (td_max_files s) (names @ new)" by (simp add: td_files_def)
  with s'(1) files_left_distinct show ?thesis by (auto simp: kept_def)
qed

lemma new_timed_sink_fresh:
  assumes "ti_calc T base (now_tm T now) = Inr n" "ti_calc T base (now_tm T now2) = Inr n"
    "k = 1 \<or> ti_calc T base (now_tm T (now2 - ti_period T)) = Inr n' \<and> file_name n' \<and> norm_path n' \<noteq> norm_path n \<and>
       fs_nodes fs (norm_path n') = None"
    "0 < k" "k < 2 ^ 16" "file_name n" "folders n fs" "fs_answers fs = []" "fs_nodes fs (norm_path n) = None"
  shows "\<exists>s. new_timed_sink T now now1 now2 base trunc k pf fs = Inr (s, Inr ()) \<and> td_files s [n] \<and>
    td_base_filename s = base \<and> td_rotation_tp s = next_rotation_tp T now1 \<and> td_max_files s = k \<and> td_formatter s = pf \<and>
    td_truncate s = trunc \<and> (\<forall>ms. names_ok fs ms \<longrightarrow> names_ok (td_fs s) ms)"
proof -
  have h: "fh_fs (new_file_helper fs) = fs" by (simp add: new_file_helper_def)
  obtain i fs1 where op: "fh_open n trunc (new_file_helper fs) =
      Inr ((new_file_helper fs)\<lparr>fh_fd := Some i, fh_filename := n, fh_fs := fs1\<rparr>, Inr ())"
    "fs_nodes fs1 = (fs_nodes fs)(norm_path n \<mapsto> File i)" "fs_answers fs1 = []"
    using open_name [of n "new_file_helper fs" trunc] assms(6-9) unfolding h by auto
  have ex: "existing_names T base fs1 k now2 = Inr [n]"
  proof -
    obtain j where k: "k = Suc j" using assms(4) by (cases k) auto
    have here: "path_exists n fs1" by (simp add: path_exists_def node_at_name assms(6) op(2))
    have "existing_names T base fs1 j (now2 - ti_period T) = Inr []"
    proof (cases j)
      case (Suc l)
      then have "\<not> path_exists n' fs1" using assms(3) k by (auto simp: path_exists_def node_at_name op(2))
      then show ?thesis using assms(3) k Suc by auto
    qed simp
    then show ?thesis using here assms(2) by (simp add: k)
  qed
  let ?q = "cq_push_back n (cq_new [] k)"
  let ?s = "\<lparr>td_base_filename = base, td_rotation_tp = next_rotation_tp T now1,
    td_file = (new_file_helper fs)\<lparr>fh_fd := Some i, fh_filename := n, fh_fs := fs1\<rparr>, td_truncate = trunc,
    td_max_files = k, td_names = ?q, td_formatter = pf\<rparr>"
  have "new_timed_sink T now now1 now2 base trunc k pf fs = Inr (?s, Inr ())"
    using assms(1,4) op(1) ex
    by (simp add: new_timed_sink_def Let_def act_bind_def act_simps td_on_file_def init_filenames_q_def td_fs_def)
  moreover have ok: "names_ok fs1 ms" if "names_ok fs ms" for ms
    using op(2) assms(9) by (intro names_ok_update [where p = "norm_path n" and x = "Some (File i)", OF that]) auto
  moreover have "td_files ?s [n]"
  proof -
    have inv: "cq_inv k (cq_new [] k)" using assms(5) by (intro cq_new_inv) simp
    have "cq_items ?q = last_n k [n]" using cq_push_items(1) [OF inv, of n] by (simp add: cq_new_items)
    moreover have "names_ok fs [n]" using assms(6,7,9) by (simp add: names_ok_def)
    moreover have "kept fs1 k [n]" using assms(4) op(2) by (simp add: kept_def is_file_def files_left_one)
    ultimately show ?thesis
      using cq_push_inv [OF inv] ok [of "[n]"] assms(4) op by (simp add: td_files_def td_fs_def)
  qed
  ultimately show ?thesis by (intro exI [of _ ?s]) (simp add: td_fs_def)
qed

section \<open>A rotation that keeps the name\<close>

lemma act_bind_Inr:
  "act_bind m f s = Inr (s', r) \<longleftrightarrow>
     (\<exists>s1. (\<exists>e. m s = Inr (s1, Inl e) \<and> s' = s1 \<and> r = Inl e) \<or> (\<exists>a. m s = Inr (s1, Inr a) \<and> f a s1 = Inr (s', r)))"
  by (auto simp: act_bind_def bind_res_eq_Inr split: sum.split_asm)

lemma sys_answer_nodes: "fs_nodes (snd (sys_answer fs)) = fs_nodes fs"
  by (simp add: sys_answer_def split: list.split)

lemma fh_write_nodes: "fh_write t h = Inr (h', r) \<Longrightarrow> fs_nodes (fh_fs h') = fs_nodes (fh_fs h)"
  using sys_answer_nodes [of "fh_fs h"]
  by (auto simp: fh_write_def sys_fwrite_def act_return_def act_throw_def Let_def split: option.splits prod.splits if_splits)

lemma td_write_nodes: "td_on_file (fh_write t) s = Inr (s', r) \<Longrightarrow> fs_nodes (td_fs s') = fs_nodes (td_fs s)"
  by (auto simp: td_on_file_def td_fs_def bind_res_eq_Inr dest: fh_write_nodes)

lemma formatted_file:
  "formatted env td_formatter (\<lambda>pf. td_formatter_update (\<lambda>_. pf)) m s = Inr (s', r) \<Longrightarrow> td_fs s' = td_fs s"
  by (auto simp: formatted_def td_fs_def bind_res_eq_Inr)

lemma td_sink_it_nodes:
  assumes "lm_time m < td_rotation_tp s" "td_sink_it T now m s = Inr (s', r)"
  shows "fs_nodes (td_fs s') = fs_nodes (td_fs s)"
proof -
  have "act_bind (formatted (ti_os T) td_formatter (\<lambda>pf. td_formatter_update (\<lambda>_. pf)) m)
    (\<lambda>text. act_bind (td_on_file (fh_write text)) (\<lambda>_. act_return ())) s = Inr (s', r)"
    using assms by (simp add: td_sink_it_def act_bind_run(1) [OF act_run(1)])
  then show ?thesis by (auto simp: act_bind_Inr act_return_def dest!: td_write_nodes formatted_file)
qed

text \<open>
  C28: A daily sink that keeps one file and is made on a day before the time of its rotation deletes the file it is
  writing at that rotation: the file of the day is opened again, and then removed as the oldest one; nothing logged until the next
  rotation is in a file.
\<close>

theorem same_day_rotation_deletes_log:
  assumes "td_files s [n]" "td_max_files s = 1" "td_rotation_tp s \<le> lm_time m"
    "ti_calc T (td_base_filename s) (now_tm T (lm_time m)) = Inr n" "pf_format (ti_os T) (td_formatter s) m [] = Inr (pf, m', t)"
  shows "\<exists>s'. td_sink_it T now m s = Inr (s', Inr ()) \<and> fh_filename (td_file s') = n \<and> \<not> is_file (td_fs s') n \<and>
    (\<forall>now2 m2 s2 r. lm_time m2 < td_rotation_tp s' \<and> td_sink_it T now2 m2 s' = Inr (s2, r) \<longrightarrow> \<not> is_file (td_fs s2) n)"
proof -
  have st: "cq_inv 1 (td_names s)" "cq_items (td_names s) = [n]" "fs_answers (td_fs s) = []"
    and n: "file_name n" "folders n (td_fs s)" "fs_nodes (td_fs s) (norm_path n) \<noteq> Some Dir"
    using assms(1,2) by (auto simp: td_files_def names_ok_def)
  obtain i fs1 where op: "fh_open n (td_truncate s) (td_file s) = Inr ((td_file s)\<lparr>fh_fd := Some i, fh_filename := n, fh_fs := fs1\<rparr>, Inr ())"
    "fs_nodes fs1 = (fs_nodes (td_fs s))(norm_path n \<mapsto> File i)" "fs_answers fs1 = []"
    using open_name [of n "td_file s" "td_truncate s"] n st(3) by (auto simp: td_fs_def)
  define s1 where "s1 = s\<lparr>td_file := (td_file s)\<lparr>fh_fd := Some i, fh_filename := n, fh_fs := fs1\<rparr>,
    td_rotation_tp := next_rotation_tp T now, td_formatter := pf\<rparr>"
  obtain fs2 where wr: "td_on_file (fh_write t) s1 = Inr (s1\<lparr>td_file := (td_file s1)\<lparr>fh_fs := fs2\<rparr>\<rparr>, Inr ())"
    "fs_nodes fs2 = fs_nodes fs1" "fs_answers fs2 = []"
    using td_write_ok [of s1 i t] op(3) by (auto simp: s1_def td_fs_def)
  define s2 where "s2 = s1\<lparr>td_file := (td_file s1)\<lparr>fh_fs := fs2\<rparr>\<rparr>"
  have s2: "td_names s2 = td_names s" "td_fs s2 = fs2" "fh_filename (td_file s2) = n"
    by (simp_all add: s2_def s1_def td_fs_def)
  have files: "\<forall>m\<in>set [n]. file_name m \<and> fs_nodes fs2 (norm_path m) \<noteq> Some Dir"
    using n(1) by (simp add: wr(2) op(2))
  obtain q fs3 where del: "delete_old T s2 = Inr (s2\<lparr>td_names := q, td_file := (td_file s2)\<lparr>fh_fs := fs3\<rparr>\<rparr>, Inr ())"
    "fs_nodes fs3 = (fs_nodes fs2)(norm_path n := None)"
    using delete_old_ok [where s = s2 and T = T, unfolded s2, OF st(1,2) wr(3) zero_less_one files] by auto
  let ?s' = "s2\<lparr>td_names := q, td_file := (td_file s2)\<lparr>fh_fs := fs3\<rparr>\<rparr>"
  have "td_rotate T now m s = Inr (s1\<lparr>td_formatter := td_formatter s\<rparr>, Inr ())"
    using assms(4) op(1) by (simp add: td_rotate_def act_bind_def act_simps td_on_file_def s1_def)
  moreover have "formatted (ti_os T) td_formatter (\<lambda>pf. td_formatter_update (\<lambda>_. pf)) m (s1\<lparr>td_formatter := td_formatter s\<rparr>) =
    Inr (s1, Inr t)"
    using formatted_ok [of "ti_os T" td_formatter "s1\<lparr>td_formatter := td_formatter s\<rparr>" m pf m' t] assms(5) by (simp add: s1_def)
  ultimately have "td_sink_it T now m s = Inr (?s', Inr ())"
    using assms(2,3) wr(1) del(1) by (simp add: td_sink_it_def act_bind_def s2_def)
  moreover have "fs_nodes (td_fs ?s') (norm_path n) = None" "fh_filename (td_file ?s') = n"
    using del(2) by (simp_all add: td_fs_def s2_def s1_def)
  moreover from this have "\<not> is_file (td_fs ?s') n" by (simp add: is_file_def)
  moreover have "\<not> is_file (td_fs s4) n" if "lm_time m2 < td_rotation_tp ?s'" "td_sink_it T now2 m2 ?s' = Inr (s4, r)" for now2 m2 s4 r
    using td_sink_it_nodes [OF that] calculation(2) by (simp add: is_file_def)
  ultimately show ?thesis by blast
qed

section \<open>The names\<close>

text \<open>A number with zeros in front of it up to a width, as the fields of the names are written.\<close>

definition zpad :: "nat \<Rightarrow> nat \<Rightarrow> string" where
  "zpad w n = replicate (w - length (dec n)) CHR ''0'' @ dec n"

definition zero_field :: "nat \<Rightarrow> segment" where
  "zero_field w = Spec_field Auto_id
     \<lparr>sy_fill = None, sy_align = Align_none, sy_sign = Sign_none, sy_hash = False, sy_zero = True,
      sy_width = Some (Fixed w), sy_precision = None, sy_localized = False, sy_type = Type_dec\<rparr>"

definition zero_specs :: "nat \<Rightarrow> format_specs" where
  "zero_specs w = (zero_fill default_specs)\<lparr>fs_width := int w, fs_type := Type_dec\<rparr>"

lemma zero_specs_text:
  assumes "int n < 2 ^ 31" "int w \<le> int_max"
  shows "returned (write_integer 32 (int n) (zero_specs w) t) = Inr (zpad w n)"
proof -
  have z: "int_text (int n) (zero_specs w) = zpad w n"
    by (simp add: int_text_def zpad_def sign_text_def int_digits_def base_prefix_def zeros_before_def zero_specs_def
        zero_fill_def default_specs_def Let_def)
  have "write_integer 32 (int n) (zero_specs w) t = Some (Inr (int_out (int n) (zero_specs w)))"
    using assms
    by (intro write_integer_text)
      (simp_all add: int_fits_def specs_ok_def integer_type_def zero_specs_def zero_fill_def default_specs_def Let_def)
  moreover have "w \<le> length (zpad w n)" by (simp add: zpad_def)
  ultimately show ?thesis unfolding z
    by (simp add: returned_def write_padded_def zero_specs_def zero_fill_def default_specs_def Let_def)
qed

lemma zero_field_run:
  assumes "st_next_id st = int i" "i < length (fe_args env)" "length (fe_args env) \<le> 15" "fe_args env ! i = Int_arg (of_nat n)"
    "int n < 2 ^ 31" "int w \<le> int_max"
  shows "run_segment env (zero_field w) st = Inr (st\<lparr>st_out := st_out st @ zpad w n, st_next_id := int i + 1\<rparr>)"
proof -
  have v: "sint (of_nat n :: 32 word) = int n"
    using assms(5) by (simp add: signed_of_nat signed_take_bit_int_eq_self)
  have "max_packed_args = 15" by (simp add: max_packed_args_def)
  then show ?thesis
    using assms(1-4) zero_specs_text [OF assms(5,6), of "fe_sep env"] v
    by (simp add: run_segment_def zero_field_def handler_on_arg_id_def next_arg_id_def get_arg_def args_get_def
        run_spec_def run_fill_align_def run_sign_def run_flag_def run_width_def run_precision_def run_type_def
        specs_checker_def specs_handler_def set_specs_def type_of_arg_def require_numeric_argument_def
        is_arithmetic_type_def is_integral_type_def arg_formatter_def emit_def zero_specs_def zero_fill_def default_specs_def)
qed

lemma zero_field_ok: "0 < w \<Longrightarrow> int w \<le> int_max \<Longrightarrow> segment_ok (zero_field w)"
  by (simp add: segment_ok_def zero_field_def arg_id_ok_def spec_ok_def fill_ok_def count_ok_def print_spec_def print_tail_def)

text \<open>A date the fields have room for.\<close>

definition date_ok :: "tm \<Rightarrow> bool" where
  "date_ok t \<longleftrightarrow> - 1900 \<le> tm_year t \<and> tm_year t < 2 ^ 30 \<and> 0 \<le> tm_mon t \<and> tm_mon t < 12 \<and> 0 \<le> tm_mday t \<and> tm_mday t < 32 \<and>
     0 \<le> tm_hour t \<and> tm_hour t < 24"

definition date_text :: "tm \<Rightarrow> string" where
  "date_text t =
     CHR ''_'' # zpad 4 (nat (tm_year t + 1900)) @ CHR ''-'' # zpad 2 (nat (tm_mon t + 1)) @ CHR ''-'' # zpad 2 (nat (tm_mday t))"

lemma text_field_run: "run_segment env (Text x) st = Inr (st\<lparr>st_out := st_out st @ x\<rparr>)"
  by (simp add: run_segment_def)

lemma string_field_run:
  assumes "st_next_id st = int i" "i < length (fe_args env)" "length (fe_args env) \<le> 15" "fe_args env ! i = String_arg x"
  shows "run_segment env (Field Auto_id) st = Inr (st\<lparr>st_out := st_out st @ x, st_next_id := int i + 1\<rparr>)"
proof -
  have "max_packed_args = 15" by (simp add: max_packed_args_def)
  then show ?thesis using assms
    by (simp add: run_segment_def handler_on_arg_id_def handler_on_replacement_field_def next_arg_id_def args_get_def get_arg_def
        default_arg_formatter_def emit_def)
qed

definition daily_segments :: "segment list" where
  "daily_segments = [Field Auto_id, Text ''_'', zero_field 4, Text ''-'', zero_field 2, Text ''-'', zero_field 2, Field Auto_id]"

definition hourly_segments :: "segment list" where
  "hourly_segments =
     [Field Auto_id, Text ''_'', zero_field 4, Text ''-'', zero_field 2, Text ''-'', zero_field 2, Text ''_'', zero_field 2, Field Auto_id]"

lemma calc_segments:
  "print_segments daily_segments = ''{}_{:04d}-{:02d}-{:02d}{}''"
  "print_segments hourly_segments = ''{}_{:04d}-{:02d}-{:02d}_{:02d}{}''"
  "\<forall>s\<in>set daily_segments \<union> set hourly_segments. segment_ok s"
proof -
  show "print_segments daily_segments = ''{}_{:04d}-{:02d}-{:02d}{}''"
    "print_segments hourly_segments = ''{}_{:04d}-{:02d}-{:02d}_{:02d}{}''" by code_simp+
  show "\<forall>s\<in>set daily_segments \<union> set hourly_segments. segment_ok s"
    using zero_field_ok [of 4] zero_field_ok [of 2]
    by (auto simp: daily_segments_def hourly_segments_def segment_ok_def arg_id_ok_def int_max_def)
qed

lemma date_fields:
  assumes "date_ok t"
  shows "\<exists>y mo d h. tm_year t = int y - 1900 \<and> tm_mon t = int mo - 1 \<and> tm_mday t = int d \<and> tm_hour t = int h \<and>
    int y < 2 ^ 31 \<and> int mo < 2 ^ 31 \<and> int d < 2 ^ 31 \<and> int h < 2 ^ 31"
  using assms unfolding date_ok_def
  by (intro exI [of _ "nat (tm_year t + 1900)"] exI [of _ "nat (tm_mon t + 1)"] exI [of _ "nat (tm_mday t)"]
      exI [of _ "nat (tm_hour t)"]) simp

lemma field_widths: "int 4 \<le> int_max" "int 2 \<le> int_max"
  by (simp_all add: int_max_def)

lemmas name_fields_run =
  text_field_run string_field_run [where i = 0] zero_field_run [where i = 1, OF _ _ _ _ _ field_widths(1)]
  zero_field_run [where i = 2, OF _ _ _ _ _ field_widths(2)] zero_field_run [where i = 3, OF _ _ _ _ _ field_widths(2)]
  string_field_run [where i = 4] zero_field_run [where i = 4, OF _ _ _ _ _ field_widths(2)] string_field_run [where i = 5]

lemma daily_name_text:
  assumes "date_ok t" "split_by_extension f = (b, e)"
  shows "daily_calc_filename f t = Inr (b @ date_text t @ e)"
proof -
  obtain y mo d where t: "tm_year t = int y - 1900" "tm_mon t = int mo - 1" "tm_mday t = int d"
    "int y < 2 ^ 31" "int mo < 2 ^ 31" "int d < 2 ^ 31"
    using date_fields [OF assms(1)] by blast
  let ?as = "[String_arg b, Int_arg (of_nat y), Int_arg (of_nat mo), Int_arg (of_nat d), String_arg e]"
  have "daily_calc_filename f t = fmt_format (print_segments daily_segments) ?as"
    by (simp add: daily_calc_filename_def assms(2) calc_segments t)
  also have "\<dots> = Inr (b @ date_text t @ e)"
    using t(4-6) calc_segments(3)
    by (subst fmt_format_segments)
      (auto simp: daily_segments_def start_def date_text_def t(1-3) name_fields_run simp del: print_segments_simps)
  finally show ?thesis .
qed

lemma hourly_name_text:
  assumes "date_ok t" "split_by_extension f = (b, e)"
  shows "hourly_calc_filename f t = Inr (b @ date_text t @ CHR ''_'' # zpad 2 (nat (tm_hour t)) @ e)"
proof -
  obtain y mo d h where t: "tm_year t = int y - 1900" "tm_mon t = int mo - 1" "tm_mday t = int d" "tm_hour t = int h"
    "int y < 2 ^ 31" "int mo < 2 ^ 31" "int d < 2 ^ 31" "int h < 2 ^ 31"
    using date_fields [OF assms(1)] by blast
  let ?as = "[String_arg b, Int_arg (of_nat y), Int_arg (of_nat mo), Int_arg (of_nat d), Int_arg (of_nat h), String_arg e]"
  have "hourly_calc_filename f t = fmt_format (print_segments hourly_segments) ?as"
    by (simp add: hourly_calc_filename_def assms(2) calc_segments t)
  also have "\<dots> = Inr (b @ date_text t @ CHR ''_'' # zpad 2 (nat (tm_hour t)) @ e)"
    using t(5-8) calc_segments(3)
    by (subst fmt_format_segments)
      (auto simp: hourly_segments_def start_def date_text_def t(1-4) name_fields_run simp del: print_segments_simps)
  finally show ?thesis .
qed

text \<open>Different dates give different names.\<close>

lemma cut_at: "c \<notin> set xs \<Longrightarrow> c \<notin> set ys \<Longrightarrow> xs @ c # r = ys @ c # s \<longleftrightarrow> xs = ys \<and> r = s"
proof (induction xs arbitrary: ys)
  case Nil
  then show ?case by (cases ys) auto
next
  case (Cons x xs)
  then show ?case by (cases ys) auto
qed

lemma num_of_zeros: "num_of 0 (replicate k CHR ''0'' @ s) = num_of 0 s"
  by (induction k) (auto simp: dig_val_def)

lemma zpad_inj: "zpad w n = zpad w m \<longleftrightarrow> n = m"
proof
  assume "zpad w n = zpad w m"
  then have "num_of 0 (zpad w n) = num_of 0 (zpad w m)" by simp
  then show "n = m" unfolding zpad_def num_of_zeros by (simp add: num_of_dec)
qed simp

lemma zpad_digits: "\<forall>c\<in>set (zpad w n). is_dig c"
  using dec_digits [of n] by (auto simp: zpad_def is_dig_def)

lemma zpad_free: "CHR ''-'' \<notin> set (zpad w n)" "\<forall>c\<in>set (zpad w n). \<not> is_sep c"
  using zpad_digits [of w n] by (auto simp: is_dig_def is_sep_def)

definition same_day :: "tm \<Rightarrow> tm \<Rightarrow> bool" where
  "same_day t u \<longleftrightarrow> tm_year t = tm_year u \<and> tm_mon t = tm_mon u \<and> tm_mday t = tm_mday u"

lemma date_text_inj: "date_ok t \<Longrightarrow> date_ok u \<Longrightarrow> date_text t = date_text u \<longleftrightarrow> same_day t u"
  by (auto simp: date_text_def cut_at zpad_free zpad_inj same_day_def date_ok_def nat_eq_iff)

lemma date_text_free: "\<forall>c\<in>set (date_text t). \<not> is_sep c"
  using zpad_free(2) by (auto simp: date_text_def is_sep_def)

text \<open>A file name behind which something without separators is put, in front of the extension.\<close>

lemma inserted_name:
  assumes "file_name f" "split_by_extension f = (b, e)" "\<forall>c\<in>set x. \<not> is_sep c" "x \<noteq> []"
  shows "file_name (b @ x @ e)" "norm_path (b @ x @ e) = collapse b @ x @ e" "folders f fs \<Longrightarrow> folders (b @ x @ e) fs"
proof -
  have e: "\<forall>c\<in>set (x @ e). \<not> is_sep c" using split_by_extension_parts(2) [OF assms(2)] assms(3) by auto
  show n: "norm_path (b @ x @ e) = collapse b @ x @ e"
    using norm_path_append_free [of "x @ e" b] e assms(4) by simp
  have "last (b @ x @ e) \<in> set (x @ e)" using assms(4) by (simp add: last_append)
  then show "file_name (b @ x @ e)" using e assms(4) unfolding file_name_def by blast
  have f: "f = b @ e" "\<forall>c\<in>set e. \<not> is_sep c" using split_by_extension_parts [OF assms(2)] by auto
  have "norm_path f = collapse f" using assms(1) by (simp add: norm_path_plain file_name_def)
  then have d: "dir_name (norm_path (b @ x @ e)) = dir_name (norm_path f)" "dir_name (b @ x @ e) = dir_name f"
    using e f(2) dir_name_append_free [of "x @ e"] dir_name_append_free [of e] by (simp_all add: n f(1) collapse_append_free)
  show "folders f fs \<Longrightarrow> folders (b @ x @ e) fs" unfolding folders_def d by simp
qed

text \<open>
  C26: The name of a day's file can be opened wherever the base name can, and two times have files under the same path exactly
  when they are on the same day, whatever the number of digits of the year.
\<close>

theorem daily_names_exact:
  assumes "file_name f" "folders f fs" "date_ok t" "date_ok u"
  shows "\<exists>n m. daily_calc_filename f t = Inr n \<and> daily_calc_filename f u = Inr m \<and>
    file_name n \<and> folders n fs \<and> (norm_path n = norm_path m \<longleftrightarrow> same_day t u)"
proof -
  obtain b e where s: "split_by_extension f = (b, e)" by (metis surj_pair)
  have ne: "date_text t \<noteq> []" "date_text u \<noteq> []" by (simp_all add: date_text_def)
  show ?thesis
    using inserted_name [OF assms(1) s date_text_free ne(1)] inserted_name(2) [OF assms(1) s date_text_free ne(2)] assms(2)
    by (simp add: daily_name_text [OF assms(3) s] daily_name_text [OF assms(4) s] date_text_inj [OF assms(3,4)])
qed

section \<open>Examples\<close>

text \<open>A system whose epoch is midnight of the first of January of 2024, looked at on that day.\<close>

definition new_year_os :: os_env where
  "new_year_os = sample_os\<lparr>os_localtime := (\<lambda>t. \<lparr>tm_sec = t mod 60, tm_min = t div 60 mod 60, tm_hour = t div 3600 mod 24,
     tm_mday = 1, tm_mon = 0, tm_year = 124, tm_wday = 1, tm_gmtoff = 0\<rparr>)\<rparr>"

definition day_mktime :: "tm \<Rightarrow> int" where
  "day_mktime t = tm_hour t * 3600 + tm_min t * 60 + tm_sec t"

definition at_time :: "int \<Rightarrow> int \<Rightarrow> int" where
  "at_time h m = (h * 3600 + m * 60) * ns_per_sec"

definition hourly_sample :: timing where
  "hourly_sample = hourly_timing hourly_calc_filename day_mktime new_year_os"

definition daily_sample :: timing where
  "daily_sample = daily_timing 2 0 daily_calc_filename day_mktime new_year_os"

lemma sample_now:
  assumes "0 \<le> h" "h < 24" "0 \<le> m" "m < 60"
  shows "now_tm hourly_sample (at_time h m) = \<lparr>tm_sec = 0, tm_min = m, tm_hour = h, tm_mday = 1, tm_mon = 0, tm_year = 124,
      tm_wday = 1, tm_gmtoff = 0\<rparr>" "now_tm daily_sample (at_time h m) = now_tm hourly_sample (at_time h m)"
proof -
  have "time_secs (at_time h m) = h * 3600 + m * 60"
    using assms by (cases "h = 0 \<and> m = 0") (auto simp: time_secs_def at_time_def ns_per_sec_def cdiv_def sgn_if)
  moreover have "h * 3600 + m * 60 = (h * 60 + m) * 60" by simp
  moreover have "(h * 60 + m) * 60 div 60 mod 60 = m" "(h * 3600 + m * 60) div 3600 = h"
    using assms by simp_all
  ultimately show "now_tm hourly_sample (at_time h m) = \<lparr>tm_sec = 0, tm_min = m, tm_hour = h, tm_mday = 1, tm_mon = 0, tm_year = 124,
      tm_wday = 1, tm_gmtoff = 0\<rparr>" "now_tm daily_sample (at_time h m) = now_tm hourly_sample (at_time h m)"
    using assms by (simp_all add: now_tm_def hourly_sample_def daily_sample_def hourly_timing_def daily_timing_def new_year_os_def)
qed

lemma sample_date: "date_ok (now_tm hourly_sample (at_time h m))" if "0 \<le> h" "h < 24" "0 \<le> m" "m < 60"
  by (simp add: date_ok_def sample_now that)

lemma sample_split: "split_by_extension ''logs/app.txt'' = (''logs/app'', ''.txt'')"
  by code_simp

lemma sample_fields:
  "zpad 4 2024 = ''2024''" "zpad 2 0 = ''00''" "zpad 2 1 = ''01''" "zpad 2 (Suc 0) = ''01''" "zpad 2 2 = ''02''" "zpad 2 3 = ''03''"
  by code_simp+

lemma sample_names:
  "ti_calc hourly_sample ''logs/app.txt'' (now_tm hourly_sample (at_time 0 0)) = Inr ''logs/app_2024-01-01_00.txt''"
  "ti_calc hourly_sample ''logs/app.txt'' (now_tm hourly_sample (at_time 1 0)) = Inr ''logs/app_2024-01-01_01.txt''"
  "ti_calc hourly_sample ''logs/app.txt'' (now_tm hourly_sample (at_time 2 10)) = Inr ''logs/app_2024-01-01_02.txt''"
  "ti_calc hourly_sample ''logs/app.txt'' (now_tm hourly_sample (at_time 3 10)) = Inr ''logs/app_2024-01-01_03.txt''"
  "ti_calc daily_sample ''logs/app.txt'' (now_tm daily_sample (at_time 1 0)) = Inr ''logs/app_2024-01-01.txt''"
  "ti_calc daily_sample ''logs/app.txt'' (now_tm daily_sample (at_time 2 0)) = Inr ''logs/app_2024-01-01.txt''"
proof -
  have c: "ti_calc hourly_sample = hourly_calc_filename" "ti_calc daily_sample = daily_calc_filename"
    by (simp_all add: hourly_sample_def daily_sample_def hourly_timing_def daily_timing_def)
  note h = hourly_name_text [OF sample_date sample_split] and d = daily_name_text [OF sample_date sample_split]
  show "ti_calc hourly_sample ''logs/app.txt'' (now_tm hourly_sample (at_time 0 0)) = Inr ''logs/app_2024-01-01_00.txt''"
    "ti_calc hourly_sample ''logs/app.txt'' (now_tm hourly_sample (at_time 1 0)) = Inr ''logs/app_2024-01-01_01.txt''"
    "ti_calc hourly_sample ''logs/app.txt'' (now_tm hourly_sample (at_time 2 10)) = Inr ''logs/app_2024-01-01_02.txt''"
    "ti_calc hourly_sample ''logs/app.txt'' (now_tm hourly_sample (at_time 3 10)) = Inr ''logs/app_2024-01-01_03.txt''"
    by (simp_all add: c h, simp_all add: sample_now date_text_def sample_fields)
  show "ti_calc daily_sample ''logs/app.txt'' (now_tm daily_sample (at_time 1 0)) = Inr ''logs/app_2024-01-01.txt''"
    "ti_calc daily_sample ''logs/app.txt'' (now_tm daily_sample (at_time 2 0)) = Inr ''logs/app_2024-01-01.txt''"
    by (simp_all add: c sample_now(2) d, simp_all add: sample_now date_text_def sample_fields)
qed

lemma sample_times:
  "next_rotation_tp hourly_sample (at_time 1 0) = at_time 2 0" "next_rotation_tp hourly_sample (at_time 2 10) = at_time 3 0"
  "next_rotation_tp hourly_sample (at_time 3 10) = at_time 4 0" "next_rotation_tp daily_sample (at_time 1 0) = at_time 2 0"
  by (simp_all add: next_rotation_tp_def sample_now,
      simp_all add: hourly_sample_def daily_sample_def hourly_timing_def daily_timing_def day_mktime_def at_time_def ns_per_sec_def)

definition hour_files :: "string list" where
  "hour_files = [''logs/app_2024-01-01_01.txt'', ''logs/app_2024-01-01_02.txt'', ''logs/app_2024-01-01_03.txt'']"

definition hour_msgs :: "(int \<times> lmsg) list" where
  "hour_msgs = map (\<lambda>(t, x). (t, sample_msg t x)) [(at_time 1 30, ''one''), (at_time 2 10, ''two''), (at_time 3 10, ''three'')]"

lemma hour_lines:
  "pf_lines (ti_os hourly_sample) bare_formatter (map snd hour_msgs) =
     Inr [''one'' @ [CHR 0x0A], ''two'' @ [CHR 0x0A], ''three'' @ [CHR 0x0A]]"
  by code_simp

lemma hour_opened: "opened hourly_sample ''logs/app.txt'' (at_time 2 0) hour_msgs = Inr (tl hour_files)"
  by (simp add: hour_msgs_def sample_msg_def sample_names sample_times hour_files_def,
      simp add: at_time_def ns_per_sec_def)

lemma logs_names:
  assumes "n \<in> set (''logs/app_2024-01-01_00.txt'' # ''logs/app_2024-01-01.txt'' # hour_files)"
  shows "file_name n" "norm_path n = n" "dir_name n = ''logs''" "fs_nodes logs_fs n = None" "folders n logs_fs"
    "fs_nodes logs_fs (norm_path n) = None"
proof -
  show n: "file_name n" "norm_path n = n" "dir_name n = ''logs''" "fs_nodes logs_fs n = None"
    using assms by (auto simp: hour_files_def file_name_def is_sep_def norm_path_def Let_def dir_name_def rindex_def logs_fs_def)
  then show "fs_nodes logs_fs (norm_path n) = None" by simp
  show "folders n logs_fs" using n by (simp add: folders_def node_at_def norm_path_def Let_def is_sep_def logs_fs_def)
qed

lemma hour_files_ok: "names_ok logs_fs hour_files"
  using logs_names by (auto simp: names_ok_def hour_files_def)

theorem last_files_kept_witness:
  "\<exists>s s'. new_timed_sink hourly_sample (at_time 1 0) (at_time 1 0) (at_time 1 0) ''logs/app.txt'' False 2 bare_formatter logs_fs =
      Inr (s, Inr ()) \<and> td_log_all hourly_sample hour_msgs s = Inr (s', Inr ()) \<and>
    map (is_file (td_fs s')) hour_files = [False, True, True]"
proof -
  have now: "at_time 1 0 - ti_period hourly_sample = at_time 0 0"
    by (simp add: hourly_sample_def hourly_timing_def at_time_def ns_per_sec_def)
  let ?n = "''logs/app_2024-01-01_01.txt''" and ?n' = "''logs/app_2024-01-01_00.txt''"
  note one = logs_names [of ?n, simplified hour_files_def, simplified]
  have two: "2 = 1 \<or> ti_calc hourly_sample ''logs/app.txt'' (now_tm hourly_sample (at_time 1 0 - ti_period hourly_sample)) = Inr ?n' \<and>
    file_name ?n' \<and> norm_path ?n' \<noteq> norm_path ?n \<and> fs_nodes logs_fs (norm_path ?n') = None"
    using logs_names(1,2,4) [of ?n'] one(2) unfolding now sample_names(1) by simp
  have small: "0 < (2 :: nat)" "(2 :: nat) < 2 ^ 16" by simp_all
  obtain s where s: "new_timed_sink hourly_sample (at_time 1 0) (at_time 1 0) (at_time 1 0) ''logs/app.txt'' False 2 bare_formatter logs_fs =
      Inr (s, Inr ())" "td_files s [?n]" "td_base_filename s = ''logs/app.txt''" "td_rotation_tp s = at_time 2 0"
    "td_max_files s = 2" "td_formatter s = bare_formatter" "\<forall>ms. names_ok logs_fs ms \<longrightarrow> names_ok (td_fs s) ms"
    using new_timed_sink_fresh [OF sample_names(2) sample_names(2) two small one(1,5) logs_fs_ok(3) one(6),
        where ?now1.0 = "at_time 1 0" and trunc = False and pf = bare_formatter, unfolded sample_times] by blast
  have "names_ok (td_fs s) ([?n] @ tl hour_files)" using s(7) hour_files_ok by (simp add: hour_files_def)
  moreover have all: "[?n] @ tl hour_files = hour_files" "distinct hour_files" by (simp_all add: hour_files_def)
  ultimately obtain s' where s': "td_log_all hourly_sample hour_msgs s = Inr (s', Inr ())"
    "\<forall>n\<in>set hour_files. is_file (td_fs s') n \<longleftrightarrow> n \<in> set (last_n 2 hour_files)"
    using last_files_kept [OF s(2), of hourly_sample hour_msgs "tl hour_files"] s(3-6) hour_opened hour_lines
    unfolding all(1) by auto
  have "last_n 2 hour_files = tl hour_files" by (simp add: hour_files_def last_n_def)
  then have "map (is_file (td_fs s')) hour_files = [False, True, True]" using s'(2) by (simp add: hour_files_def)
  then show ?thesis using s(1) s'(1) by (intro exI conjI) assumption+
qed

theorem same_day_rotation_deletes_log_witness:
  "\<exists>s s'. new_timed_sink daily_sample (at_time 1 0) (at_time 1 0) (at_time 1 0) ''logs/app.txt'' False 1 bare_formatter logs_fs =
      Inr (s, Inr ()) \<and>
    td_sink_it daily_sample (at_time 2 0) (sample_msg (at_time 2 0) ''lost'') s = Inr (s', Inr ()) \<and>
    \<not> is_file (td_fs s') ''logs/app_2024-01-01.txt''"
proof -
  let ?n = "''logs/app_2024-01-01.txt''" and ?m = "sample_msg (at_time 2 0) ''lost''"
  note one = logs_names [of ?n, simplified hour_files_def, simplified]
  have small: "0 < (1 :: nat)" "(1 :: nat) < 2 ^ 16" by simp_all
  obtain s where s: "new_timed_sink daily_sample (at_time 1 0) (at_time 1 0) (at_time 1 0) ''logs/app.txt'' False 1 bare_formatter logs_fs =
      Inr (s, Inr ())" "td_files s [?n]" "td_base_filename s = ''logs/app.txt''" "td_rotation_tp s = at_time 2 0"
    "td_max_files s = 1" "td_formatter s = bare_formatter"
    using new_timed_sink_fresh [OF sample_names(5) sample_names(5) disjI1 [OF refl] small one(1,5) logs_fs_ok(3) one(6),
        where ?now1.0 = "at_time 1 0" and trunc = False and pf = bare_formatter, unfolded sample_times] by blast
  have "bind_res (pf_format (ti_os daily_sample) bare_formatter ?m []) (\<lambda>(_, _, t). Inr t) = Inr (''lost'' @ [CHR 0x0A])" by code_simp
  then obtain pf m' t where "pf_format (ti_os daily_sample) bare_formatter ?m [] = Inr (pf, m', t)"
    by (auto simp: bind_res_eq_Inr)
  then show ?thesis
    using same_day_rotation_deletes_log [OF s(2,5), of ?m daily_sample pf m' t "at_time 2 0"] s
    by (auto simp: sample_msg_def sample_names)
qed

theorem daily_names_exact_witness:
  "\<exists>n m. daily_calc_filename ''logs/app.txt'' (now_tm daily_sample (at_time 1 0)) = Inr n \<and>
     daily_calc_filename ''logs/app.txt'' (now_tm daily_sample (at_time 2 0)) = Inr m \<and> norm_path n = norm_path m"
  using daily_names_exact [OF logs_fs_ok(1,2) sample_date sample_date, of 1 0 2 0]
  by (auto simp: sample_now same_day_def)

end
