(* ===== verification/Spec2Isabelle.thy ===== *)
theory Spec2Isabelle
  imports Handshake SelectClient Mains LogSinks LogSafe FmtStrings LogDaily
begin

text \<open>
  A verification development for the ProxySocket repository: a reverse TCP proxy (\<open>lib/\<close>,
  \<open>Proxyserver/\<close>, \<open>Proxyclient/\<close>), an older message server and client built on \<open>select\<close>
  (\<open>Server/\<close>, \<open>Client/\<close>, \<open>conf/\<close>), and the logging library the proxy uses (\<open>include/spdlog/\<close>).

  \<^bold>\<open>The proxy.\<close>  A client behind a firewall opens a control connection to the server and asks for a
  tunnel.  When a user connects to the tunnel's port, the server asks the client over the control
  connection for a proxy connection; the client opens one, connects to the local server, and announces
  itself on the proxy connection, which the server hands to the tunnel.  From then on both ends relay
  bytes with \<open>splice\<close> through a pipe, and count them, so that each end knows when the other's stream is
  complete before it shuts down.  Connections that have served a user are kept in a free list.

  \<^item> \<open>Prelude\<close>: outcomes (\<open>fault\<close>, \<open>res\<close>), machine integers, memory cells, little-endian words.
  \<^item> \<open>RingBuffer\<close> (\<open>lib/Buffer.cpp\<close>): positions, capacity and cells of the buffer; \<open>buf_inv\<close> is its
    invariant, \<open>content\<close> its abstraction to a list of bytes, and \<open>byte_fifo\<close> and \<open>byte_pipe\<close> are the
    contracts the connections rely on.
  \<^item> \<open>Utils\<close> (\<open>lib/Utils.cpp\<close>): \<open>readn\<close>, \<open>parse_host_port\<close>, the thread-safe map.
  \<^item> \<open>Wire\<close> (\<open>lib/ProxyMessage.cpp\<close>, \<open>lib/Message.cpp\<close>): the message structures, each an instance of
    \<open>wire_struct\<close>: what is encoded is decoded.
  \<^item> \<open>Reactor\<close> (\<open>lib/Channel.cpp\<close>, \<open>lib/Epoll.cpp\<close>, \<open>lib/Thread_Event_loop.cpp\<close>,
    \<open>lib/Thread_EventLoop_pool.cpp\<close>): dispatch of events, the table of channels, the start of a loop.
  \<^item> \<open>CtlConn\<close> (\<open>lib/CtlConnect.cpp\<close>), \<open>ProxyConn\<close> and \<open>Peer\<close> (\<open>lib/ProxyConnect.cpp\<close>,
    \<open>lib/TransConnect.h\<close>, \<open>Proxyserver/public_connect.cpp\<close>, \<open>Proxyclient/Client_connect.cpp\<close>):
    the two kinds of connection, with the handlers of their channels.
  \<^item> \<open>ServerTunnel\<close> (\<open>Proxyserver/Tunnel.cpp\<close>), \<open>ProxyServer\<close> (\<open>Proxyserver/Server.cpp\<close>,
    \<open>Proxyserver/Control.cpp\<close>), \<open>ProxyClient\<close> (\<open>Proxyclient/Client.cpp\<close>, \<open>Proxyclient/Tunnel.cpp\<close>):
    the tables of both programs and every handler that changes them.
  \<^item> \<open>Handshake\<close>: the handlers of both programs composed, from a user's arrival to the return of the
    connection to the free list, in each order of closing.
  \<^item> \<open>Mains\<close> (\<open>Proxyserver/Main.cpp\<close>, \<open>Proxyclient/main.cpp\<close>): options and their checks.

  \<^bold>\<open>The select server.\<close>  Worker threads each own a share of the clients and run a loop of select,
  receive, time-out and send; an accepting thread spreads new clients over them; sends pass through a task
  thread.  Objects are recycled by a pool.

  \<^item> \<open>SelectBuffer\<close> (\<open>conf/ThreadBuffer.hpp\<close>, \<open>conf/ThreadClient.hpp\<close>, \<open>conf/Header.hpp\<close>): buffers,
    messages and timers of a client.
  \<^item> \<open>ObjPool\<close> (\<open>conf/ObjectPool.hpp\<close>), \<open>Threads\<close> (\<open>Server/ThreadSemaphore.hpp\<close>,
    \<open>Server/ThreadControl.hpp\<close>, \<open>Server/ThreadTask.hpp\<close>).
  \<^item> \<open>SelectServer\<close> (\<open>Server/ThreadServer.hpp\<close>, \<open>Server/Easyserver.hpp\<close>, \<open>Server/server.cpp\<close>) and
    \<open>SelectClient\<close> (\<open>Client/\<close>): one turn of each loop, and what surrounds the loops.

  \<^bold>\<open>The logging library.\<close>  Both proxy programs set a pattern and log to the terminal.

  \<^item> \<open>Digits\<close> (\<open>fmt/bundled/format.h\<close>): digit counting and integer formatting, against decimal notation.
  \<^item> \<open>FmtParse\<close> and \<open>FmtSpecs\<close> (\<open>fmt/bundled/core.h\<close>): the parser of format strings and of specifications,
    against printed syntax trees.  \<open>FmtUtf8\<close>, \<open>FmtWrite\<close> and \<open>FmtGroup\<close> (\<open>fmt/bundled/format.h\<close>): decoding and
    the width of text, the writers of integers, characters and strings with padding, digit grouping.
    \<open>FmtFormat\<close> and \<open>FmtStrings\<close>: the checks against argument types, \<open>vformat_to\<close>, and its properties
    on whole format strings.
  \<^item> \<open>LogLevels\<close> (\<open>common.h\<close>, \<open>cfg/helpers-inl.h\<close>, \<open>details/registry-inl.h\<close>): levels, the
    configuration string, the registry.
  \<^item> \<open>LogFormat\<close> and \<open>LogPattern\<close> (\<open>pattern_formatter-inl.h\<close>, \<open>details/fmt_helper.h\<close>): padding, flag
    formatters, compilation of patterns, formatting with caches.  \<open>LogSafe\<close>: every compiled pattern is
    safe to format with.
  \<^item> \<open>LogQueue\<close> (\<open>details/circular_q.h\<close>, \<open>details/mpmc_blocking_q.h\<close>, \<open>details/thread_pool-inl.h\<close>,
    \<open>details/backtracer-inl.h\<close>): the bounded queues, by refinement of a list that forgets its oldest element.
  \<^item> \<open>LogSinks\<close> (\<open>logger-inl.h\<close>, \<open>sinks/ansicolor_sink-inl.h\<close>, \<open>sinks/dup_filter_sink.h\<close>): from a log
    call to the characters on the terminal.
  \<^item> \<open>LogFiles\<close> (\<open>details/file_helper-inl.h\<close>, \<open>details/os-inl.h\<close>, \<open>sinks/basic_file_sink-inl.h\<close>): paths, a file
    system whose calls may fail, and the open log file.  \<open>LogRotate\<close> (\<open>sinks/rotating_file_sink-inl.h\<close>): the
    sink that rotates by size, by refinement of a bounded list of files of whole messages.  \<open>LogDaily\<close>
    (\<open>sinks/daily_file_sink.h\<close>, \<open>sinks/hourly_file_sink.h\<close>): the sinks that begin a file per period, and
    which files they keep.

  \<^bold>\<open>How the code is represented.\<close>  Classes are records and their methods functions on them; errors,
  exceptions and undefined behaviour (a null pointer, an access out of bounds, a \<open>memcpy\<close> onto itself) are
  values of \<open>fault\<close>, so an operation that may fail returns \<open>res\<close>.
  Shared objects are named by addresses in a heap that the handlers update.  Descriptors, kernel results
  and the pieces in which bytes arrive are arguments, so that a theorem about all of them holds for every
  behaviour of the network.  Threads are interleavings of atomic steps, each the code between two
  operations on shared state: a thread that waits on a condition variable sleeps until it is notified or wakes
  for no reason, and a worker of the log's thread pool takes a message under the lock and calls its back end in a
  later step.  Words have their width; \<open>size_t\<close> arithmetic is done modulo \<open>2 ^ 64\<close>
  where it can wrap.

  \<^bold>\<open>What is shown.\<close>  For the proxy: messages and relayed bytes arrive complete and in order through every
  layer, the tables keep their invariant in every run (up to null pointers in the free list, one at most for each
  free connection the client closes), sessions open and close as intended in either order, and where
  they do not (simultaneous closing, a race of two threads, an interrupted splice, lengths taken from the
  wire) the theorems give the run that fails.  For the select server: reassembly, balance, time-outs,
  the pool's bookkeeping, the exactness of the semaphore and the progress of the task thread, with the conditions
  under which they fail; reassembly does as soon as more bytes stay in a buffer than are taken out of it.
  For the logging library: optimised routines equal their reference, caches are invisible while the offset from UTC is
  steady, a pool that is shut down handles every message posted before, texts, format strings and configurations are read back as written, formatting always ends, and the
  files on the disk hold the end of the log; a file that cannot be opened again, or a name that comes twice, loses it.

  \<^bold>\<open>Bounds and fuel.\<close>  Loops that end for a structural reason are structural recursions or have a
  measure.  Loops that may not end (\<open>readn\<close>, \<open>WriteToSocket\<close>, the resizing of a buffer, the search for
  an unused identifier, the loop over received messages) take a number of rounds; \<open>None\<close> means that they
  are still running, which their callers turn into \<open>NotReturned\<close>.  The theorems that such an operation
  returns give a number of rounds that suffices: one more than the bytes to be written, or the number of
  answers of the kernel, or of messages.  \<open>foreach_pop\<close> takes its rounds from the size of the queue,
  and is shown to end by then.  The
  scanning loops of format strings and the loops over digit groups have no bound of their own and are
  \<open>partial_function\<close>s into options; \<open>formatting_terminates\<close> shows that they always give a result.

  \<^bold>\<open>Not modelled.\<close>  The kernel, the scheduler's fairness and time; the set-up of sockets beyond its
  result; the unused \<open>conf/objpol.hpp\<close>, which does not compile; \<open>conf/TimeStamp.hpp\<close>, a clock.  Of the
  logging library: floating-point, 128-bit and user-defined arguments of \<open>fmt\<close>, its compile-time checks and its
  headers for times, ranges, colours and \<open>printf\<close>; the sinks for networks, system logs and other libraries,
  the asynchronous front end around the modelled queue, the periodic flusher, the handlers of file events,
  builds for Windows, and the conversion of times to calendar fields, which is the system's.  The
  exceptions of user-defined flags end a model's run instead of being caught.
\<close>

end
